(* ===== verification/LC_Prelude.thy ===== *)
theory LC_Prelude
  imports Main "HOL-Library.Word" "HOL-Library.Multiset"
begin

text \<open>
  Shared vocabulary of the development: the C integer types as words, the abnormal exits of
  the library as values, the collections of simplification rules the components share, and
  the generic facts about words, lists and circular buffers they rest on.
\<close>

unbundle bit_operations_syntax

section \<open>Types\<close>

type_synonym u8 = "8 word"
type_synonym u16 = "16 word"
type_synonym u32 = "32 word"
type_synonym u64 = "64 word"

text \<open>Pointers and \<open>uintptr_t\<close> values are 64-bit addresses; \<open>NULL\<close> is address 0.\<close>

type_synonym addr = "64 word"

abbreviation NULL :: addr where "NULL \<equiv> 0"

text \<open>
  What the C code does instead of returning: the calls of \<open>exit(EXIT_FAILURE)\<close>, failed
  assertions, and the accesses whose behaviour C leaves undefined.
\<close>

datatype lc_abort =
    Pool_overflow        \<comment> \<open>the ring of a dequeue or a completion queue is full\<close>
  | Too_many_pools       \<comment> \<open>\<open>lc_pool_create\<close> ran out of keys\<close>
  | Out_of_bounds        \<comment> \<open>an array access outside its declared bounds\<close>
  | Null_deref           \<comment> \<open>an access through \<open>NULL\<close> or an uninitialised pointer\<close>
  | Uninitialised        \<comment> \<open>a read of a field that was never written, or of the other union member\<close>
  | Assert_failed
  | Exit_failure         \<comment> \<open>any other call of \<open>exit(EXIT_FAILURE)\<close>\<close>
  | Blocks               \<comment> \<open>a system call waits for something that never comes\<close>
  | Out_of_fuel          \<comment> \<open>a loop did not finish within the iterations given to it\<close>

type_synonym 'a res = "lc_abort + 'a"

fun bind_res :: "'a res \<Rightarrow> ('a \<Rightarrow> 'b res) \<Rightarrow> 'b res" where
  "bind_res (Inl e) f = Inl e"
| "bind_res (Inr x) f = f x"

section \<open>Collections of rules\<close>

named_theorems ring_simps \<open>index arithmetic of circular buffers\<close>
named_theorems lc_simps \<open>field updates and look-ups of the components\<close>

lemma bind_res_Inr_iff [simp]:
  "bind_res m f = Inr y \<longleftrightarrow> (\<exists>x. m = Inr x \<and> f x = Inr y)"
  by (cases m) auto

lemma bind_res_Inl_iff [simp]:
  "bind_res m f = Inl e \<longleftrightarrow> m = Inl e \<or> (\<exists>x. m = Inr x \<and> f x = Inl e)"
  by (cases m) auto

section \<open>Words\<close>

lemma unat_and_mask:
  fixes x :: "'a::len word"
  shows "unat (x AND mask k) = unat x mod 2 ^ k"
  by (simp flip: take_bit_eq_mask take_bit_eq_mod add: unsigned_take_bit_eq)

lemma quot_rem_unique:
  fixes a q r q' r' :: nat
  assumes "r < a" "r' < a"
  shows "a * q + r = a * q' + r' \<longleftrightarrow> q = q' \<and> r = r'"
proof
  assume e: "a * q + r = a * q' + r'"
  have "(a * q + r) div a = q" "(a * q' + r') div a = q'" using assms by simp_all
  then have "q = q'" using e by simp
  then show "q = q' \<and> r = r'" using e by simp
qed simp

lemma unat_ucast_up:
  fixes x :: "'a::len word"
  assumes "LENGTH('a) \<le> LENGTH('b::len)"
  shows "unat (ucast x :: 'b word) = unat x"
proof -
  have "unat x < 2 ^ LENGTH('a)" by (rule unsigned_less)
  also have "\<dots> \<le> 2 ^ LENGTH('b)" using assms by (rule power_increasing) simp
  finally show ?thesis by (simp add: unsigned_ucast_eq take_bit_nat_eq_self_iff)
qed

lemma unat_ucast_u32_u64 [simp]: "unat (ucast (x :: u32) :: u64) = unat x"
  by (rule unat_ucast_up) simp

lemma unat_and_4095: "unat (x AND 4095 :: u64) = unat x mod 4096"
  using unat_and_mask [of x 12] by (simp add: mask_eq_exp_minus_1)

lemma unat_and_2047: "unat (x AND 2047 :: u64) = unat x mod 2048"
  using unat_and_mask [of x 11] by (simp add: mask_eq_exp_minus_1)

lemma unat_inc_mod:
  fixes x :: u64
  assumes "k \<le> 64"
  shows "unat (x + 1) mod 2 ^ k = (unat x + 1) mod 2 ^ k"
proof -
  have "(2::nat) ^ k dvd 2 ^ 64" using assms by (rule le_imp_power_dvd)
  then show ?thesis by (simp add: unat_word_ariths mod_mod_cancel)
qed

lemma unat_add_mod:
  fixes x y :: u64
  assumes "k \<le> 64"
  shows "unat (x + y) mod 2 ^ k = (unat x + unat y) mod 2 ^ k"
proof -
  have "(2::nat) ^ k dvd 2 ^ 64" using assms by (rule le_imp_power_dvd)
  then show ?thesis by (simp add: unat_word_ariths mod_mod_cancel)
qed

section \<open>Circular buffers\<close>

text \<open>
  A ring of \<open>n\<close> slots with the indices \<open>tp\<close> (next free slot) and \<open>bt\<close> (oldest element).
  It is empty when the indices agree, so it never holds more than \<open>n - 1\<close> elements.
\<close>

definition ring_len :: "nat \<Rightarrow> nat \<Rightarrow> nat \<Rightarrow> nat" where
  "ring_len n tp bt = (tp + n - bt) mod n"

definition ring_list :: "nat \<Rightarrow> 'a list \<Rightarrow> nat \<Rightarrow> nat \<Rightarrow> 'a list" where
  "ring_list n buf tp bt = map (\<lambda>i. buf ! ((bt + i) mod n)) [0..<ring_len n tp bt]"

lemma mod_wrap:
  fixes m n :: nat
  assumes "m < n + n"
  shows "m mod n = (if m < n then m else m - n)"
  using assms by (simp add: mod_if)

lemma length_ring_list [simp]: "length (ring_list n buf tp bt) = ring_len n tp bt"
  by (simp add: ring_list_def)

lemma ring_len_cases:
  assumes "tp < n" "bt < n"
  shows "ring_len n tp bt = (if bt \<le> tp then tp - bt else tp + n - bt)"
  using assms by (auto simp: ring_len_def mod_if)

lemma ring_len_less: "0 < n \<Longrightarrow> ring_len n tp bt < n"
  by (simp add: ring_len_def)

lemma ring_len_0_iff:
  assumes "tp < n" "bt < n"
  shows "ring_len n tp bt = 0 \<longleftrightarrow> tp = bt"
  using assms by (auto simp: ring_len_cases)

lemma ring_list_empty_iff:
  assumes "tp < n" "bt < n"
  shows "ring_list n buf tp bt = [] \<longleftrightarrow> tp = bt"
  using ring_len_0_iff [OF assms] by (simp add: ring_list_def)

lemma ring_full_iff:
  assumes "tp < n" "bt < n"
  shows "Suc tp mod n = bt \<longleftrightarrow> ring_len n tp bt = n - 1"
  using assms by (auto simp: ring_len_cases mod_if)

lemma ring_len_push:
  assumes "tp < n" "bt < n" "Suc tp mod n \<noteq> bt"
  shows "ring_len n (Suc tp mod n) bt = Suc (ring_len n tp bt)"
proof -
  have "Suc tp mod n < n" using assms by simp
  then show ?thesis using assms by (auto simp: ring_len_cases mod_if split: if_splits)
qed

lemma ring_len_pop_bot:
  assumes "tp < n" "bt < n" "tp \<noteq> bt"
  shows "ring_len n tp bt = Suc (ring_len n tp (Suc bt mod n))"
proof -
  have "Suc bt mod n < n" using assms by simp
  then show ?thesis using assms by (auto simp: ring_len_cases mod_if split: if_splits)
qed

lemma ring_len_pop_top:
  assumes "tp < n" "bt < n" "tp \<noteq> bt"
  shows "ring_len n tp bt = Suc (ring_len n ((tp + n - 1) mod n) bt)"
proof -
  have "(tp + n - 1) mod n < n" using assms by simp
  then show ?thesis using assms by (auto simp: ring_len_cases mod_if split: if_splits)
qed

lemma ring_index_last:
  assumes "tp < n" "bt < n"
  shows "(bt + ring_len n tp bt) mod n = tp"
  using assms by (auto simp: ring_len_cases mod_if)

lemma ring_index_neq_top:
  assumes "tp < n" "bt < n" "i < ring_len n tp bt"
  shows "(bt + i) mod n \<noteq> tp"
proof -
  have "i < n" using assms by (simp add: ring_len_cases split: if_splits)
  then have "(bt + i) mod n = (if bt + i < n then bt + i else bt + i - n)"
    using assms by (intro mod_wrap) simp
  then show ?thesis using assms by (simp add: ring_len_cases split: if_splits)
qed

lemma ring_list_push:
  assumes "tp < n" "bt < n" "length buf = n" "Suc tp mod n \<noteq> bt"
  shows "ring_list n (buf[tp := x]) (Suc tp mod n) bt = ring_list n buf tp bt @ [x]"
proof (rule nth_equalityI)
  show "length (ring_list n (buf[tp := x]) (Suc tp mod n) bt)
      = length (ring_list n buf tp bt @ [x])"
    using assms by (simp add: ring_len_push)
next
  fix i assume "i < length (ring_list n (buf[tp := x]) (Suc tp mod n) bt)"
  then have i: "i < Suc (ring_len n tp bt)" using assms by (simp add: ring_len_push)
  have "ring_list n (buf[tp := x]) (Suc tp mod n) bt ! i = buf[tp := x] ! ((bt + i) mod n)"
    using i assms by (simp add: ring_list_def ring_len_push del: upt_Suc)
  also have "\<dots> = (ring_list n buf tp bt @ [x]) ! i"
  proof (cases "i = ring_len n tp bt")
    case True
    then show ?thesis using assms by (simp add: ring_index_last nth_append)
  next
    case False
    then have "i < ring_len n tp bt" using i by simp
    then show ?thesis
      using assms ring_index_neq_top [of tp n bt i] by (simp add: ring_list_def nth_append)
  qed
  finally show "ring_list n (buf[tp := x]) (Suc tp mod n) bt ! i
      = (ring_list n buf tp bt @ [x]) ! i" .
qed

lemma ring_list_pop_bot:
  assumes "tp < n" "bt < n" "tp \<noteq> bt"
  shows "ring_list n buf tp bt = buf ! bt # ring_list n buf tp (Suc bt mod n)"
proof (rule nth_equalityI)
  show "length (ring_list n buf tp bt)
      = length (buf ! bt # ring_list n buf tp (Suc bt mod n))"
    using ring_len_pop_bot [OF assms] by simp
next
  fix i assume "i < length (ring_list n buf tp bt)"
  then have i: "i < Suc (ring_len n tp (Suc bt mod n))"
    using ring_len_pop_bot [OF assms] by simp
  show "ring_list n buf tp bt ! i = (buf ! bt # ring_list n buf tp (Suc bt mod n)) ! i"
  proof (cases i)
    case 0
    then show ?thesis using assms ring_len_pop_bot [OF assms]
      by (simp add: ring_list_def del: upt_Suc)
  next
    case (Suc j)
    have "((Suc bt mod n) + j) mod n = (bt + Suc j) mod n"
      by (simp add: mod_add_left_eq)
    then show ?thesis using i Suc ring_len_pop_bot [OF assms]
      by (simp add: ring_list_def del: upt_Suc)
  qed
qed

lemma ring_list_pop_top:
  assumes "tp < n" "bt < n" "tp \<noteq> bt"
  shows "ring_list n buf tp bt
       = ring_list n buf ((tp + n - 1) mod n) bt @ [buf ! ((tp + n - 1) mod n)]"
proof -
  have t: "(tp + n - 1) mod n < n" using assms by simp
  show ?thesis
    using ring_len_pop_top [OF assms] ring_index_last [OF t assms(2)]
    by (simp add: ring_list_def)
qed

section \<open>Queues with a bounded number of elements\<close>

text \<open>
  The contract of a bounded queue with an explicit overflow exit: \<open>push\<close> appends at the end
  of the abstract list, or exits when the list is at its capacity; \<open>pop\<close> takes the first
  element. \<open>LC_Cq\<close> interprets it on the completion queue and \<open>LC_Dequeue\<close> on the
  dequeue's \<open>push_top\<close>/\<open>pop_bot\<close> pair.
\<close>

fun push_all :: "('q \<Rightarrow> 'a \<Rightarrow> 'q res) \<Rightarrow> 'q \<Rightarrow> 'a list \<Rightarrow> 'q res" where
  "push_all push q [] = Inr q"
| "push_all push q (x # xs) = bind_res (push q x) (\<lambda>q'. push_all push q' xs)"

fun pop_times :: "('q \<Rightarrow> 'a \<times> 'q) \<Rightarrow> nat \<Rightarrow> 'q \<Rightarrow> 'a list \<times> 'q" where
  "pop_times pop 0 q = ([], q)"
| "pop_times pop (Suc n) q =
     (let (x, q') = pop q; (xs, q'') = pop_times pop n q' in (x # xs, q''))"

text \<open>A run of pushes and pops, and the same run on a list bounded by \<open>cap\<close>.\<close>

datatype queue_op = Push addr | Pop

fun run_queue :: "('q \<Rightarrow> addr \<Rightarrow> 'q res) \<Rightarrow> ('q \<Rightarrow> addr \<times> 'q) \<Rightarrow> queue_op list \<Rightarrow> 'q
    \<Rightarrow> (addr list \<times> 'q) res" where
  "run_queue push pop [] q = Inr ([], q)"
| "run_queue push pop (Push x # ops) q = bind_res (push q x) (run_queue push pop ops)"
| "run_queue push pop (Pop # ops) q =
     (let (x, q') = pop q
      in bind_res (run_queue push pop ops q') (\<lambda>(out, q''). Inr (x # out, q'')))"

fun spec_push :: "nat \<Rightarrow> addr list \<Rightarrow> addr \<Rightarrow> addr list res" where
  "spec_push cap l x = (if length l < cap then Inr (l @ [x]) else Inl Pool_overflow)"

fun spec_pop :: "addr list \<Rightarrow> addr \<times> addr list" where
  "spec_pop [] = (NULL, [])"
| "spec_pop (y # ys) = (y, ys)"

definition abs_run :: "('q \<Rightarrow> 'a) \<Rightarrow> ('o \<times> 'q) res \<Rightarrow> ('o \<times> 'a) res" where
  "abs_run f r = bind_res r (\<lambda>(out, q). Inr (out, f q))"

lemma abs_run_simps [simp]:
  "abs_run f (Inr (out, q)) = Inr (out, f q)" "abs_run f (Inl e) = Inl e"
  by (simp_all add: abs_run_def)

lemma abs_run_cons:
  "abs_run f (bind_res r (\<lambda>(out, q). Inr (x # out, q)))
     = bind_res (abs_run f r) (\<lambda>(out, q). Inr (x # out, q))"
  by (cases r) auto

abbreviation run_list :: "nat \<Rightarrow> queue_op list \<Rightarrow> addr list \<Rightarrow> (addr list \<times> addr list) res" where
  "run_list cap \<equiv> run_queue (spec_push cap) spec_pop"

locale bounded_fifo =
  fixes push :: "'q \<Rightarrow> addr \<Rightarrow> 'q res"
    and pop :: "'q \<Rightarrow> addr \<times> 'q"
    and contents :: "'q \<Rightarrow> addr list"
    and invar :: "'q \<Rightarrow> bool"
    and cap :: nat
  assumes push_ok: "invar q \<Longrightarrow> length (contents q) < cap \<Longrightarrow>
      \<exists>q'. push q x = Inr q' \<and> invar q' \<and> contents q' = contents q @ [x]"
    and push_full: "invar q \<Longrightarrow> length (contents q) = cap \<Longrightarrow> push q x = Inl Pool_overflow"
    and pop_cons: "invar q \<Longrightarrow> contents q = y # ys \<Longrightarrow>
      \<exists>q'. pop q = (y, q') \<and> invar q' \<and> contents q' = ys"
    and pop_nil: "invar q \<Longrightarrow> contents q = [] \<Longrightarrow> pop q = (NULL, q)"
    and invar_cap: "invar q \<Longrightarrow> length (contents q) \<le> cap"
begin

lemma push_all_ok:
  "invar q \<Longrightarrow> length (contents q) + length xs \<le> cap \<Longrightarrow>
    \<exists>q'. push_all push q xs = Inr q' \<and> invar q' \<and> contents q' = contents q @ xs"
proof (induction xs arbitrary: q)
  case Nil
  then show ?case by simp
next
  case (Cons x xs)
  then obtain q' where q': "push q x = Inr q'" "invar q'" "contents q' = contents q @ [x]"
    using push_ok [of q x] by auto
  with Cons.prems Cons.IH [of q'] show ?case by auto
qed

lemma push_all_overflow:
  "invar q \<Longrightarrow> cap < length (contents q) + length xs \<Longrightarrow>
    push_all push q xs = Inl Pool_overflow"
proof (induction xs arbitrary: q)
  case Nil
  then show ?case using invar_cap [of q] by simp
next
  case (Cons x xs)
  show ?case
  proof (cases "length (contents q) = cap")
    case True
    then show ?thesis using Cons.prems push_full by simp
  next
    case False
    then have "length (contents q) < cap" using Cons.prems invar_cap [of q] by simp
    then obtain q' where q': "push q x = Inr q'" "invar q'" "contents q' = contents q @ [x]"
      using push_ok [of q x] Cons.prems by auto
    then show ?thesis using Cons.prems Cons.IH [of q'] by simp
  qed
qed

lemma pop_times_prefix:
  "invar q \<Longrightarrow> n \<le> length (contents q) \<Longrightarrow>
    \<exists>q'. pop_times pop n q = (take n (contents q), q') \<and> invar q'
      \<and> contents q' = drop n (contents q)"
proof (induction n arbitrary: q)
  case 0
  then show ?case by simp
next
  case (Suc n)
  then obtain y ys where c: "contents q = y # ys" by (cases "contents q") auto
  then obtain q' where q': "pop q = (y, q')" "invar q'" "contents q' = ys"
    using pop_cons Suc.prems by blast
  with Suc.IH [of q'] Suc.prems c show ?case by auto
qed

lemma fifo_order:
  assumes "invar q" "contents q = []" "length xs \<le> cap"
  shows "\<exists>q'. push_all push q xs = Inr q' \<and> fst (pop_times pop (length xs) q') = xs"
proof -
  obtain q' where q': "push_all push q xs = Inr q'" "invar q'" "contents q' = xs"
    using push_all_ok [OF assms(1), of xs] assms by auto
  then show ?thesis using pop_times_prefix [of q' "length xs"] by auto
qed

text \<open>Every run gives the answers, the contents and the overflow of the run on the list.\<close>

lemma run_refines:
  "invar q \<Longrightarrow> abs_run contents (run_queue push pop ops q) = run_list cap ops (contents q)"
proof (induction ops arbitrary: q)
  case Nil
  then show ?case by simp
next
  case (Cons op ops)
  show ?case
  proof (cases op)
    case (Push x)
    show ?thesis
    proof (cases "length (contents q) < cap")
      case True
      then obtain q' where "push q x = Inr q'" "invar q'" "contents q' = contents q @ [x]"
        using push_ok [of q x] Cons.prems by auto
      then show ?thesis using Cons.IH [of q'] Push True by simp
    next
      case False
      then have "length (contents q) = cap" using invar_cap [OF Cons.prems] by simp
      then show ?thesis using push_full [OF Cons.prems] Push by simp
    qed
  next
    case Pop
    have "\<exists>q'. pop q = (fst (spec_pop (contents q)), q') \<and> invar q' \<and> contents q' = snd (spec_pop (contents q))"
      using pop_cons [OF Cons.prems] pop_nil [OF Cons.prems] Cons.prems by (cases "contents q") auto
    then obtain q' where q': "pop q = (fst (spec_pop (contents q)), q')" "invar q'"
        "contents q' = snd (spec_pop (contents q))" by blast
    then show ?thesis using Cons.IH [OF q'(2)] Pop
      by (simp add: abs_run_cons case_prod_beta del: spec_push.simps)
  qed
qed

end

end
