(* ===== verification/LC_Dequeue.thy ===== *)
theory LC_Dequeue
  imports LC_Prelude
begin

text \<open>
  The dequeue of \<open>include/lc/dequeue.h\<close>: a circular buffer of \<open>MAX_SIZE\<close> pointers that
  the packet pool keeps per core. The owner pushes and pops at the top, thieves pop at the
  bottom. Every operation runs between \<open>lc_spin_lock\<close> and \<open>lc_spin_unlock\<close> of the
  dequeue's own lock (theory \<open>LC_Lock\<close> proves the lock exclusive), so it is modelled as one
  state transformation that leaves the lock free.
\<close>

section \<open>Model\<close>

definition MAX_SIZE :: u64 where
  "MAX_SIZE = push_bit 12 1"

definition LC_SPIN_UNLOCKED :: u32 where
  "LC_SPIN_UNLOCKED = 0"

record dequeue =
  dq_cache :: addr
  dq_top :: u64
  dq_bot :: u64
  dq_spinlock :: u32
  dq_container :: "addr list"

definition dq_init :: dequeue where
  "dq_init = \<lparr>dq_cache = NULL, dq_top = 0, dq_bot = 0, dq_spinlock = LC_SPIN_UNLOCKED,
     dq_container = replicate (unat MAX_SIZE) NULL\<rparr>"

definition dq_pop_top :: "dequeue \<Rightarrow> addr \<times> dequeue" where
  "dq_pop_top deq =
     (if dq_top deq \<noteq> dq_bot deq
      then let tp = (dq_top deq + MAX_SIZE - 1) AND (MAX_SIZE - 1)
           in (dq_container deq ! unat tp,
               deq\<lparr>dq_top := tp, dq_spinlock := LC_SPIN_UNLOCKED\<rparr>)
      else (NULL, deq\<lparr>dq_spinlock := LC_SPIN_UNLOCKED\<rparr>))"

definition dq_push_top :: "dequeue \<Rightarrow> addr \<Rightarrow> dequeue res" where
  "dq_push_top deq p =
     (let cont = (dq_container deq)[unat (dq_top deq) := p];
          tp = (dq_top deq + 1) AND (MAX_SIZE - 1)
      in if tp = dq_bot deq then Inl Pool_overflow
         else Inr (deq\<lparr>dq_container := cont, dq_top := tp,
                       dq_spinlock := LC_SPIN_UNLOCKED\<rparr>))"

definition dq_pop_bot :: "dequeue \<Rightarrow> addr \<times> dequeue" where
  "dq_pop_bot deq =
     (if dq_top deq \<noteq> dq_bot deq
      then (dq_container deq ! unat (dq_bot deq),
            deq\<lparr>dq_bot := (dq_bot deq + 1) AND (MAX_SIZE - 1),
                dq_spinlock := LC_SPIN_UNLOCKED\<rparr>)
      else (NULL, deq\<lparr>dq_spinlock := LC_SPIN_UNLOCKED\<rparr>))"

section \<open>Invariant and abstraction\<close>

definition dq_inv :: "dequeue \<Rightarrow> bool" where
  "dq_inv deq \<longleftrightarrow> unat (dq_top deq) < 4096 \<and> unat (dq_bot deq) < 4096
     \<and> length (dq_container deq) = 4096 \<and> dq_spinlock deq = LC_SPIN_UNLOCKED"

definition dq_list :: "dequeue \<Rightarrow> addr list" where
  "dq_list deq = ring_list 4096 (dq_container deq) (unat (dq_top deq)) (unat (dq_bot deq))"

lemma MAX_SIZE_simps: "MAX_SIZE = 4096"
  by (simp add: MAX_SIZE_def)

lemma unat_dq_succ: "unat ((x + 1) AND (MAX_SIZE - 1)) = Suc (unat x) mod 4096"
  using unat_inc_mod [of 12 x] by (simp add: MAX_SIZE_simps unat_and_4095)

lemma unat_dq_pred: "unat ((x + MAX_SIZE - 1) AND (MAX_SIZE - 1)) = (unat x + 4096 - 1) mod 4096"
proof -
  have "unat (4095 + x) mod 2 ^ 12 = (unat (4095 :: u64) + unat x) mod 2 ^ 12"
    by (rule unat_add_mod) simp
  then show ?thesis
    by (simp add: MAX_SIZE_simps unat_and_4095)
qed

lemmas unat_dq_index = unat_dq_succ unat_dq_pred

lemma dq_init_ok [simp]: "dq_inv dq_init" "dq_list dq_init = []"
  by (simp_all add: dq_init_def dq_inv_def dq_list_def MAX_SIZE_simps ring_list_def ring_len_def)

lemma dq_list_length: "dq_inv deq \<Longrightarrow> length (dq_list deq) \<le> 4095"
  using ring_len_less [of 4096 "unat (dq_top deq)" "unat (dq_bot deq)"]
  by (simp only: dq_list_def length_ring_list) simp

lemma dq_empty_iff: "dq_inv deq \<Longrightarrow> dq_top deq = dq_bot deq \<longleftrightarrow> dq_list deq = []"
  by (simp add: dq_list_def dq_inv_def ring_list_empty_iff word_unat_eq_iff)

lemma dq_push_top_full_iff:
  assumes "dq_inv deq"
  shows "(dq_top deq + 1) AND (MAX_SIZE - 1) = dq_bot deq \<longleftrightarrow> length (dq_list deq) = 4095"
  using assms ring_full_iff [of "unat (dq_top deq)" 4096 "unat (dq_bot deq)"]
  by (simp add: dq_inv_def dq_list_def word_unat_eq_iff unat_dq_index)

lemma dq_push_top_full:
  "dq_inv deq \<Longrightarrow> length (dq_list deq) = 4095 \<Longrightarrow> dq_push_top deq p = Inl Pool_overflow"
  using dq_push_top_full_iff [of deq] by (simp add: dq_push_top_def Let_def)

lemma dq_push_top_ok:
  assumes inv: "dq_inv deq" and room: "length (dq_list deq) < 4095"
  shows "\<exists>deq'. dq_push_top deq p = Inr deq' \<and> dq_inv deq' \<and> dq_list deq' = dq_list deq @ [p]"
proof -
  let ?t = "(dq_top deq + 1) AND (MAX_SIZE - 1)"
  have ne: "?t \<noteq> dq_bot deq" using dq_push_top_full_iff [OF inv] room by simp
  then have "Suc (unat (dq_top deq)) mod 4096 \<noteq> unat (dq_bot deq)"
    by (simp add: word_unat_eq_iff unat_dq_index)
  then show ?thesis
    using inv ne ring_list_push [of "unat (dq_top deq)" 4096 "unat (dq_bot deq)" "dq_container deq" p]
    by (simp add: dq_push_top_def Let_def dq_inv_def dq_list_def unat_dq_index)
qed

lemma dq_pop_bot_nil: "dq_inv deq \<Longrightarrow> dq_list deq = [] \<Longrightarrow> dq_pop_bot deq = (NULL, deq)"
  by (simp add: dq_pop_bot_def dq_empty_iff [symmetric]) (simp add: dq_inv_def)

lemma dq_pop_bot_cons:
  assumes inv: "dq_inv deq" and l: "dq_list deq = y # ys"
  shows "\<exists>deq'. dq_pop_bot deq = (y, deq') \<and> dq_inv deq' \<and> dq_list deq' = ys"
proof -
  have ne: "dq_top deq \<noteq> dq_bot deq" using dq_empty_iff [OF inv] l by simp
  then have "unat (dq_top deq) \<noteq> unat (dq_bot deq)" by (simp add: word_unat_eq_iff)
  then show ?thesis
    using inv ne l ring_list_pop_bot [of "unat (dq_top deq)" 4096 "unat (dq_bot deq)" "dq_container deq"]
    by (simp add: dq_pop_bot_def dq_inv_def dq_list_def unat_dq_index)
qed

lemma dq_pop_top_nil: "dq_inv deq \<Longrightarrow> dq_list deq = [] \<Longrightarrow> dq_pop_top deq = (NULL, deq)"
  by (simp add: dq_pop_top_def dq_empty_iff [symmetric]) (simp add: dq_inv_def)

lemma dq_pop_top_snoc:
  assumes inv: "dq_inv deq" and l: "dq_list deq = ys @ [y]"
  shows "\<exists>deq'. dq_pop_top deq = (y, deq') \<and> dq_inv deq' \<and> dq_list deq' = ys"
proof -
  have ne: "dq_top deq \<noteq> dq_bot deq" using dq_empty_iff [OF inv] l by simp
  then have "unat (dq_top deq) \<noteq> unat (dq_bot deq)" by (simp add: word_unat_eq_iff)
  then show ?thesis
    using inv ne l ring_list_pop_top [of "unat (dq_top deq)" 4096 "unat (dq_bot deq)" "dq_container deq"]
    by (simp add: dq_pop_top_def Let_def dq_inv_def dq_list_def unat_dq_index)
qed

text \<open>Seen from the bottom, the dequeue is a bounded queue.\<close>

interpretation dq_fifo: bounded_fifo dq_push_top dq_pop_bot dq_list dq_inv 4095
  by unfold_locales
    (simp_all add: dq_push_top_ok dq_push_top_full dq_pop_bot_cons dq_pop_bot_nil dq_list_length)

section \<open>Properties\<close>

text \<open>
  Seen from the top, the dequeue is a stack: a push that does not overflow, followed by a
  pop at the top, returns the pushed pointer and the contents from before the push.
\<close>

theorem dq_push_pop_top:
  assumes "dq_inv deq" "length (dq_list deq) < 4095"
  shows "\<exists>deq' deq''. dq_push_top deq p = Inr deq' \<and> dq_pop_top deq' = (p, deq'')
      \<and> dq_inv deq'' \<and> dq_list deq'' = dq_list deq"
proof -
  obtain deq' where d: "dq_push_top deq p = Inr deq'" "dq_inv deq'" "dq_list deq' = dq_list deq @ [p]"
    using dq_push_top_ok [OF assms] by blast
  then show ?thesis using dq_pop_top_snoc [of deq' "dq_list deq" p] by blast
qed

theorem dq_push_pop_top_witness:
  "\<exists>deq' deq''. dq_push_top dq_init 64 = Inr deq' \<and> dq_pop_top deq' = (64, deq'')
     \<and> dq_inv deq'' \<and> dq_list deq'' = []"
  using dq_push_pop_top [of dq_init 64] by simp

end
