(* ===== verification/LC_Lock.thy ===== *)
theory LC_Lock
  imports LC_Dequeue
begin

text \<open>
  The spin lock of \<open>include/lc/lock.h\<close> as an interleaving of its atomic instructions by any
  number of threads. A critical section is a sequence of small steps on the protected data;
  the theorems say that the lock is exclusive, that a waiting thread can always get a free
  lock, and that the interleaving has the effect of running whole critical sections one after
  the other, in the order in which the lock is released.
\<close>

section \<open>Model\<close>

text \<open>
  Where a thread is: outside; before the \<open>__sync_lock_test_and_set\<close> (\<open>Tas\<close>); reading the
  flag in the inner loop (\<open>Spin\<close>); before the \<open>__sync_val_compare_and_swap\<close> (\<open>Cas\<close>); or
  inside, with the number of small steps already done (\<open>Crit\<close>). The call whose critical
  section it will run is part of the position.
\<close>

datatype 'c pc = Out | Tas 'c | Spin 'c | Cas 'c | Crit 'c nat

record ('c, 'd) lock_sys =
  flag :: u32
  pcs :: "nat \<Rightarrow> 'c pc"
  shared :: 'd
  released :: "'c list"  \<comment> \<open>ghost: the calls completed so far, oldest first\<close>

definition lock_init :: "'d \<Rightarrow> ('c, 'd) lock_sys" where
  "lock_init d = \<lparr>flag = LC_SPIN_UNLOCKED, pcs = (\<lambda>_. Out), shared = d, released = []\<rparr>"

definition set_pc :: "nat \<Rightarrow> 'c pc \<Rightarrow> ('c, 'd) lock_sys \<Rightarrow> ('c, 'd) lock_sys" where
  "set_pc i l s = s\<lparr>pcs := (pcs s)(i := l)\<rparr>"

inductive lc_spin_step ::
    "('c \<Rightarrow> ('d \<Rightarrow> 'd) list) \<Rightarrow> ('c, 'd) lock_sys \<Rightarrow> ('c, 'd) lock_sys \<Rightarrow> bool"
  for code :: "'c \<Rightarrow> ('d \<Rightarrow> 'd) list" where
  call: "pcs s i = Out \<Longrightarrow> lc_spin_step code s (set_pc i (Tas c) s)"
| tas_free: "pcs s i = Tas c \<Longrightarrow> flag s = 0 \<Longrightarrow>
     lc_spin_step code s (set_pc i (Crit c 0) (s\<lparr>flag := 1\<rparr>))"
| tas_busy: "pcs s i = Tas c \<Longrightarrow> flag s \<noteq> 0 \<Longrightarrow>
     lc_spin_step code s (set_pc i (Spin c) (s\<lparr>flag := 1\<rparr>))"
| spin_busy: "pcs s i = Spin c \<Longrightarrow> flag s \<noteq> 0 \<Longrightarrow> lc_spin_step code s s"
| spin_free: "pcs s i = Spin c \<Longrightarrow> flag s = 0 \<Longrightarrow> lc_spin_step code s (set_pc i (Cas c) s)"
| cas_free: "pcs s i = Cas c \<Longrightarrow> flag s = 0 \<Longrightarrow>
     lc_spin_step code s (set_pc i (Crit c 0) (s\<lparr>flag := 1\<rparr>))"
| cas_busy: "pcs s i = Cas c \<Longrightarrow> flag s \<noteq> 0 \<Longrightarrow> lc_spin_step code s (set_pc i (Spin c) s)"
| work: "pcs s i = Crit c k \<Longrightarrow> k < length (code c) \<Longrightarrow>
     lc_spin_step code s (set_pc i (Crit c (Suc k)) (s\<lparr>shared := (code c ! k) (shared s)\<rparr>))"
| lc_spin_unlock: "pcs s i = Crit c (length (code c)) \<Longrightarrow>
     lc_spin_step code s
       (set_pc i Out (s\<lparr>flag := LC_SPIN_UNLOCKED, released := released s @ [c]\<rparr>))"

inductive lock_reachable ::
    "('c \<Rightarrow> ('d \<Rightarrow> 'd) list) \<Rightarrow> 'd \<Rightarrow> ('c, 'd) lock_sys \<Rightarrow> bool"
  for code :: "'c \<Rightarrow> ('d \<Rightarrow> 'd) list" and d :: 'd where
  start: "lock_reachable code d (lock_init d)"
| step: "lock_reachable code d s \<Longrightarrow> lc_spin_step code s t \<Longrightarrow> lock_reachable code d t"

definition in_crit :: "('c, 'd) lock_sys \<Rightarrow> nat \<Rightarrow> bool" where
  "in_crit s i \<longleftrightarrow> (\<exists>c k. pcs s i = Crit c k)"

definition is_waiting :: "('c, 'd) lock_sys \<Rightarrow> nat \<Rightarrow> bool" where
  "is_waiting s i \<longleftrightarrow> (\<exists>c. pcs s i \<in> {Tas c, Spin c, Cas c})"

section \<open>Exclusion\<close>

text \<open>
  The flag is set exactly while some thread is inside, only one thread is, and it has done
  no more steps than its critical section has.
\<close>

definition lock_inv :: "('c \<Rightarrow> ('d \<Rightarrow> 'd) list) \<Rightarrow> ('c, 'd) lock_sys \<Rightarrow> bool" where
  "lock_inv code s \<longleftrightarrow>
     (if flag s = 0 then \<forall>i. \<not> in_crit s i else \<exists>h. \<forall>i. in_crit s i \<longleftrightarrow> i = h)
     \<and> (\<forall>i c k. pcs s i = Crit c k \<longrightarrow> k \<le> length (code c))"

lemma set_pc_simps [simp]:
  "flag (set_pc i l s) = flag s" "shared (set_pc i l s) = shared s"
  "released (set_pc i l s) = released s" "pcs (set_pc i l s) = (pcs s)(i := l)"
  by (simp_all add: set_pc_def)

lemma in_crit_simps [simp]:
  "in_crit (set_pc i l s) j \<longleftrightarrow> (if j = i then (\<exists>c k. l = Crit c k) else in_crit s j)"
  "in_crit (s\<lparr>flag := f\<rparr>) j \<longleftrightarrow> in_crit s j"
  "in_crit (s\<lparr>shared := d\<rparr>) j \<longleftrightarrow> in_crit s j"
  "in_crit (s\<lparr>released := r\<rparr>) j \<longleftrightarrow> in_crit s j"
  by (simp_all add: in_crit_def)

lemma pcs_in_crit:
  "pcs s i = Out \<Longrightarrow> \<not> in_crit s i" "pcs s i = Tas c \<Longrightarrow> \<not> in_crit s i"
  "pcs s i = Spin c \<Longrightarrow> \<not> in_crit s i" "pcs s i = Cas c \<Longrightarrow> \<not> in_crit s i"
  "pcs s i = Crit c k \<Longrightarrow> in_crit s i"
  by (simp_all add: in_crit_def)

lemma lock_inv_holder:
  assumes "lock_inv code s" "pcs s i = Crit c k"
  shows "flag s \<noteq> 0" "in_crit s j \<longleftrightarrow> j = i" "k \<le> length (code c)"
  using assms pcs_in_crit(5) [OF assms(2)] by (auto simp: lock_inv_def split: if_splits)

lemma lock_inv_step: "lc_spin_step code s t \<Longrightarrow> lock_inv code s \<Longrightarrow> lock_inv code t"
proof (induction rule: lc_spin_step.induct)
  case (call s i c)
  then have "in_crit (set_pc i (Tas c) s) = in_crit s"
    using pcs_in_crit(1) by (fastforce simp: fun_eq_iff)
  with call show ?case by (simp add: lock_inv_def)
next
  case (tas_free s i c)
  then show ?case by (auto simp: lock_inv_def)
next
  case (tas_busy s i c)
  then have "in_crit (set_pc i (Spin c) (s\<lparr>flag := 1\<rparr>)) = in_crit s"
    using pcs_in_crit(2) by (fastforce simp: fun_eq_iff)
  with tas_busy show ?case by (simp add: lock_inv_def)
next
  case (spin_free s i c)
  then show ?case by (simp add: lock_inv_def)
next
  case (cas_free s i c)
  then show ?case by (auto simp: lock_inv_def)
next
  case (cas_busy s i c)
  then have "in_crit (set_pc i (Spin c) s) = in_crit s"
    using pcs_in_crit(4) by (fastforce simp: fun_eq_iff)
  with cas_busy show ?case by (simp add: lock_inv_def)
next
  case (work s i c k)
  note h = lock_inv_holder [OF work.prems work.hyps(1)]
  have "in_crit (set_pc i (Crit c (Suc k)) (s\<lparr>shared := (code c ! k) (shared s)\<rparr>)) = in_crit s"
    using h by (auto simp: fun_eq_iff)
  with work h show ?case by (simp add: lock_inv_def)
next
  case (lc_spin_unlock s i c)
  note h = lock_inv_holder [OF lc_spin_unlock.prems lc_spin_unlock.hyps(1)]
  from lc_spin_unlock h show ?case by (simp add: lock_inv_def LC_SPIN_UNLOCKED_def)
qed simp

lemma lock_reachable_inv: "lock_reachable code d s \<Longrightarrow> lock_inv code s"
proof (induction rule: lock_reachable.induct)
  case start
  show ?case by (simp add: lock_inv_def lock_init_def in_crit_def LC_SPIN_UNLOCKED_def)
next
  case (step s t)
  then show ?case using lock_inv_step by blast
qed

section \<open>Atomicity\<close>

text \<open>The data as the completed calls, and the steps of the thread inside, leave it.\<close>

definition run_steps :: "('d \<Rightarrow> 'd) list \<Rightarrow> 'd \<Rightarrow> 'd" where
  "run_steps fs d = fold (\<lambda>f d. f d) fs d"

definition completed :: "('c \<Rightarrow> ('d \<Rightarrow> 'd) list) \<Rightarrow> 'd \<Rightarrow> 'c list \<Rightarrow> 'd" where
  "completed code d cs = fold (\<lambda>c. run_steps (code c)) cs d"

definition atomic_inv ::
    "('c \<Rightarrow> ('d \<Rightarrow> 'd) list) \<Rightarrow> 'd \<Rightarrow> ('c, 'd) lock_sys \<Rightarrow> bool" where
  "atomic_inv code d s \<longleftrightarrow>
     (flag s = 0 \<longrightarrow> shared s = completed code d (released s))
     \<and> (\<forall>i c k. pcs s i = Crit c k \<longrightarrow>
          shared s = run_steps (take k (code c)) (completed code d (released s)))"

lemma run_steps_simps [simp]:
  "run_steps [] d = d" "run_steps (fs @ [f]) d = f (run_steps fs d)"
  by (simp_all add: run_steps_def)

lemma completed_simps [simp]:
  "completed code d [] = d"
  "completed code d (cs @ [c]) = run_steps (code c) (completed code d cs)"
  by (simp_all add: completed_def)

lemma free_no_crit: "lock_inv code s \<Longrightarrow> flag s = 0 \<Longrightarrow> pcs s i \<noteq> Crit c k"
  by (auto simp: lock_inv_def in_crit_def)

lemma atomic_inv_step:
  assumes "lc_spin_step code s t" "lock_inv code s" "atomic_inv code d s"
  shows "atomic_inv code d t"
  using assms
proof (induction rule: lc_spin_step.induct)
  case (work s i c k)
  note h = lock_inv_holder [OF work.prems(1) work.hyps(1)]
  have "shared s = run_steps (take k (code c)) (completed code d (released s))"
    using work.hyps(1) work.prems(2) unfolding atomic_inv_def by blast
  moreover have "pcs s j \<noteq> Crit c' k'" if "j \<noteq> i" for j c' k'
    using h(2) [of j] that by (auto simp: in_crit_def)
  ultimately show ?case
    using work.hyps(2) h(1) unfolding atomic_inv_def
    by (intro conjI impI allI) (simp_all add: take_Suc_conv_app_nth split: if_splits)
next
  case (lc_spin_unlock s i c)
  note h = lock_inv_holder [OF lc_spin_unlock.prems(1) lc_spin_unlock.hyps(1)]
  have "shared s = run_steps (take (length (code c)) (code c)) (completed code d (released s))"
    using lc_spin_unlock.hyps lc_spin_unlock.prems(2) unfolding atomic_inv_def by blast
  moreover have "pcs s j \<noteq> Crit c' k'" if "j \<noteq> i" for j c' k'
    using h(2) [of j] that by (auto simp: in_crit_def)
  ultimately show ?case by (simp add: atomic_inv_def)
qed (simp_all add: atomic_inv_def free_no_crit)

lemma lock_reachable_atomic: "lock_reachable code d s \<Longrightarrow> atomic_inv code d s"
proof (induction rule: lock_reachable.induct)
  case start
  show ?case by (simp add: atomic_inv_def lock_init_def in_crit_def)
next
  case (step s t)
  show ?case
    by (rule atomic_inv_step [OF step.hyps(2) lock_reachable_inv [OF step.hyps(1)] step.IH])
qed

section \<open>Objects behind the lock\<close>

text \<open>
  An object whose calls \<open>c\<close> are coded as the critical sections \<open>code c\<close>: if running a whole
  section is the operation \<open>act c\<close>, then between critical sections the object is what the
  operations make of it in the order of release.
\<close>

locale locked_object =
  fixes code :: "'c \<Rightarrow> ('d \<Rightarrow> 'd) list"
    and act :: "'c \<Rightarrow> 'd \<Rightarrow> 'd"
  assumes code_act: "run_steps (code c) d = act c d"
begin

lemma completed_act: "completed code d cs = fold act cs d"
  by (simp add: completed_def code_act [abs_def])

lemma linearized:
  assumes "lock_reachable code d s" "\<forall>i. \<not> in_crit s i"
  shows "shared s = fold act (released s) d"
  using lock_reachable_atomic [OF assms(1)] lock_reachable_inv [OF assms(1)] assms(2)
  by (auto simp: atomic_inv_def completed_act lock_inv_def split: if_splits)

end

text \<open>
  The statements of \<open>dq_push_top\<close> between its lock and unlock: the store into the
  container, the new top, and the overflow check, which ends the process.
\<close>

definition dq_push_top_code :: "addr \<Rightarrow> (dequeue res \<Rightarrow> dequeue res) list" where
  "dq_push_top_code p =
     [\<lambda>r. bind_res r (\<lambda>d. Inr (d\<lparr>dq_container := (dq_container d)[unat (dq_top d) := p]\<rparr>)),
      \<lambda>r. bind_res r (\<lambda>d. Inr (d\<lparr>dq_top := (dq_top d + 1) AND (MAX_SIZE - 1)\<rparr>)),
      \<lambda>r. bind_res r (\<lambda>d. if dq_top d = dq_bot d then Inl Pool_overflow
                          else Inr (d\<lparr>dq_spinlock := LC_SPIN_UNLOCKED\<rparr>))]"

lemma length_dq_push_top_code [simp]: "length (dq_push_top_code p) = 3"
  by (simp add: dq_push_top_code_def)

interpretation dq_locked: locked_object dq_push_top_code
    "\<lambda>p r. bind_res r (\<lambda>d. dq_push_top d p)"
proof unfold_locales
  show "run_steps (dq_push_top_code p) r = bind_res r (\<lambda>d. dq_push_top d p)" for p r
    by (cases r) (simp_all add: dq_push_top_code_def run_steps_def dq_push_top_def Let_def)
qed

lemma fold_push_all:
  "fold (\<lambda>p r. bind_res r (\<lambda>d. dq_push_top d p)) ps r = bind_res r (\<lambda>d. push_all dq_push_top d ps)"
proof (induction ps arbitrary: r)
  case Nil
  then show ?case by (cases r) simp_all
next
  case (Cons p ps)
  then show ?case by (cases r) simp_all
qed

section \<open>Properties\<close>

text \<open>
  Property C5. At most one thread is between \<open>lc_spin_lock\<close> and \<open>lc_spin_unlock\<close>, and the
  flag tells whether there is one.
\<close>

theorem lc_spin_lock_mutual_exclusion:
  assumes "lock_reachable code d s"
  shows "\<exists>h. {i. in_crit s i} = (if flag s = 0 then {} else {h})"
  using lock_reachable_inv [OF assms] by (auto simp: lock_inv_def split: if_splits)

abbreviation lock_example :: "(addr, dequeue res) lock_sys" where
  "lock_example \<equiv> set_pc 0 (Crit 7 0) ((set_pc 0 (Tas 7) (lock_init (Inr dq_init)))\<lparr>flag := 1\<rparr>)"

lemma lock_example_reachable: "lock_reachable dq_push_top_code (Inr dq_init) lock_example"
  by (rule lock_reachable.step [OF lock_reachable.step [OF lock_reachable.start]])
    (rule lc_spin_step.call, simp add: lock_init_def,
     rule lc_spin_step.tas_free, simp_all add: lock_init_def LC_SPIN_UNLOCKED_def)

theorem lc_spin_lock_mutual_exclusion_witness: "\<exists>h. {i. in_crit lock_example i} = {h}"
  using lc_spin_lock_mutual_exclusion [OF lock_example_reachable] by simp

text \<open>
  Property C17. Pushing through the lock is atomic: whatever the interleaving of the threads'
  instructions, when no thread is inside and at most 4095 pushes have completed, the dequeue
  holds exactly the pushed pointers, in the order in which their pushes released the lock.
\<close>

theorem dq_push_top_concurrent:
  assumes "lock_reachable dq_push_top_code (Inr dq_init) s" "\<forall>i. \<not> in_crit s i"
    and "length (released s) \<le> 4095"
  shows "\<exists>deq. shared s = Inr deq \<and> dq_inv deq \<and> dq_list deq = released s"
  using dq_locked.linearized [OF assms(1,2)] dq_fifo.push_all_ok [of dq_init "released s"] assms(3)
  by (auto simp: fold_push_all)

abbreviation lock_example_done :: "(addr, dequeue res) lock_sys" where
  "lock_example_done \<equiv> \<lparr>flag = 0, pcs = (\<lambda>_. Out), shared = dq_push_top dq_init 7, released = [7]\<rparr>"

lemma lock_example_work: "k < 3 \<Longrightarrow>
    lc_spin_step dq_push_top_code
      \<lparr>flag = 1, pcs = (\<lambda>_. Out)(0 := Crit 7 k), shared = d, released = []\<rparr>
      \<lparr>flag = 1, pcs = (\<lambda>_. Out)(0 := Crit 7 (Suc k)), shared = (dq_push_top_code 7 ! k) d, released = []\<rparr>"
  using lc_spin_step.work [of "\<lparr>flag = 1, pcs = (\<lambda>_. Out)(0 := Crit 7 k), shared = d, released = []\<rparr>"
      0 7 k dq_push_top_code]
  by (simp add: set_pc_def)

lemma lock_example_done_reachable:
  "lock_reachable dq_push_top_code (Inr dq_init) lock_example_done"
proof -
  let ?s = "\<lambda>k d. \<lparr>flag = 1, pcs = (\<lambda>_. Out)(0 := Crit (7 :: addr) k), shared = d, released = []\<rparr>"
  let ?d = "\<lambda>k. run_steps (take k (dq_push_top_code 7)) (Inr dq_init)"
  have r0: "lock_reachable dq_push_top_code (Inr dq_init) (?s 0 (?d 0))"
    using lock_example_reachable by (simp add: lock_init_def set_pc_def)
  have st: "lock_reachable dq_push_top_code (Inr dq_init) (?s k (?d k)) \<Longrightarrow>
      lock_reachable dq_push_top_code (Inr dq_init) (?s (Suc k) (?d (Suc k)))" if "k < 3" for k
    using lock_reachable.step [OF _ lock_example_work [OF that, of "?d k"]] that
    by (simp add: take_Suc_conv_app_nth)
  have "lock_reachable dq_push_top_code (Inr dq_init) (?s 3 (?d 3))"
    using st [OF _ st [OF _ st [OF _ r0]]] by (simp add: numeral_3_eq_3)
  from lock_reachable.step [OF this lc_spin_step.lc_spin_unlock [of _ 0 7]]
  show ?thesis
    by (simp add: set_pc_def dq_locked.code_act LC_SPIN_UNLOCKED_def fun_upd_idem)
qed

theorem dq_push_top_concurrent_witness:
  "\<exists>deq. shared lock_example_done = Inr deq \<and> dq_inv deq \<and> dq_list deq = [7]"
  using dq_push_top_concurrent [OF lock_example_done_reachable] by (simp add: in_crit_def)

text \<open>
  Property C37. The lock is free of deadlock: when no thread is inside, every waiting thread
  can enter by its own steps alone.
\<close>

theorem lc_spin_lock_progress:
  assumes "lock_reachable code d s" "is_waiting s i" "\<forall>j. \<not> in_crit s j"
  shows "\<exists>t. (lc_spin_step code)\<^sup>*\<^sup>* s t \<and> in_crit t i"
proof -
  have f: "flag s = 0"
    using lock_reachable_inv [OF assms(1)] assms(3) by (auto simp: lock_inv_def split: if_splits)
  have cas: "\<exists>t. lc_spin_step code u t \<and> in_crit t i" if "pcs u i = Cas c" "flag u = 0" for u c
    using lc_spin_step.cas_free [OF that, of code] by (auto simp: in_crit_def)
  obtain c where "pcs s i = Tas c \<or> pcs s i = Cas c \<or> pcs s i = Spin c"
    using assms(2) by (auto simp: is_waiting_def)
  then consider "pcs s i = Tas c" | "pcs s i = Cas c" | "pcs s i = Spin c" by blast
  then show ?thesis
  proof cases
    case 1
    from lc_spin_step.tas_free [OF 1 f, of code] show ?thesis
      by (auto simp: in_crit_def intro!: exI r_into_rtranclp)
  next
    case 2
    from cas [OF 2 f] show ?thesis by (auto intro: r_into_rtranclp)
  next
    case 3
    have "lc_spin_step code s (set_pc i (Cas c) s)" using 3 f by (rule lc_spin_step.spin_free)
    moreover obtain t where "lc_spin_step code (set_pc i (Cas c) s) t" "in_crit t i"
      using cas [of "set_pc i (Cas c) s" c] f by auto
    ultimately show ?thesis by (meson converse_rtranclp_into_rtranclp r_into_rtranclp)
  qed
qed

lemma lock_example_waiting:
  "lock_reachable dq_push_top_code (Inr dq_init) (set_pc 0 (Tas 7) (lock_init (Inr dq_init)))"
  by (rule lock_reachable.step [OF lock_reachable.start])
    (rule lc_spin_step.call, simp add: lock_init_def)

theorem lc_spin_lock_progress_witness:
  "\<exists>t. (lc_spin_step dq_push_top_code)\<^sup>*\<^sup>* (set_pc 0 (Tas 7) (lock_init (Inr dq_init))) t
      \<and> in_crit t 0"
  using lc_spin_lock_progress [OF lock_example_waiting, of 0]
  by (simp add: is_waiting_def in_crit_def lock_init_def)

end
