(* ===== verification/LC_Cq.thy ===== *)
theory LC_Cq
  imports LC_Dequeue
begin

text \<open>
  The completion queue of \<open>src/include/cq.h\<close>: a circular buffer of \<open>CQ_MAX_SIZE\<close> request
  pointers, filled by the progress engine and drained by \<open>lc_cq_pop\<close>.
\<close>

section \<open>Model\<close>

definition LC_SERVER_NUM_PKTS :: u64 where
  "LC_SERVER_NUM_PKTS = 1024"

definition CQ_MAX_SIZE :: u64 where
  "CQ_MAX_SIZE = LC_SERVER_NUM_PKTS * 2"

record comp_q =
  cq_top :: u64
  cq_bot :: u64
  cq_spinlock :: u32
  cq_container :: "addr list"

definition cq_init :: comp_q where
  "cq_init = \<lparr>cq_top = 0, cq_bot = 0, cq_spinlock = LC_SPIN_UNLOCKED,
     cq_container = replicate (unat CQ_MAX_SIZE) NULL\<rparr>"

definition cq_push :: "comp_q \<Rightarrow> addr \<Rightarrow> comp_q res" where
  "cq_push cq req =
     (let cont = (cq_container cq)[unat (cq_top cq) := req];
          tp = (cq_top cq + 1) AND (CQ_MAX_SIZE - 1)
      in if tp = cq_bot cq then Inl Pool_overflow
         else Inr (cq\<lparr>cq_container := cont, cq_top := tp, cq_spinlock := LC_SPIN_UNLOCKED\<rparr>))"

definition cq_pop :: "comp_q \<Rightarrow> addr \<times> comp_q" where
  "cq_pop cq =
     (if cq_top cq \<noteq> cq_bot cq
      then (cq_container cq ! unat (cq_bot cq),
            cq\<lparr>cq_bot := (cq_bot cq + 1) AND (CQ_MAX_SIZE - 1),
               cq_spinlock := LC_SPIN_UNLOCKED\<rparr>)
      else (NULL, cq\<lparr>cq_spinlock := LC_SPIN_UNLOCKED\<rparr>))"

section \<open>Invariant and abstraction\<close>

definition cq_inv :: "comp_q \<Rightarrow> bool" where
  "cq_inv cq \<longleftrightarrow> unat (cq_top cq) < 2048 \<and> unat (cq_bot cq) < 2048
     \<and> length (cq_container cq) = 2048 \<and> cq_spinlock cq = LC_SPIN_UNLOCKED"

definition cq_list :: "comp_q \<Rightarrow> addr list" where
  "cq_list cq = ring_list 2048 (cq_container cq) (unat (cq_top cq)) (unat (cq_bot cq))"

lemma CQ_MAX_SIZE_simps: "CQ_MAX_SIZE = 2048"
  by (simp add: CQ_MAX_SIZE_def LC_SERVER_NUM_PKTS_def)

lemma unat_cq_succ: "unat ((x + 1) AND (CQ_MAX_SIZE - 1)) = Suc (unat x) mod 2048"
  using unat_inc_mod [of 11 x] by (simp add: CQ_MAX_SIZE_simps unat_and_2047)

lemma cq_init_ok [simp]: "cq_inv cq_init" "cq_list cq_init = []"
  by (simp_all add: cq_init_def cq_inv_def cq_list_def CQ_MAX_SIZE_simps ring_list_def ring_len_def)

lemma cq_list_length: "cq_inv cq \<Longrightarrow> length (cq_list cq) \<le> 2047"
  using ring_len_less [of 2048 "unat (cq_top cq)" "unat (cq_bot cq)"]
  by (simp only: cq_list_def length_ring_list) simp

lemma cq_empty_iff: "cq_inv cq \<Longrightarrow> cq_top cq = cq_bot cq \<longleftrightarrow> cq_list cq = []"
  by (simp add: cq_list_def cq_inv_def ring_list_empty_iff word_unat_eq_iff)

lemma cq_push_full_iff:
  assumes "cq_inv cq"
  shows "(cq_top cq + 1) AND (CQ_MAX_SIZE - 1) = cq_bot cq \<longleftrightarrow> length (cq_list cq) = 2047"
  using assms ring_full_iff [of "unat (cq_top cq)" 2048 "unat (cq_bot cq)"]
  by (simp add: cq_inv_def cq_list_def word_unat_eq_iff unat_cq_succ)

lemma cq_push_full: "cq_inv cq \<Longrightarrow> length (cq_list cq) = 2047 \<Longrightarrow> cq_push cq r = Inl Pool_overflow"
  using cq_push_full_iff [of cq] by (simp add: cq_push_def Let_def)

lemma cq_push_ok:
  assumes inv: "cq_inv cq" and room: "length (cq_list cq) < 2047"
  shows "\<exists>cq'. cq_push cq r = Inr cq' \<and> cq_inv cq' \<and> cq_list cq' = cq_list cq @ [r]"
proof -
  let ?t = "(cq_top cq + 1) AND (CQ_MAX_SIZE - 1)"
  have ne: "?t \<noteq> cq_bot cq" using cq_push_full_iff [OF inv] room by simp
  then have "Suc (unat (cq_top cq)) mod 2048 \<noteq> unat (cq_bot cq)"
    by (simp add: word_unat_eq_iff unat_cq_succ)
  then show ?thesis
    using inv ne ring_list_push [of "unat (cq_top cq)" 2048 "unat (cq_bot cq)" "cq_container cq" r]
    by (simp add: cq_push_def Let_def cq_inv_def cq_list_def unat_cq_succ)
qed

lemma cq_pop_nil: "cq_inv cq \<Longrightarrow> cq_list cq = [] \<Longrightarrow> cq_pop cq = (NULL, cq)"
  by (simp add: cq_pop_def cq_empty_iff [symmetric]) (simp add: cq_inv_def)

lemma cq_pop_cons:
  assumes inv: "cq_inv cq" and l: "cq_list cq = y # ys"
  shows "\<exists>cq'. cq_pop cq = (y, cq') \<and> cq_inv cq' \<and> cq_list cq' = ys"
proof -
  have ne: "cq_top cq \<noteq> cq_bot cq" using cq_empty_iff [OF inv] l by simp
  then have "unat (cq_top cq) \<noteq> unat (cq_bot cq)" by (simp add: word_unat_eq_iff)
  then show ?thesis
    using inv ne l ring_list_pop_bot [of "unat (cq_top cq)" 2048 "unat (cq_bot cq)" "cq_container cq"]
    by (simp add: cq_pop_def cq_inv_def cq_list_def unat_cq_succ)
qed

interpretation cq_fifo: bounded_fifo cq_push cq_pop cq_list cq_inv 2047
  by unfold_locales
    (simp_all add: cq_push_ok cq_push_full cq_pop_cons cq_pop_nil cq_list_length)

section \<open>Properties\<close>

text \<open>
  Property C34. The completion queue is a bounded first-in first-out queue: every sequence of
  pushes and pops on a fresh queue gives the results and leaves the contents of the same
  sequence on a list of at most 2047 entries, with \<open>NULL\<close> for a pop of an empty queue, and
  reports the overflow at exactly the push that would be the 2048th entry.
\<close>

theorem cq_refines_queue:
  "abs_run cq_list (run_queue cq_push cq_pop ops cq_init) = run_list 2047 ops []"
  using cq_fifo.run_refines [of cq_init ops] by simp

end
