(* ===== verification/LC_Pool.thy ===== *)
theory LC_Pool
  imports LC_Dequeue
begin

text \<open>
  The packet pool of \<open>include/lc/pool.h\<close> and \<open>src/pool.c\<close>: one dequeue per core, found
  through the table \<open>tls_pool_struct\<close> of dequeue numbers per core and pool key, with work
  stealing from the bottom of another core's dequeue. The core number that
  \<open>lc_worker_id\<close> gets from \<open>sched_getcpu\<close> and the values of \<open>rand\<close> are arguments.
\<close>

section \<open>Model\<close>

definition MAX_NPOOLS :: nat where "MAX_NPOOLS = 272"
definition MAX_LOCAL_POOL :: nat where "MAX_LOCAL_POOL = 32"
definition POOL_UNINIT :: int where "POOL_UNINIT = - 1"

text \<open>The globals of \<open>pool.c\<close>; the table is indexed by core and by key.\<close>

record pool_globals =
  tls_pool_struct :: "nat \<Rightarrow> nat \<Rightarrow> int"
  lc_pool_nkey :: int
  initialized :: bool

record lc_pool =
  pl_key :: int
  npools :: nat
  lpools :: "dequeue list"

definition pool_globals_init :: pool_globals where
  "pool_globals_init = \<lparr>tls_pool_struct = (\<lambda>_ _. 0), lc_pool_nkey = 0, initialized = False\<rparr>"

definition lc_pool_init :: "pool_globals \<Rightarrow> pool_globals" where
  "lc_pool_init g =
     (if \<not> initialized g
      then g\<lparr>tls_pool_struct := (\<lambda>i j. if i < MAX_NPOOLS \<and> j < MAX_LOCAL_POOL then POOL_UNINIT
                                    else tls_pool_struct g i j),
             initialized := True\<rparr>
      else g)"

definition lc_pool_create :: "pool_globals \<Rightarrow> (pool_globals \<times> lc_pool) res" where
  "lc_pool_create g =
     (let g = (if \<not> initialized g then lc_pool_init g else g);
          key = lc_pool_nkey g;
          g = g\<lparr>lc_pool_nkey := key + 1\<rparr>
      in if key < 0 \<or> key > int MAX_LOCAL_POOL then Inl Too_many_pools
         else Inr (g, \<lparr>pl_key = key, npools = 0, lpools = []\<rparr>))"

text \<open>Reads and writes of \<open>tls_pool_struct[wid][key]\<close>, with the declared bounds.\<close>

definition tls_index_ok :: "nat \<Rightarrow> int \<Rightarrow> bool" where
  "tls_index_ok wid key \<longleftrightarrow> wid < MAX_NPOOLS \<and> 0 \<le> key \<and> key < int MAX_LOCAL_POOL"

definition lc_pool_get_local ::
    "pool_globals \<Rightarrow> lc_pool \<Rightarrow> nat \<Rightarrow> (nat \<times> pool_globals \<times> lc_pool) res" where
  "lc_pool_get_local g pool wid =
     (if \<not> tls_index_ok wid (pl_key pool) then Inl Out_of_bounds
      else let pid = tls_pool_struct g wid (nat (pl_key pool))
       in if pid = POOL_UNINIT
          then let pid = npools pool
           in if pid \<ge> MAX_NPOOLS then Inl Out_of_bounds
              else Inr (pid,
                g\<lparr>tls_pool_struct := (tls_pool_struct g)
                     (wid := (tls_pool_struct g wid)(nat (pl_key pool) := int pid))\<rparr>,
                pool\<lparr>npools := Suc pid, lpools := lpools pool @ [dq_init]\<rparr>)
          else if pid < 0 then Inl Out_of_bounds
          else Inr (nat pid, g, pool))"

definition lc_pool_put_to :: "lc_pool \<Rightarrow> addr \<Rightarrow> nat \<Rightarrow> lc_pool res" where
  "lc_pool_put_to pool elm pid =
     (if pid \<ge> length (lpools pool) then Inl Out_of_bounds
      else bind_res (dq_push_top (lpools pool ! pid) elm)
             (\<lambda>d. Inr (pool\<lparr>lpools := (lpools pool)[pid := d]\<rparr>)))"

definition lc_pool_put ::
    "pool_globals \<Rightarrow> lc_pool \<Rightarrow> nat \<Rightarrow> addr \<Rightarrow> (pool_globals \<times> lc_pool) res" where
  "lc_pool_put g pool wid elm =
     bind_res (lc_pool_get_local g pool wid) (\<lambda>(pid, g, pool).
       bind_res (lc_pool_put_to pool elm pid) (\<lambda>pool. Inr (g, pool)))"

text \<open>One attempt to steal: \<open>rand() % npools\<close> chooses the victim.\<close>

definition steal_from :: "lc_pool \<Rightarrow> nat \<Rightarrow> (addr \<times> lc_pool) res" where
  "steal_from pool steal =
     (if steal \<ge> length (lpools pool) then Inl Out_of_bounds
      else let (elm, d) = dq_pop_bot (lpools pool ! steal)
           in Inr (elm, pool\<lparr>lpools := (lpools pool)[steal := d]\<rparr>))"

text \<open>The loop of \<open>lc_pool_get_slow\<close>; \<open>rnd i\<close> is the value of its \<open>i\<close>-th call of \<open>rand\<close>.\<close>

fun lc_pool_get_slow :: "nat \<Rightarrow> lc_pool \<Rightarrow> (nat \<Rightarrow> nat) \<Rightarrow> (addr \<times> lc_pool) res" where
  "lc_pool_get_slow 0 pool rnd = Inl Out_of_fuel"
| "lc_pool_get_slow (Suc fuel) pool rnd =
     bind_res (steal_from pool (rnd 0 mod npools pool)) (\<lambda>(elm, pool).
       if elm \<noteq> NULL then Inr (elm, pool)
       else lc_pool_get_slow fuel pool (\<lambda>i. rnd (Suc i)))"

definition pop_local :: "lc_pool \<Rightarrow> nat \<Rightarrow> (addr \<times> lc_pool) res" where
  "pop_local pool pid =
     (if pid \<ge> length (lpools pool) then Inl Out_of_bounds
      else let (elm, d) = dq_pop_top (lpools pool ! pid)
           in Inr (elm, pool\<lparr>lpools := (lpools pool)[pid := d]\<rparr>))"

definition lc_pool_get ::
    "nat \<Rightarrow> pool_globals \<Rightarrow> lc_pool \<Rightarrow> nat \<Rightarrow> (nat \<Rightarrow> nat) \<Rightarrow> (addr \<times> pool_globals \<times> lc_pool) res" where
  "lc_pool_get fuel g pool wid rnd =
     bind_res (lc_pool_get_local g pool wid) (\<lambda>(pid, g, pool).
       bind_res (pop_local pool pid) (\<lambda>(elm, pool).
         if elm = NULL
         then bind_res (lc_pool_get_slow fuel pool rnd) (\<lambda>(elm, pool). Inr (elm, g, pool))
         else Inr (elm, g, pool)))"

definition lc_pool_get_nb ::
    "pool_globals \<Rightarrow> lc_pool \<Rightarrow> nat \<Rightarrow> nat \<Rightarrow> (addr \<times> pool_globals \<times> lc_pool) res" where
  "lc_pool_get_nb g pool wid rand =
     bind_res (lc_pool_get_local g pool wid) (\<lambda>(pid, g, pool).
       bind_res (pop_local pool pid) (\<lambda>(elm, pool).
         if elm = NULL
         then bind_res (steal_from pool (rand mod npools pool)) (\<lambda>(elm, pool). Inr (elm, g, pool))
         else Inr (elm, g, pool)))"

section \<open>Invariant and contents\<close>

text \<open>
  The dequeue numbers a pool has handed out are its dequeues, one core each; hence there is
  room in \<open>lpools\<close> for every core that has none yet.
\<close>

definition pool_cores :: "pool_globals \<Rightarrow> lc_pool \<Rightarrow> nat set" where
  "pool_cores g pool =
     {w. w < MAX_NPOOLS \<and> tls_pool_struct g w (nat (pl_key pool)) \<noteq> POOL_UNINIT}"

definition pool_inv :: "pool_globals \<Rightarrow> lc_pool \<Rightarrow> bool" where
  "pool_inv g pool \<longleftrightarrow> 0 \<le> pl_key pool \<and> pl_key pool < int MAX_LOCAL_POOL
     \<and> npools pool = length (lpools pool)
     \<and> (\<forall>d \<in> set (lpools pool). dq_inv d \<and> NULL \<notin> set (dq_list d))
     \<and> bij_betw (\<lambda>w. tls_pool_struct g w (nat (pl_key pool)))
         (pool_cores g pool) {0..<int (npools pool)}"

definition pool_mset :: "lc_pool \<Rightarrow> addr multiset" where
  "pool_mset pool = sum_list (map (\<lambda>d. mset (dq_list d)) (lpools pool))"

lemmas pool_consts = MAX_NPOOLS_def MAX_LOCAL_POOL_def POOL_UNINIT_def

lemma pool_inv_npools_le: "pool_inv g pool \<Longrightarrow> npools pool \<le> MAX_NPOOLS"
proof -
  assume i: "pool_inv g pool"
  have "npools pool = card {0..<int (npools pool)}" by simp
  also have "\<dots> = card (pool_cores g pool)"
    using i bij_betw_same_card unfolding pool_inv_def by metis
  also have "\<dots> \<le> card {..<MAX_NPOOLS}"
    by (intro card_mono) (auto simp: pool_cores_def)
  finally show ?thesis by simp
qed

lemma pool_inv_room:
  assumes i: "pool_inv g pool" and w: "wid < MAX_NPOOLS" "wid \<notin> pool_cores g pool"
  shows "npools pool < MAX_NPOOLS"
proof -
  have "npools pool = card (pool_cores g pool)"
    using i bij_betw_same_card [of _ "pool_cores g pool" "{0..<int (npools pool)}"]
    by (auto simp: pool_inv_def)
  also have "\<dots> < card {..<MAX_NPOOLS}"
    using w by (intro psubset_card_mono) (auto simp: pool_cores_def)
  finally show ?thesis by simp
qed

lemma lpools_update_mset:
  assumes "pid < length ls"
  shows "sum_list (map (\<lambda>d. mset (dq_list d)) (ls[pid := d])) + mset (dq_list (ls ! pid))
       = sum_list (map (\<lambda>d. mset (dq_list d)) ls) + mset (dq_list d)"
proof -
  have "ls = take pid ls @ ls ! pid # drop (Suc pid) ls" using assms by (rule id_take_nth_drop)
  then have "sum_list (map (\<lambda>d. mset (dq_list d)) ls)
      = sum_list (map (\<lambda>d. mset (dq_list d)) (take pid ls)) + mset (dq_list (ls ! pid))
        + sum_list (map (\<lambda>d. mset (dq_list d)) (drop (Suc pid) ls))"
    by (metis (no_types, lifting) add.assoc list.simps(9) map_append sum_list.Cons sum_list_append)
  then show ?thesis using assms by (simp add: upd_conv_take_nth_drop ac_simps)
qed

lemma pool_mset_subset:
  assumes "pid < length (lpools pool)"
  shows "mset (dq_list (lpools pool ! pid)) \<subseteq># pool_mset pool"
  using lpools_update_mset [OF assms, of dq_init]
  by (simp add: pool_mset_def) (metis mset_subset_eq_add_right)

lemma pool_inv_update:
  assumes "pool_inv g pool" "dq_inv d" "NULL \<notin> set (dq_list d)"
  shows "pool_inv g (pool\<lparr>lpools := (lpools pool)[pid := d]\<rparr>)"
  using assms
  by (auto simp: pool_inv_def pool_cores_def dest!: set_update_subset_insert [THEN subsetD])

lemma pool_inv_nth:
  assumes "pool_inv g pool" "pid < length (lpools pool)"
  shows "dq_inv (lpools pool ! pid)" "NULL \<notin> set (dq_list (lpools pool ! pid))"
  using assms by (auto simp: pool_inv_def)

lemma get_local_known:
  assumes i: "pool_inv g pool" and w: "wid \<in> pool_cores g pool"
  shows "\<exists>pid. lc_pool_get_local g pool wid = Inr (pid, g, pool) \<and> pid < length (lpools pool)"
proof -
  let ?p = "tls_pool_struct g wid (nat (pl_key pool))"
  have "?p \<in> {0..<int (npools pool)}"
    using i w bij_betwE unfolding pool_inv_def by blast
  then show ?thesis
    using i w by (auto simp: lc_pool_get_local_def tls_index_ok_def pool_inv_def pool_cores_def Let_def)
qed

lemma get_local_new:
  assumes i: "pool_inv g pool" and w: "wid < MAX_NPOOLS" "wid \<notin> pool_cores g pool"
  shows "\<exists>g' pool'. lc_pool_get_local g pool wid = Inr (npools pool, g', pool')
      \<and> pool_inv g' pool' \<and> lpools pool' = lpools pool @ [dq_init]"
proof -
  let ?k = "nat (pl_key pool)"
  let ?f = "\<lambda>w. tls_pool_struct g w ?k" and ?n = "npools pool"
  let ?g = "g\<lparr>tls_pool_struct := (tls_pool_struct g)
      (wid := (tls_pool_struct g wid)(?k := int ?n))\<rparr>"
  let ?pool = "pool\<lparr>npools := Suc ?n, lpools := lpools pool @ [dq_init]\<rparr>"
  have u: "?f wid = POOL_UNINIT" using w by (simp add: pool_cores_def)
  have cores: "pool_cores ?g ?pool = insert wid (pool_cores g pool)"
    using w by (auto simp: pool_cores_def POOL_UNINIT_def)
  have b: "bij_betw ?f (pool_cores g pool) {0..<int ?n}" using i unfolding pool_inv_def by blast
  have "bij_betw (\<lambda>w. tls_pool_struct ?g w ?k) (pool_cores g pool) {0..<int ?n}"
    using b by (rule bij_betw_cong [THEN iffD1, rotated]) (use w in auto)
  then have "bij_betw (\<lambda>w. tls_pool_struct ?g w ?k) (insert wid (pool_cores g pool))
      (insert (int ?n) {0..<int ?n})"
    using w by (intro bij_betw_combine [of _ "{wid}" "{int ?n}" "pool_cores g pool" "{0..<int ?n}",
      simplified]) (auto simp: bij_betw_def)
  moreover have "insert (int ?n) {0..<int ?n} = {0..<int (Suc ?n)}" by auto
  ultimately have bij: "bij_betw (\<lambda>w. tls_pool_struct ?g w (nat (pl_key ?pool)))
      (pool_cores ?g ?pool) {0..<int (npools ?pool)}"
    by (subst cores) simp
  have "pool_inv ?g ?pool"
    unfolding pool_inv_def using i by (intro conjI bij) (auto simp: pool_inv_def)
  moreover have "lc_pool_get_local g pool wid = Inr (?n, ?g, ?pool)"
    using i w u pool_inv_room [OF i w]
    by (simp add: lc_pool_get_local_def tls_index_ok_def pool_inv_def Let_def)
  ultimately show ?thesis by auto
qed

text \<open>Every core finds a dequeue of its own, and the contents stay the same.\<close>

lemma get_local_ok:
  assumes "pool_inv g pool" "wid < MAX_NPOOLS"
  shows "\<exists>pid g' pool'. lc_pool_get_local g pool wid = Inr (pid, g', pool') \<and> pool_inv g' pool'
      \<and> pid < length (lpools pool') \<and> pool_mset pool' = pool_mset pool"
proof (cases "wid \<in> pool_cores g pool")
  case True
  then show ?thesis using get_local_known [OF assms(1) True] assms(1) by auto
next
  case False
  obtain g' pool' where "lc_pool_get_local g pool wid = Inr (npools pool, g', pool')"
      "pool_inv g' pool'" "lpools pool' = lpools pool @ [dq_init]"
    using get_local_new [OF assms False] by blast
  moreover have "npools pool = length (lpools pool)" using assms(1) by (simp add: pool_inv_def)
  ultimately show ?thesis by (auto simp: pool_mset_def)
qed

lemma put_to_ok:
  assumes i: "pool_inv g pool" and p: "pid < length (lpools pool)" and e: "elm \<noteq> NULL"
    and room: "length (dq_list (lpools pool ! pid)) < 4095"
  shows "\<exists>pool'. lc_pool_put_to pool elm pid = Inr pool' \<and> pool_inv g pool'
      \<and> pool_mset pool' = add_mset elm (pool_mset pool)"
proof -
  let ?d = "lpools pool ! pid"
  obtain d where d: "dq_push_top ?d elm = Inr d" "dq_inv d" "dq_list d = dq_list ?d @ [elm]"
    using dq_push_top_ok [OF pool_inv_nth(1) [OF i p] room] by blast
  have "pool_inv g (pool\<lparr>lpools := (lpools pool)[pid := d]\<rparr>)"
    using d e pool_inv_nth(2) [OF i p] by (intro pool_inv_update [OF i]) auto
  moreover have "sum_list (map (\<lambda>d. mset (dq_list d)) ((lpools pool)[pid := d]))
      = add_mset elm (pool_mset pool)"
    using lpools_update_mset [OF p, of d] d(3) by (simp add: pool_mset_def)
  ultimately show ?thesis using d p by (simp add: lc_pool_put_to_def pool_mset_def)
qed

text \<open>What one pop or steal does to the contents.\<close>

definition pop_effect :: "lc_pool \<Rightarrow> addr \<Rightarrow> lc_pool \<Rightarrow> bool" where
  "pop_effect pool elm pool' \<longleftrightarrow>
     (if elm = NULL then pool_mset pool' = pool_mset pool
      else pool_mset pool = add_mset elm (pool_mset pool'))"

lemma pop_update:
  assumes i: "pool_inv g pool" and p: "pid < length (lpools pool)"
    and d: "dq_inv d" "mset (dq_list (lpools pool ! pid)) = add_mset y (mset (dq_list d))"
  shows "pool_inv g (pool\<lparr>lpools := (lpools pool)[pid := d]\<rparr>)"
    and "pool_mset pool = add_mset y (pool_mset (pool\<lparr>lpools := (lpools pool)[pid := d]\<rparr>))"
    and "y \<noteq> NULL"
proof -
  have s: "set (dq_list (lpools pool ! pid)) = insert y (set (dq_list d))"
    using d(2) by (metis set_mset_add_mset_insert set_mset_mset)
  show "pool_inv g (pool\<lparr>lpools := (lpools pool)[pid := d]\<rparr>)"
    using pool_inv_nth(2) [OF i p] s d(1) by (intro pool_inv_update [OF i]) auto
  show "pool_mset pool = add_mset y (pool_mset (pool\<lparr>lpools := (lpools pool)[pid := d]\<rparr>))"
    using lpools_update_mset [OF p, of d] d(2) by (simp add: pool_mset_def)
  show "y \<noteq> NULL" using pool_inv_nth(2) [OF i p] s by auto
qed

lemma pop_local_ok:
  assumes i: "pool_inv g pool" and p: "pid < length (lpools pool)"
  shows "\<exists>elm pool'. pop_local pool pid = Inr (elm, pool') \<and> pool_inv g pool'
      \<and> pop_effect pool elm pool' \<and> npools pool' = npools pool
      \<and> (elm = NULL \<longleftrightarrow> dq_list (lpools pool ! pid) = []) \<and> (elm = NULL \<longrightarrow> pool' = pool)"
proof (cases "dq_list (lpools pool ! pid)" rule: rev_cases)
  case Nil
  then show ?thesis
    using dq_pop_top_nil [OF pool_inv_nth(1) [OF i p] Nil] p i
    by (simp add: pop_local_def pop_effect_def)
next
  case (snoc ys y)
  obtain d where d: "dq_pop_top (lpools pool ! pid) = (y, d)" "dq_inv d" "dq_list d = ys"
    using dq_pop_top_snoc [OF pool_inv_nth(1) [OF i p] snoc] by blast
  note u = pop_update [OF i p d(2), of y]
  show ?thesis using d snoc p u by (auto simp: pop_local_def pop_effect_def)
qed

lemma steal_from_ok:
  assumes i: "pool_inv g pool" and p: "pid < length (lpools pool)"
  shows "\<exists>elm pool'. steal_from pool pid = Inr (elm, pool') \<and> pool_inv g pool'
      \<and> pop_effect pool elm pool' \<and> npools pool' = npools pool
      \<and> (elm = NULL \<longleftrightarrow> dq_list (lpools pool ! pid) = []) \<and> (elm = NULL \<longrightarrow> pool' = pool)"
proof (cases "dq_list (lpools pool ! pid)")
  case Nil
  then show ?thesis
    using dq_pop_bot_nil [OF pool_inv_nth(1) [OF i p] Nil] p i
    by (simp add: steal_from_def pop_effect_def)
next
  case (Cons y ys)
  obtain d where d: "dq_pop_bot (lpools pool ! pid) = (y, d)" "dq_inv d" "dq_list d = ys"
    using dq_pop_bot_cons [OF pool_inv_nth(1) [OF i p] Cons] by blast
  note u = pop_update [OF i p d(2), of y]
  show ?thesis using d Cons p u by (auto simp: steal_from_def pop_effect_def)
qed

section \<open>The pool as an unordered container\<close>

text \<open>
  What the packet layer relies on: a put adds one pointer, a non-blocking get takes one away
  or returns \<open>NULL\<close>, and neither fails while fewer than 4095 pointers are in the pool.
\<close>

datatype pool_op = Put nat addr | Get nat nat

fun run_pool :: "('p \<Rightarrow> nat \<Rightarrow> addr \<Rightarrow> 'p res) \<Rightarrow> ('p \<Rightarrow> nat \<Rightarrow> nat \<Rightarrow> (addr \<times> 'p) res)
    \<Rightarrow> pool_op list \<Rightarrow> 'p \<Rightarrow> (addr list \<times> 'p) res" where
  "run_pool put get [] p = Inr ([], p)"
| "run_pool put get (Put wid x # ops) p = bind_res (put p wid x) (run_pool put get ops)"
| "run_pool put get (Get wid r # ops) p =
     bind_res (get p wid r) (\<lambda>(y, p).
       bind_res (run_pool put get ops p) (\<lambda>(ys, p). Inr (if y = NULL then ys else y # ys, p)))"

fun puts :: "pool_op list \<Rightarrow> addr list" where
  "puts [] = []"
| "puts (Put wid x # ops) = x # puts ops"
| "puts (Get wid r # ops) = puts ops"

fun op_ok :: "pool_op \<Rightarrow> bool" where
  "op_ok (Put wid x) \<longleftrightarrow> wid < MAX_NPOOLS \<and> x \<noteq> NULL"
| "op_ok (Get wid r) \<longleftrightarrow> wid < MAX_NPOOLS"

locale packet_pool =
  fixes put :: "'p \<Rightarrow> nat \<Rightarrow> addr \<Rightarrow> 'p res"
    and get :: "'p \<Rightarrow> nat \<Rightarrow> nat \<Rightarrow> (addr \<times> 'p) res"
    and held :: "'p \<Rightarrow> addr multiset"
    and invar :: "'p \<Rightarrow> bool"
  assumes put_ok: "invar p \<Longrightarrow> wid < MAX_NPOOLS \<Longrightarrow> x \<noteq> NULL \<Longrightarrow> size (held p) < 4095 \<Longrightarrow>
      \<exists>p'. put p wid x = Inr p' \<and> invar p' \<and> held p' = add_mset x (held p)"
    and get_ok: "invar p \<Longrightarrow> wid < MAX_NPOOLS \<Longrightarrow>
      \<exists>y p'. get p wid r = Inr (y, p') \<and> invar p'
        \<and> (if y = NULL then held p' = held p else held p = add_mset y (held p'))"
begin

lemma run_conserves:
  "invar p \<Longrightarrow> list_all op_ok ops \<Longrightarrow> size (held p) + length (puts ops) \<le> 4095 \<Longrightarrow>
    \<exists>out p'. run_pool put get ops p = Inr (out, p') \<and> invar p'
      \<and> held p + mset (puts ops) = held p' + mset out"
proof (induction ops arbitrary: p)
  case Nil
  then show ?case by simp
next
  case (Cons op ops)
  show ?case
  proof (cases op)
    case (Put wid x)
    then obtain p' where p': "put p wid x = Inr p'" "invar p'" "held p' = add_mset x (held p)"
      using put_ok [of p wid x] Cons.prems by auto
    then show ?thesis using Cons.IH [of p'] Cons.prems Put by auto
  next
    case (Get wid r)
    then obtain y p' where p': "get p wid r = Inr (y, p')" "invar p'"
        "if y = NULL then held p' = held p else held p = add_mset y (held p')"
      using get_ok [of p wid r] Cons.prems by auto
    then have "size (held p') \<le> size (held p)" by (auto split: if_splits)
    then show ?thesis using Cons.IH [of p'] Cons.prems Get p' by (auto split: if_splits)
  qed
qed

end

lemma lc_pool_put_ok:
  assumes i: "pool_inv g pool" and w: "wid < MAX_NPOOLS" "elm \<noteq> NULL" "size (pool_mset pool) < 4095"
  shows "\<exists>g' pool'. lc_pool_put g pool wid elm = Inr (g', pool') \<and> pool_inv g' pool'
      \<and> pool_mset pool' = add_mset elm (pool_mset pool)"
proof -
  obtain pid g' pool' where l: "lc_pool_get_local g pool wid = Inr (pid, g', pool')"
      "pool_inv g' pool'" "pid < length (lpools pool')" "pool_mset pool' = pool_mset pool"
    using get_local_ok [OF i w(1)] by blast
  have "length (dq_list (lpools pool' ! pid)) \<le> size (pool_mset pool')"
    using size_mset_mono [OF pool_mset_subset [OF l(3)]] by simp
  then have room: "length (dq_list (lpools pool' ! pid)) < 4095" using w l by simp
  show ?thesis
    using put_to_ok [OF l(2,3) w(2) room] l by (auto simp: lc_pool_put_def)
qed

lemma lc_pool_get_nb_ok:
  assumes i: "pool_inv g pool" and w: "wid < MAX_NPOOLS"
  shows "\<exists>elm g' pool'. lc_pool_get_nb g pool wid rand = Inr (elm, g', pool') \<and> pool_inv g' pool'
      \<and> pop_effect pool elm pool'"
proof -
  obtain pid g' pool' where l: "lc_pool_get_local g pool wid = Inr (pid, g', pool')"
      "pool_inv g' pool'" "pid < length (lpools pool')" "pool_mset pool' = pool_mset pool"
    using get_local_ok [OF i w] by blast
  obtain elm p where p: "pop_local pool' pid = Inr (elm, p)" "pool_inv g' p" "pop_effect pool' elm p"
      "npools p = npools pool'" "elm = NULL \<longrightarrow> p = pool'"
    using pop_local_ok [OF l(2,3)] by blast
  have n: "rand mod npools pool' < length (lpools pool')"
    using l(2,3) by (simp add: pool_inv_def) (metis mod_less_divisor not_less0 neq0_conv)
  show ?thesis
  proof (cases "elm = NULL")
    case True
    obtain e q where "steal_from pool' (rand mod npools pool') = Inr (e, q)" "pool_inv g' q"
        "pop_effect pool' e q"
      using steal_from_ok [OF l(2) n] by blast
    then show ?thesis using True l p by (auto simp: lc_pool_get_nb_def pop_effect_def)
  next
    case False
    then show ?thesis using l p by (simp add: lc_pool_get_nb_def pop_effect_def)
  qed
qed

abbreviation pool_put_pair :: "pool_globals \<times> lc_pool \<Rightarrow> nat \<Rightarrow> addr \<Rightarrow> (pool_globals \<times> lc_pool) res" where
  "pool_put_pair p wid x \<equiv> lc_pool_put (fst p) (snd p) wid x"

abbreviation pool_get_pair ::
    "pool_globals \<times> lc_pool \<Rightarrow> nat \<Rightarrow> nat \<Rightarrow> (addr \<times> pool_globals \<times> lc_pool) res" where
  "pool_get_pair p wid r \<equiv> lc_pool_get_nb (fst p) (snd p) wid r"

interpretation pp: packet_pool pool_put_pair pool_get_pair "\<lambda>p. pool_mset (snd p)"
    "\<lambda>p. pool_inv (fst p) (snd p)"
proof unfold_locales
  fix p :: "pool_globals \<times> lc_pool" and wid x
  assume "pool_inv (fst p) (snd p)" "wid < MAX_NPOOLS" "x \<noteq> NULL" "size (pool_mset (snd p)) < 4095"
  from lc_pool_put_ok [OF this] show "\<exists>p'. pool_put_pair p wid x = Inr p' \<and> pool_inv (fst p') (snd p')
      \<and> pool_mset (snd p') = add_mset x (pool_mset (snd p))" by auto
next
  fix p :: "pool_globals \<times> lc_pool" and wid r
  assume "pool_inv (fst p) (snd p)" "wid < MAX_NPOOLS"
  from lc_pool_get_nb_ok [OF this] show "\<exists>y p'. pool_get_pair p wid r = Inr (y, p')
      \<and> pool_inv (fst p') (snd p') \<and> (if y = NULL then pool_mset (snd p') = pool_mset (snd p)
           else pool_mset (snd p) = add_mset y (pool_mset (snd p')))"
    by (fastforce simp: pop_effect_def)
qed

text \<open>The loop of \<open>lc_pool_get_slow\<close> stops at the first victim that has a packet.\<close>

lemma lc_pool_get_slow_ok:
  "pool_inv g pool \<Longrightarrow> i < fuel \<Longrightarrow> npools pool \<noteq> 0 \<Longrightarrow>
    dq_list (lpools pool ! (rnd i mod npools pool)) \<noteq> [] \<Longrightarrow>
    \<exists>elm pool'. lc_pool_get_slow fuel pool rnd = Inr (elm, pool') \<and> elm \<noteq> NULL \<and> pool_inv g pool'
      \<and> pool_mset pool = add_mset elm (pool_mset pool')"
proof (induction fuel arbitrary: i rnd)
  case 0
  then show ?case by simp
next
  case (Suc fuel)
  have n: "rnd 0 mod npools pool < length (lpools pool)"
    using Suc.prems(1,3) by (simp add: pool_inv_def)
  obtain e q where s: "steal_from pool (rnd 0 mod npools pool) = Inr (e, q)" "pool_inv g q"
      "pop_effect pool e q" "e = NULL \<longleftrightarrow> dq_list (lpools pool ! (rnd 0 mod npools pool)) = []"
      "e = NULL \<longrightarrow> q = pool"
    using steal_from_ok [OF Suc.prems(1) n] by blast
  show ?case
  proof (cases "e = NULL")
    case True
    then obtain j where "i = Suc j" using s(4) Suc.prems(4) by (cases i) auto
    then show ?thesis
      using Suc.IH [of j "\<lambda>i. rnd (Suc i)"] Suc.prems s True by auto
  next
    case False
    then show ?thesis using s by (simp add: pop_effect_def)
  qed
qed

section \<open>Properties\<close>

text \<open>
  Property C6. The pool neither loses nor invents packets and never overflows or indexes
  outside its arrays: for every sequence of puts and non-blocking gets by any cores, if at most
  4095 pointers are in the pool and on their way into it, the sequence runs to its end, and the
  pointers that were there and were put are exactly those still there and those handed out.
\<close>

theorem lc_pool_conserves:
  assumes "pool_inv g pool" "list_all op_ok ops" "size (pool_mset pool) + length (puts ops) \<le> 4095"
  shows "\<exists>out g' pool'. run_pool pool_put_pair pool_get_pair ops (g, pool) = Inr (out, g', pool')
      \<and> pool_inv g' pool' \<and> pool_mset pool + mset (puts ops) = pool_mset pool' + mset out"
  using pp.run_conserves [of "(g, pool)" ops] assms by auto

lemma lc_pool_create_first:
  "lc_pool_create pool_globals_init =
     Inr ((lc_pool_init pool_globals_init)\<lparr>lc_pool_nkey := 1\<rparr>, \<lparr>pl_key = 0, npools = 0, lpools = []\<rparr>)"
  by (simp add: lc_pool_create_def pool_globals_init_def lc_pool_init_def)

lemma lc_pool_create_first_inv:
  "pool_inv ((lc_pool_init pool_globals_init)\<lparr>lc_pool_nkey := 1\<rparr>) \<lparr>pl_key = 0, npools = 0, lpools = []\<rparr>"
proof -
  have "pool_cores ((lc_pool_init pool_globals_init)\<lparr>lc_pool_nkey := 1\<rparr>)
      \<lparr>pl_key = 0, npools = 0, lpools = []\<rparr> = {}"
    by (auto simp: pool_cores_def lc_pool_init_def pool_globals_init_def pool_consts)
  then show ?thesis by (simp add: pool_inv_def pool_consts bij_betw_def)
qed

theorem lc_pool_conserves_witness:
  "\<exists>out g' pool'. run_pool pool_put_pair pool_get_pair [Put 3 64, Put 5 128, Get 5 0]
       ((lc_pool_init pool_globals_init)\<lparr>lc_pool_nkey := 1\<rparr>, \<lparr>pl_key = 0, npools = 0, lpools = []\<rparr>)
       = Inr (out, g', pool')
     \<and> pool_inv g' pool' \<and> {#64, 128#} = pool_mset pool' + mset out"
  using lc_pool_conserves [OF lc_pool_create_first_inv, of "[Put 3 64, Put 5 128, Get 5 0]"]
  by (simp add: pool_mset_def pool_consts add_mset_commute)

text \<open>
  Property C36. The blocking get returns: as soon as one of the values of \<open>rand\<close> hits a
  dequeue with a packet, \<open>lc_pool_get\<close> hands out a packet of the pool and removes it.
\<close>

theorem lc_pool_get_returns:
  assumes "pool_inv g pool" "wid \<in> pool_cores g pool" "i < fuel"
    and "dq_list (lpools pool ! (rnd i mod npools pool)) \<noteq> []"
  shows "\<exists>elm g' pool'. lc_pool_get fuel g pool wid rnd = Inr (elm, g', pool') \<and> elm \<noteq> NULL
      \<and> pool_inv g' pool' \<and> pool_mset pool = add_mset elm (pool_mset pool')"
proof -
  obtain pid where l: "lc_pool_get_local g pool wid = Inr (pid, g, pool)" "pid < length (lpools pool)"
    using get_local_known [OF assms(1,2)] by blast
  obtain elm p where p: "pop_local pool pid = Inr (elm, p)" "pool_inv g p" "pop_effect pool elm p"
      "elm = NULL \<longrightarrow> p = pool"
    using pop_local_ok [OF assms(1) l(2)] by blast
  have n: "npools pool \<noteq> 0" using l(2) assms(1) by (auto simp: pool_inv_def)
  show ?thesis
  proof (cases "elm = NULL")
    case True
    then show ?thesis
      using l p lc_pool_get_slow_ok [where rnd = rnd and i = i, OF assms(1,3) n assms(4)] by (auto simp: lc_pool_get_def)
  next
    case False
    then show ?thesis using l p by (simp add: lc_pool_get_def pop_effect_def)
  qed
qed

lemma pool_example:
  assumes "x \<noteq> NULL"
  obtains g pool pool' where "lc_pool_put ((lc_pool_init pool_globals_init)\<lparr>lc_pool_nkey := 1\<rparr>)
       \<lparr>pl_key = 0, npools = 0, lpools = []\<rparr> 3 x = Inr (g, pool)" "pool_inv g pool"
     "3 \<in> pool_cores g pool" "npools pool = 1" "dq_list (lpools pool ! 0) = [x]"
     "lc_pool_get_nb g pool 3 r = Inr (x, g, pool')" "pool_inv g pool'"
proof -
  let ?g = "(lc_pool_init pool_globals_init)\<lparr>lc_pool_nkey := 1\<rparr>"
    and ?p = "\<lparr>pl_key = 0, npools = 0, lpools = []\<rparr>"
  have "pool_mset ?p = {#}" by (simp add: pool_mset_def)
  then obtain g pool where put: "lc_pool_put ?g ?p 3 x = Inr (g, pool)" "pool_inv g pool"
    using lc_pool_put_ok [OF lc_pool_create_first_inv _ assms, of 3] by (auto simp: pool_consts)
  obtain d where d: "dq_push_top dq_init x = Inr d" "dq_inv d" "dq_list d = [x]"
    using dq_push_top_ok [of dq_init x] by auto
  obtain d' where d': "dq_pop_top d = (x, d')" using dq_pop_top_snoc [of d "[]" x] d by auto
  have g: "pool = \<lparr>pl_key = 0, npools = 1, lpools = [d]\<rparr>" "tls_pool_struct g 3 0 = 0"
    using put(1) d by (auto simp: pool_consts lc_pool_put_def lc_pool_get_local_def tls_index_ok_def
        lc_pool_put_to_def lc_pool_init_def pool_globals_init_def Let_def)
  have nb: "lc_pool_get_nb g pool 3 r = Inr (x, g, pool\<lparr>lpools := [d']\<rparr>)"
    using g d' assms by (simp add: lc_pool_get_nb_def lc_pool_get_local_def tls_index_ok_def pop_local_def
        pool_consts Let_def)
  moreover have "pool_inv g (pool\<lparr>lpools := [d']\<rparr>)"
    using lc_pool_get_nb_ok [OF put(2), of 3 r] nb by (auto simp: pool_consts)
  ultimately show ?thesis using that put d g by (auto simp: pool_cores_def pool_consts)
qed

theorem lc_pool_get_returns_witness:
  "\<exists>elm g' pool'. bind_res (lc_pool_put ((lc_pool_init pool_globals_init)\<lparr>lc_pool_nkey := 1\<rparr>)
       \<lparr>pl_key = 0, npools = 0, lpools = []\<rparr> 3 64) (\<lambda>(g, pool). lc_pool_get 1 g pool 3 (\<lambda>_. 0))
     = Inr (elm, g', pool') \<and> elm \<noteq> NULL"
  by (rule pool_example [of 64 0]) (use lc_pool_get_returns [of _ _ 3 0 1 "\<lambda>_. 0"] in fastforce)+

text \<open>
  The 33rd pool is created although it has no column in \<open>tls_pool_struct\<close>: the
  check in \<open>lc_pool_create\<close> lets key \<open>MAX_LOCAL_POOL\<close> through, and the first use of that
  pool indexes outside the table.
\<close>

theorem lc_pool_create_off_by_one:
  assumes "initialized g" "lc_pool_nkey g = int MAX_LOCAL_POOL"
  shows "\<exists>g' pool. lc_pool_create g = Inr (g', pool)
      \<and> lc_pool_put g' pool wid elm = Inl Out_of_bounds"
proof -
  let ?g = "g\<lparr>lc_pool_nkey := int MAX_LOCAL_POOL + 1\<rparr>"
  let ?pool = "\<lparr>pl_key = int MAX_LOCAL_POOL, npools = 0, lpools = []\<rparr>"
  have "lc_pool_create g = Inr (?g, ?pool)" using assms by (simp add: lc_pool_create_def Let_def)
  moreover have "lc_pool_put ?g ?pool wid elm = Inl Out_of_bounds"
    by (simp add: lc_pool_put_def lc_pool_get_local_def tls_index_ok_def)
  ultimately show ?thesis by blast
qed

theorem lc_pool_create_off_by_one_witness:
  "\<exists>g' pool. lc_pool_create ((lc_pool_init pool_globals_init)\<lparr>lc_pool_nkey := 32\<rparr>) = Inr (g', pool)
      \<and> lc_pool_put g' pool 0 64 = Inl Out_of_bounds"
  using lc_pool_create_off_by_one [of "(lc_pool_init pool_globals_init)\<lparr>lc_pool_nkey := 32\<rparr>" 0 64]
  by (simp add: lc_pool_init_def pool_globals_init_def pool_consts)

end
