(* ===== verification/LC_Hash.thy ===== *)
theory LC_Hash
  imports LC_Prelude
begin

text \<open>
  The matching table of \<open>include/lc/hashtable.h\<close> and \<open>src/hashtable.c\<close>. One routine both
  looks up and stores: a receive (\<open>CLIENT\<close>) and an arriving packet (\<open>SERVER\<close>) call
  \<open>lc_hash_insert\<close> with the same key, and whichever comes second takes the entry the first
  one left. A bucket is a chain of rows of three slots; the theorems show that the chain is a
  first-in first-out queue per key, whatever holes the removals leave in it.
\<close>

section \<open>Model\<close>

definition EMPTY :: u64 where "EMPTY = - 1"
definition TBL_BIT_SIZE :: nat where "TBL_BIT_SIZE = 16"
definition TBL_WIDTH :: nat where "TBL_WIDTH = 4"

datatype insert_type = CLIENT | SERVER

fun type_bit :: "insert_type \<Rightarrow> u64" where
  "type_bit CLIENT = 0"
| "type_bit SERVER = 1"

record hash_val =
  hv_tag :: u64
  hv_val :: u64

text \<open>A row is the three slots behind one control word; \<open>control.next\<close> is the tail of the list.\<close>

type_synonym hash_row = "hash_val list"
type_synonym lc_hash = "u32 \<Rightarrow> hash_row list"

definition lc_make_key :: "u32 \<Rightarrow> u32 \<Rightarrow> u64" where
  \<comment> \<open>both arguments are \<open>int\<close>: the conversions to \<open>uint64_t\<close> extend the sign\<close>
  "lc_make_key r t = push_bit 32 (scast r) OR scast t"

definition Prime :: u32 where "Prime = 0x01000193"
definition Seed :: u32 where "Seed = 0x811C9DC5"

definition TINY_MASK :: "nat \<Rightarrow> u32" where
  "TINY_MASK x = push_bit x 1 - 1"

definition myhash :: "u64 \<Rightarrow> u32" where
  "myhash k =
     (let byte = (\<lambda>i. ucast (drop_bit i k AND 0xff) :: u32);
          hash = (byte 0 XOR Seed) * Prime;
          hash = (byte 8 XOR hash) * Prime;
          hash = (byte 16 XOR hash) * Prime;
          hash = (byte 24 XOR hash) * Prime;
          hash = (byte 32 XOR hash) * Prime;
          hash = (byte 40 XOR hash) * Prime;
          hash = (byte 48 XOR hash) * Prime;
          hash = (byte 56 XOR hash) * Prime
      in (drop_bit TBL_BIT_SIZE hash XOR hash) AND TINY_MASK TBL_BIT_SIZE)"

definition empty_row :: hash_row where
  "empty_row = replicate (TBL_WIDTH - 1) \<lparr>hv_tag = EMPTY, hv_val = 0\<rparr>"

definition create_table :: lc_hash where
  "create_table = (\<lambda>_. [empty_row])"

definition lc_hash_create :: lc_hash where
  "lc_hash_create = create_table"

text \<open>
  The \<open>while\<close> loop: over the slots of a row and over the rows of the chain. It returns the
  position of the slot with the wanted tag (\<open>Inl\<close>), or, at the end of the chain, the first
  slot of the run of empty slots at the end (\<open>Inr\<close>), if there is one.
\<close>

fun scan_slots :: "u64 \<Rightarrow> nat \<Rightarrow> nat \<Rightarrow> hash_row \<Rightarrow> (nat \<times> nat) option
    \<Rightarrow> (nat \<times> nat) + (nat \<times> nat) option" where
  "scan_slots cmp_key r j [] empty_hentry = Inr empty_hentry"
| "scan_slots cmp_key r j (hentry # hs) empty_hentry =
     (if hv_tag hentry = cmp_key then Inl (r, j)
      else if hv_tag hentry = EMPTY then
        scan_slots cmp_key r (Suc j) hs
          (case empty_hentry of None \<Rightarrow> Some (r, j) | Some e \<Rightarrow> Some e)
      else scan_slots cmp_key r (Suc j) hs None)"

fun scan_rows :: "u64 \<Rightarrow> nat \<Rightarrow> hash_row list \<Rightarrow> (nat \<times> nat) option
    \<Rightarrow> (nat \<times> nat) + (nat \<times> nat) option" where
  "scan_rows cmp_key r [] empty_hentry = Inr empty_hentry"
| "scan_rows cmp_key r (row # rows) empty_hentry =
     (case scan_slots cmp_key r 0 row empty_hentry of
        Inl p \<Rightarrow> Inl p
      | Inr e \<Rightarrow> scan_rows cmp_key (Suc r) rows e)"

definition slot_upd :: "hash_row list \<Rightarrow> nat \<times> nat \<Rightarrow> (hash_val \<Rightarrow> hash_val) \<Rightarrow> hash_row list" where
  "slot_upd rows p f = (case p of (r, j) \<Rightarrow> rows[r := (rows ! r)[j := f (rows ! r ! j)]])"

text \<open>
  The result is the returned flag (0: a matching entry was taken; 1: stored), the value left
  in \<open>*value\<close>, and the table.
\<close>

definition lc_hash_insert ::
    "lc_hash \<Rightarrow> u64 \<Rightarrow> u64 \<Rightarrow> insert_type \<Rightarrow> nat \<times> u64 \<times> lc_hash" where
  "lc_hash_insert h key value type =
     (let hash = myhash key;
          rows = h hash;
          cmp_key = push_bit 1 key OR (1 - type_bit type);
          new = \<lparr>hv_tag = push_bit 1 key OR type_bit type, hv_val = value\<rparr>
      in case scan_rows cmp_key 0 rows None of
           Inl (r, j) \<Rightarrow>
             (0, hv_val (rows ! r ! j), h(hash := slot_upd rows (r, j) (\<lambda>e. e\<lparr>hv_tag := EMPTY\<rparr>)))
         | Inr (Some (r, j)) \<Rightarrow> (1, value, h(hash := slot_upd rows (r, j) (\<lambda>_. new)))
         | Inr None \<Rightarrow> (1, value, h(hash := rows @ [empty_row[0 := new]])))"

section \<open>The scan on the flattened chain\<close>

text \<open>The slots of a chain in order, and the entries stored in them.\<close>

definition live :: "hash_val list \<Rightarrow> hash_val list" where
  "live es = filter (\<lambda>e. hv_tag e \<noteq> EMPTY) es"

text \<open>The same loop over one list of slots, with flat positions.\<close>

fun scan_flat :: "u64 \<Rightarrow> nat \<Rightarrow> hash_val list \<Rightarrow> nat option \<Rightarrow> nat + nat option" where
  "scan_flat c i [] e = Inr e"
| "scan_flat c i (h # hs) e =
     (if hv_tag h = c then Inl i
      else scan_flat c (Suc i) hs
        (if hv_tag h = EMPTY then (case e of None \<Rightarrow> Some i | Some x \<Rightarrow> Some x) else None))"

definition rows_ok :: "hash_row list \<Rightarrow> bool" where
  "rows_ok rows \<longleftrightarrow> (\<forall>row \<in> set rows. length row = 3)"

definition flat :: "nat \<times> nat \<Rightarrow> nat" where
  "flat p = 3 * fst p + snd p"

lemma flat_Pair [simp]: "flat (r, j) = 3 * r + j"
  by (simp add: flat_def)

lemma scan_slots_flat:
  "scan_flat c (3 * r + j) hs (map_option flat e)
     = map_sum flat (map_option flat) (scan_slots c r j hs e)"
proof (induction c r j hs e rule: scan_slots.induct)
  case (1 c r j e)
  then show ?case by simp
next
  case (2 c r j h hs e)
  then show ?case by (cases e) auto
qed

lemma scan_flat_append:
  "scan_flat c i (xs @ ys) e =
     (case scan_flat c i xs e of Inl p \<Rightarrow> Inl p | Inr e' \<Rightarrow> scan_flat c (i + length xs) ys e')"
  by (induction xs arbitrary: i e) (simp_all split: sum.split)

lemma scan_rows_flat:
  assumes "rows_ok rows"
  shows "scan_flat c (3 * r) (concat rows) (map_option flat e)
       = map_sum flat (map_option flat) (scan_rows c r rows e)"
  using assms
proof (induction rows arbitrary: r e)
  case Nil
  then show ?case by simp
next
  case (Cons row rows)
  then have l: "length row = 3" "rows_ok rows" by (auto simp: rows_ok_def)
  show ?case
  proof (cases "scan_slots c r 0 row e")
    case (Inl p)
    then show ?thesis using scan_slots_flat [of c r 0 row e] by (simp add: scan_flat_append)
  next
    case (Inr e')
    have "scan_flat c (3 * r) row (map_option flat e) = Inr (map_option flat e')"
      using scan_slots_flat [of c r 0 row e] Inr by simp
    moreover have "3 * r + length row = 3 * Suc r" using l by simp
    ultimately show ?thesis
      using Inr Cons.IH [OF l(2), of "Suc r" e'] by (simp only: scan_flat_append concat.simps) simp
  qed
qed

text \<open>What the flat scan finds.\<close>

lemma scan_flat_Inl:
  "scan_flat c i es e = Inl p \<Longrightarrow>
    \<exists>xs x ys. es = xs @ x # ys \<and> p = i + length xs \<and> hv_tag x = c \<and> (\<forall>y \<in> set xs. hv_tag y \<noteq> c)"
proof (induction es arbitrary: i e)
  case Nil
  then show ?case by simp
next
  case (Cons h hs)
  show ?case
  proof (cases "hv_tag h = c")
    case True
    then show ?thesis using Cons.prems by (intro exI [of _ "[]"]) auto
  next
    case False
    then obtain xs x ys where
      "hs = xs @ x # ys" "p = Suc i + length xs" "hv_tag x = c" "\<forall>y \<in> set xs. hv_tag y \<noteq> c"
      using Cons by (auto dest!: Cons.IH)
    then show ?thesis using False by (intro exI [of _ "h # xs"]) auto
  qed
qed

lemma scan_flat_Inr:
  "scan_flat c i es e = Inr e' \<Longrightarrow>
    (\<forall>y \<in> set es. hv_tag y \<noteq> c) \<and>
    (if live es = [] then e' = (case e of Some x \<Rightarrow> Some x | None \<Rightarrow> if es = [] then None else Some i)
     else case e' of
       None \<Rightarrow> hv_tag (last es) \<noteq> EMPTY
     | Some p \<Rightarrow> i < p \<and> p < i + length es \<and> live (drop (p - i) es) = [])"
proof (induction es arbitrary: i e)
  case Nil
  then show ?case by (auto simp: live_def split: option.splits)
next
  case (Cons h hs)
  then have ne: "hv_tag h \<noteq> c" by (auto split: if_splits)
  let ?e = "if hv_tag h = EMPTY then (case e of None \<Rightarrow> Some i | Some x \<Rightarrow> Some x) else None"
  have s: "scan_flat c (Suc i) hs ?e = Inr e'" using Cons.prems ne by simp
  note IH = Cons.IH [OF s]
  show ?case
  proof (cases "live hs = []")
    case True
    then show ?thesis using IH ne
      by (auto simp: live_def last_ConsL filter_empty_conv split: option.splits if_splits)
  next
    case False
    then have "hs \<noteq> []" by (auto simp: live_def)
    then show ?thesis using IH ne False
      by (auto simp: live_def drop_Cons' split: option.splits if_splits)
  qed
qed

text \<open>Positions the nested loops return are positions of the chain.\<close>

definition pos_ok :: "hash_row list \<Rightarrow> nat \<times> nat \<Rightarrow> bool" where
  "pos_ok rows p \<longleftrightarrow> fst p < length rows \<and> snd p < 3"

definition scan_bound :: "nat \<Rightarrow> nat \<times> nat \<Rightarrow> bool" where
  "scan_bound n p \<longleftrightarrow> fst p < n \<and> snd p < 3"

lemma scan_slots_bound:
  "pred_option (scan_bound n) e \<Longrightarrow> r < n \<Longrightarrow> j + length hs \<le> 3 \<Longrightarrow>
    pred_sum (scan_bound n) (pred_option (scan_bound n)) (scan_slots c r j hs e)"
  by (induction c r j hs e rule: scan_slots.induct) (auto simp: scan_bound_def split: option.split)

lemma scan_rows_bound:
  "pred_option (scan_bound n) e \<Longrightarrow> r + length rows \<le> n \<Longrightarrow> rows_ok rows \<Longrightarrow>
    pred_sum (scan_bound n) (pred_option (scan_bound n)) (scan_rows c r rows e)"
proof (induction rows arbitrary: r e)
  case Nil
  then show ?case by simp
next
  case (Cons row rows)
  then have "pred_sum (scan_bound n) (pred_option (scan_bound n)) (scan_slots c r 0 row e)"
    by (intro scan_slots_bound) (auto simp: rows_ok_def)
  moreover have "r + length rows < n" "rows_ok rows" using Cons.prems by (auto simp: rows_ok_def)
  ultimately show ?case using Cons.IH by (auto split: sum.split)
qed

lemma length_concat_rows: "rows_ok rows \<Longrightarrow> length (concat rows) = 3 * length rows"
  by (induction rows) (auto simp: rows_ok_def)

lemma nth_concat_rows:
  "rows_ok rows \<Longrightarrow> pos_ok rows (r, j) \<Longrightarrow> concat rows ! (3 * r + j) = rows ! r ! j"
proof (induction rows arbitrary: r)
  case Nil
  then show ?case by (simp add: pos_ok_def)
next
  case (Cons row rows)
  then show ?case
    by (cases r) (auto simp: rows_ok_def pos_ok_def nth_append)
qed

lemma concat_slot_upd:
  "rows_ok rows \<Longrightarrow> pos_ok rows (r, j) \<Longrightarrow>
    concat (slot_upd rows (r, j) f) = (concat rows)[3 * r + j := f (rows ! r ! j)]"
proof (induction rows arbitrary: r)
  case Nil
  then show ?case by (simp add: pos_ok_def)
next
  case (Cons row rows)
  then show ?case
    by (cases r) (auto simp: rows_ok_def pos_ok_def list_update_append slot_upd_def)
qed

lemma rows_ok_slot_upd:
  "rows_ok rows \<Longrightarrow> pos_ok rows p \<Longrightarrow> rows_ok (slot_upd rows p f)"
  by (cases p) (auto simp: rows_ok_def slot_upd_def pos_ok_def dest!: set_update_subset_insert [THEN subsetD])

section \<open>Refinement to a list of pending entries\<close>

text \<open>
  The abstract table is the list of entries in order of arrival: an insertion takes the first
  entry with the opposite tag, or appends itself.
\<close>

fun take_first :: "u64 \<Rightarrow> hash_val list \<Rightarrow> (hash_val \<times> hash_val list) option" where
  "take_first c [] = None"
| "take_first c (x # xs) =
     (if hv_tag x = c then Some (x, xs)
      else case take_first c xs of None \<Rightarrow> None | Some (y, ys) \<Rightarrow> Some (y, x # ys))"

definition match_step :: "u64 \<Rightarrow> hash_val \<Rightarrow> hash_val list \<Rightarrow> nat \<times> u64 \<times> hash_val list" where
  "match_step c new l =
     (case take_first c l of
        Some (x, rest) \<Rightarrow> (0, hv_val x, rest)
      | None \<Rightarrow> (1, hv_val new, l @ [new]))"

definition entries :: "lc_hash \<Rightarrow> u32 \<Rightarrow> hash_val list" where
  "entries h b = live (concat (h b))"

definition chains_ok :: "lc_hash \<Rightarrow> bool" where
  "chains_ok h \<longleftrightarrow> (\<forall>b. rows_ok (h b) \<and> h b \<noteq> [])"

lemma take_first_None_iff: "take_first c l = None \<longleftrightarrow> (\<forall>x \<in> set l. hv_tag x \<noteq> c)"
  by (induction l) (auto split: option.split)

lemma take_first_split:
  "\<forall>y \<in> set xs. hv_tag y \<noteq> c \<Longrightarrow> hv_tag x = c \<Longrightarrow> take_first c (xs @ x # ys) = Some (x, xs @ ys)"
  by (induction xs) auto

lemma live_append [simp]: "live (xs @ ys) = live xs @ live ys"
  by (simp add: live_def)

lemma live_Cons [simp]: "live (x # xs) = (if hv_tag x = EMPTY then live xs else x # live xs)"
  by (simp add: live_def)

lemma live_Nil [simp]: "live [] = []"
  by (simp add: live_def)

lemma live_empty_row [simp]: "live empty_row = []" "length empty_row = 3"
  by (simp_all add: empty_row_def TBL_WIDTH_def numeral_3_eq_3)

lemma live_new_row: "hv_tag new \<noteq> EMPTY \<Longrightarrow> live (empty_row[0 := new]) = [new]"
  by (simp add: empty_row_def TBL_WIDTH_def numeral_3_eq_3)

lemma scan_take:
  assumes "rows_ok rows" "c \<noteq> EMPTY" "scan_rows c 0 rows None = Inl (r, j)"
  shows "pos_ok rows (r, j)"
    and "take_first c (live (concat rows))
       = Some (rows ! r ! j, live (concat (slot_upd rows (r, j) (\<lambda>e. e\<lparr>hv_tag := EMPTY\<rparr>))))"
proof -
  show p: "pos_ok rows (r, j)"
    using scan_rows_bound [of "length rows" None 0 rows c] assms
    by (simp add: pos_ok_def scan_bound_def)
  have "scan_flat c 0 (concat rows) None = Inl (3 * r + j)"
    using scan_rows_flat [OF assms(1), of c 0 None] assms(3) by simp
  from scan_flat_Inl [OF this] obtain xs x ys where
    s: "concat rows = xs @ x # ys" "3 * r + j = length xs" "hv_tag x = c"
      "\<forall>y \<in> set xs. hv_tag y \<noteq> c" by auto
  have "x = rows ! r ! j" using nth_concat_rows [OF assms(1) p] s by simp
  moreover have "\<forall>y \<in> set (live xs). hv_tag y \<noteq> c" using s by (auto simp: live_def)
  ultimately show "take_first c (live (concat rows))
       = Some (rows ! r ! j, live (concat (slot_upd rows (r, j) (\<lambda>e. e\<lparr>hv_tag := EMPTY\<rparr>))))"
    using s assms(2) concat_slot_upd [OF assms(1) p] by (simp add: take_first_split)
qed

lemma scan_store:
  assumes "rows_ok rows" "hv_tag new \<noteq> EMPTY" "scan_rows c 0 rows None = Inr (Some (r, j))"
  shows "pos_ok rows (r, j)"
    and "take_first c (live (concat rows)) = None"
    and "live (concat (slot_upd rows (r, j) (\<lambda>_. new))) = live (concat rows) @ [new]"
proof -
  show p: "pos_ok rows (r, j)"
    using scan_rows_bound [of "length rows" None 0 rows c] assms
    by (simp add: pos_ok_def scan_bound_def)
  have "scan_flat c 0 (concat rows) None = Inr (Some (3 * r + j))"
    using scan_rows_flat [OF assms(1), of c 0 None] assms(3) by simp
  note f = scan_flat_Inr [OF this]
  then show "take_first c (live (concat rows)) = None"
    by (auto simp: take_first_None_iff live_def)
  have l: "3 * r + j < length (concat rows)"
    using p length_concat_rows [OF assms(1)] by (simp add: pos_ok_def)
  have d: "live (drop (3 * r + j) (concat rows)) = []"
    using f by (auto split: if_splits)
  let ?es = "concat rows" and ?k = "3 * r + j"
  have es: "?es = take ?k ?es @ ?es ! ?k # drop (Suc ?k) ?es" using l by (rule id_take_nth_drop)
  have "live (drop ?k ?es) = live (?es ! ?k # drop (Suc ?k) ?es)"
    using l by (simp add: Cons_nth_drop_Suc)
  then have t: "live (drop (Suc ?k) ?es) = []" "hv_tag (?es ! ?k) = EMPTY"
    using d by (auto split: if_splits)
  have "live ?es = live (take ?k ?es)" using t by (subst es) simp
  then show "live (concat (slot_upd rows (r, j) (\<lambda>_. new))) = live (concat rows) @ [new]"
    using t assms(2) l by (simp add: concat_slot_upd [OF assms(1) p] upd_conv_take_nth_drop)
qed

lemma scan_extend:
  assumes "rows_ok rows" "scan_rows c 0 rows None = Inr None"
  shows "take_first c (live (concat rows)) = None"
proof -
  have "scan_flat c 0 (concat rows) None = Inr None"
    using scan_rows_flat [OF assms(1), of c 0 None] assms(2) by simp
  from scan_flat_Inr [OF this] show ?thesis by (auto simp: take_first_None_iff live_def)
qed

lemma lc_hash_insert_refines:
  assumes "chains_ok h" "push_bit 1 key OR (1 - type_bit type) \<noteq> EMPTY"
    and "push_bit 1 key OR type_bit type \<noteq> EMPTY"
    and "lc_hash_insert h key value type = (n, v, h')"
  shows "chains_ok h'"
    and "match_step (push_bit 1 key OR (1 - type_bit type))
           \<lparr>hv_tag = push_bit 1 key OR type_bit type, hv_val = value\<rparr> (entries h (myhash key))
         = (n, v, entries h' (myhash key))"
    and "b \<noteq> myhash key \<Longrightarrow> entries h' b = entries h b"
proof -
  let ?rows = "h (myhash key)" and ?c = "push_bit 1 key OR (1 - type_bit type)"
  let ?new = "\<lparr>hv_tag = push_bit 1 key OR type_bit type, hv_val = value\<rparr>"
  have ok: "rows_ok ?rows" "?rows \<noteq> []" using assms(1) by (auto simp: chains_ok_def)
  have sl: "slot_upd ?rows p f \<noteq> []" for p f using ok(2) by (cases p) (simp add: slot_upd_def)
  consider (take) r j where "scan_rows ?c 0 ?rows None = Inl (r, j)"
    | (store) r j where "scan_rows ?c 0 ?rows None = Inr (Some (r, j))"
    | (extend) "scan_rows ?c 0 ?rows None = Inr None"
    by (cases "scan_rows ?c 0 ?rows None") (auto, metis option.exhaust surj_pair)
  then have "chains_ok h' \<and> match_step ?c ?new (entries h (myhash key)) = (n, v, entries h' (myhash key))
      \<and> (\<forall>b. b \<noteq> myhash key \<longrightarrow> entries h' b = entries h b)"
  proof cases
    case take
    note t = scan_take [OF ok(1) assms(2) take]
    from assms(4) take show ?thesis
      using t sl rows_ok_slot_upd [OF ok(1) t(1)] assms(1)
      by (auto simp: lc_hash_insert_def Let_def match_step_def entries_def chains_ok_def
          split: if_splits)
  next
    case store
    note t = scan_store [of ?rows ?new ?c, OF ok(1) _ store]
    from assms(4) store show ?thesis
      using t sl rows_ok_slot_upd [OF ok(1) t(1)] assms(1,3)
      by (auto simp: lc_hash_insert_def Let_def match_step_def entries_def chains_ok_def
          split: if_splits)
  next
    case extend
    have "live (empty_row[0 := ?new]) = [?new]" using assms(3) by (intro live_new_row) simp
    with assms(4) extend show ?thesis
      using scan_extend [OF ok(1) extend] assms(1)
      by (auto simp: lc_hash_insert_def Let_def match_step_def entries_def chains_ok_def rows_ok_def
          split: if_splits)
  qed
  then show "chains_ok h'"
    and "match_step ?c ?new (entries h (myhash key)) = (n, v, entries h' (myhash key))"
    and "b \<noteq> myhash key \<Longrightarrow> entries h' b = entries h b" by blast+
qed

section \<open>The matching interface\<close>

fun other :: "insert_type \<Rightarrow> insert_type" where
  "other CLIENT = SERVER"
| "other SERVER = CLIENT"

lemma other_simps [simp]: "other (other t) = t" "other t \<noteq> t" "t \<noteq> other t"
  by (cases t; simp)+

text \<open>
  Keys for which the shifted tag loses nothing and is not \<open>EMPTY\<close>: all keys of a
  non-negative rank and tag.
\<close>

definition key_ok :: "u64 \<Rightarrow> bool" where
  "key_ok k \<longleftrightarrow> unat k < 2 ^ 63 - 1"

definition mk_tag :: "u64 \<Rightarrow> insert_type \<Rightarrow> u64" where
  "mk_tag k t = push_bit 1 k OR type_bit t"

lemma mk_tag_other: "push_bit 1 k OR (1 - type_bit t) = mk_tag k (other t)"
  by (cases t) (simp_all add: mk_tag_def)

lemma unat_mk_tag:
  assumes "key_ok k"
  shows "unat (mk_tag k t) = 2 * unat k + (if t = SERVER then 1 else 0)"
proof -
  have "2 * unat k + 1 < 2 ^ 64" using assms by (simp add: key_ok_def)
  then show ?thesis
    by (cases t) (simp_all add: mk_tag_def push_bit_eq_mult or_one_eq unat_word_ariths mult.commute)
qed

lemma mk_tag_eq_iff: "key_ok k \<Longrightarrow> key_ok k' \<Longrightarrow> mk_tag k t = mk_tag k' t' \<longleftrightarrow> k = k' \<and> t = t'"
proof -
  assume "key_ok k" "key_ok k'"
  then have "mk_tag k t = mk_tag k' t' \<longleftrightarrow>
      2 * unat k + (if t = SERVER then 1 else 0) = 2 * unat k' + (if t' = SERVER then 1 else 0)"
    by (simp add: word_unat_eq_iff unat_mk_tag)
  also have "\<dots> \<longleftrightarrow> unat k = unat k' \<and> t = t'"
    by (cases t; cases t') (auto, presburger+)
  finally show ?thesis by (simp add: word_unat_eq_iff)
qed

lemma mk_tag_not_EMPTY: "key_ok k \<Longrightarrow> mk_tag k t \<noteq> EMPTY"
proof
  assume k: "key_ok k" and "mk_tag k t = EMPTY"
  then have "unat (mk_tag k t) = 2 ^ 64 - 1"
    by (simp add: EMPTY_def unsigned_minus_1_eq_mask mask_eq_exp_minus_1)
  then show False using k by (auto simp: unat_mk_tag key_ok_def split: if_splits)
qed

definition waiting :: "lc_hash \<Rightarrow> insert_type \<Rightarrow> u64 \<Rightarrow> u64 list" where
  "waiting h t k = map hv_val (filter (\<lambda>e. hv_tag e = mk_tag k t) (entries h (myhash k)))"

definition hash_inv :: "lc_hash \<Rightarrow> bool" where
  "hash_inv h \<longleftrightarrow> chains_ok h
     \<and> (\<forall>k. key_ok k \<longrightarrow> waiting h CLIENT k = [] \<or> waiting h SERVER k = [])"

lemma hash_inv_excl: "hash_inv h \<Longrightarrow> key_ok k \<Longrightarrow> waiting h t k = [] \<or> waiting h (other t) k = []"
  by (cases t) (auto simp: hash_inv_def)

lemma take_first_filter:
  "take_first c l = Some (x, rest) \<Longrightarrow>
    hv_tag x = c \<and> filter (\<lambda>e. hv_tag e = c) l = x # filter (\<lambda>e. hv_tag e = c) rest
    \<and> (\<forall>d. d \<noteq> c \<longrightarrow> filter (\<lambda>e. hv_tag e = d) rest = filter (\<lambda>e. hv_tag e = d) l)"
  by (induction l arbitrary: rest) (auto split: if_splits option.splits)

text \<open>One insertion, in terms of the values waiting under each key.\<close>

lemma lc_hash_insert_waiting:
  assumes inv: "chains_ok h" and k: "key_ok key" and ins: "lc_hash_insert h key x t = (n, v, h')"
  shows "chains_ok h'"
    and "waiting h (other t) key = y # ys \<Longrightarrow> n = 0 \<and> v = y \<and> waiting h' (other t) key = ys
        \<and> (\<forall>t' k'. key_ok k' \<longrightarrow> (t', k') \<noteq> (other t, key) \<longrightarrow> waiting h' t' k' = waiting h t' k')"
    and "waiting h (other t) key = [] \<Longrightarrow> n = 1 \<and> v = x \<and> waiting h' t key = waiting h t key @ [x]
        \<and> (\<forall>t' k'. key_ok k' \<longrightarrow> (t', k') \<noteq> (t, key) \<longrightarrow> waiting h' t' k' = waiting h t' k')"
proof -
  note ne = mk_tag_not_EMPTY [OF k]
  note r = lc_hash_insert_refines [OF inv _ _ ins, unfolded mk_tag_other, folded mk_tag_def, OF ne ne]
  show "chains_ok h'" by (rule r(1))
  let ?E = "entries h (myhash key)" and ?E' = "entries h' (myhash key)"
  have frame: "waiting h' t' k' = waiting h t' k'" if "myhash k' \<noteq> myhash key" for t' k'
    using r(3) [OF that] by (simp add: waiting_def)
  { assume w: "waiting h (other t) key = y # ys"
    then have "take_first (mk_tag key (other t)) ?E \<noteq> None"
      by (auto simp: waiting_def take_first_None_iff filter_eq_Cons_iff)
    then obtain z rest where z: "take_first (mk_tag key (other t)) ?E = Some (z, rest)" by auto
    then have e: "n = 0" "v = hv_val z" "?E' = rest" using r(2) by (auto simp: match_step_def)
    note f = take_first_filter [OF z]
    have "waiting h' t' k' = waiting h t' k'" if "key_ok k'" "(t', k') \<noteq> (other t, key)" for t' k'
      using that f e frame [of k' t'] mk_tag_eq_iff [OF that(1) k, of t' "other t"]
      by (cases "myhash k' = myhash key") (auto simp: waiting_def)
    then show "n = 0 \<and> v = y \<and> waiting h' (other t) key = ys
        \<and> (\<forall>t' k'. key_ok k' \<longrightarrow> (t', k') \<noteq> (other t, key) \<longrightarrow> waiting h' t' k' = waiting h t' k')"
      using w f e by (auto simp: waiting_def) }
  { assume w: "waiting h (other t) key = []"
    then have "take_first (mk_tag key (other t)) ?E = None"
      by (auto simp: waiting_def take_first_None_iff filter_empty_conv)
    then have e: "n = 1" "v = x" "?E' = ?E @ [\<lparr>hv_tag = mk_tag key t, hv_val = x\<rparr>]"
      using r(2) by (auto simp: match_step_def)
    have "waiting h' t' k' = waiting h t' k'" if "key_ok k'" "(t', k') \<noteq> (t, key)" for t' k'
      using that e frame [of k' t'] mk_tag_eq_iff [OF that(1) k, of t' t]
      by (cases "myhash k' = myhash key") (auto simp: waiting_def)
    then show "n = 1 \<and> v = x \<and> waiting h' t key = waiting h t key @ [x]
        \<and> (\<forall>t' k'. key_ok k' \<longrightarrow> (t', k') \<noteq> (t, key) \<longrightarrow> waiting h' t' k' = waiting h t' k')"
      using e by (auto simp: waiting_def) }
qed

text \<open>
  What a client of the table relies on: an insertion takes the oldest value waiting on the
  other side under its key, or queues its own value; other keys are untouched; and values
  never wait on both sides of a key.
\<close>

fun run_inserts :: "('h \<Rightarrow> u64 \<Rightarrow> u64 \<Rightarrow> insert_type \<Rightarrow> nat \<times> u64 \<times> 'h) \<Rightarrow> 'h
    \<Rightarrow> (u64 \<times> u64 \<times> insert_type) list \<Rightarrow> (u64 \<times> u64 \<times> u64) list" where
  "run_inserts ins h [] = []"
| "run_inserts ins h ((k, x, t) # es) =
     (case ins h k x t of (n, v, h') \<Rightarrow>
        (if n = 0 then [(k, if t = CLIENT then (x, v) else (v, x))] else [])
        @ run_inserts ins h' es)"

definition side :: "insert_type \<Rightarrow> u64 \<Rightarrow> (u64 \<times> u64 \<times> insert_type) list \<Rightarrow> u64 list" where
  "side t k es = map (\<lambda>(k, x, t). x) (filter (\<lambda>(k', x, t'). k' = k \<and> t' = t) es)"

lemma side_simps [simp]:
  "side t k [] = []"
  "side t k ((k', x, t') # es) = (if k' = k \<and> t' = t then x # side t k es else side t k es)"
  by (simp_all add: side_def)

locale match_table =
  fixes ins :: "'h \<Rightarrow> u64 \<Rightarrow> u64 \<Rightarrow> insert_type \<Rightarrow> nat \<times> u64 \<times> 'h"
    and pending :: "'h \<Rightarrow> insert_type \<Rightarrow> u64 \<Rightarrow> u64 list"
    and invar :: "'h \<Rightarrow> bool"
  assumes ins_take: "invar h \<Longrightarrow> key_ok k \<Longrightarrow> pending h (other t) k = y # ys \<Longrightarrow>
      \<exists>h'. ins h k x t = (0, y, h') \<and> invar h' \<and> pending h' (other t) k = ys
        \<and> (\<forall>t' k'. key_ok k' \<longrightarrow> (t', k') \<noteq> (other t, k) \<longrightarrow> pending h' t' k' = pending h t' k')"
    and ins_store: "invar h \<Longrightarrow> key_ok k \<Longrightarrow> pending h (other t) k = [] \<Longrightarrow>
      \<exists>h'. ins h k x t = (1, x, h') \<and> invar h' \<and> pending h' t k = pending h t k @ [x]
        \<and> (\<forall>t' k'. key_ok k' \<longrightarrow> (t', k') \<noteq> (t, k) \<longrightarrow> pending h' t' k' = pending h t' k')"
    and excl: "invar h \<Longrightarrow> key_ok k \<Longrightarrow> pending h t k = [] \<or> pending h (other t) k = []"
begin

text \<open>Two insertions from both sides of a key nobody waits under meet, and leave no trace.\<close>

lemma meet:
  assumes "invar h" "key_ok k" "pending h CLIENT k = []" "pending h SERVER k = []"
  shows "\<exists>h1 h2. ins h k x t = (1, x, h1) \<and> ins h1 k y (other t) = (0, x, h2) \<and> invar h2
    \<and> (\<forall>t' k'. key_ok k' \<longrightarrow> pending h2 t' k' = pending h t' k')"
proof -
  have n: "pending h s k = []" for s using assms by (cases s) auto
  obtain h1 where h1: "ins h k x t = (1, x, h1)" "invar h1" "pending h1 t k = [x]"
      "\<forall>t' k'. key_ok k' \<longrightarrow> (t', k') \<noteq> (t, k) \<longrightarrow> pending h1 t' k' = pending h t' k'"
    using ins_store [OF assms(1,2) n, where t = t and x = x] n by auto
  have o: "other (other t) = t" by (cases t) auto
  obtain h2 where h2: "ins h1 k y (other t) = (0, x, h2)" "invar h2" "pending h2 t k = []"
      "\<forall>t' k'. key_ok k' \<longrightarrow> (t', k') \<noteq> (t, k) \<longrightarrow> pending h2 t' k' = pending h1 t' k'"
    using ins_take [OF h1(2) assms(2), of "other t" x "[]" y] h1(3) o by auto
  have "pending h2 t' k' = pending h t' k'" if "key_ok k'" for t' k'
    using h1(4) h2(3,4) n that by (cases "(t', k') = (t, k)") auto
  then show ?thesis using h1(1) h2(1,2) by blast
qed

lemma matches_in_order:
  "invar h \<Longrightarrow> \<forall>(k', x, t) \<in> set es. key_ok k' \<Longrightarrow> key_ok k \<Longrightarrow>
    map snd (filter (\<lambda>m. fst m = k) (run_inserts ins h es))
      = zip (pending h CLIENT k @ side CLIENT k es) (pending h SERVER k @ side SERVER k es)"
proof (induction es arbitrary: h)
  case Nil
  then show ?case using excl [of h k CLIENT] by auto
next
  case (Cons e es)
  obtain k' x t where e: "e = (k', x, t)" by (cases e)
  with Cons.prems have k': "key_ok k'" by simp
  show ?case
  proof (cases "pending h (other t) k'")
    case (Cons y ys)
    then have other: "pending h t k' = []" using excl [of h k' t] Cons.prems(1) k' by simp
    obtain h' where h': "ins h k' x t = (0, y, h')" "invar h'" "pending h' (other t) k' = ys"
        "\<forall>t'' k''. key_ok k'' \<longrightarrow> (t'', k'') \<noteq> (other t, k') \<longrightarrow> pending h' t'' k'' = pending h t'' k''"
      using ins_take [OF Cons.prems(1) k' Cons] by blast
    show ?thesis
      using Cons.IH [OF h'(2)] Cons.prems h' e Cons other
      by (cases t; cases "k' = k") auto
  next
    case Nil
    obtain h' where h': "ins h k' x t = (1, x, h')" "invar h'" "pending h' t k' = pending h t k' @ [x]"
        "\<forall>t'' k''. key_ok k'' \<longrightarrow> (t'', k'') \<noteq> (t, k') \<longrightarrow> pending h' t'' k'' = pending h t'' k''"
      using ins_store [OF Cons.prems(1) k' Nil] by blast
    show ?thesis
      using Cons.IH [OF h'(2)] Cons.prems h' e Nil
      by (cases t; cases "k' = k") auto
  qed
qed

end

lemma hash_inv_take:
  assumes "hash_inv h" "key_ok k" "waiting h (other t) k = y # ys"
  shows "\<exists>h'. lc_hash_insert h k x t = (0, y, h') \<and> hash_inv h' \<and> waiting h' (other t) k = ys
      \<and> (\<forall>t' k'. key_ok k' \<longrightarrow> (t', k') \<noteq> (other t, k) \<longrightarrow> waiting h' t' k' = waiting h t' k')"
proof -
  obtain n v h' where i: "lc_hash_insert h k x t = (n, v, h')" by (cases "lc_hash_insert h k x t")
  have c: "chains_ok h" using assms(1) by (simp add: hash_inv_def)
  note w = lc_hash_insert_waiting [OF c assms(2) i]
  have "waiting h' s k' = [] \<or> waiting h' (other s) k' = []" if "key_ok k'" for s k'
    using hash_inv_excl [OF assms(1) that, of s] hash_inv_excl [OF assms(1) assms(2), of s]
      w(2) [OF assms(3)] assms(3) that
    by (cases "k' = k"; cases t; cases s) auto
  from this [of _ CLIENT] have "hash_inv h'" using w(1) by (simp add: hash_inv_def)
  then show ?thesis using w(2) [OF assms(3)] i by blast
qed

lemma hash_inv_store:
  assumes "hash_inv h" "key_ok k" "waiting h (other t) k = []"
  shows "\<exists>h'. lc_hash_insert h k x t = (1, x, h') \<and> hash_inv h'
      \<and> waiting h' t k = waiting h t k @ [x]
      \<and> (\<forall>t' k'. key_ok k' \<longrightarrow> (t', k') \<noteq> (t, k) \<longrightarrow> waiting h' t' k' = waiting h t' k')"
proof -
  obtain n v h' where i: "lc_hash_insert h k x t = (n, v, h')" by (cases "lc_hash_insert h k x t")
  have c: "chains_ok h" using assms(1) by (simp add: hash_inv_def)
  note w = lc_hash_insert_waiting [OF c assms(2) i]
  have "waiting h' s k' = [] \<or> waiting h' (other s) k' = []" if "key_ok k'" for s k'
    using hash_inv_excl [OF assms(1) that, of s] w(3) [OF assms(3)] assms(3) that
    by (cases "k' = k"; cases t; cases s) auto
  from this [of _ CLIENT] have "hash_inv h'" using w(1) by (simp add: hash_inv_def)
  then show ?thesis using w(3) [OF assms(3)] i by blast
qed

lemma hash_create_ok [simp]: "hash_inv lc_hash_create" "waiting lc_hash_create t k = []"
  by (simp_all add: hash_inv_def chains_ok_def lc_hash_create_def create_table_def rows_ok_def
      waiting_def entries_def)

interpretation mt: match_table lc_hash_insert waiting hash_inv
  by unfold_locales (fact hash_inv_take hash_inv_store hash_inv_excl)+

section \<open>Keys\<close>

lemma scast_bit: "bit (scast (x :: u32) :: u64) n \<longleftrightarrow> n < 64 \<and> bit x (min n 31)"
  by (auto simp: bit_simps min_def)

lemma sint_nonneg_bit: "0 \<le> sint (x :: u32) \<longleftrightarrow> \<not> bit x 31"
  by (simp add: sint_uint bit_uint_iff)

lemma bit_u32_less: "bit (x :: u32) n \<Longrightarrow> n < 32"
  using bit_imp_le_length by fastforce

lemma sint_nonneg_unat:
  assumes "0 \<le> sint (x :: u32)"
  shows "unat x < 2 ^ 31"
proof -
  have "\<not> bit (unat x) 31" using assms by (simp add: sint_nonneg_bit bit_unsigned_iff)
  then have "even (unat x div 2 ^ 31)" by (simp add: bit_iff_odd)
  moreover have "unat x div 2 ^ 31 < 2"
    using unsigned_less [of x, where 'a = nat] by simp
  ultimately have "unat x div 2 ^ 31 = 0" by (metis less_2_cases even_zero odd_one One_nat_def)
  then show ?thesis by (simp add: div_eq_0_iff)
qed

lemma bit_lc_make_key:
  assumes "0 \<le> sint t"
  shows "bit (lc_make_key r t) n \<longleftrightarrow> (if n < 32 then bit t n else bit r (n - 32))"
proof (cases "n < 32")
  case True
  then show ?thesis using assms
    by (cases "n = 31") (auto simp: lc_make_key_def bit_or_iff bit_push_bit_iff scast_bit min_def)
next
  case False
  then show ?thesis using assms
    by (auto simp: lc_make_key_def bit_or_iff bit_push_bit_iff scast_bit sint_nonneg_bit min_def
        not_less dest: bit_u32_less)
qed

lemma unat_lc_make_key:
  assumes "0 \<le> sint t"
  shows "unat (lc_make_key r t) = 2 ^ 32 * unat r + unat t"
proof -
  have "drop_bit 32 (lc_make_key r t) = ucast r"
    using assms by (intro bit_word_eqI)
      (auto simp: bit_drop_bit_eq bit_lc_make_key bit_ucast_iff dest: bit_u32_less)
  from arg_cong [OF this, of unat] have d: "unat (lc_make_key r t) div 2 ^ 32 = unat r"
    by (simp only: unat_drop_bit_eq unat_ucast_u32_u64) (simp only: drop_bit_eq_div)
  have "take_bit 32 (lc_make_key r t) = ucast t"
    using assms by (intro bit_word_eqI)
      (auto simp: bit_take_bit_iff bit_lc_make_key bit_ucast_iff dest: bit_u32_less)
  from arg_cong [OF this, of unat] have m: "unat (lc_make_key r t) mod 2 ^ 32 = unat t"
    by (simp only: unsigned_take_bit_eq unat_ucast_u32_u64) (simp add: take_bit_eq_mod)
  show ?thesis using d m mult_div_mod_eq [of "2 ^ 32" "unat (lc_make_key r t)"] by simp
qed

lemma key_ok_lc_make_key:
  assumes "0 \<le> sint r" "0 \<le> sint t"
  shows "key_ok (lc_make_key r t)"
proof -
  have "unat r < 2 ^ 31" "unat t < 2 ^ 31" using assms by (blast intro: sint_nonneg_unat)+
  then show ?thesis using assms by (simp add: key_ok_def unat_lc_make_key)
qed

section \<open>Properties\<close>

text \<open>
  Property C1. Matching is first-in first-out per key: from an empty table, over any
  interleaving of receives and packet arrivals, the \<open>i\<close>-th receive posted under a key is
  matched with the \<open>i\<close>-th packet that arrives under it, and nothing else is matched.
\<close>

theorem lc_hash_insert_matches_in_order:
  assumes "\<forall>(k', x, t) \<in> set es. key_ok k'" "key_ok k"
  shows "map snd (filter (\<lambda>m. fst m = k) (run_inserts lc_hash_insert lc_hash_create es))
      = zip (side CLIENT k es) (side SERVER k es)"
  using mt.matches_in_order [OF hash_create_ok(1) assms] by simp

theorem lc_hash_insert_matches_in_order_witness:
  "map snd (filter (\<lambda>m. fst m = 5) (run_inserts lc_hash_insert lc_hash_create
      [(5, 100, CLIENT), (9, 50, SERVER), (5, 101, CLIENT), (5, 200, SERVER), (5, 201, SERVER)]))
    = [(100, 200), (101, 201)]"
  using lc_hash_insert_matches_in_order [of
      "[(5, 100, CLIENT), (9, 50, SERVER), (5, 101, CLIENT), (5, 200, SERVER), (5, 201, SERVER)]" 5]
  by (simp add: key_ok_def)

text \<open>
  One insertion behaves as the abstract table prescribes: with a value waiting on
  the other side of the key, it takes the oldest one and returns 0; otherwise it queues its
  own value behind those already waiting and returns 1. The invariant (well-formed chains,
  never both sides waiting) is kept, and the values waiting under every other key or side are
  unchanged.
\<close>

theorem lc_hash_insert_spec:
  assumes "hash_inv h" "key_ok k"
  shows "\<exists>h'. hash_inv h'
      \<and> lc_hash_insert h k x t =
          (case waiting h (other t) k of [] \<Rightarrow> (1, x, h') | y # _ \<Rightarrow> (0, y, h'))
      \<and> (\<forall>t' k'. key_ok k' \<longrightarrow> waiting h' t' k' =
          (if (t', k') = (other t, k) then drop 1 (waiting h (other t) k)
           else if (t', k') = (t, k) \<and> waiting h (other t) k = [] then waiting h t k @ [x]
           else waiting h t' k'))"
proof (cases "waiting h (other t) k")
  case Nil
  then show ?thesis
    using hash_inv_store [OF assms Nil, of x] assms(2)
    by (elim exE conjE, intro exI conjI) (auto split: list.splits)
next
  case (Cons y ys)
  then show ?thesis
    using hash_inv_take [OF assms Cons, of x] assms(2)
    by (elim exE conjE, intro exI conjI) (auto split: list.splits)
qed

theorem lc_hash_insert_spec_witness:
  "\<exists>h'. hash_inv h' \<and> lc_hash_insert lc_hash_create 5 100 CLIENT = (1, 100, h')
      \<and> waiting h' CLIENT 5 = [100]"
  using lc_hash_insert_spec [OF hash_create_ok(1), of 5 100 CLIENT]
  by (auto simp: key_ok_def intro: exI)

text \<open>
  For ranks and tags that are not negative as C \<open>int\<close>s, \<open>lc_make_key\<close> is
  injective and yields keys the table can tell apart.
\<close>

theorem lc_make_key_injective:
  assumes "0 \<le> sint r" "0 \<le> sint t" "0 \<le> sint r'" "0 \<le> sint t'"
  shows "key_ok (lc_make_key r t) \<and> (lc_make_key r t = lc_make_key r' t' \<longleftrightarrow> r = r' \<and> t = t')"
proof -
  have b: "unat r < 2 ^ 31" "unat t < 2 ^ 31" "unat r' < 2 ^ 31" "unat t' < 2 ^ 31"
    using assms by (blast intro: sint_nonneg_unat)+
  have "2 ^ 32 * unat r + unat t = 2 ^ 32 * unat r' + unat t' \<longleftrightarrow> unat r = unat r' \<and> unat t = unat t'"
    using b by (intro quot_rem_unique) simp_all
  then show ?thesis
    using assms b by (simp add: key_ok_def word_unat_eq_iff unat_lc_make_key)
qed

theorem lc_make_key_injective_witness:
  "key_ok (lc_make_key 3 7) \<and> (lc_make_key 3 7 = lc_make_key 7 3 \<longleftrightarrow> (3 :: u32) = 7 \<and> (7 :: u32) = 3)"
  using lc_make_key_injective [of 3 7 7 3] by simp

text \<open>
  A negative tag erases the rank: its sign extension overwrites the half of the
  key that holds the rank, so receives from all ranks share one key.
\<close>

theorem lc_make_key_negative_tag:
  assumes "sint t < 0"
  shows "lc_make_key r t = lc_make_key r' t"
proof (rule bit_word_eqI)
  fix n assume "n < LENGTH(64)"
  moreover have "bit t 31" using assms sint_nonneg_bit [of t] by simp
  ultimately show "bit (lc_make_key r t) n \<longleftrightarrow> bit (lc_make_key r' t) n"
    by (cases "n < 32") (auto simp: lc_make_key_def bit_or_iff bit_push_bit_iff scast_bit min_def)
qed

theorem lc_make_key_negative_tag_witness: "lc_make_key 0 (- 1) = lc_make_key 5 (- 1)"
  using lc_make_key_negative_tag [of "- 1" 0 5] by simp

end
