(* ===== verification/LC_Memory.thy ===== *)
theory LC_Memory
  imports LC_Prelude
begin

text \<open>
  Byte memory: what \<open>memcpy\<close> and the overlapping structs of a packet act on. Multi-byte fields
  are little-endian, as on the x86 processors the library's inline assembly is written for.
\<close>

type_synonym memory = "addr \<Rightarrow> u8"

definition read_bytes :: "memory \<Rightarrow> addr \<Rightarrow> nat \<Rightarrow> u8 list" where
  "read_bytes m a n = map (\<lambda>i. m (a + word_of_nat i)) [0..<n]"

definition write_bytes :: "memory \<Rightarrow> addr \<Rightarrow> u8 list \<Rightarrow> memory" where
  "write_bytes m a bs = (\<lambda>x. if unat (x - a) < length bs then bs ! unat (x - a) else m x)"

definition memcpy :: "memory \<Rightarrow> addr \<Rightarrow> addr \<Rightarrow> u64 \<Rightarrow> memory" where
  "memcpy m dst src n = write_bytes m dst (read_bytes m src (unat n))"

fun of_bytes :: "u8 list \<Rightarrow> u64" where
  "of_bytes [] = 0"
| "of_bytes (b # bs) = ucast b OR push_bit 8 (of_bytes bs)"

definition to_bytes :: "nat \<Rightarrow> u64 \<Rightarrow> u8 list" where
  "to_bytes n w = map (\<lambda>i. ucast (drop_bit (8 * i) w)) [0..<n]"

definition read64 :: "memory \<Rightarrow> addr \<Rightarrow> u64" where
  "read64 m a = of_bytes (read_bytes m a 8)"

definition write64 :: "memory \<Rightarrow> addr \<Rightarrow> u64 \<Rightarrow> memory" where
  "write64 m a w = write_bytes m a (to_bytes 8 w)"

definition read32 :: "memory \<Rightarrow> addr \<Rightarrow> u32" where
  "read32 m a = ucast (of_bytes (read_bytes m a 4))"

definition write32 :: "memory \<Rightarrow> addr \<Rightarrow> u32 \<Rightarrow> memory" where
  "write32 m a w = write_bytes m a (to_bytes 4 (ucast w))"

text \<open>Two address ranges without a common byte.\<close>

definition apart :: "addr \<Rightarrow> nat \<Rightarrow> addr \<Rightarrow> nat \<Rightarrow> bool" where
  "apart a n b k \<longleftrightarrow> (\<forall>i < n. \<forall>j < k. a + word_of_nat i \<noteq> b + word_of_nat j)"

lemma length_read_bytes [simp]: "length (read_bytes m a n) = n"
  by (simp add: read_bytes_def)

lemma length_to_bytes [simp]: "length (to_bytes n w) = n"
  by (simp add: to_bytes_def)

lemma read_bytes_nth: "i < n \<Longrightarrow> read_bytes m a n ! i = m (a + word_of_nat i)"
  by (simp add: read_bytes_def)

lemma unat_word_of_nat: "i < 2 ^ 64 \<Longrightarrow> unat (word_of_nat i :: addr) = i"
  by (simp add: unsigned_of_nat take_bit_nat_eq_self_iff)

lemma read_write_same [simp]:
  assumes "length bs \<le> 2 ^ 64" "n = length bs"
  shows "read_bytes (write_bytes m a bs) a n = bs"
  using assms by (auto intro!: nth_equalityI simp: read_bytes_nth write_bytes_def unat_word_of_nat)

lemma write_bytes_other: "apart a n b 1 \<Longrightarrow> length bs = n \<Longrightarrow> write_bytes m a bs b = m b"
proof -
  assume "apart a n b 1" "length bs = n"
  then have "\<not> unat (b - a) < length bs"
    by (auto simp: apart_def dest!: spec [of _ "unat (b - a)"])
  then show ?thesis by (simp add: write_bytes_def)
qed

lemma apart_sym: "apart a n b k \<Longrightarrow> apart b k a n"
  unfolding apart_def by metis

lemma apart_point: "apart a n b k \<Longrightarrow> j < k \<Longrightarrow> apart a n (b + word_of_nat j) 1"
  by (simp add: apart_def)

lemma read_write_apart:
  assumes "apart a (length bs) b n"
  shows "read_bytes (write_bytes m a bs) b n = read_bytes m b n"
  using assms by (auto intro!: nth_equalityI write_bytes_other [OF apart_point] simp: read_bytes_nth)

text \<open>Ranges inside one object, given by their distance from its start.\<close>

lemma apart_offsets:
  assumes "i + n \<le> j" "j + k \<le> 2 ^ 64"
  shows "apart (p + word_of_nat i) n (p + word_of_nat j) k"
    "apart (p + word_of_nat j) k (p + word_of_nat i) n"
proof -
  have "p + word_of_nat i + word_of_nat u \<noteq> p + word_of_nat j + word_of_nat v"
    if "u < n" "v < k" for u v
  proof
    assume "p + word_of_nat i + word_of_nat u = p + word_of_nat j + word_of_nat v"
    then have "(word_of_nat (i + u) :: addr) = word_of_nat (j + v)"
      by (simp add: add.assoc)
    then have "unat (word_of_nat (i + u) :: addr) = unat (word_of_nat (j + v) :: addr)" by (rule arg_cong)
    then have "i + u = j + v" using that assms by (subst (asm) (1 2) unat_word_of_nat) auto
    then show False using that assms by simp
  qed
  then show "apart (p + word_of_nat i) n (p + word_of_nat j) k"
    by (simp add: apart_def)
  then show "apart (p + word_of_nat j) k (p + word_of_nat i) n" by (rule apart_sym)
qed

lemma apart_subset:
  assumes "apart a n b k" "i + n' \<le> n" "j + k' \<le> k"
  shows "apart (a + word_of_nat i) n' (b + word_of_nat j) k'"
  unfolding apart_def
proof (intro allI impI)
  fix u v assume "u < n'" "v < k'"
  then have "a + word_of_nat (i + u) \<noteq> b + word_of_nat (j + v)"
    using assms unfolding apart_def by (metis add_less_cancel_left order_less_le_trans)
  then show "a + word_of_nat i + word_of_nat u \<noteq> b + word_of_nat j + word_of_nat v"
    by (simp add: add.assoc)
qed

lemma bit_of_bytes:
  "length bs \<le> 8 \<Longrightarrow>
    bit (of_bytes bs) k \<longleftrightarrow> k div 8 < length bs \<and> bit (bs ! (k div 8)) (k mod 8)"
proof (induction bs arbitrary: k)
  case Nil
  then show ?case by simp
next
  case (Cons b bs)
  show ?case
  proof (cases "k < 8")
    case True
    then show ?thesis by (simp add: bit_simps)
  next
    case False
    then have d: "k div 8 = Suc ((k - 8) div 8)" "k mod 8 = (k - 8) mod 8"
      by (simp_all add: div_if [of k] mod_if [of k])
    have "k div 8 < length (b # bs) \<Longrightarrow> k < 64" using Cons.prems by auto
    moreover have "\<not> bit b k" using False bit_imp_le_length [of b k] by auto
    ultimately show ?thesis using False Cons.IH [of "k - 8"] Cons.prems d
      by (auto simp: bit_simps)
  qed
qed

lemma of_to_bytes_8 [simp]: "of_bytes (to_bytes 8 w) = w"
proof (rule bit_word_eqI)
  fix k assume "k < LENGTH(64)"
  then have "k div 8 < 8" "8 * (k div 8) + k mod 8 = k" by simp_all
  then show "bit (of_bytes (to_bytes 8 w)) k \<longleftrightarrow> bit w k"
    by (simp add: bit_of_bytes to_bytes_def bit_simps)
qed

lemma of_to_bytes_4 [simp]: "ucast (of_bytes (to_bytes 4 (ucast w))) = (w :: u32)"
proof (rule bit_word_eqI)
  fix k assume "k < LENGTH(32)"
  then have "k div 8 < 4" "8 * (k div 8) + k mod 8 = k" "k < 32" by simp_all
  then show "bit (ucast (of_bytes (to_bytes 4 (ucast w))) :: u32) k \<longleftrightarrow> bit w k"
    by (simp add: bit_of_bytes to_bytes_def bit_simps less_mult_imp_div_less)
qed

lemma read64_write64 [simp]: "read64 (write64 m a w) a = w"
  by (simp add: read64_def write64_def)

lemma read32_write32 [simp]: "read32 (write32 m a w) a = w"
  by (simp add: read32_def write32_def)

lemma read64_write_apart: "apart a (length bs) b 8 \<Longrightarrow> read64 (write_bytes m a bs) b = read64 m b"
  by (simp add: read64_def read_write_apart)

lemma read32_write_apart: "apart a (length bs) b 4 \<Longrightarrow> read32 (write_bytes m a bs) b = read32 m b"
  by (simp add: read32_def read_write_apart)

lemma memcpy_reads:
  "read_bytes (memcpy m dst src n) dst (unat n) = read_bytes m src (unat n)"
  using unsigned_less [of n, where 'a = nat] by (simp add: memcpy_def)

lemma read_bytes_sub:
  assumes "i + k \<le> n"
  shows "read_bytes m (a + word_of_nat i) k = take k (drop i (read_bytes m a n))"
  using assms by (auto intro!: nth_equalityI simp: read_bytes_nth add.assoc)

text \<open>Equal bytes have equal fields; writing one field leaves the others of the object alone.\<close>

lemma field_eq:
  assumes "read_bytes m a n = read_bytes m' b n" "i + 8 \<le> n"
  shows "read64 m (a + word_of_nat i) = read64 m' (b + word_of_nat i)"
  using assms by (simp add: read64_def read_bytes_sub [of i 8 n])

lemma field_eq32:
  assumes "read_bytes m a n = read_bytes m' b n" "i + 4 \<le> n"
  shows "read32 m (a + word_of_nat i) = read32 m' (b + word_of_nat i)"
  using assms by (simp add: read32_def read_bytes_sub [of i 4 n])

lemma field_write_other:
  assumes "i + n \<le> j \<or> j + k \<le> i" "i + n \<le> 2 ^ 64" "j + k \<le> 2 ^ 64" "length bs = n"
  shows "read_bytes (write_bytes m (a + word_of_nat i) bs) (a + word_of_nat j) k
    = read_bytes m (a + word_of_nat j) k"
  using assms apart_offsets(1) [of i n j k a] apart_offsets(2) [of j k i n a]
  by (intro read_write_apart) auto

lemma field_simps64:
  assumes "i + 8 \<le> j \<or> j + 8 \<le> i" "i < 1000" "j < 1000"
  shows "read64 (write64 m (a + word_of_nat i) w) (a + word_of_nat j) = read64 m (a + word_of_nat j)"
  unfolding read64_def write64_def using assms by (subst field_write_other) auto

lemma field_simps64_32:
  assumes "i + 4 \<le> j \<or> j + 8 \<le> i" "i < 1000" "j < 1000"
  shows "read64 (write32 m (a + word_of_nat i) w) (a + word_of_nat j) = read64 m (a + word_of_nat j)"
  unfolding read64_def write32_def using assms by (subst field_write_other) auto

lemma field_simps32_64:
  assumes "i + 8 \<le> j \<or> j + 4 \<le> i" "i < 1000" "j < 1000"
  shows "read32 (write64 m (a + word_of_nat i) w) (a + word_of_nat j) = read32 m (a + word_of_nat j)"
  unfolding read32_def write64_def using assms by (subst field_write_other) auto

lemma field_simps32:
  assumes "i + 4 \<le> j \<or> j + 4 \<le> i" "i < 1000" "j < 1000"
  shows "read32 (write32 m (a + word_of_nat i) w) (a + word_of_nat j) = read32 m (a + word_of_nat j)"
  unfolding read32_def write32_def using assms by (subst field_write_other) auto

lemma field_simps_start:
  assumes "8 \<le> j" "j < 1000"
  shows "read64 (write64 m a w) (a + word_of_nat j) = read64 m (a + word_of_nat j)"
    "read64 (write64 m (a + word_of_nat j) w) a = read64 m a"
    "read64 (write32 m (a + word_of_nat j) v) a = read64 m a"
  using field_simps64 [of 0 j] field_simps64 [of j 0] field_simps64_32 [of j 0] assms by simp_all

lemmas field_simps = field_simps64 field_simps64_32 field_simps32_64 field_simps32 field_simps_start

end
