(* ===== verification/LC_Packet.thy ===== *)
theory LC_Packet
  imports LC_Memory LC_Dequeue LC_Cq LC_Pool LC_Hash
begin

text \<open>
  The data model of the engine: the packet and request layouts of \<open>src/include/packet.h\<close> and
  \<open>include/lc.h\<close>, the packing of protocol, endpoint and tag into the 32 bits of immediate data
  (\<open>src/include/proto.h\<close>), the endpoints and the device of \<open>src/include/lc_priv.h\<close> and
  \<open>src/include/server/server_ibv.h\<close>, and the state of one process.
\<close>

section \<open>Constants\<close>

definition LC_PACKET_SIZE :: u64 where "LC_PACKET_SIZE = 8 * 1024 + 4096"
definition LC_MAX_INLINE :: u64 where "LC_MAX_INLINE = 128"
definition LC_SERVER_MAX_RCVS :: int where "LC_SERVER_MAX_RCVS = 64"

text \<open>
  Sizes of the packed structs: \<open>hwctx\<close> 16, \<open>req_s\<close> 64 (\<open>lc_req\<close> is aligned to a cache line),
  three pointers or 64-bit values, then \<open>proto\<close>, \<open>poolid\<close> and \<open>ref\<close>.
\<close>

definition sizeof_packet_context :: u64 where
  "sizeof_packet_context = 16 + 64 + 8 + 8 + 8 + 2 + 1 + 1"

definition sizeof_packet_rts :: u64 where "sizeof_packet_rts = 5 * 8"
definition sizeof_packet_rtr :: u64 where "sizeof_packet_rtr = 5 * 8 + 2 * 4"

definition SHORT_MSG_SIZE :: u64 where "SHORT_MSG_SIZE = LC_PACKET_SIZE - sizeof_packet_context"
definition POST_MSG_SIZE :: u64 where "POST_MSG_SIZE = SHORT_MSG_SIZE"

definition LC_PROTO_DATA :: u32 where "LC_PROTO_DATA = 0"
definition LC_PROTO_RTR :: u32 where "LC_PROTO_RTR = 1"
definition LC_PROTO_RTS :: u32 where "LC_PROTO_RTS = 2"
definition LC_PROTO_LONG :: u32 where "LC_PROTO_LONG = 3"

definition EP_AR_DYN :: u64 where "EP_AR_DYN = push_bit 1 1"
definition EP_AR_EXP :: u64 where "EP_AR_EXP = push_bit 2 1"
definition EP_AR_IMM :: u64 where "EP_AR_IMM = push_bit 3 1"
definition EP_CE_NULL :: u64 where "EP_CE_NULL = 0"
definition EP_CE_SYNC :: u64 where "EP_CE_SYNC = push_bit 4 (push_bit 1 1)"
definition EP_CE_CQ :: u64 where "EP_CE_CQ = push_bit 4 (push_bit 2 1)"
definition EP_CE_AM :: u64 where "EP_CE_AM = push_bit 4 (push_bit 3 1)"
definition EP_CE_GLOB :: u64 where "EP_CE_GLOB = push_bit 4 (push_bit 4 1)"

lemmas size_defs = LC_PACKET_SIZE_def LC_MAX_INLINE_def LC_SERVER_MAX_RCVS_def
  sizeof_packet_context_def sizeof_packet_rts_def sizeof_packet_rtr_def SHORT_MSG_SIZE_def
  POST_MSG_SIZE_def
lemmas proto_defs = LC_PROTO_DATA_def LC_PROTO_RTR_def LC_PROTO_RTS_def LC_PROTO_LONG_def
lemmas ep_flag_defs = EP_AR_DYN_def EP_AR_EXP_def EP_AR_IMM_def EP_CE_NULL_def EP_CE_SYNC_def
  EP_CE_CQ_def EP_CE_AM_def EP_CE_GLOB_def

lemma proto_distinct [simp]:
  "LC_PROTO_RTS \<noteq> LC_PROTO_DATA" "LC_PROTO_RTR \<noteq> LC_PROTO_DATA" "LC_PROTO_LONG \<noteq> LC_PROTO_DATA"
  "LC_PROTO_DATA \<noteq> LC_PROTO_RTS" "LC_PROTO_RTR \<noteq> LC_PROTO_RTS" "LC_PROTO_LONG \<noteq> LC_PROTO_RTS"
  "LC_PROTO_DATA \<noteq> LC_PROTO_RTR" "LC_PROTO_RTS \<noteq> LC_PROTO_RTR" "LC_PROTO_LONG \<noteq> LC_PROTO_RTR"
  "LC_PROTO_DATA \<noteq> LC_PROTO_LONG" "LC_PROTO_RTS \<noteq> LC_PROTO_LONG" "LC_PROTO_RTR \<noteq> LC_PROTO_LONG"
  by (simp_all add: proto_defs)

lemma proto_bound [simp]:
  "unat LC_PROTO_DATA < 4" "unat LC_PROTO_RTS < 4" "unat LC_PROTO_RTR < 4" "unat LC_PROTO_LONG < 4"
  by (simp_all add: proto_defs)

lemma proto_narrow [simp]:
  "scast (ucast LC_PROTO_DATA :: u16) = LC_PROTO_DATA" "scast (ucast LC_PROTO_RTS :: u16) = LC_PROTO_RTS"
  "scast (ucast LC_PROTO_RTR :: u16) = LC_PROTO_RTR" "scast (ucast LC_PROTO_LONG :: u16) = LC_PROTO_LONG"
  by (simp_all add: proto_defs)

text \<open>The status a call of the interface returns.\<close>

datatype lc_status = LC_OK | LC_ERR_RETRY | LC_ERR_FATAL

section \<open>Immediate data\<close>

definition MAKE_PROTO :: "u32 \<Rightarrow> u32 \<Rightarrow> u32 \<Rightarrow> u32" where
  "MAKE_PROTO rgid proto meta = proto OR push_bit 2 rgid OR push_bit 16 meta"

definition PROTO_GET_PROTO :: "u32 \<Rightarrow> u32" where "PROTO_GET_PROTO proto = proto AND 3"
definition PROTO_GET_RGID :: "u32 \<Rightarrow> u32" where "PROTO_GET_RGID proto = drop_bit 2 proto AND 0x3fff"
definition PROTO_GET_META :: "u32 \<Rightarrow> u32" where "PROTO_GET_META proto = drop_bit 16 proto AND 0xffff"

definition IBV_IMM_RTR :: u32 where "IBV_IMM_RTR = push_bit 31 1"

text \<open>
  The checksum of the debug output. \<open>char\<close> is signed, so each byte is sign-extended before it
  is added to the register.
\<close>

definition POLY :: u32 where "POLY = 0x82f63b78"

definition crc_bit :: "u32 \<Rightarrow> u32" where
  "crc_bit crc = (if crc AND 1 \<noteq> 0 then drop_bit 1 crc XOR POLY else drop_bit 1 crc)"

fun crc32c_loop :: "u8 list \<Rightarrow> u32 \<Rightarrow> u32" where
  "crc32c_loop [] crc = crc"
| "crc32c_loop (b # bs) crc = crc32c_loop bs ((crc_bit ^^ 8) (crc XOR scast b))"

definition crc32c :: "u8 list \<Rightarrow> u32" where
  "crc32c buf = NOT (crc32c_loop buf (NOT 0))"

section \<open>Requests and packets\<close>

text \<open>\<open>lc_sync\<close> is an \<open>int\<close> that is set when the operation is complete.\<close>

record lc_req =
  sync :: u32
  buffer :: addr
  rq_ctx :: addr
  parent :: addr
  rhandle :: addr
  rq_size :: u64
  rq_rank :: u32
  rq_meta :: u32
  send_cb :: addr

text \<open>
  The context of a packet. \<open>ep\<close> is the number of the endpoint; the narrow fields keep their
  widths, and \<open>poolid\<close> and \<open>ref\<close> are read as signed.
\<close>

record packet_context =
  pk_req :: addr
  pk_ep :: nat
  rma_mem :: u64
  pk_proto :: u16
  poolid :: u8
  ref :: u8

text \<open>Addresses inside a packet: its own request, its payload and the fields of the payload.\<close>

definition req_s :: "addr \<Rightarrow> addr" where "req_s p = p + 16"
definition pk_data :: "addr \<Rightarrow> addr" where "pk_data p = p + sizeof_packet_context"

definition rts_cb :: "addr \<Rightarrow> addr" where "rts_cb p = pk_data p"
definition rts_ce :: "addr \<Rightarrow> addr" where "rts_ce p = pk_data p + 8"
definition rts_src_addr :: "addr \<Rightarrow> addr" where "rts_src_addr p = pk_data p + 16"
definition rts_size :: "addr \<Rightarrow> addr" where "rts_size p = pk_data p + 24"
definition rtr_tgt_addr :: "addr \<Rightarrow> addr" where "rtr_tgt_addr p = pk_data p + 32"
definition rtr_rkey :: "addr \<Rightarrow> addr" where "rtr_rkey p = pk_data p + 40"
definition rtr_comm_id :: "addr \<Rightarrow> addr" where "rtr_comm_id p = pk_data p + 44"

lemmas field_defs = rts_cb_def rts_ce_def rts_src_addr_def rts_size_def rtr_tgt_addr_def
  rtr_rkey_def rtr_comm_id_def

section \<open>Endpoints, device and process\<close>

record lci_rep =
  rp_handle :: addr
  rp_rank :: u32
  rp_base :: u64
  rp_rkey :: u32

text \<open>The two unions of an endpoint; memory that was never written is \<open>No_arg\<close> or \<open>No_comp\<close>.\<close>

datatype ep_arg = No_arg | Ep_alloc addr | Ep_tbl lc_hash
datatype ep_comp = No_comp | Ep_handler addr | Ep_cq comp_q

record lci_ep =
  cap :: u64
  gid :: u32
  completed :: "u32 option"
  ep_server :: nat
  ep_rep :: "lci_rep list"
  ep_union :: ep_arg
  ce_union :: ep_comp

text \<open>The device: what the engine uses of \<open>struct lc_server\<close>.\<close>

record lc_server =
  sv_rep :: "lci_rep list"
  sv_qp :: "addr list"
  sv_pkpool :: lc_pool
  curr_addr :: u64
  sv_id :: nat
  qp2rank :: "nat \<Rightarrow> nat"
  qp2rank_mod :: nat
  heap_ptr :: addr
  heap_lkey :: u32
  recv_posted :: int
  max_inline :: u64

text \<open>Work requests handed to the verbs library.\<close>

datatype ibv_opcode = IBV_WR_SEND_WITH_IMM | IBV_WR_RDMA_WRITE | IBV_WR_RDMA_WRITE_WITH_IMM

record send_wr =
  wr_id :: addr
  sg_addr :: addr
  sg_length :: u32
  sg_lkey :: u32
  opcode :: ibv_opcode
  signaled :: bool
  inlined :: bool
  imm_data :: u32
  remote_addr :: u64
  wr_rkey :: u32

text \<open>
  Calls that leave the library, in order: posted work requests, memory registrations, and the
  user's functions.
\<close>

datatype event =
    Post_send addr send_wr
  | Post_recv addr addr u64 u32   \<comment> \<open>work request id, buffer, length, key\<close>
  | Reg_mr addr u64
  | Dereg_mr addr
  | Call_cb addr addr             \<comment> \<open>function, argument\<close>
  | Call_handler addr addr
  | Call_alloc addr u64

text \<open>
  The process. \<open>ninline\<close> is the static counter of \<open>lc_server_sends\<close>; \<open>rands\<close> are the values
  \<open>rand\<close> is going to return.
\<close>

record lc_state =
  mem :: memory
  reqs :: "addr \<Rightarrow> lc_req"
  pks :: "addr \<Rightarrow> packet_context"
  lcg_ep :: "nat \<Rightarrow> lci_ep option"
  lcg_nep :: nat
  lcg_dev :: "nat \<Rightarrow> lc_server"
  lcg_deadlock :: bool
  globals :: pool_globals
  ninline :: nat
  rands :: "nat \<Rightarrow> nat"
  log :: "event list"

text \<open>
  What the build and the surroundings decide: the compiled-in modes, the core of the calling
  thread, the user's allocator (given the calls so far) and the verbs library's memory regions.
\<close>

record lc_env =
  has_exp :: bool
  has_dyn :: bool
  has_imm :: bool
  has_sync :: bool
  has_cq :: bool
  has_am :: bool
  has_glob :: bool
  LC_MAX_EP :: nat
  lcg_size :: nat
  lcg_page_size :: u64
  worker_id :: nat
  user_alloc :: "addr \<Rightarrow> u64 \<Rightarrow> event list \<Rightarrow> addr \<times> addr"
  ibv_reg_mr :: "addr \<Rightarrow> u64 \<Rightarrow> event list \<Rightarrow> addr"
  mr_rkey :: "addr \<Rightarrow> u32"
  mr_lkey :: "addr \<Rightarrow> u32"

type_synonym proc = "lc_state \<Rightarrow> lc_state res"

definition emit :: "event \<Rightarrow> lc_state \<Rightarrow> lc_state" where
  "emit e s = s\<lparr>log := log s @ [e]\<rparr>"

definition upd_req :: "addr \<Rightarrow> (lc_req \<Rightarrow> lc_req) \<Rightarrow> lc_state \<Rightarrow> lc_state" where
  "upd_req r f s = s\<lparr>reqs := (reqs s)(r := f (reqs s r))\<rparr>"

definition upd_pk :: "addr \<Rightarrow> (packet_context \<Rightarrow> packet_context) \<Rightarrow> lc_state \<Rightarrow> lc_state" where
  "upd_pk p f s = s\<lparr>pks := (pks s)(p := f (pks s p))\<rparr>"

definition upd_ep :: "nat \<Rightarrow> (lci_ep \<Rightarrow> lci_ep) \<Rightarrow> lc_state \<Rightarrow> lc_state" where
  "upd_ep e f s = s\<lparr>lcg_ep := (lcg_ep s)(e := map_option f (lcg_ep s e))\<rparr>"

definition upd_dev :: "nat \<Rightarrow> (lc_server \<Rightarrow> lc_server) \<Rightarrow> lc_state \<Rightarrow> lc_state" where
  "upd_dev d f s = s\<lparr>lcg_dev := (lcg_dev s)(d := f (lcg_dev s d))\<rparr>"

text \<open>An endpoint pointer that was never opened is an access through an uninitialised pointer.\<close>

definition get_ep :: "lc_state \<Rightarrow> nat \<Rightarrow> lci_ep res" where
  "get_ep s e = (case lcg_ep s e of None \<Rightarrow> Inl Null_deref | Some ep \<Rightarrow> Inr ep)"

section \<open>Properties\<close>

lemma proto_fields:
  "PROTO_GET_RGID w = take_bit 14 (drop_bit 2 w)" "PROTO_GET_META w = take_bit 16 (drop_bit 16 w)"
  "PROTO_GET_PROTO w = take_bit 2 w"
  by (simp_all add: PROTO_GET_RGID_def PROTO_GET_META_def PROTO_GET_PROTO_def
      take_bit_eq_mask mask_eq_exp_minus_1)

lemma bit_bounded: "unat (w :: u32) < 2 ^ k \<Longrightarrow> k \<le> n \<Longrightarrow> \<not> bit w n"
proof -
  assume "unat w < 2 ^ k" "k \<le> n"
  then have "unat w < 2 ^ n" by (meson order_less_le_trans power_increasing one_le_numeral)
  then have "\<not> bit (unat w) n" by (simp add: bit_nat_def)
  then show ?thesis by (simp add: bit_simps)
qed

lemma get_make_proto:
  assumes "unat rgid < 2 ^ 14" "unat proto < 2 ^ 2" "unat meta < 2 ^ 16"
  shows "PROTO_GET_RGID (MAKE_PROTO rgid proto meta) = rgid"
    "PROTO_GET_PROTO (MAKE_PROTO rgid proto meta) = proto"
    "PROTO_GET_META (MAKE_PROTO rgid proto meta) = meta"
proof -
  have b: "bit rgid n \<Longrightarrow> n < 14" "bit proto n \<Longrightarrow> n < 2" "bit meta n \<Longrightarrow> n < 16" for n
    using bit_bounded [OF assms(1)] bit_bounded [OF assms(2)] bit_bounded [OF assms(3)]
    by (metis not_less)+
  show "PROTO_GET_RGID (MAKE_PROTO rgid proto meta) = rgid"
    "PROTO_GET_PROTO (MAKE_PROTO rgid proto meta) = proto"
    "PROTO_GET_META (MAKE_PROTO rgid proto meta) = meta"
    by (rule bit_word_eqI; auto simp: proto_fields MAKE_PROTO_def bit_simps dest: b)+
qed

text \<open>
  The immediate data of a message carries the endpoint number, the protocol and
  the tag without loss, as long as the endpoint number fits 14 bits, the protocol 2 and the
  tag 16.
\<close>

theorem MAKE_PROTO_roundtrip:
  assumes "unat rgid < 2 ^ 14" "unat proto < 2 ^ 2" "unat meta < 2 ^ 16"
  shows "PROTO_GET_RGID (MAKE_PROTO rgid proto meta) = rgid
    \<and> PROTO_GET_PROTO (MAKE_PROTO rgid proto meta) = proto
    \<and> PROTO_GET_META (MAKE_PROTO rgid proto meta) = meta"
  using get_make_proto [OF assms] by simp

theorem MAKE_PROTO_roundtrip_witness:
  "PROTO_GET_RGID (MAKE_PROTO 5 2 1234) = 5 \<and> PROTO_GET_PROTO (MAKE_PROTO 5 2 1234) = 2
     \<and> PROTO_GET_META (MAKE_PROTO 5 2 1234) = 1234"
  using MAKE_PROTO_roundtrip [of 5 2 1234] by simp

end
