(* ===== verification/LC_Ibv.thy ===== *)
theory LC_Ibv
  imports LC_Packet
begin

text \<open>
  The sending half of the InfiniBand device of \<open>src/include/server/server_ibv.h\<close> and
  \<open>server_ibv_helper.h\<close>, as built without the registration cache: which work request each
  operation hands to \<open>ibv_post_send\<close> or \<open>ibv_post_srq_recv\<close>. The verbs library itself is
  outside: a posted request is an event of the log, a memory region is a value of the
  environment. Errors of the post calls are ignored, as \<open>IBV_SAFECALL\<close> does outside debug
  builds.
\<close>

section \<open>Memory registration\<close>

definition real_server_reg :: "lc_env \<Rightarrow> addr \<Rightarrow> u64 \<Rightarrow> lc_state \<Rightarrow> u64 \<times> lc_state" where
  "real_server_reg e buf sz s = (ibv_reg_mr e buf sz (log s), emit (Reg_mr buf sz) s)"

definition real_server_dereg :: "u64 \<Rightarrow> lc_state \<Rightarrow> lc_state" where
  "real_server_dereg m s = emit (Dereg_mr m) s"

definition lc_server_rma_reg :: "lc_env \<Rightarrow> addr \<Rightarrow> u64 \<Rightarrow> lc_state \<Rightarrow> u64 \<times> lc_state" where
  "lc_server_rma_reg e buf sz s = real_server_reg e buf sz s"

definition lc_server_rma_dereg :: "u64 \<Rightarrow> lc_state \<Rightarrow> lc_state" where
  "lc_server_rma_dereg m s = real_server_dereg m s"

definition lc_server_rma_key :: "lc_env \<Rightarrow> u64 \<Rightarrow> u32" where
  "lc_server_rma_key e m = mr_rkey e m"

definition ibv_rma_lkey :: "lc_env \<Rightarrow> u64 \<Rightarrow> u32" where
  "ibv_rma_lkey e m = mr_lkey e m"

definition lc_server_heap_ptr :: "nat \<Rightarrow> lc_state \<Rightarrow> addr" where
  "lc_server_heap_ptr d s = heap_ptr (lcg_dev s d)"

section \<open>Work requests\<close>

text \<open>Fields that the source leaves unset for an opcode that does not use them are 0.\<close>

definition setup_wr :: "addr \<Rightarrow> addr \<Rightarrow> u64 \<Rightarrow> u32 \<Rightarrow> ibv_opcode \<Rightarrow> bool \<Rightarrow> bool \<Rightarrow> send_wr" where
  "setup_wr d a len lkey m sig inl =
     \<lparr>wr_id = d, sg_addr = a, sg_length = ucast len, sg_lkey = lkey, opcode = m,
      signaled = sig, inlined = inl, imm_data = 0, remote_addr = 0, wr_rkey = 0\<rparr>"

definition lc_server_sends :: "nat \<Rightarrow> addr \<Rightarrow> addr \<Rightarrow> u64 \<Rightarrow> u32 \<Rightarrow> lc_state \<Rightarrow> lc_state" where
  "lc_server_sends d rep ubuf sz proto s =
     (let this_wr = setup_wr 0 ubuf sz 0 IBV_WR_SEND_WITH_IMM False True;
          n = ninline s;
          s = s\<lparr>ninline := Suc n\<rparr>;
          (this_wr, s) = (if n = 64 then (this_wr\<lparr>signaled := True\<rparr>, s\<lparr>ninline := 0\<rparr>) else (this_wr, s))
      in emit (Post_send rep (this_wr\<lparr>imm_data := proto\<rparr>)) s)"

definition lc_server_sendm :: "nat \<Rightarrow> addr \<Rightarrow> u64 \<Rightarrow> addr \<Rightarrow> u32 \<Rightarrow> lc_state \<Rightarrow> lc_state" where
  "lc_server_sendm d rep sz ctx proto s =
     (let this_wr = setup_wr ctx (pk_data ctx) sz (heap_lkey (lcg_dev s d))
                      IBV_WR_SEND_WITH_IMM True False
      in emit (Post_send rep (this_wr\<lparr>imm_data := proto\<rparr>)) s)"

definition lc_server_puts :: "nat \<Rightarrow> addr \<Rightarrow> addr \<Rightarrow> u64 \<Rightarrow> u32 \<Rightarrow> u32 \<Rightarrow> u64 \<Rightarrow> lc_state \<Rightarrow> lc_state" where
  "lc_server_puts d rep buf base offset rkey sz s =
     (let this_wr = setup_wr 0 buf sz 0 IBV_WR_RDMA_WRITE True True
      in emit (Post_send rep (this_wr\<lparr>remote_addr := base + ucast offset, wr_rkey := rkey\<rparr>)) s)"

definition lc_server_putss ::
    "nat \<Rightarrow> addr \<Rightarrow> addr \<Rightarrow> u64 \<Rightarrow> u32 \<Rightarrow> u32 \<Rightarrow> u32 \<Rightarrow> u64 \<Rightarrow> lc_state \<Rightarrow> lc_state" where
  "lc_server_putss d rep buf base offset rkey meta sz s =
     (let this_wr = setup_wr 0 buf sz 0 IBV_WR_RDMA_WRITE_WITH_IMM True True
      in emit (Post_send rep (this_wr\<lparr>remote_addr := base + ucast offset, wr_rkey := rkey,
                                      imm_data := meta\<rparr>)) s)"

definition lc_server_putm ::
    "nat \<Rightarrow> addr \<Rightarrow> u64 \<Rightarrow> u32 \<Rightarrow> u32 \<Rightarrow> u64 \<Rightarrow> addr \<Rightarrow> lc_state \<Rightarrow> lc_state" where
  "lc_server_putm d rep base offset rkey sz ctx s =
     (let this_wr = setup_wr ctx (pk_data ctx) sz (heap_lkey (lcg_dev s d)) IBV_WR_RDMA_WRITE True False
      in emit (Post_send rep (this_wr\<lparr>remote_addr := base + ucast offset, wr_rkey := rkey\<rparr>)) s)"

definition lc_server_putms ::
    "nat \<Rightarrow> addr \<Rightarrow> u64 \<Rightarrow> u32 \<Rightarrow> u32 \<Rightarrow> u64 \<Rightarrow> u32 \<Rightarrow> addr \<Rightarrow> lc_state \<Rightarrow> lc_state" where
  "lc_server_putms d rep base offset rkey sz meta ctx s =
     (let this_wr = setup_wr ctx (pk_data ctx) sz (heap_lkey (lcg_dev s d))
                      IBV_WR_RDMA_WRITE_WITH_IMM True False
      in emit (Post_send rep (this_wr\<lparr>remote_addr := base + ucast offset, wr_rkey := rkey,
                                      imm_data := meta\<rparr>)) s)"

definition lc_server_putl ::
    "lc_env \<Rightarrow> nat \<Rightarrow> addr \<Rightarrow> addr \<Rightarrow> u64 \<Rightarrow> u32 \<Rightarrow> u32 \<Rightarrow> u64 \<Rightarrow> addr \<Rightarrow> lc_state \<Rightarrow> lc_state" where
  "lc_server_putl e d rep buf base offset rkey sz ctx s =
     (let (m, s) = lc_server_rma_reg e buf sz s;
          this_wr = setup_wr ctx buf sz (ibv_rma_lkey e m) IBV_WR_RDMA_WRITE True False
      in emit (Post_send rep (this_wr\<lparr>remote_addr := base + ucast offset, wr_rkey := rkey\<rparr>)) s)"

definition lc_server_putls ::
    "lc_env \<Rightarrow> nat \<Rightarrow> addr \<Rightarrow> addr \<Rightarrow> u64 \<Rightarrow> u32 \<Rightarrow> u32 \<Rightarrow> u64 \<Rightarrow> u32 \<Rightarrow> addr \<Rightarrow> lc_state \<Rightarrow> lc_state" where
  "lc_server_putls e d rep buf base offset rkey sz meta ctx s =
     (let (m, s) = lc_server_rma_reg e buf sz s;
          this_wr = setup_wr ctx buf sz (ibv_rma_lkey e m) IBV_WR_RDMA_WRITE_WITH_IMM True False
      in emit (Post_send rep (this_wr\<lparr>remote_addr := base + ucast offset, wr_rkey := rkey,
                                      imm_data := meta\<rparr>)) s)"

definition lc_server_rma_rtr ::
    "lc_env \<Rightarrow> nat \<Rightarrow> addr \<Rightarrow> addr \<Rightarrow> u64 \<Rightarrow> u32 \<Rightarrow> u64 \<Rightarrow> u32 \<Rightarrow> addr \<Rightarrow> lc_state \<Rightarrow> lc_state" where
  "lc_server_rma_rtr e d rep buf a rkey sz sid ctx s =
     (let (lkey, inl, s) =
            (if sz > max_inline (lcg_dev s d)
             then let (m, s) = lc_server_rma_reg e buf sz s in (ibv_rma_lkey e m, False, s)
             else (0, True, s));
          this_wr = setup_wr ctx buf sz lkey IBV_WR_RDMA_WRITE_WITH_IMM True inl
      in emit (Post_send rep (this_wr\<lparr>remote_addr := a, wr_rkey := rkey,
                                      imm_data := sid OR IBV_IMM_RTR\<rparr>)) s)"

section \<open>Receive buffers\<close>

text \<open>
  The pool calls with the process's globals and random values; \<open>lc_pool_get_nb\<close> consumes one
  value of \<open>rand\<close>.
\<close>

definition pool_get_nb :: "lc_env \<Rightarrow> nat \<Rightarrow> lc_state \<Rightarrow> (addr \<times> lc_state) res" where
  "pool_get_nb e d s =
     bind_res (lc_pool_get_nb (globals s) (sv_pkpool (lcg_dev s d)) (worker_id e) (rands s 0))
       (\<lambda>(p, g, pool). Inr (p, (upd_dev d (\<lambda>v. v\<lparr>sv_pkpool := pool\<rparr>) s)
          \<lparr>globals := g, rands := (\<lambda>i. rands s (Suc i))\<rparr>))"

definition pool_put :: "lc_env \<Rightarrow> nat \<Rightarrow> addr \<Rightarrow> proc" where
  "pool_put e d p s =
     bind_res (lc_pool_put (globals s) (sv_pkpool (lcg_dev s d)) (worker_id e) p)
       (\<lambda>(g, pool). Inr ((upd_dev d (\<lambda>v. v\<lparr>sv_pkpool := pool\<rparr>) s)\<lparr>globals := g\<rparr>))"

definition pool_put_to :: "nat \<Rightarrow> addr \<Rightarrow> nat \<Rightarrow> proc" where
  "pool_put_to d p pid s =
     bind_res (lc_pool_put_to (sv_pkpool (lcg_dev s d)) p pid)
       (\<lambda>pool. Inr (upd_dev d (\<lambda>v. v\<lparr>sv_pkpool := pool\<rparr>) s))"

definition pool_get_local :: "lc_env \<Rightarrow> nat \<Rightarrow> lc_state \<Rightarrow> (nat \<times> lc_state) res" where
  "pool_get_local e d s =
     bind_res (lc_pool_get_local (globals s) (sv_pkpool (lcg_dev s d)) (worker_id e))
       (\<lambda>(pid, g, pool). Inr (pid, (upd_dev d (\<lambda>v. v\<lparr>sv_pkpool := pool\<rparr>) s)\<lparr>globals := g\<rparr>))"

definition ibv_post_recv :: "lc_env \<Rightarrow> nat \<Rightarrow> addr \<Rightarrow> proc" where
  "ibv_post_recv e d p s =
     (if p = NULL
      then Inr (if recv_posted (lcg_dev s d) < LC_SERVER_MAX_RCVS div 2 \<and> \<not> lcg_deadlock s
                then s\<lparr>lcg_deadlock := True\<rparr> else s)
      else bind_res (pool_get_local e d s) (\<lambda>(pid, s).
        let s = upd_pk p (\<lambda>c. c\<lparr>poolid := word_of_nat pid\<rparr>) s;
            s = emit (Post_recv p (pk_data p) POST_MSG_SIZE (heap_lkey (lcg_dev s d))) s;
            s = upd_dev d (\<lambda>v. v\<lparr>recv_posted := recv_posted v + 1\<rparr>) s
        in Inr (if recv_posted (lcg_dev s d) = LC_SERVER_MAX_RCVS \<and> lcg_deadlock s
                then s\<lparr>lcg_deadlock := False\<rparr> else s)))"

section \<open>The device's pool\<close>

definition dev_pool_ok :: "lc_env \<Rightarrow> nat \<Rightarrow> lc_state \<Rightarrow> bool" where
  "dev_pool_ok e d s \<longleftrightarrow> pool_inv (globals s) (sv_pkpool (lcg_dev s d)) \<and> worker_id e < MAX_NPOOLS"

definition dev_mset :: "nat \<Rightarrow> lc_state \<Rightarrow> addr multiset" where
  "dev_mset d s = pool_mset (sv_pkpool (lcg_dev s d))"

definition set_pool :: "nat \<Rightarrow> pool_globals \<Rightarrow> lc_pool \<Rightarrow> lc_state \<Rightarrow> lc_state" where
  "set_pool d g pool s = (upd_dev d (\<lambda>v. v\<lparr>sv_pkpool := pool\<rparr>) s)\<lparr>globals := g\<rparr>"

lemma set_pool_simps [simp]:
  "mem (set_pool d g pool s) = mem s" "reqs (set_pool d g pool s) = reqs s"
  "pks (set_pool d g pool s) = pks s" "log (set_pool d g pool s) = log s"
  "lcg_ep (set_pool d g pool s) = lcg_ep s" "globals (set_pool d g pool s) = g"
  "sv_pkpool (lcg_dev (set_pool d g pool s) d) = pool"
  "recv_posted (lcg_dev (set_pool d g pool s) x) = recv_posted (lcg_dev s x)"
  "lcg_deadlock (set_pool d g pool s) = lcg_deadlock s"
  by (simp_all add: set_pool_def upd_dev_def)

lemma dev_mset_set_pool [simp]: "dev_mset d (set_pool d g pool s) = pool_mset pool"
  by (simp add: dev_mset_def)

lemma dev_pool_ok_set_pool [simp]:
  "dev_pool_ok e d (set_pool d g pool s) \<longleftrightarrow> pool_inv g pool \<and> worker_id e < MAX_NPOOLS"
  by (simp add: dev_pool_ok_def)

lemma dev_mset_upd [simp]:
  "dev_mset d (upd_req r f s) = dev_mset d s" "dev_mset d (upd_pk p f' s) = dev_mset d s"
  "dev_mset d (emit ev s) = dev_mset d s" "dev_mset d (s\<lparr>mem := m\<rparr>) = dev_mset d s"
  "dev_mset d (upd_ep n k s) = dev_mset d s" "dev_mset d (s\<lparr>lcg_deadlock := b\<rparr>) = dev_mset d s"
  by (simp_all add: dev_mset_def upd_req_def upd_pk_def emit_def upd_ep_def)

lemma dev_pool_ok_upd [simp]:
  "dev_pool_ok e d (upd_req r f s) = dev_pool_ok e d s" "dev_pool_ok e d (upd_pk p f' s) = dev_pool_ok e d s"
  "dev_pool_ok e d (emit ev s) = dev_pool_ok e d s" "dev_pool_ok e d (s\<lparr>mem := m\<rparr>) = dev_pool_ok e d s"
  "dev_pool_ok e d (upd_ep n k s) = dev_pool_ok e d s"
  "dev_pool_ok e d (s\<lparr>lcg_deadlock := b\<rparr>) = dev_pool_ok e d s"
  by (simp_all add: dev_pool_ok_def upd_req_def upd_pk_def emit_def upd_ep_def)

lemma pool_put_dev:
  assumes "dev_pool_ok e d s" "p \<noteq> NULL" "size (dev_mset d s) < 4095"
  shows "\<exists>g pool. pool_put e d p s = Inr (set_pool d g pool s) \<and> pool_inv g pool
    \<and> pool_mset pool = add_mset p (dev_mset d s)"
  using assms lc_pool_put_ok [of "globals s" "sv_pkpool (lcg_dev s d)" "worker_id e" p]
  by (auto simp: pool_put_def dev_pool_ok_def dev_mset_def set_pool_def)

lemma pool_put_to_dev:
  assumes "dev_pool_ok e d s" "p \<noteq> NULL" "size (dev_mset d s) < 4095"
    "pid < length (lpools (sv_pkpool (lcg_dev s d)))"
  shows "\<exists>g pool. pool_put_to d p pid s = Inr (set_pool d g pool s) \<and> pool_inv g pool
    \<and> pool_mset pool = add_mset p (dev_mset d s)"
proof -
  let ?pool = "sv_pkpool (lcg_dev s d)"
  have "length (dq_list (lpools ?pool ! pid)) < 4095"
    using pool_mset_subset [OF assms(4)] assms(3) size_mset_mono
    by (fastforce simp: dev_mset_def)
  then obtain pool where "lc_pool_put_to ?pool p pid = Inr pool" "pool_inv (globals s) pool"
      "pool_mset pool = add_mset p (pool_mset ?pool)"
    using put_to_ok [OF _ assms(4,2)] assms(1) unfolding dev_pool_ok_def by blast
  then show ?thesis
    by (intro exI [of _ "globals s"] exI [of _ pool])
      (simp add: pool_put_to_def set_pool_def dev_mset_def upd_dev_def)
qed

end
