(* ===== verification/LC_Proto.thy ===== *)
theory LC_Proto
  imports LC_Ibv
begin

text \<open>
  The protocol engine of \<open>src/include/proto.h\<close>: what happens to a packet that arrives, to one
  whose send completes, and to one whose remote write completes; the completion mechanisms;
  and the two steps of the rendezvous. An endpoint pointer is the endpoint's number; a packet
  or request pointer is its address.
\<close>

section \<open>Requests and rendezvous packets\<close>

definition lci_init_req :: "addr \<Rightarrow> u64 \<Rightarrow> addr \<Rightarrow> lc_state \<Rightarrow> lc_state" where
  "lci_init_req buf sz req s =
     upd_req req (\<lambda>r. r\<lparr>buffer := buf, rq_size := sz, sync := 0\<rparr>) s"

definition lci_pk_init :: "nat \<Rightarrow> int \<Rightarrow> u32 \<Rightarrow> addr \<Rightarrow> lc_state \<Rightarrow> lc_state" where
  "lci_pk_init ep pid proto p s =
     upd_pk p (\<lambda>c. c\<lparr>pk_ep := ep, poolid := word_of_int pid, ref := 1, pk_proto := ucast proto\<rparr>) s"

definition lci_prepare_rtr :: "lc_env \<Rightarrow> lci_ep \<Rightarrow> addr \<Rightarrow> u64 \<Rightarrow> addr \<Rightarrow> lc_state \<Rightarrow> lc_state" where
  "lci_prepare_rtr e ep src sz p s =
     (let (m, s) = lc_server_rma_reg e src sz s;
          s = upd_pk p (\<lambda>c. c\<lparr>rma_mem := m, ref := 2\<rparr>) s;
          s = s\<lparr>mem := write32 (mem s) (rtr_comm_id p) (ucast (p - lc_server_heap_ptr (ep_server ep) s))\<rparr>;
          s = s\<lparr>mem := write64 (mem s) (rtr_tgt_addr p) src\<rparr>
      in s\<lparr>mem := write32 (mem s) (rtr_rkey p) (lc_server_rma_key e m)\<rparr>)"

definition lci_prepare_rts :: "addr \<Rightarrow> u64 \<Rightarrow> addr \<Rightarrow> addr \<Rightarrow> addr \<Rightarrow> lc_state \<Rightarrow> lc_state" where
  "lci_prepare_rts src sz cb ce p s =
     (let s = s\<lparr>mem := write64 (mem s) (rts_src_addr p) src\<rparr>;
          s = s\<lparr>mem := write64 (mem s) (rts_size p) sz\<rparr>;
          s = s\<lparr>mem := write64 (mem s) (rts_cb p) cb\<rparr>
      in s\<lparr>mem := write64 (mem s) (rts_ce p) ce\<rparr>)"

section \<open>Returning packets\<close>

definition lci_pk_free :: "lc_env \<Rightarrow> lci_ep \<Rightarrow> addr \<Rightarrow> proc" where
  "lci_pk_free e ep p s = pool_put e (ep_server ep) p s"

definition lci_pk_free_data :: "lc_env \<Rightarrow> lci_ep \<Rightarrow> addr \<Rightarrow> proc" where
  "lci_pk_free_data e ep p s =
     (let pid = sint (poolid (pks s p))
      in if pid \<noteq> - 1
         then if pid < 0 then Inl Out_of_bounds else pool_put_to (ep_server ep) p (nat pid) s
         else pool_put e (ep_server ep) p s)"

section \<open>Completion\<close>

definition lci_ce_glob :: "nat \<Rightarrow> proc" where
  "lci_ce_glob n s = Inr (upd_ep n (\<lambda>ep. ep\<lparr>completed := map_option (\<lambda>c. c + 1) (completed ep)\<rparr>) s)"

definition lci_ce_am :: "lc_env \<Rightarrow> lci_ep \<Rightarrow> addr \<Rightarrow> proc" where
  "lci_ce_am e ep p s =
     (case ce_union ep of
        Ep_handler h \<Rightarrow> lci_pk_free_data e ep p (emit (Call_handler h (pk_req (pks s p))) s)
      | _ \<Rightarrow> Inl Uninitialised)"

definition lci_ce_signal :: "lc_env \<Rightarrow> lci_ep \<Rightarrow> addr \<Rightarrow> proc" where
  "lci_ce_signal e ep p s =
     lci_pk_free_data e ep p (upd_req (pk_req (pks s p)) (\<lambda>r. r\<lparr>sync := 1\<rparr>) s)"

definition lci_ce_queue :: "nat \<Rightarrow> lci_ep \<Rightarrow> addr \<Rightarrow> proc" where
  "lci_ce_queue n ep p s =
     (let req = pk_req (pks s p);
          s = upd_req req (\<lambda>r. r\<lparr>parent := p\<rparr>) s
      in case ce_union ep of
           Ep_cq cq \<Rightarrow> bind_res (cq_push cq req) (\<lambda>cq. Inr (upd_ep n (\<lambda>ep. ep\<lparr>ce_union := Ep_cq cq\<rparr>) s))
         | _ \<Rightarrow> Inl Uninitialised)"

definition lci_ce_dispatch :: "lc_env \<Rightarrow> nat \<Rightarrow> addr \<Rightarrow> u64 \<Rightarrow> proc" where
  "lci_ce_dispatch e n p cp s =
     bind_res (get_ep s n) (\<lambda>ep.
       bind_res
         (if has_sync e \<and> cp AND EP_CE_SYNC \<noteq> 0 then lci_ce_signal e ep p s
          else if has_cq e \<and> cp AND EP_CE_CQ \<noteq> 0 then lci_ce_queue n ep p s
          else if has_am e \<and> cp AND EP_CE_AM \<noteq> 0 then lci_ce_am e ep p s
          else lci_pk_free_data e ep p s)
         (\<lambda>s. if has_glob e \<and> cp AND EP_CE_GLOB \<noteq> 0 then lci_ce_glob n s else Inr s))"

section \<open>Rendezvous\<close>

definition lci_handle_rtr :: "lc_env \<Rightarrow> nat \<Rightarrow> addr \<Rightarrow> proc" where
  "lci_handle_rtr e n p s =
     bind_res (get_ep s n) (\<lambda>ep.
       let s = lci_pk_init n (- 1) LC_PROTO_LONG p s
       in Inr (lc_server_rma_rtr e (ep_server ep) (rhandle (reqs s (pk_req (pks s p))))
            (read64 (mem s) (rts_src_addr p)) (read64 (mem s) (rtr_tgt_addr p))
            (read32 (mem s) (rtr_rkey p)) (read64 (mem s) (rts_size p))
            (read32 (mem s) (rtr_comm_id p)) p s))"

definition lci_handle_rts :: "lc_env \<Rightarrow> nat \<Rightarrow> addr \<Rightarrow> proc" where
  "lci_handle_rts e n p s =
     bind_res (get_ep s n) (\<lambda>ep.
       let s = lci_pk_init n (- 1) LC_PROTO_RTR p s;
           proto = MAKE_PROTO (gid ep) LC_PROTO_RTR 0;
           s = lci_prepare_rtr e ep (buffer (reqs s (pk_req (pks s p)))) (read64 (mem s) (rts_size p)) p s
       in Inr (lc_server_sendm (ep_server ep) (rhandle (reqs s (pk_req (pks s p))))
            sizeof_packet_rtr p proto s))"

section \<open>Arriving packets\<close>

definition set_meta :: "addr \<Rightarrow> u32 \<Rightarrow> lc_state \<Rightarrow> lc_state" where
  "set_meta p proto s = upd_req (pk_req (pks s p)) (\<lambda>r. r\<lparr>rq_meta := PROTO_GET_META proto\<rparr>) s"

definition lci_serve_recv_imm :: "lc_env \<Rightarrow> nat \<Rightarrow> addr \<Rightarrow> u32 \<Rightarrow> u64 \<Rightarrow> proc" where
  "lci_serve_recv_imm e n p proto cp s =
     (let s = set_meta p proto s;
          s = upd_req (pk_req (pks s p)) (\<lambda>r. r\<lparr>buffer := pk_data p\<rparr>) s
      in lci_ce_dispatch e n p cp s)"

text \<open>\<open>ep->alloc\<close>: the user's function returns a buffer and leaves its context in the request.\<close>

definition ep_alloc_call :: "lc_env \<Rightarrow> lci_ep \<Rightarrow> u64 \<Rightarrow> addr \<Rightarrow> lc_state \<Rightarrow> (addr \<times> lc_state) res" where
  "ep_alloc_call e ep sz req s =
     (case ep_union ep of
        Ep_alloc f \<Rightarrow> let (buf, c) = user_alloc e f sz (log s)
                     in Inr (buf, upd_req req (\<lambda>r. r\<lparr>rq_ctx := c\<rparr>) (emit (Call_alloc f sz) s))
      | _ \<Rightarrow> Inl Uninitialised)"

definition lci_serve_recv_dyn :: "lc_env \<Rightarrow> nat \<Rightarrow> addr \<Rightarrow> u32 \<Rightarrow> u64 \<Rightarrow> proc" where
  "lci_serve_recv_dyn e n p proto cp s =
     (let s = set_meta p proto s;
          req = pk_req (pks s p);
          proto = PROTO_GET_PROTO proto
      in bind_res (get_ep s n) (\<lambda>ep.
         if proto = LC_PROTO_DATA then
           bind_res (ep_alloc_call e ep (rq_size (reqs s req)) req s) (\<lambda>(buf, s).
             let s = s\<lparr>mem := memcpy (mem s) buf (pk_data p) (rq_size (reqs s req))\<rparr>;
                 s = upd_req req (\<lambda>r. r\<lparr>buffer := buf\<rparr>) s
             in lci_ce_dispatch e n p cp s)
         else if proto = LC_PROTO_RTS then
           bind_res (ep_alloc_call e ep (read64 (mem s) (rts_size p)) req s) (\<lambda>(buf, s).
             lci_handle_rts e n p (lci_init_req buf (read64 (mem s) (rts_size p)) req s))
         else if proto = LC_PROTO_RTR then lci_handle_rtr e n p s
         else Inr s))"

text \<open>\<open>lc_hash_insert(ep->tbl, ...)\<close>: the flag, the value and the state with the new table.\<close>

definition ep_tbl_insert ::
    "nat \<Rightarrow> u64 \<Rightarrow> addr \<Rightarrow> insert_type \<Rightarrow> lc_state \<Rightarrow> (nat \<times> addr \<times> lc_state) res" where
  "ep_tbl_insert n key val type s =
     bind_res (get_ep s n) (\<lambda>ep.
       case ep_union ep of
         Ep_tbl h \<Rightarrow> let (f, v, h) = lc_hash_insert h key val type
                     in Inr (f, v, upd_ep n (\<lambda>ep. ep\<lparr>ep_union := Ep_tbl h\<rparr>) s)
       | _ \<Rightarrow> Inl Uninitialised)"

definition lci_serve_recv_expl :: "lc_env \<Rightarrow> nat \<Rightarrow> addr \<Rightarrow> u32 \<Rightarrow> u64 \<Rightarrow> proc" where
  "lci_serve_recv_expl e n p proto cp s =
     (let s = set_meta p proto s;
          proto = PROTO_GET_PROTO proto;
          s = upd_pk p (\<lambda>c. c\<lparr>pk_proto := ucast proto\<rparr>) s;
          preq = reqs s (pk_req (pks s p));
          key = lc_make_key (rq_rank preq) (rq_meta preq)
      in if proto = LC_PROTO_DATA then
           bind_res (ep_tbl_insert n key p SERVER s) (\<lambda>(f, val, s).
             if f = 0 then
               let s = upd_req val (\<lambda>r. r\<lparr>rq_size := rq_size (reqs s (pk_req (pks s p)))\<rparr>) s;
                   s = s\<lparr>mem := memcpy (mem s) (buffer (reqs s val)) (pk_data p)
                                  (rq_size (reqs s (pk_req (pks s p))))\<rparr>;
                   s = upd_pk p (\<lambda>c. c\<lparr>pk_req := val\<rparr>) s
               in lci_ce_dispatch e n p cp s
             else Inr s)
         else if proto = LC_PROTO_RTS then
           bind_res (ep_tbl_insert n key p SERVER s) (\<lambda>(f, val, s).
             if f = 0 then lci_handle_rts e n p (upd_pk p (\<lambda>c. c\<lparr>pk_req := val\<rparr>) s)
             else Inr s)
         else if proto = LC_PROTO_RTR then lci_handle_rtr e n p s
         else Inr s)"

definition lci_serve_recv_dispatch :: "lc_env \<Rightarrow> nat \<Rightarrow> addr \<Rightarrow> u32 \<Rightarrow> u64 \<Rightarrow> proc" where
  "lci_serve_recv_dispatch e n p proto cp s =
     (if has_exp e \<and> cp AND EP_AR_EXP \<noteq> 0 then lci_serve_recv_expl e n p proto cp s
      else if has_dyn e \<and> cp AND EP_AR_DYN \<noteq> 0 then lci_serve_recv_dyn e n p proto cp s
      else if has_imm e \<and> cp AND EP_AR_IMM \<noteq> 0 then lci_serve_recv_imm e n p proto cp s
      else Inr s)"

text \<open>\<open>lcg_ep[PROTO_GET_RGID(proto)]\<close>, an array of \<open>LC_MAX_EP\<close> pointers.\<close>

definition ep_of_proto :: "lc_env \<Rightarrow> u32 \<Rightarrow> lc_state \<Rightarrow> (nat \<times> lci_ep) res" where
  "ep_of_proto e proto s =
     (let n = unat (PROTO_GET_RGID proto)
      in if n \<ge> LC_MAX_EP e then Inl Out_of_bounds
         else bind_res (get_ep s n) (\<lambda>ep. Inr (n, ep)))"

definition lci_serve_recv :: "lc_env \<Rightarrow> addr \<Rightarrow> u32 \<Rightarrow> proc" where
  "lci_serve_recv e p proto s =
     bind_res (ep_of_proto e proto s) (\<lambda>(n, ep). lci_serve_recv_dispatch e n p proto (cap ep) s)"

definition lci_serve_recv_rdma :: "lc_env \<Rightarrow> addr \<Rightarrow> u32 \<Rightarrow> proc" where
  "lci_serve_recv_rdma e p proto s =
     bind_res (ep_of_proto e proto s) (\<lambda>(n, ep).
       lci_ce_dispatch e n p (cap ep) (set_meta p proto s))"

section \<open>Completed sends and remote writes\<close>

text \<open>\<open>--p->context.ref == 0\<close>, then the completion.\<close>

definition drop_ref :: "lc_env \<Rightarrow> nat \<Rightarrow> addr \<Rightarrow> proc" where
  "drop_ref e n p s =
     bind_res (get_ep s n) (\<lambda>ep.
       let s = upd_pk p (\<lambda>c. c\<lparr>ref := ref c - 1\<rparr>) s
       in if ref (pks s p) = 0 then lci_ce_dispatch e n p (cap ep) s else Inr s)"

definition lci_serve_send :: "lc_env \<Rightarrow> addr \<Rightarrow> proc" where
  "lci_serve_send e p s =
     (let n = pk_ep (pks s p);
          proto = scast (pk_proto (pks s p)) :: u32
      in bind_res (get_ep s n) (\<lambda>ep.
         if proto = LC_PROTO_RTR then drop_ref e n p s
         else if proto = LC_PROTO_LONG then
           lci_pk_free e ep p
             (emit (Call_cb (read64 (mem s) (rts_cb p)) (read64 (mem s) (rts_ce p))) s)
         else if proto = LC_PROTO_RTS then lci_pk_free e ep p s
         else lci_pk_free_data e ep p s))"

definition lci_serve_imm :: "lc_env \<Rightarrow> addr \<Rightarrow> proc" where
  "lci_serve_imm e p s =
     drop_ref e (pk_ep (pks s p)) p (lc_server_rma_dereg (rma_mem (pks s p)) s)"

section \<open>What a completion does\<close>

text \<open>A packet may be returned when its pool number is \<open>-1\<close> or the number of a dequeue.\<close>

definition poolid_ok :: "nat \<Rightarrow> lc_state \<Rightarrow> addr \<Rightarrow> bool" where
  "poolid_ok d s p \<longleftrightarrow> sint (poolid (pks s p)) = - 1
     \<or> 0 \<le> sint (poolid (pks s p)) \<and> nat (sint (poolid (pks s p))) < length (lpools (sv_pkpool (lcg_dev s d)))"

definition can_free :: "lc_env \<Rightarrow> nat \<Rightarrow> lc_state \<Rightarrow> addr \<Rightarrow> bool" where
  "can_free e d s p \<longleftrightarrow> dev_pool_ok e d s \<and> p \<noteq> NULL \<and> size (dev_mset d s) < 4095 \<and> poolid_ok d s p"

lemma poolid_ok_upd [simp]:
  "poolid_ok d (upd_req r f s) p = poolid_ok d s p" "poolid_ok d (emit ev s) p = poolid_ok d s p"
  "poolid_ok d (s\<lparr>mem := m\<rparr>) p = poolid_ok d s p" "poolid_ok d (upd_ep n k s) p = poolid_ok d s p"
  by (simp_all add: poolid_ok_def upd_req_def emit_def upd_ep_def)

lemma can_free_upd [simp]:
  "can_free e d (upd_req r f s) p = can_free e d s p" "can_free e d (emit ev s) p = can_free e d s p"
  "can_free e d (s\<lparr>mem := m\<rparr>) p = can_free e d s p" "can_free e d (upd_ep n k s) p = can_free e d s p"
  by (simp_all add: can_free_def)

lemma can_free_upd_pk [simp]:
  "(\<And>c. poolid (f c) = poolid c) \<Longrightarrow> can_free e d (upd_pk x f s) p = can_free e d s p"
  by (simp add: can_free_def poolid_ok_def) (simp add: upd_pk_def)

lemma lci_pk_free_data_ok:
  assumes "can_free e (ep_server ep) s p"
  shows "\<exists>g pool. lci_pk_free_data e ep p s = Inr (set_pool (ep_server ep) g pool s) \<and> pool_inv g pool
    \<and> pool_mset pool = add_mset p (dev_mset (ep_server ep) s)"
  using assms pool_put_dev [of e "ep_server ep" s p] pool_put_to_dev [of e "ep_server ep" s p]
  by (auto simp: lci_pk_free_data_def Let_def can_free_def poolid_ok_def)

lemma lci_ce_glob_fields:
  "lci_ce_glob n s = Inr s' \<Longrightarrow> mem s' = mem s \<and> reqs s' = reqs s \<and> pks s' = pks s \<and> log s' = log s
     \<and> lcg_dev s' = lcg_dev s \<and> globals s' = globals s"
  by (auto simp: lci_ce_glob_def upd_ep_def)

lemma lci_ce_dispatch_sync:
  assumes "get_ep s n = Inr ep" "has_sync e" "cp AND EP_CE_SYNC \<noteq> 0" "can_free e (ep_server ep) s p"
  shows "\<exists>s'. lci_ce_dispatch e n p cp s = Inr s' \<and> mem s' = mem s \<and> log s' = log s \<and> pks s' = pks s
    \<and> reqs s' = (reqs s)(pk_req (pks s p) := reqs s (pk_req (pks s p))\<lparr>sync := 1\<rparr>)
    \<and> dev_mset (ep_server ep) s' = add_mset p (dev_mset (ep_server ep) s)"
proof -
  let ?t = "upd_req (pk_req (pks s p)) (\<lambda>r. r\<lparr>sync := 1\<rparr>) s"
  obtain g pool where f: "lci_pk_free_data e ep p ?t = Inr (set_pool (ep_server ep) g pool ?t)"
      "pool_mset pool = add_mset p (dev_mset (ep_server ep) s)"
    using lci_pk_free_data_ok [of e ep ?t p] assms(4) by auto
  obtain s' where g: "(if has_glob e \<and> cp AND EP_CE_GLOB \<noteq> 0
      then lci_ce_glob n (set_pool (ep_server ep) g pool ?t) else Inr (set_pool (ep_server ep) g pool ?t)) = Inr s'"
    by (cases "has_glob e \<and> cp AND EP_CE_GLOB \<noteq> 0") (simp_all add: lci_ce_glob_def)
  then have "lci_ce_dispatch e n p cp s = Inr s'"
    using assms f by (simp add: lci_ce_dispatch_def lci_ce_signal_def)
  moreover have "mem s' = mem s \<and> log s' = log s \<and> pks s' = pks s
    \<and> reqs s' = (reqs s)(pk_req (pks s p) := reqs s (pk_req (pks s p))\<lparr>sync := 1\<rparr>)
    \<and> dev_mset (ep_server ep) s' = add_mset p (dev_mset (ep_server ep) s)"
    using g f(2) by (auto simp: dev_mset_def upd_req_def dest!: lci_ce_glob_fields split: if_splits)
  ultimately show ?thesis by blast
qed

end
