(* ===== verification/LC_Api.thy ===== *)
theory LC_Api
  imports LC_Proto
begin

text \<open>
  The interface of the library: \<open>src/short.c\<close>, \<open>src/medium.c\<close>, \<open>src/long.c\<close>, \<open>src/tag.c\<close>,
  \<open>src/cq.c\<close>, \<open>src/glob.c\<close>, \<open>src/misc.c\<close> and \<open>src/ep.c\<close>, with the endpoint creation of
  \<open>src/include/lc_priv.h\<close>.
\<close>

section \<open>Helpers of the interface\<close>

text \<open>\<open>&ep->rep[rank]\<close>, an array with one entry per process; \<open>rank\<close> is an \<open>int\<close>.\<close>

definition ep_rep_at :: "lci_ep \<Rightarrow> u32 \<Rightarrow> lci_rep res" where
  "ep_rep_at ep rank =
     (if 0 \<le> sint rank \<and> nat (sint rank) < length (ep_rep ep) then Inr (ep_rep ep ! nat (sint rank))
      else Inl Out_of_bounds)"

text \<open>
  \<open>LC_POOL_GET_OR_RETN\<close>: the rest of the function runs with a packet, or the call returns
  \<open>LC_ERR_RETRY\<close>.
\<close>

definition LC_POOL_GET_OR_RETN ::
    "lc_env \<Rightarrow> lci_ep \<Rightarrow> (addr \<Rightarrow> lc_state \<Rightarrow> (lc_status \<times> lc_state) res) \<Rightarrow> lc_state \<Rightarrow> (lc_status \<times> lc_state) res" where
  "LC_POOL_GET_OR_RETN e ep k s =
     (if lcg_deadlock s then Inr (LC_ERR_RETRY, s)
      else bind_res (pool_get_nb e (ep_server ep) s) (\<lambda>(p, s).
        if p = NULL then Inr (LC_ERR_RETRY, s) else k p s))"

text \<open>\<open>lci_pk_init\<close> of the medium protocol: big packets go back to the pool they came from.\<close>

definition pk_init_medium :: "lc_env \<Rightarrow> nat \<Rightarrow> lci_ep \<Rightarrow> u64 \<Rightarrow> addr \<Rightarrow> proc" where
  "pk_init_medium e n ep sz p s =
     bind_res (if sz > 1024 then bind_res (pool_get_local e (ep_server ep) s) (\<lambda>(pid, s). Inr (int pid, s))
               else Inr (- 1, s))
       (\<lambda>(pid, s). Inr (lci_pk_init n pid LC_PROTO_DATA p s))"

section \<open>Short messages\<close>

definition lc_sends :: "addr \<Rightarrow> u64 \<Rightarrow> u32 \<Rightarrow> u32 \<Rightarrow> nat \<Rightarrow> lc_state \<Rightarrow> (lc_status \<times> lc_state) res" where
  "lc_sends src sz rank tag n s =
     bind_res (get_ep s n) (\<lambda>ep. bind_res (ep_rep_at ep rank) (\<lambda>rep.
       Inr (LC_OK, lc_server_sends (ep_server ep) (rp_handle rep) src sz
                     (MAKE_PROTO (gid ep) LC_PROTO_DATA tag) s)))"

definition lc_puts :: "addr \<Rightarrow> u64 \<Rightarrow> u32 \<Rightarrow> u64 \<Rightarrow> nat \<Rightarrow> lc_state \<Rightarrow> (lc_status \<times> lc_state) res" where
  "lc_puts src sz rank dst n s =
     bind_res (get_ep s n) (\<lambda>ep. bind_res (ep_rep_at ep rank) (\<lambda>rep.
       Inr (LC_OK, lc_server_puts (ep_server ep) (rp_handle rep) src (rp_base rep)
                     (ucast (dst - rp_base rep)) (rp_rkey rep) sz s)))"

definition lc_putss :: "addr \<Rightarrow> u64 \<Rightarrow> u32 \<Rightarrow> u64 \<Rightarrow> u32 \<Rightarrow> nat \<Rightarrow> lc_state \<Rightarrow> (lc_status \<times> lc_state) res" where
  "lc_putss src sz rank dst meta n s =
     bind_res (get_ep s n) (\<lambda>ep. bind_res (ep_rep_at ep rank) (\<lambda>rep.
       Inr (LC_OK, lc_server_putss (ep_server ep) (rp_handle rep) src (rp_base rep)
                     (ucast (dst - rp_base rep)) (rp_rkey rep)
                     (MAKE_PROTO (gid ep) LC_PROTO_LONG meta) sz s)))"

section \<open>Medium messages\<close>

definition lc_sendm ::
    "lc_env \<Rightarrow> addr \<Rightarrow> u64 \<Rightarrow> u32 \<Rightarrow> u32 \<Rightarrow> nat \<Rightarrow> lc_state \<Rightarrow> (lc_status \<times> lc_state) res" where
  "lc_sendm e src sz rank tag n s =
     bind_res (get_ep s n) (\<lambda>ep. LC_POOL_GET_OR_RETN e ep (\<lambda>p s.
       bind_res (pk_init_medium e n ep sz p s) (\<lambda>s.
       bind_res (ep_rep_at ep rank) (\<lambda>rep.
         let s = s\<lparr>mem := memcpy (mem s) (pk_data p) src sz\<rparr>
         in Inr (LC_OK, lc_server_sendm (ep_server ep) (rp_handle rep) sz p
                          (MAKE_PROTO (gid ep) LC_PROTO_DATA tag) s)))) s)"

definition lc_putm ::
    "lc_env \<Rightarrow> addr \<Rightarrow> u64 \<Rightarrow> u32 \<Rightarrow> u64 \<Rightarrow> nat \<Rightarrow> lc_state \<Rightarrow> (lc_status \<times> lc_state) res" where
  "lc_putm e src sz rank dst n s =
     bind_res (get_ep s n) (\<lambda>ep. LC_POOL_GET_OR_RETN e ep (\<lambda>p s.
       bind_res (pk_init_medium e n ep sz p s) (\<lambda>s.
       bind_res (ep_rep_at ep rank) (\<lambda>rep.
         let s = s\<lparr>mem := memcpy (mem s) (pk_data p) src sz\<rparr>
         in Inr (LC_OK, lc_server_putm (ep_server ep) (rp_handle rep) (rp_base rep)
                          (ucast (dst - rp_base rep)) (rp_rkey rep) sz p s)))) s)"

definition lc_putms ::
    "lc_env \<Rightarrow> addr \<Rightarrow> u64 \<Rightarrow> u32 \<Rightarrow> u64 \<Rightarrow> u32 \<Rightarrow> nat \<Rightarrow> lc_state \<Rightarrow> (lc_status \<times> lc_state) res" where
  "lc_putms e src sz rank dst meta n s =
     bind_res (get_ep s n) (\<lambda>ep. LC_POOL_GET_OR_RETN e ep (\<lambda>p s.
       bind_res (pk_init_medium e n ep sz p s) (\<lambda>s.
       bind_res (ep_rep_at ep rank) (\<lambda>rep.
         let s = s\<lparr>mem := memcpy (mem s) (pk_data p) src sz\<rparr>
         in Inr (LC_OK, lc_server_putms (ep_server ep) (rp_handle rep) (rp_base rep)
                          (ucast (dst - rp_base rep)) (rp_rkey rep) sz
                          (MAKE_PROTO (gid ep) LC_PROTO_LONG meta) p s)))) s)"

text \<open>The matched packet of a medium receive: copy, take over the size, complete.\<close>

definition recv_data :: "lc_env \<Rightarrow> addr \<Rightarrow> nat \<Rightarrow> addr \<Rightarrow> addr \<Rightarrow> proc" where
  "recv_data e src n req p s =
     bind_res (get_ep s n) (\<lambda>ep.
       let s = s\<lparr>mem := memcpy (mem s) src (pk_data p) (rq_size (reqs s (pk_req (pks s p))))\<rparr>;
           s = upd_req req (\<lambda>r. r\<lparr>rq_size := rq_size (reqs s (pk_req (pks s p)))\<rparr>) s;
           s = upd_pk p (\<lambda>c. c\<lparr>pk_req := req\<rparr>) s
       in lci_ce_dispatch e n p (cap ep) s)"

definition lc_recvm ::
    "lc_env \<Rightarrow> addr \<Rightarrow> u64 \<Rightarrow> u32 \<Rightarrow> u32 \<Rightarrow> nat \<Rightarrow> addr \<Rightarrow> lc_state \<Rightarrow> (lc_status \<times> lc_state) res" where
  "lc_recvm e src sz rank tag n req s =
     (let s = lci_init_req src sz req s
      in bind_res (ep_tbl_insert n (lc_make_key rank tag) req CLIENT s) (\<lambda>(f, p, s).
         bind_res (if f = 0 then recv_data e src n req p s else Inr s) (\<lambda>s. Inr (LC_OK, s))))"

section \<open>Long messages\<close>

definition lc_sendl ::
    "lc_env \<Rightarrow> addr \<Rightarrow> u64 \<Rightarrow> u32 \<Rightarrow> u32 \<Rightarrow> nat \<Rightarrow> addr \<Rightarrow> addr \<Rightarrow> lc_state \<Rightarrow> (lc_status \<times> lc_state) res" where
  "lc_sendl e src sz rank tag n cb ce s =
     bind_res (get_ep s n) (\<lambda>ep. LC_POOL_GET_OR_RETN e ep (\<lambda>p s.
       let s = lci_pk_init n (- 1) LC_PROTO_RTS p s
       in bind_res (ep_rep_at ep rank) (\<lambda>rep.
          let s = lci_prepare_rts src sz cb ce p s
          in Inr (LC_OK, lc_server_sendm (ep_server ep) (rp_handle rep) sizeof_packet_rts p
                           (MAKE_PROTO (gid ep) LC_PROTO_RTS tag) s))) s)"

text \<open>The callback is kept in the packet until the remote write completes.\<close>

definition pk_set_cb :: "addr \<Rightarrow> addr \<Rightarrow> addr \<Rightarrow> lc_state \<Rightarrow> lc_state" where
  "pk_set_cb cb ce p s =
     s\<lparr>mem := write64 (write64 (mem s) (rts_cb p) cb) (rts_ce p) ce\<rparr>"

definition lc_putl ::
    "lc_env \<Rightarrow> addr \<Rightarrow> u64 \<Rightarrow> u32 \<Rightarrow> u64 \<Rightarrow> nat \<Rightarrow> addr \<Rightarrow> addr \<Rightarrow> lc_state \<Rightarrow> (lc_status \<times> lc_state) res" where
  "lc_putl e src sz rank dst n cb ce s =
     bind_res (get_ep s n) (\<lambda>ep. LC_POOL_GET_OR_RETN e ep (\<lambda>p s.
       let s = pk_set_cb cb ce p (lci_pk_init n (- 1) LC_PROTO_LONG p s)
       in bind_res (ep_rep_at ep rank) (\<lambda>rep.
          Inr (LC_OK, lc_server_putl e (ep_server ep) (rp_handle rep) src (rp_base rep)
                        (ucast (dst - rp_base rep)) (rp_rkey rep) sz p s))) s)"

definition lc_putls ::
    "lc_env \<Rightarrow> addr \<Rightarrow> u64 \<Rightarrow> u32 \<Rightarrow> u64 \<Rightarrow> u32 \<Rightarrow> nat \<Rightarrow> addr \<Rightarrow> addr \<Rightarrow> lc_state \<Rightarrow> (lc_status \<times> lc_state) res" where
  "lc_putls e src sz rank dst meta n cb ce s =
     bind_res (get_ep s n) (\<lambda>ep. LC_POOL_GET_OR_RETN e ep (\<lambda>p s.
       let s = pk_set_cb cb ce p (lci_pk_init n (- 1) LC_PROTO_LONG p s)
       in bind_res (ep_rep_at ep rank) (\<lambda>rep.
          Inr (LC_OK, lc_server_putls e (ep_server ep) (rp_handle rep) src (rp_base rep)
                        (ucast (dst - rp_base rep)) (rp_rkey rep) sz
                        (MAKE_PROTO (gid ep) LC_PROTO_LONG meta) p s))) s)"

text \<open>The matched request-to-send of a long receive.\<close>

definition recv_rts :: "lc_env \<Rightarrow> nat \<Rightarrow> addr \<Rightarrow> addr \<Rightarrow> proc" where
  "recv_rts e n req p s =
     (let s = upd_req req (\<lambda>r. r\<lparr>rq_size := read64 (mem s) (rts_size p)\<rparr>) s;
          s = upd_pk p (\<lambda>c. c\<lparr>pk_req := req\<rparr>) s
      in lci_handle_rts e n p s)"

definition lc_recvl ::
    "lc_env \<Rightarrow> addr \<Rightarrow> u64 \<Rightarrow> u32 \<Rightarrow> u32 \<Rightarrow> nat \<Rightarrow> addr \<Rightarrow> lc_state \<Rightarrow> (lc_status \<times> lc_state) res" where
  "lc_recvl e src sz rank tag n req s =
     (let s = lci_init_req src sz req s
      in bind_res (get_ep s n) (\<lambda>ep. bind_res (ep_rep_at ep rank) (\<lambda>rep.
         let s = upd_req req (\<lambda>r. r\<lparr>rhandle := rp_handle rep\<rparr>) s
         in bind_res (ep_tbl_insert n (lc_make_key rank tag) req CLIENT s) (\<lambda>(f, p, s).
            bind_res (if f = 0 then recv_rts e n req p s else Inr s) (\<lambda>s. Inr (LC_OK, s))))))"

section \<open>Messages of any size\<close>

definition lc_send ::
    "lc_env \<Rightarrow> addr \<Rightarrow> u64 \<Rightarrow> u32 \<Rightarrow> u32 \<Rightarrow> nat \<Rightarrow> addr \<Rightarrow> addr \<Rightarrow> lc_state \<Rightarrow> (lc_status \<times> lc_state) res" where
  "lc_send e src sz rank tag n cb ce s =
     (if sz \<le> LC_MAX_INLINE then
        bind_res (lc_sends src sz rank tag n s) (\<lambda>(ret, s).
          Inr (ret, if ret = LC_OK then emit (Call_cb cb ce) s else s))
      else if sz \<le> LC_PACKET_SIZE then
        bind_res (lc_sendm e src sz rank tag n s) (\<lambda>(ret, s).
          Inr (ret, if ret = LC_OK then emit (Call_cb cb ce) s else s))
      else lc_sendl e src sz rank tag n cb ce s)"

definition lc_recv ::
    "lc_env \<Rightarrow> addr \<Rightarrow> u64 \<Rightarrow> u32 \<Rightarrow> u32 \<Rightarrow> nat \<Rightarrow> addr \<Rightarrow> lc_state \<Rightarrow> (lc_status \<times> lc_state) res" where
  "lc_recv e src sz rank tag n req s =
     (let s = lci_init_req src sz req s
      in bind_res (get_ep s n) (\<lambda>ep. bind_res (ep_rep_at ep rank) (\<lambda>rep.
         let s = upd_req req (\<lambda>r. r\<lparr>rhandle := rp_handle rep\<rparr>) s
         in bind_res (ep_tbl_insert n (lc_make_key rank tag) req CLIENT s) (\<lambda>(f, p, s).
            bind_res
              (if f = 0 then
                 if scast (pk_proto (pks s p)) = LC_PROTO_RTS then recv_rts e n req p s
                 else recv_data e src n req p s
               else Inr s)
              (\<lambda>s. Inr (LC_OK, s))))))"

definition lc_max_short :: "nat \<Rightarrow> u64" where "lc_max_short dev = LC_MAX_INLINE"
definition lc_max_medium :: "nat \<Rightarrow> u64" where "lc_max_medium dev = LC_PACKET_SIZE"

section \<open>Completion queue and counter\<close>

definition lc_cq_pop :: "nat \<Rightarrow> lc_state \<Rightarrow> (lc_status \<times> addr option \<times> lc_state) res" where
  "lc_cq_pop n s =
     bind_res (get_ep s n) (\<lambda>ep.
       case ce_union ep of
         Ep_cq cq \<Rightarrow>
           let (req, cq) = cq_pop cq;
               s = upd_ep n (\<lambda>ep. ep\<lparr>ce_union := Ep_cq cq\<rparr>) s
           in Inr (if req = NULL then (LC_ERR_RETRY, None, s) else (LC_OK, Some req, s))
       | _ \<Rightarrow> Inl Uninitialised)"

definition lc_cq_reqfree :: "lc_env \<Rightarrow> nat \<Rightarrow> addr \<Rightarrow> lc_state \<Rightarrow> (lc_status \<times> lc_state) res" where
  "lc_cq_reqfree e n req s =
     bind_res (get_ep s n) (\<lambda>ep.
       bind_res (pool_put e (ep_server ep) (parent (reqs s req)) s) (\<lambda>s. Inr (LC_OK, s)))"

definition lc_glob_mark :: "nat \<Rightarrow> lc_state \<Rightarrow> u32 res" where
  "lc_glob_mark n s =
     bind_res (get_ep s n) (\<lambda>ep. case completed ep of None \<Rightarrow> Inl Uninitialised | Some c \<Rightarrow> Inr c)"

section \<open>Endpoints\<close>

record lc_opt =
  opt_dev :: nat
  desc_addr :: u64
  desc_ce :: u64
  opt_alloc :: addr
  opt_handler :: addr
  opt_glob :: bool

definition lci_ep_open :: "lc_env \<Rightarrow> nat \<Rightarrow> u64 \<Rightarrow> lc_state \<Rightarrow> (nat \<times> lc_state) res" where
  "lci_ep_open e dev cp s =
     (let n = lcg_nep s;
          ep = \<lparr>cap = cp, gid = word_of_nat n, completed = None, ep_server = dev,
                ep_rep = sv_rep (lcg_dev s dev), ep_union = No_arg, ce_union = No_comp\<rparr>;
          s = s\<lparr>lcg_nep := Suc n\<rparr>;
          ep = (if cp AND EP_AR_EXP \<noteq> 0 then ep\<lparr>ep_union := Ep_tbl lc_hash_create\<rparr>
                else ep\<lparr>ce_union := Ep_cq cq_init\<rparr>)
      in if n \<ge> LC_MAX_EP e then Inl Out_of_bounds
         else Inr (n, s\<lparr>lcg_ep := (lcg_ep s)(n := Some ep)\<rparr>))"

definition lc_ep_dup :: "lc_env \<Rightarrow> lc_opt \<Rightarrow> lc_state \<Rightarrow> (lc_status \<times> nat \<times> lc_state) res" where
  "lc_ep_dup e opt s =
     bind_res (lci_ep_open e (opt_dev opt) (desc_addr opt OR desc_ce opt) s) (\<lambda>(n, s).
       let s = (if desc_addr opt = EP_AR_DYN
                then upd_ep n (\<lambda>ep. ep\<lparr>ep_union := Ep_alloc (opt_alloc opt)\<rparr>) s else s);
           s = (if desc_ce opt = EP_CE_AM
                then upd_ep n (\<lambda>ep. ep\<lparr>ce_union := Ep_handler (opt_handler opt)\<rparr>) s else s);
           s = (if opt_glob opt
                then upd_ep n (\<lambda>ep. ep\<lparr>cap := cap ep OR EP_CE_GLOB, completed := Some 0\<rparr>) s else s)
       in Inr (LC_OK, n, s))"

definition lc_ep_get_baseaddr :: "nat \<Rightarrow> u64 \<Rightarrow> lc_state \<Rightarrow> (lc_status \<times> u64 \<times> lc_state) res" where
  "lc_ep_get_baseaddr n sz s =
     bind_res (get_ep s n) (\<lambda>ep.
       let a = curr_addr (lcg_dev s (ep_server ep))
       in Inr (LC_OK, a, upd_dev (ep_server ep) (\<lambda>v. v\<lparr>curr_addr := curr_addr v + sz\<rparr>) s))"

section \<open>A small process\<close>

text \<open>
  Two processes, one device with an empty pool, one endpoint with explicit addressing and
  signalled completion, and a packet at \<open>0x10000\<close> that came from rank 1. The concrete cases of
  the later theorems start here.
\<close>

definition ex_env :: lc_env where
  "ex_env = \<lparr>has_exp = True, has_dyn = True, has_imm = True, has_sync = True, has_cq = True,
     has_am = True, has_glob = True, LC_MAX_EP = 8, lcg_size = 2, lcg_page_size = 4096, worker_id = 3,
     user_alloc = (\<lambda>f z l. (0x90000, 0)), ibv_reg_mr = (\<lambda>b z l. 0x500 + word_of_nat (length l)),
     mr_rkey = (\<lambda>m. ucast m + 1), mr_lkey = (\<lambda>m. ucast m + 2)\<rparr>"

definition ex_reps :: "lci_rep list" where
  "ex_reps = [\<lparr>rp_handle = 0x700, rp_rank = 0, rp_base = 0x8000, rp_rkey = 7\<rparr>,
     \<lparr>rp_handle = 0x708, rp_rank = 1, rp_base = 0x8000, rp_rkey = 8\<rparr>]"

definition ex_server :: lc_server where
  "ex_server = \<lparr>sv_rep = ex_reps, sv_qp = [0x700, 0x708],
     sv_pkpool = \<lparr>pl_key = 0, npools = 0, lpools = []\<rparr>, curr_addr = 0x80000, sv_id = 0,
     qp2rank = (\<lambda>i. i), qp2rank_mod = 2, heap_ptr = 0x8000, heap_lkey = 9, recv_posted = 0,
     max_inline = 128\<rparr>"

definition ex_base :: lc_state where
  "ex_base = \<lparr>mem = (\<lambda>_. 0),
     reqs = (\<lambda>_. \<lparr>sync = 0, buffer = 0, rq_ctx = 0, parent = 0, rhandle = 0x708, rq_size = 64, rq_rank = 1,
                  rq_meta = 0, send_cb = 0\<rparr>),
     pks = (\<lambda>p. \<lparr>pk_req = req_s p, pk_ep = 0, rma_mem = 0, pk_proto = 0, poolid = - 1, ref = 1\<rparr>),
     lcg_ep = (\<lambda>_. None), lcg_nep = 0, lcg_dev = (\<lambda>_. ex_server), lcg_deadlock = False,
     globals = (lc_pool_init pool_globals_init)\<lparr>lc_pool_nkey := 1\<rparr>, ninline = 0, rands = (\<lambda>_. 0),
     log = []\<rparr>"

definition ex_ep :: lci_ep where
  "ex_ep = \<lparr>cap = EP_AR_EXP OR EP_CE_SYNC, gid = 0, completed = None, ep_server = 0, ep_rep = ex_reps,
     ep_union = Ep_tbl lc_hash_create, ce_union = No_comp\<rparr>"

definition ex_state :: lc_state where
  "ex_state = ex_base\<lparr>lcg_nep := 1, lcg_ep := [0 \<mapsto> ex_ep]\<rparr>"

lemmas ex_defs = ex_env_def ex_reps_def ex_server_def ex_base_def ex_ep_def ex_state_def

lemma ex_state_opened: "lci_ep_open ex_env 0 (EP_AR_EXP OR EP_CE_SYNC) ex_base = Inr (0, ex_state)"
  by (simp add: lci_ep_open_def ex_defs ep_flag_defs)

end
