(* ===== verification/LC_Matching.thy ===== *)
theory LC_Matching
  imports LC_Api
begin

text \<open>
  What tag matching promises to the user of an endpoint with explicit addressing: whether the
  receive is posted before the message arrives or after makes no difference, for messages that
  carry their data and for requests to send.
\<close>

section \<open>What can be observed of a process\<close>

text \<open>
  The layout of a matching table (its rows and the stale values in them) cannot be observed;
  what waits under each key can.
\<close>

definition ep_view :: "lci_ep \<Rightarrow> lci_ep \<times> (insert_type \<Rightarrow> u64 \<Rightarrow> u64 list) option" where
  "ep_view ep = (case ep_union ep of
      Ep_tbl h \<Rightarrow> (ep\<lparr>ep_union := No_arg\<rparr>, Some (\<lambda>t k. if key_ok k then waiting h t k else []))
    | _ \<Rightarrow> (ep, None))"

definition view ::
    "lc_state \<Rightarrow> lc_state \<times> (nat \<Rightarrow> (lci_ep \<times> (insert_type \<Rightarrow> u64 \<Rightarrow> u64 list) option) option)" where
  "view s = (s\<lparr>lcg_ep := (\<lambda>_. None)\<rparr>, \<lambda>n. map_option ep_view (lcg_ep s n))"

definition set_tbl :: "nat \<Rightarrow> lc_hash \<Rightarrow> lc_state \<Rightarrow> lc_state" where
  "set_tbl n h s = upd_ep n (\<lambda>ep. ep\<lparr>ep_union := Ep_tbl h\<rparr>) s"

definition map_res :: "('a \<Rightarrow> 'b) \<Rightarrow> 'a res \<Rightarrow> 'b res" where
  "map_res f r = bind_res r (\<lambda>x. Inr (f x))"

lemma map_res_simps [simp]: "map_res f (Inl x) = Inl x" "map_res f (Inr y) = Inr (f y)"
  by (simp_all add: map_res_def)

lemma map_res_bind: "map_res f (bind_res m k) = bind_res m (\<lambda>x. map_res f (k x))"
  by (cases m) simp_all

lemma map_res_comp: "map_res f (map_res g m) = map_res (\<lambda>x. f (g x)) m"
  by (cases m) simp_all

section \<open>The completion does not look at the table\<close>

lemmas upd_defs = upd_req_def upd_pk_def upd_ep_def upd_dev_def emit_def

lemma set_tbl_fields [simp]:
  "mem (set_tbl n h s) = mem s" "reqs (set_tbl n h s) = reqs s" "pks (set_tbl n h s) = pks s"
  "lcg_dev (set_tbl n h s) = lcg_dev s" "globals (set_tbl n h s) = globals s"
  "log (set_tbl n h s) = log s" "rands (set_tbl n h s) = rands s"
  "lcg_deadlock (set_tbl n h s) = lcg_deadlock s"
  by (simp_all add: set_tbl_def upd_defs)

lemma set_tbl_upd:
  "upd_req r f (set_tbl n h s) = set_tbl n h (upd_req r f s)"
  "upd_pk p g (set_tbl n h s) = set_tbl n h (upd_pk p g s)"
  "upd_dev d k (set_tbl n h s) = set_tbl n h (upd_dev d k s)"
  "emit ev (set_tbl n h s) = set_tbl n h (emit ev s)"
  "(set_tbl n h s)\<lparr>mem := m\<rparr> = set_tbl n h (s\<lparr>mem := m\<rparr>)"
  "(set_tbl n h s)\<lparr>globals := gl\<rparr> = set_tbl n h (s\<lparr>globals := gl\<rparr>)"
  by (simp_all add: set_tbl_def upd_defs)

lemma set_tbl_twice [simp]: "set_tbl n h (set_tbl n h' s) = set_tbl n h s"
  by (simp add: set_tbl_def upd_defs option.map_comp comp_def)

lemma get_ep_set_tbl:
  "get_ep (set_tbl n h s) n = map_res (\<lambda>ep. ep\<lparr>ep_union := Ep_tbl h\<rparr>) (get_ep s n)"
  by (simp add: get_ep_def set_tbl_def upd_defs split: option.splits)

lemma ep_union_commute:
  "ep\<lparr>ep_union := u, ce_union := c\<rparr> = ep\<lparr>ce_union := c, ep_union := u\<rparr>"
  "ep\<lparr>ep_union := u, completed := d\<rparr> = ep\<lparr>completed := d, ep_union := u\<rparr>"
  by simp_all

lemma upd_ep_set_tbl:
  assumes "\<And>ep u. f (ep\<lparr>ep_union := u\<rparr>) = (f ep)\<lparr>ep_union := u\<rparr>"
  shows "upd_ep n f (set_tbl n h s) = set_tbl n h (upd_ep n f s)"
  using assms by (simp add: set_tbl_def upd_ep_def option.map_comp comp_def)

lemma bind_map_res: "bind_res (map_res f r) k = bind_res r (\<lambda>s. k (f s))"
  by (cases r) simp_all

lemma lci_pk_free_data_set_tbl:
  "lci_pk_free_data e (ep\<lparr>ep_union := u\<rparr>) p (set_tbl n h s) = map_res (set_tbl n h) (lci_pk_free_data e ep p s)"
  by (simp add: lci_pk_free_data_def Let_def pool_put_def pool_put_to_def map_res_bind case_prod_unfold
      set_tbl_upd)

lemma lci_ce_queue_set_tbl:
  "lci_ce_queue n (ep\<lparr>ep_union := u\<rparr>) p (set_tbl n h s) = map_res (set_tbl n h) (lci_ce_queue n ep p s)"
  by (simp add: lci_ce_queue_def Let_def set_tbl_upd map_res_bind upd_ep_set_tbl split: ep_comp.split)

lemma lci_ce_glob_set_tbl: "lci_ce_glob n (set_tbl n h s) = map_res (set_tbl n h) (lci_ce_glob n s)"
  by (simp add: lci_ce_glob_def upd_ep_set_tbl)

lemma lci_ce_am_set_tbl:
  "lci_ce_am e (ep\<lparr>ep_union := u\<rparr>) p (set_tbl n h s) = map_res (set_tbl n h) (lci_ce_am e ep p s)"
  by (simp add: lci_ce_am_def set_tbl_upd lci_pk_free_data_set_tbl split: ep_comp.split)

lemma lci_ce_signal_set_tbl:
  "lci_ce_signal e (ep\<lparr>ep_union := u\<rparr>) p (set_tbl n h s) = map_res (set_tbl n h) (lci_ce_signal e ep p s)"
  by (simp add: lci_ce_signal_def set_tbl_upd lci_pk_free_data_set_tbl)

lemma lci_ce_dispatch_set_tbl:
  "lci_ce_dispatch e n p cp (set_tbl n h s) = map_res (set_tbl n h) (lci_ce_dispatch e n p cp s)"
proof -
  have g: "(if c then lci_ce_glob n (set_tbl n h t) else Inr (set_tbl n h t))
      = map_res (set_tbl n h) (if c then lci_ce_glob n t else Inr t)" for c t
    by (simp add: lci_ce_glob_set_tbl)
  show ?thesis
    by (cases "get_ep s n")
      (simp_all add: lci_ce_dispatch_def get_ep_set_tbl map_res_bind lci_ce_signal_set_tbl lci_ce_am_set_tbl
        lci_pk_free_data_set_tbl lci_ce_queue_set_tbl g bind_map_res)
qed

lemma lci_handle_rts_set_tbl:
  "lci_handle_rts e n p (set_tbl n h s) = map_res (set_tbl n h) (lci_handle_rts e n p s)"
  by (cases "get_ep s n")
    (simp_all add: lci_handle_rts_def get_ep_set_tbl Let_def lci_pk_init_def lci_prepare_rtr_def
      lc_server_rma_reg_def real_server_reg_def lc_server_heap_ptr_def lc_server_sendm_def set_tbl_upd)

section \<open>Receives and arrivals\<close>

text \<open>An open endpoint with explicit addressing and a table in good order.\<close>

definition exp_ep :: "lc_env \<Rightarrow> lc_state \<Rightarrow> nat \<Rightarrow> lci_ep \<Rightarrow> lc_hash \<Rightarrow> bool" where
  "exp_ep e s n ep h \<longleftrightarrow> has_exp e \<and> n < LC_MAX_EP e \<and> n < 2 ^ 14 \<and> lcg_ep s n = Some ep
     \<and> gid ep = word_of_nat n \<and> cap ep AND EP_AR_EXP \<noteq> 0 \<and> ep_union ep = Ep_tbl h \<and> hash_inv h"

lemma exp_ep_upd:
  "exp_ep e s n ep h \<Longrightarrow> exp_ep e (upd_req r f s) n ep h"
  "exp_ep e s n ep h \<Longrightarrow> exp_ep e (upd_pk p g s) n ep h"
  "exp_ep e s n ep h \<Longrightarrow> exp_ep e (lci_init_req a b r s) n ep h"
  by (simp_all add: exp_ep_def upd_defs lci_init_req_def)

lemma exp_ep_set_tbl:
  "exp_ep e s n ep h \<Longrightarrow> hash_inv h' \<Longrightarrow> exp_ep e (set_tbl n h' s) n (ep\<lparr>ep_union := Ep_tbl h'\<rparr>) h'"
  by (simp add: exp_ep_def set_tbl_def upd_defs)

lemma exp_ep_get: "exp_ep e s n ep h \<Longrightarrow> get_ep s n = Inr ep"
  by (simp add: exp_ep_def get_ep_def)

lemma ep_tbl_insert_exp:
  assumes "exp_ep e s n ep h" "lc_hash_insert h k v t = (f, v', h')"
  shows "ep_tbl_insert n k v t s = Inr (f, v', set_tbl n h' s)"
  using assms by (simp add: ep_tbl_insert_def exp_ep_get) (simp add: exp_ep_def set_tbl_def)

lemma unat_gid: "n < 2 ^ 14 \<Longrightarrow> unat (word_of_nat n :: u32) = n"
  by (simp add: unsigned_of_nat take_bit_nat_eq_self_iff)

lemma lci_serve_recv_exp:
  assumes "exp_ep e s n ep h" "unat proto < 2 ^ 2" "unat tag < 2 ^ 16"
  shows "lci_serve_recv e p (MAKE_PROTO (gid ep) proto tag) s
    = lci_serve_recv_expl e n p (MAKE_PROTO (gid ep) proto tag) (cap ep) s"
proof -
  have "unat (gid ep) < 2 ^ 14" "unat (gid ep) = n" "n < LC_MAX_EP e"
    using assms(1) unat_gid [of n] by (auto simp: exp_ep_def)
  then show ?thesis
    using assms get_make_proto(1) [of "gid ep" proto tag] exp_ep_get [OF assms(1)]
    by (simp add: lci_serve_recv_def ep_of_proto_def Let_def lci_serve_recv_dispatch_def)
      (simp add: exp_ep_def)
qed

lemma view_set_tbl:
  assumes "\<forall>t k. key_ok k \<longrightarrow> waiting h t k = waiting h' t k"
  shows "view (set_tbl n h s) = view (set_tbl n h' s)"
  using assms
  by (auto simp: view_def set_tbl_def upd_defs ep_view_def fun_eq_iff map_option_case split: option.splits)

text \<open>The steps of an arrival and of a receive before and after the look-up in the table.\<close>

definition arrived :: "addr \<Rightarrow> u32 \<Rightarrow> u32 \<Rightarrow> lc_state \<Rightarrow> lc_state" where
  "arrived p proto tag s = upd_pk p (\<lambda>c. c\<lparr>pk_proto := ucast proto\<rparr>)
     (upd_req (pk_req (pks s p)) (\<lambda>r. r\<lparr>rq_meta := tag\<rparr>) s)"

definition deliver :: "addr \<Rightarrow> addr \<Rightarrow> addr \<Rightarrow> lc_state \<Rightarrow> lc_state" where
  "deliver p req dst s =
     (let sz = rq_size (reqs s (pk_req (pks s p)))
      in upd_pk p (\<lambda>c. c\<lparr>pk_req := req\<rparr>)
           ((upd_req req (\<lambda>r. r\<lparr>rq_size := sz\<rparr>) s)\<lparr>mem := memcpy (mem s) dst (pk_data p) sz\<rparr>))"

definition posted :: "addr \<Rightarrow> u64 \<Rightarrow> lci_rep \<Rightarrow> addr \<Rightarrow> lc_state \<Rightarrow> lc_state" where
  "posted src sz rep req s = upd_req req (\<lambda>r. r\<lparr>rhandle := rp_handle rep\<rparr>) (lci_init_req src sz req s)"

lemma arrived_simps [simp]:
  "pk_req (pks (arrived p proto tag s) x) = pk_req (pks s x)"
  "pk_proto (pks (arrived p proto tag s) p) = ucast proto"
  "mem (arrived p proto tag s) = mem s"
  "reqs (arrived p proto tag s) = (reqs s)(pk_req (pks s p) := reqs s (pk_req (pks s p))\<lparr>rq_meta := tag\<rparr>)"
  by (simp_all add: arrived_def upd_defs)

lemma posted_simps [simp]:
  "pks (posted src sz rep req s) = pks s" "mem (posted src sz rep req s) = mem s"
  "reqs (posted src sz rep req s) = (reqs s)(req := reqs s req\<lparr>buffer := src, rq_size := sz, sync := 0,
      rhandle := rp_handle rep\<rparr>)"
  by (simp_all add: posted_def lci_init_req_def upd_defs)

lemma exp_ep_arrived: "exp_ep e s n ep h \<Longrightarrow> exp_ep e (arrived p proto tag s) n ep h"
  by (simp add: arrived_def exp_ep_upd)

lemma exp_ep_posted: "exp_ep e s n ep h \<Longrightarrow> exp_ep e (posted src sz rep req s) n ep h"
  by (simp add: posted_def exp_ep_upd)

lemma arrived_code:
  assumes "exp_ep e s n ep h" "unat proto < 2 ^ 2" "unat tag < 2 ^ 16"
  shows "upd_pk p (\<lambda>c. c\<lparr>pk_proto := ucast proto\<rparr>)
      (set_meta p (MAKE_PROTO (gid ep) proto tag) s) = arrived p proto tag s"
proof -
  have "unat (gid ep) < 2 ^ 14" using assms(1) unat_gid [of n] by (auto simp: exp_ep_def)
  then show ?thesis using get_make_proto [of "gid ep" proto tag] assms(2,3)
    by (simp add: set_meta_def arrived_def)
qed

lemma deliver_mem:
  "(upd_req r f s)\<lparr>mem := m\<rparr> = upd_req r f (s\<lparr>mem := m\<rparr>)"
  "mem (upd_req r f s) = mem s" "reqs (upd_req r f s) = (reqs s)(r := f (reqs s r))"
  "pks (upd_req r f s) = pks s"
  by (simp_all add: upd_defs)

lemma serve_recv_hash:
  assumes ep: "exp_ep e s n ep h" and t: "unat tag < 2 ^ 16"
    and ins: "lc_hash_insert h (lc_make_key (rq_rank (reqs s (pk_req (pks s p)))) tag) p SERVER = (f, v, h')"
  shows "lci_serve_recv e p (MAKE_PROTO (gid ep) LC_PROTO_DATA tag) s =
      (if f = 0
       then map_res (set_tbl n h') (lci_ce_dispatch e n p (cap ep)
              (deliver p v (buffer (reqs (arrived p LC_PROTO_DATA tag s) v)) (arrived p LC_PROTO_DATA tag s)))
       else Inr (set_tbl n h' (arrived p LC_PROTO_DATA tag s)))"
    and "lci_serve_recv e p (MAKE_PROTO (gid ep) LC_PROTO_RTS tag) s =
      (if f = 0
       then map_res (set_tbl n h') (lci_handle_rts e n p
              (upd_pk p (\<lambda>c. c\<lparr>pk_req := v\<rparr>) (arrived p LC_PROTO_RTS tag s)))
       else Inr (set_tbl n h' (arrived p LC_PROTO_RTS tag s)))"
proof -
  have g: "unat (gid ep) < 2 ^ 14" using ep unat_gid [of n] by (auto simp: exp_ep_def)
  have b: "unat LC_PROTO_DATA < 2 ^ 2" "unat LC_PROTO_RTS < 2 ^ 2" by (simp_all add: proto_defs)
  have i: "ep_tbl_insert n (lc_make_key (rq_rank (reqs s (pk_req (pks s p)))) tag) p SERVER
      (arrived p proto tag s) = Inr (f, v, set_tbl n h' (arrived p proto tag s))" for proto
    using ep_tbl_insert_exp [OF exp_ep_arrived [OF ep] ins] .
  show "lci_serve_recv e p (MAKE_PROTO (gid ep) LC_PROTO_DATA tag) s =
      (if f = 0
       then map_res (set_tbl n h') (lci_ce_dispatch e n p (cap ep)
              (deliver p v (buffer (reqs (arrived p LC_PROTO_DATA tag s) v)) (arrived p LC_PROTO_DATA tag s)))
       else Inr (set_tbl n h' (arrived p LC_PROTO_DATA tag s)))"
    unfolding lci_serve_recv_exp [OF ep b(1) t] lci_serve_recv_expl_def
    using i [of LC_PROTO_DATA]
    by (simp add: arrived_code [OF ep b(1) t] Let_def get_make_proto [OF g b(1) t]
        deliver_def set_tbl_upd lci_ce_dispatch_set_tbl deliver_mem)
  show "lci_serve_recv e p (MAKE_PROTO (gid ep) LC_PROTO_RTS tag) s =
      (if f = 0
       then map_res (set_tbl n h') (lci_handle_rts e n p
              (upd_pk p (\<lambda>c. c\<lparr>pk_req := v\<rparr>) (arrived p LC_PROTO_RTS tag s)))
       else Inr (set_tbl n h' (arrived p LC_PROTO_RTS tag s)))"
    unfolding lci_serve_recv_exp [OF ep b(2) t] lci_serve_recv_expl_def
    using i [of LC_PROTO_RTS]
    by (simp add: arrived_code [OF ep b(2) t] Let_def get_make_proto [OF g b(2) t]
        set_tbl_upd lci_handle_rts_set_tbl)
qed

lemma recv_hash:
  assumes ep: "exp_ep e s n ep h" and rep: "ep_rep_at ep rank = Inr rep"
    and ins: "lc_hash_insert h (lc_make_key rank tag) req CLIENT = (f, v, h')"
  shows "lc_recv e src sz rank tag n req s =
     (let t = posted src sz rep req s
      in if f \<noteq> 0 then Inr (LC_OK, set_tbl n h' t)
         else map_res (\<lambda>t. (LC_OK, set_tbl n h' t))
           (if scast (pk_proto (pks s v)) = LC_PROTO_RTS
            then lci_handle_rts e n v (upd_pk v (\<lambda>c. c\<lparr>pk_req := req\<rparr>)
                   (upd_req req (\<lambda>r. r\<lparr>rq_size := read64 (mem s) (rts_size v)\<rparr>) t))
            else lci_ce_dispatch e n v (cap ep) (deliver v req src t)))"
proof -
  have i: "ep_tbl_insert n (lc_make_key rank tag) req CLIENT (posted src sz rep req s)
      = Inr (f, v, set_tbl n h' (posted src sz rep req s))"
    using ep_tbl_insert_exp [OF exp_ep_posted [OF ep] ins] .
  have g: "get_ep (lci_init_req src sz req s) n = Inr ep" "get_ep (posted src sz rep req s) n = Inr ep"
    using exp_ep_get [OF exp_ep_upd(3) [OF ep]] exp_ep_get [OF exp_ep_posted [OF ep]] by simp_all
  have p: "upd_req req (\<lambda>r. r\<lparr>rhandle := rp_handle rep\<rparr>) (lci_init_req src sz req s) = posted src sz rep req s"
    by (simp add: posted_def)
  show ?thesis
    unfolding lc_recv_def
    by (simp add: Let_def g rep p i recv_rts_def recv_data_def set_tbl_upd lci_handle_rts_set_tbl
        lci_ce_dispatch_set_tbl map_res_comp get_ep_set_tbl bind_map_res deliver_mem deliver_def)
      (simp add: map_res_def)
qed

text \<open>Both orders prepare the same state.\<close>

lemma arrived_posted:
  assumes "pk_req (pks s p) \<noteq> req"
  shows "arrived p proto tag (posted src sz rep req s) = posted src sz rep req (arrived p proto tag s)"
  using assms by (simp add: arrived_def posted_def lci_init_req_def upd_defs fun_upd_twist)

lemma posted_rts_size:
  "upd_req req (\<lambda>r. r\<lparr>rq_size := z\<rparr>) (posted src z rep req s) = posted src z rep req s"
  by (rule lc_state.equality) (simp_all add: posted_def lci_init_req_def upd_defs fun_eq_iff)

lemma steps_set_tbl:
  "arrived p proto tag (set_tbl n h s) = set_tbl n h (arrived p proto tag s)"
  "posted src sz rep req (set_tbl n h s) = set_tbl n h (posted src sz rep req s)"
  "deliver p req dst (set_tbl n h s) = set_tbl n h (deliver p req dst s)"
  by (simp_all add: arrived_def posted_def deliver_def lci_init_req_def set_tbl_upd Let_def)

lemma ep_rep_at_tbl [simp]: "ep_rep_at (ep\<lparr>ep_union := u\<rparr>) rank = ep_rep_at ep rank"
  by (simp add: ep_rep_at_def)

lemma posted_buffer [simp]: "buffer (reqs (posted src sz rep req s) req) = src"
  by simp

lemma sint_nonneg_16: "unat (t :: u32) < 2 ^ 16 \<Longrightarrow> 0 \<le> sint t"
  using bit_bounded [of t 16 31] by (simp add: sint_nonneg_bit)

lemma orders_meet:
  assumes ep: "exp_ep e s n ep h" and rep: "ep_rep_at ep rank = Inr rep" and t: "unat tag < 2 ^ 16"
    and none: "waiting h CLIENT (lc_make_key rank tag) = []" "waiting h SERVER (lc_make_key rank tag) = []"
  obtains h1 h2 h3 h4 where
    "lc_hash_insert h (lc_make_key rank tag) req CLIENT = (1, req, h1)"
    "lc_hash_insert h1 (lc_make_key rank tag) p SERVER = (0, req, h2)"
    "lc_hash_insert h (lc_make_key rank tag) p SERVER = (1, p, h3)"
    "lc_hash_insert h3 (lc_make_key rank tag) req CLIENT = (0, p, h4)"
    "hash_inv h1" "hash_inv h3" "\<And>s. view (set_tbl n h2 s) = view (set_tbl n h4 s)"
proof -
  have "0 \<le> sint rank" using rep by (simp add: ep_rep_at_def split: if_splits)
  then have k: "key_ok (lc_make_key rank tag)"
    using key_ok_lc_make_key sint_nonneg_16 [OF t] by blast
  have i: "hash_inv h" using ep by (simp add: exp_ep_def)
  obtain h1 h2 where c: "lc_hash_insert h (lc_make_key rank tag) req CLIENT = (1, req, h1)"
      "lc_hash_insert h1 (lc_make_key rank tag) p SERVER = (0, req, h2)"
      "\<forall>t' k'. key_ok k' \<longrightarrow> waiting h2 t' k' = waiting h t' k'"
    using mt.meet [OF i k none, of req CLIENT p] by auto
  obtain h3 h4 where d: "lc_hash_insert h (lc_make_key rank tag) p SERVER = (1, p, h3)"
      "lc_hash_insert h3 (lc_make_key rank tag) req CLIENT = (0, p, h4)"
      "\<forall>t' k'. key_ok k' \<longrightarrow> waiting h4 t' k' = waiting h t' k'"
    using mt.meet [OF i k none, of p SERVER req] by auto
  have "hash_inv h1" "hash_inv h3"
    using hash_inv_store [OF i k, of CLIENT req] hash_inv_store [OF i k, of SERVER p] none c(1) d(1) by auto
  moreover have "view (set_tbl n h2 s) = view (set_tbl n h4 s)" for s
    using c(3) d(3) by (intro view_set_tbl) simp
  ultimately show ?thesis using that c d by blast
qed

text \<open>The two orders of a receive and the arrival it matches, down to the step after the match.\<close>

lemma both_orders:
  assumes ep: "exp_ep e s n ep h" and rep: "ep_rep_at ep rank = Inr rep" and t: "unat tag < 2 ^ 16"
    and none: "waiting h CLIENT (lc_make_key rank tag) = []" "waiting h SERVER (lc_make_key rank tag) = []"
    and p: "rq_rank (reqs s (pk_req (pks s p))) = rank" "pk_req (pks s p) \<noteq> req"
  obtains h2 h4 where "\<And>s. view (set_tbl n h2 s) = view (set_tbl n h4 s)"
    "bind_res (lc_recv e src sz rank tag n req s)
         (\<lambda>(_, s). lci_serve_recv e p (MAKE_PROTO (gid ep) LC_PROTO_DATA tag) s)
       = map_res (set_tbl n h2) (lci_ce_dispatch e n p (cap ep)
           (deliver p req src (posted src sz rep req (arrived p LC_PROTO_DATA tag s))))"
    "bind_res (lci_serve_recv e p (MAKE_PROTO (gid ep) LC_PROTO_DATA tag) s)
         (\<lambda>s. map_res snd (lc_recv e src sz rank tag n req s))
       = map_res (set_tbl n h4) (lci_ce_dispatch e n p (cap ep)
           (deliver p req src (posted src sz rep req (arrived p LC_PROTO_DATA tag s))))"
    "bind_res (lc_recv e src sz rank tag n req s)
         (\<lambda>(_, s). lci_serve_recv e p (MAKE_PROTO (gid ep) LC_PROTO_RTS tag) s)
       = map_res (set_tbl n h2) (lci_handle_rts e n p (upd_pk p (\<lambda>c. c\<lparr>pk_req := req\<rparr>)
           (posted src sz rep req (arrived p LC_PROTO_RTS tag s))))"
    "bind_res (lci_serve_recv e p (MAKE_PROTO (gid ep) LC_PROTO_RTS tag) s)
         (\<lambda>s. map_res snd (lc_recv e src sz rank tag n req s))
       = map_res (set_tbl n h4) (lci_handle_rts e n p (upd_pk p (\<lambda>c. c\<lparr>pk_req := req\<rparr>)
           (upd_req req (\<lambda>r. r\<lparr>rq_size := read64 (mem s) (rts_size p)\<rparr>)
             (posted src sz rep req (arrived p LC_PROTO_RTS tag s)))))"
proof -
  obtain h1 h2 h3 h4 where h: "lc_hash_insert h (lc_make_key rank tag) req CLIENT = (1, req, h1)"
      "lc_hash_insert h1 (lc_make_key rank tag) p SERVER = (0, req, h2)"
      "lc_hash_insert h (lc_make_key rank tag) p SERVER = (1, p, h3)"
      "lc_hash_insert h3 (lc_make_key rank tag) req CLIENT = (0, p, h4)"
      "hash_inv h1" "hash_inv h3" "\<And>s. view (set_tbl n h2 s) = view (set_tbl n h4 s)"
    using orders_meet [OF ep rep t none] by metis
  note tbl = steps_set_tbl set_tbl_upd lci_handle_rts_set_tbl lci_ce_dispatch_set_tbl map_res_comp
  note serve1 = serve_recv_hash [OF exp_ep_set_tbl [OF exp_ep_posted [OF ep] h(5)] t,
      where p = p and f = 0 and v = req and h' = h2]
  note serve2 = serve_recv_hash [OF ep t, where p = p and f = 1 and v = p and h' = h3]
  note recv2 = recv_hash [OF exp_ep_set_tbl [OF exp_ep_arrived [OF ep] h(6)] _ h(4),
      where rep = rep and src = src and sz = sz]
  have r: "lc_recv e src sz rank tag n req s = Inr (LC_OK, set_tbl n h1 (posted src sz rep req s))"
    using recv_hash [OF ep rep h(1)] by (simp add: Let_def)
  show ?thesis
  proof (rule that [OF h(7)])
    show "bind_res (lc_recv e src sz rank tag n req s)
         (\<lambda>(_, s). lci_serve_recv e p (MAKE_PROTO (gid ep) LC_PROTO_DATA tag) s)
       = map_res (set_tbl n h2) (lci_ce_dispatch e n p (cap ep)
           (deliver p req src (posted src sz rep req (arrived p LC_PROTO_DATA tag s))))"
      using r serve1(1) h(2) p arrived_posted [OF p(2)] by (simp add: tbl)
    show "bind_res (lci_serve_recv e p (MAKE_PROTO (gid ep) LC_PROTO_DATA tag) s)
         (\<lambda>s. map_res snd (lc_recv e src sz rank tag n req s))
       = map_res (set_tbl n h4) (lci_ce_dispatch e n p (cap ep)
           (deliver p req src (posted src sz rep req (arrived p LC_PROTO_DATA tag s))))"
      using serve2(1) h(3) p recv2 rep by (simp add: Let_def tbl)
    show "bind_res (lc_recv e src sz rank tag n req s)
         (\<lambda>(_, s). lci_serve_recv e p (MAKE_PROTO (gid ep) LC_PROTO_RTS tag) s)
       = map_res (set_tbl n h2) (lci_handle_rts e n p (upd_pk p (\<lambda>c. c\<lparr>pk_req := req\<rparr>)
           (posted src sz rep req (arrived p LC_PROTO_RTS tag s))))"
      using r serve1(2) h(2) p arrived_posted [OF p(2)] by (simp add: tbl)
    show "bind_res (lci_serve_recv e p (MAKE_PROTO (gid ep) LC_PROTO_RTS tag) s)
         (\<lambda>s. map_res snd (lc_recv e src sz rank tag n req s))
       = map_res (set_tbl n h4) (lci_handle_rts e n p (upd_pk p (\<lambda>c. c\<lparr>pk_req := req\<rparr>)
           (upd_req req (\<lambda>r. r\<lparr>rq_size := read64 (mem s) (rts_size p)\<rparr>)
             (posted src sz rep req (arrived p LC_PROTO_RTS tag s)))))"
      using serve2(2) h(3) p recv2 rep by (simp add: Let_def tbl)
  qed
qed

lemma ex_exp_ep: "exp_ep ex_env ex_state 0 ex_ep lc_hash_create"
  by (simp add: exp_ep_def ex_defs ep_flag_defs)

lemma ex_rep_at: "ep_rep_at ex_ep 1 = Inr (ex_reps ! 1)"
  by (simp add: ep_rep_at_def ex_defs)

lemma ex_packet:
  "rq_rank (reqs ex_state (pk_req (pks ex_state 0x10000))) = 1"
  "pk_req (pks ex_state 0x10000) \<noteq> 0x20000" "read64 (mem ex_state) (rts_size 0x10000) = 0"
  by (simp_all add: ex_defs req_s_def read64_def read_bytes_def upt_rec)

lemma ex_can_free: "can_free ex_env (ep_server ex_ep) ex_state 0x10000"
  using lc_pool_create_first_inv
  by (simp add: can_free_def dev_pool_ok_def dev_mset_def poolid_ok_def ex_defs pool_mset_def pool_consts)

lemma recv_then_arrival:
  assumes ep: "exp_ep e s n ep h" and rep: "ep_rep_at ep rank = Inr rep" and t: "unat tag < 2 ^ 16"
    and none: "waiting h CLIENT (lc_make_key rank tag) = []" "waiting h SERVER (lc_make_key rank tag) = []"
    and p: "rq_rank (reqs s (pk_req (pks s p))) = rank" "pk_req (pks s p) \<noteq> req"
    and ce: "has_sync e" "cap ep AND EP_CE_SYNC \<noteq> 0" "can_free e (ep_server ep) s p"
  shows "\<exists>s'. bind_res (lc_recv e src sz rank tag n req s)
            (\<lambda>(_, s). lci_serve_recv e p (MAKE_PROTO (gid ep) LC_PROTO_DATA tag) s) = Inr s'
      \<and> sync (reqs s' req) = 1 \<and> rq_size (reqs s' req) = rq_size (reqs s (pk_req (pks s p)))
      \<and> read_bytes (mem s') src (unat (rq_size (reqs s' req)))
          = read_bytes (mem s) (pk_data p) (unat (rq_size (reqs s' req)))
      \<and> dev_mset (ep_server ep) s' = add_mset p (dev_mset (ep_server ep) s)"
proof -
  let ?D = "deliver p req src (posted src sz rep req (arrived p LC_PROTO_DATA tag s))"
  obtain h2 where run: "bind_res (lc_recv e src sz rank tag n req s)
      (\<lambda>(_, s). lci_serve_recv e p (MAKE_PROTO (gid ep) LC_PROTO_DATA tag) s)
    = map_res (set_tbl n h2) (lci_ce_dispatch e n p (cap ep) ?D)"
    by (rule both_orders [OF ep rep t none p, where src = src and sz = sz]) blast
  note step_defs = deliver_def arrived_def posted_def lci_init_req_def Let_def
  have g: "get_ep ?D n = Inr ep" using ep by (simp add: exp_ep_def get_ep_def step_defs upd_defs)
  have f: "can_free e (ep_server ep) ?D p" using ce(3) by (simp add: step_defs)
  obtain s' where s': "lci_ce_dispatch e n p (cap ep) ?D = Inr s'" "mem s' = mem ?D"
      "reqs s' = (reqs ?D)(pk_req (pks ?D p) := reqs ?D (pk_req (pks ?D p))\<lparr>sync := 1\<rparr>)"
      "dev_mset (ep_server ep) s' = add_mset p (dev_mset (ep_server ep) ?D)"
    using lci_ce_dispatch_sync [OF g ce(1,2) f] by blast
  have D: "mem ?D = memcpy (mem s) src (pk_data p) (rq_size (reqs s (pk_req (pks s p))))"
      "pk_req (pks ?D p) = req" "rq_size (reqs ?D req) = rq_size (reqs s (pk_req (pks s p)))"
      "dev_mset (ep_server ep) ?D = dev_mset (ep_server ep) s"
    using p(2) by (simp_all add: step_defs) (simp_all add: upd_defs)
  show ?thesis
    using run s' D by (auto simp: memcpy_reads dev_mset_def intro!: exI [of _ "set_tbl n h2 s'"])
qed

section \<open>Properties\<close>



text \<open>
  The same holds for a request to send of a long message, when the receive is
  posted with the size of the message.
\<close>

theorem lc_recv_rts_order_irrelevant:
  assumes ep: "exp_ep e s n ep h" and rep: "ep_rep_at ep rank = Inr rep" and t: "unat tag < 2 ^ 16"
    and none: "waiting h CLIENT (lc_make_key rank tag) = []" "waiting h SERVER (lc_make_key rank tag) = []"
    and p: "rq_rank (reqs s (pk_req (pks s p))) = rank" "pk_req (pks s p) \<noteq> req"
    and sz: "sz = read64 (mem s) (rts_size p)"
  shows "map_res view (bind_res (lc_recv e src sz rank tag n req s)
            (\<lambda>(_, s). lci_serve_recv e p (MAKE_PROTO (gid ep) LC_PROTO_RTS tag) s))
       = map_res view (bind_res (lci_serve_recv e p (MAKE_PROTO (gid ep) LC_PROTO_RTS tag) s)
            (\<lambda>s. map_res snd (lc_recv e src sz rank tag n req s)))"
  by (rule both_orders [OF ep rep t none p, where src = src and sz = sz])
    (simp add: map_res_comp posted_rts_size flip: sz)

theorem lc_recv_rts_order_irrelevant_witness:
  "map_res view (bind_res (lc_recv ex_env 0x30000 0 1 7 0 0x20000 ex_state)
        (\<lambda>(_, s). lci_serve_recv ex_env 0x10000 (MAKE_PROTO (gid ex_ep) LC_PROTO_RTS 7) s))
   = map_res view (bind_res (lci_serve_recv ex_env 0x10000 (MAKE_PROTO (gid ex_ep) LC_PROTO_RTS 7) ex_state)
        (\<lambda>s. map_res snd (lc_recv ex_env 0x30000 0 1 7 0 0x20000 s)))"
  by (rule lc_recv_rts_order_irrelevant [OF ex_exp_ep ex_rep_at _ _ _ ex_packet(1,2)])
    (simp_all add: ex_packet(3))

text \<open>
  Property C24. On an endpoint that signals completion, a receive that meets its message is
  complete: the synchronisation flag of the request is set, its size is the size of the
  message, the posted buffer holds the payload of the packet byte for byte, and the packet is
  back in the pool of the device.
\<close>

theorem lc_recv_delivers:
  assumes ep: "exp_ep e s n ep h" and rep: "ep_rep_at ep rank = Inr rep" and t: "unat tag < 2 ^ 16"
    and none: "waiting h CLIENT (lc_make_key rank tag) = []" "waiting h SERVER (lc_make_key rank tag) = []"
    and p: "rq_rank (reqs s (pk_req (pks s p))) = rank" "pk_req (pks s p) \<noteq> req"
    and ce: "has_sync e" "cap ep AND EP_CE_SYNC \<noteq> 0" "can_free e (ep_server ep) s p"
  shows "\<exists>s'. bind_res (lc_recv e src sz rank tag n req s)
            (\<lambda>(_, s). lci_serve_recv e p (MAKE_PROTO (gid ep) LC_PROTO_DATA tag) s) = Inr s'
      \<and> sync (reqs s' req) = 1 \<and> rq_size (reqs s' req) = rq_size (reqs s (pk_req (pks s p)))
      \<and> read_bytes (mem s') src (unat (rq_size (reqs s' req)))
          = read_bytes (mem s) (pk_data p) (unat (rq_size (reqs s' req)))
      \<and> dev_mset (ep_server ep) s' = add_mset p (dev_mset (ep_server ep) s)"
  by (rule recv_then_arrival [OF assms])

theorem lc_recv_delivers_witness:
  "\<exists>s'. bind_res (lc_recv ex_env 0x30000 64 1 7 0 0x20000 ex_state)
          (\<lambda>(_, s). lci_serve_recv ex_env 0x10000 (MAKE_PROTO (gid ex_ep) LC_PROTO_DATA 7) s) = Inr s'
      \<and> sync (reqs s' 0x20000) = 1"
proof -
  have "has_sync ex_env" "cap ex_ep AND EP_CE_SYNC \<noteq> 0" by (simp_all add: ex_defs ep_flag_defs)
  from lc_recv_delivers [OF ex_exp_ep ex_rep_at _ _ _ ex_packet(1,2) this ex_can_free,
      where tag = 7 and src = "0x30000" and sz = 64]
  show ?thesis by auto
qed

text \<open>
  The size a long receive reports depends on the order. Posted after the request
  to send has arrived, the request gets the size of the message; posted before, it keeps the
  size it was posted with, whatever the size of the message.
\<close>

theorem lc_recv_rts_size:
  assumes ep: "exp_ep e s n ep h" and rep: "ep_rep_at ep rank = Inr rep" and t: "unat tag < 2 ^ 16"
    and none: "waiting h CLIENT (lc_make_key rank tag) = []" "waiting h SERVER (lc_make_key rank tag) = []"
    and p: "rq_rank (reqs s (pk_req (pks s p))) = rank" "pk_req (pks s p) \<noteq> req"
  shows "\<exists>s1 s2. bind_res (lc_recv e src sz rank tag n req s)
            (\<lambda>(_, s). lci_serve_recv e p (MAKE_PROTO (gid ep) LC_PROTO_RTS tag) s) = Inr s1
      \<and> bind_res (lci_serve_recv e p (MAKE_PROTO (gid ep) LC_PROTO_RTS tag) s)
            (\<lambda>s. map_res snd (lc_recv e src sz rank tag n req s)) = Inr s2
      \<and> rq_size (reqs s1 req) = sz \<and> rq_size (reqs s2 req) = read64 (mem s) (rts_size p)"
proof -
  let ?u = "\<lambda>f. upd_pk p (\<lambda>c. c\<lparr>pk_req := req\<rparr>) (f (posted src sz rep req (arrived p LC_PROTO_RTS tag s)))"
  let ?sz = "upd_req req (\<lambda>r. r\<lparr>rq_size := read64 (mem s) (rts_size p)\<rparr>)"
  have rts: "\<exists>t. lci_handle_rts e n p u = Inr t \<and> reqs t = reqs u" if "get_ep u n = Inr ep" for u
    using that by (simp add: lci_handle_rts_def Let_def lci_pk_init_def lci_prepare_rtr_def
        lc_server_rma_reg_def real_server_reg_def lc_server_sendm_def upd_defs)
  have g: "get_ep (?u (\<lambda>s. s)) n = Inr ep" "get_ep (?u ?sz) n = Inr ep"
    using ep by (simp_all add: exp_ep_def get_ep_def arrived_def posted_def lci_init_req_def upd_defs)
  have r: "rq_size (reqs (?u (\<lambda>s. s)) req) = sz" "rq_size (reqs (?u ?sz) req) = read64 (mem s) (rts_size p)"
    by (simp_all add: arrived_def posted_def lci_init_req_def upd_defs)
  show ?thesis
    by (rule both_orders [OF ep rep t none p, where src = src and sz = sz])
      (use rts [OF g(1)] rts [OF g(2)] r in auto)
qed

theorem lc_recv_rts_size_witness:
  "\<exists>s1 s2. bind_res (lc_recv ex_env 0x30000 64 1 7 0 0x20000 ex_state)
          (\<lambda>(_, s). lci_serve_recv ex_env 0x10000 (MAKE_PROTO (gid ex_ep) LC_PROTO_RTS 7) s) = Inr s1
      \<and> bind_res (lci_serve_recv ex_env 0x10000 (MAKE_PROTO (gid ex_ep) LC_PROTO_RTS 7) ex_state)
          (\<lambda>s. map_res snd (lc_recv ex_env 0x30000 64 1 7 0 0x20000 s)) = Inr s2
      \<and> rq_size (reqs s1 0x20000) = 64 \<and> rq_size (reqs s2 0x20000) = 0"
  using lc_recv_rts_size [OF ex_exp_ep ex_rep_at _ _ _ ex_packet(1,2), where tag = 7 and sz = 64
      and src = "0x30000"] ex_packet(3) by simp

end
