(* ===== verification/LC_Rendezvous.thy ===== *)
theory LC_Rendezvous
  imports LC_Matching
begin

text \<open>
  The rendezvous of long messages across two processes: the request to send carries the
  sender's buffer, size and callback to the receiver and back, the answer carries the
  receiver's buffer and the identity of its packet, and the two completions at the receiver
  are counted.
\<close>

section \<open>The fields of a rendezvous packet\<close>

lemma field_offsets:
  "rts_cb p = pk_data p + word_of_nat 0" "rts_ce p = pk_data p + word_of_nat 8"
  "rts_src_addr p = pk_data p + word_of_nat 16" "rts_size p = pk_data p + word_of_nat 24"
  "rtr_tgt_addr p = pk_data p + word_of_nat 32" "rtr_rkey p = pk_data p + word_of_nat 40"
  "rtr_comm_id p = pk_data p + word_of_nat 44"
  by (simp_all add: field_defs)

lemma rts_fields:
  "read64 (mem (lci_prepare_rts src sz cb ce p s)) (rts_src_addr p) = src"
  "read64 (mem (lci_prepare_rts src sz cb ce p s)) (rts_size p) = sz"
  "read64 (mem (lci_prepare_rts src sz cb ce p s)) (rts_cb p) = cb"
  "read64 (mem (lci_prepare_rts src sz cb ce p s)) (rts_ce p) = ce"
  unfolding lci_prepare_rts_def Let_def field_offsets
  by (simp_all add: field_simps del: of_nat_numeral)

lemma lci_prepare_rts_log [simp]: "log (lci_prepare_rts src sz cb ce p s) = log s"
  by (simp add: lci_prepare_rts_def Let_def)

lemma rtr_fields:
  "read64 (mem (lci_prepare_rtr e ep dst sz p s)) (rts_src_addr p) = read64 (mem s) (rts_src_addr p)"
  "read64 (mem (lci_prepare_rtr e ep dst sz p s)) (rts_size p) = read64 (mem s) (rts_size p)"
  "read64 (mem (lci_prepare_rtr e ep dst sz p s)) (rts_cb p) = read64 (mem s) (rts_cb p)"
  "read64 (mem (lci_prepare_rtr e ep dst sz p s)) (rts_ce p) = read64 (mem s) (rts_ce p)"
  "read64 (mem (lci_prepare_rtr e ep dst sz p s)) (rtr_tgt_addr p) = dst"
  "read32 (mem (lci_prepare_rtr e ep dst sz p s)) (rtr_rkey p) = mr_rkey e (ibv_reg_mr e dst sz (log s))"
  "read32 (mem (lci_prepare_rtr e ep dst sz p s)) (rtr_comm_id p) = ucast (p - heap_ptr (lcg_dev s (ep_server ep)))"
  unfolding lci_prepare_rtr_def Let_def field_offsets
  by (simp_all add: field_simps lc_server_rma_reg_def real_server_reg_def lc_server_rma_key_def
      lc_server_heap_ptr_def upd_pk_def emit_def del: of_nat_numeral)

section \<open>The steps\<close>

lemma lc_sendl_OK:
  assumes "lc_sendl e src sz rank tag n cb ce s = Inr (LC_OK, s')"
  shows "\<exists>p h w. log s' = log s @ [Post_send h w] \<and> wr_id w = p \<and> sg_addr w = pk_data p
    \<and> unat (sg_length w) = 40 \<and> opcode w = IBV_WR_SEND_WITH_IMM
    \<and> read64 (mem s') (rts_src_addr p) = src \<and> read64 (mem s') (rts_size p) = sz
    \<and> read64 (mem s') (rts_cb p) = cb \<and> read64 (mem s') (rts_ce p) = ce"
proof -
  obtain ep :: lci_ep and p t and rep :: lci_rep where t: "pool_get_nb e (ep_server ep) s = Inr (p, t)"
      "s' = lc_server_sendm (ep_server ep) (rp_handle rep) sizeof_packet_rts p
         (MAKE_PROTO (gid ep) LC_PROTO_RTS tag)
         (lci_prepare_rts src sz cb ce p (lci_pk_init n (- 1) LC_PROTO_RTS p t))"
    using assms by (auto simp: lc_sendl_def LC_POOL_GET_OR_RETN_def Let_def split: if_splits)
  then have "log t = log s" by (auto simp: pool_get_nb_def upd_dev_def)
  then show ?thesis using t(2)
    by (auto simp: lc_server_sendm_def Let_def emit_def setup_wr_def rts_fields sizeof_packet_rts_def
        lci_pk_init_def upd_pk_def)
qed

lemma lci_handle_rts_effect:
  assumes "get_ep s n = Inr ep" "lci_handle_rts e n p s = Inr s'"
  shows "\<exists>h w. log s' = log s @ [Reg_mr (buffer (reqs s (pk_req (pks s p)))) (read64 (mem s) (rts_size p)), Post_send h w]
    \<and> wr_id w = p \<and> sg_addr w = pk_data p \<and> unat (sg_length w) = 48"
    and "\<forall>f \<in> {rts_src_addr p, rts_size p, rts_cb p, rts_ce p}. read64 (mem s') f = read64 (mem s) f"
    and "read64 (mem s') (rtr_tgt_addr p) = buffer (reqs s (pk_req (pks s p)))"
    and "read32 (mem s') (rtr_rkey p) = mr_rkey e (rma_mem (pks s' p))"
    and "read32 (mem s') (rtr_comm_id p) = ucast (p - heap_ptr (lcg_dev s (ep_server ep)))"
    and "ref (pks s' p) = 2" "pk_proto (pks s' p) = ucast LC_PROTO_RTR" "pk_ep (pks s' p) = n"
proof -
  let ?t = "lci_pk_init n (- 1) LC_PROTO_RTR p s" and ?r = "reqs s (pk_req (pks s p))"
  let ?u = "lci_prepare_rtr e ep (buffer ?r) (read64 (mem s) (rts_size p)) p ?t"
  have s': "s' = lc_server_sendm (ep_server ep) (rhandle ?r) sizeof_packet_rtr p (MAKE_PROTO (gid ep) LC_PROTO_RTR 0) ?u"
    using assms by (simp add: lci_handle_rts_def Let_def lci_pk_init_def lci_prepare_rtr_def upd_pk_def
        lc_server_rma_reg_def real_server_reg_def emit_def)
  have t: "mem ?t = mem s" "lcg_dev ?t = lcg_dev s" "log ?t = log s" by (simp_all add: lci_pk_init_def upd_pk_def)
  have u: "log ?u = log s @ [Reg_mr (buffer ?r) (read64 (mem s) (rts_size p))]"
      "pks ?u p = (pks s p)\<lparr>pk_ep := n, poolid := - 1, pk_proto := ucast LC_PROTO_RTR,
         rma_mem := ibv_reg_mr e (buffer ?r) (read64 (mem s) (rts_size p)) (log s), ref := 2\<rparr>"
    by (simp_all add: lci_prepare_rtr_def lc_server_rma_reg_def real_server_reg_def Let_def emit_def
        upd_pk_def lci_pk_init_def)
  have m: "mem s' = mem ?u" "pks s' = pks ?u" by (simp_all add: s' lc_server_sendm_def Let_def emit_def)
  show "\<exists>h w. log s' = log s @ [Reg_mr (buffer ?r) (read64 (mem s) (rts_size p)), Post_send h w]
      \<and> wr_id w = p \<and> sg_addr w = pk_data p \<and> unat (sg_length w) = 48"
    by (simp add: s' lc_server_sendm_def Let_def emit_def u setup_wr_def sizeof_packet_rtr_def)
  show "\<forall>f \<in> {rts_src_addr p, rts_size p, rts_cb p, rts_ce p}. read64 (mem s') f = read64 (mem s) f"
    by (simp add: m rtr_fields t)
  show "read64 (mem s') (rtr_tgt_addr p) = buffer ?r"
    "read32 (mem s') (rtr_rkey p) = mr_rkey e (rma_mem (pks s' p))"
    "read32 (mem s') (rtr_comm_id p) = ucast (p - heap_ptr (lcg_dev s (ep_server ep)))"
    "ref (pks s' p) = 2" "pk_proto (pks s' p) = ucast LC_PROTO_RTR" "pk_ep (pks s' p) = n"
    by (simp_all add: m rtr_fields t u)
qed

lemma lci_handle_rtr_effect:
  assumes "get_ep s n = Inr ep"
  shows "\<exists>s' l h w. lci_handle_rtr e n p s = Inr s' \<and> log s' = log s @ l @ [Post_send h w]
    \<and> opcode w = IBV_WR_RDMA_WRITE_WITH_IMM \<and> wr_id w = p
    \<and> sg_addr w = read64 (mem s) (rts_src_addr p) \<and> sg_length w = ucast (read64 (mem s) (rts_size p))
    \<and> remote_addr w = read64 (mem s) (rtr_tgt_addr p) \<and> wr_rkey w = read32 (mem s) (rtr_rkey p)
    \<and> imm_data w = read32 (mem s) (rtr_comm_id p) OR IBV_IMM_RTR
    \<and> mem s' = mem s \<and> lcg_ep s' = lcg_ep s
    \<and> pk_ep (pks s' p) = n \<and> pk_proto (pks s' p) = ucast LC_PROTO_LONG"
  using assms by (simp add: lci_handle_rtr_def Let_def lc_server_rma_rtr_def lc_server_rma_reg_def
      real_server_reg_def lci_pk_init_def upd_pk_def emit_def setup_wr_def)

lemma bit_IBV_IMM_RTR [simp]: "bit IBV_IMM_RTR k \<longleftrightarrow> k = 31"
  unfolding IBV_IMM_RTR_def by (subst bit_push_bit_iff) (auto simp: bit_1_iff)

lemma imm_rtr:
  assumes "unat (p - heap :: addr) < 2 ^ 31"
  shows "(ucast (p - heap) OR IBV_IMM_RTR) AND IBV_IMM_RTR \<noteq> 0"
    and "heap + ucast ((ucast (p - heap) OR IBV_IMM_RTR) XOR IBV_IMM_RTR) = p"
proof -
  have b: "bit (p - heap) k \<Longrightarrow> k < 31" for k
  proof (rule ccontr)
    assume "bit (p - heap) k" "\<not> k < 31"
    then have "bit (unat (p - heap)) k" "31 \<le> k" by (simp_all add: bit_simps)
    moreover have "unat (p - heap) < 2 ^ k" using assms \<open>31 \<le> k\<close>
      by (meson order_less_le_trans power_increasing one_le_numeral)
    ultimately show False by (simp add: bit_nat_def)
  qed
  show "(ucast (p - heap) OR IBV_IMM_RTR) AND IBV_IMM_RTR \<noteq> 0" by (simp add: IBV_IMM_RTR_def)
  have "ucast ((ucast (p - heap) OR IBV_IMM_RTR) XOR IBV_IMM_RTR) = p - heap"
    by (rule bit_word_eqI) (auto simp: bit_simps dest: b)
  then show "heap + ucast ((ucast (p - heap) OR IBV_IMM_RTR) XOR IBV_IMM_RTR) = p" by simp
qed

section \<open>Properties\<close>

text \<open>
  Property C4. The rendezvous ends with the right write and the right callback. A process
  sends a long message; the receiver gets the 40 bytes of the request to send in its packet
  \<open>r\<close> and answers for a matched receive; the sender gets the 48 bytes of the answer in its
  packet \<open>q\<close>. Then the sender writes from the buffer and with the length given to
  \<open>lc_sendl\<close>, to the receiver's posted buffer with the key of the region registered for it;
  the immediate data leads the receiver back to its packet \<open>r\<close>; and when the write completes,
  the sender calls the callback given to \<open>lc_sendl\<close> with its argument.
\<close>

theorem rendezvous_round_trip:
  assumes send: "lc_sendl ea src sz rank tag n cb ce a = Inr (LC_OK, a1)" "last (log a1) = Post_send h1 w1"
    and wire1: "read_bytes (mem b) (pk_data r) (unat (sg_length w1)) = read_bytes (mem a1) (sg_addr w1) (unat (sg_length w1))"
    and rts: "get_ep b n = Inr epb" "lci_handle_rts eb n r b = Inr b1" "last (log b1) = Post_send h2 w2"
    and wire2: "read_bytes (mem a2) (pk_data q) (unat (sg_length w2)) = read_bytes (mem b1) (sg_addr w2) (unat (sg_length w2))"
    and ep: "get_ep a2 n = Inr epa"
    and heap: "unat (r - heap_ptr (lcg_dev b (ep_server epb))) < 2 ^ 31"
  shows "\<exists>a3 h w. lci_handle_rtr ea n q a2 = Inr a3 \<and> last (log a3) = Post_send h w
    \<and> opcode w = IBV_WR_RDMA_WRITE_WITH_IMM \<and> sg_addr w = src \<and> sg_length w = ucast sz
    \<and> remote_addr w = buffer (reqs b (pk_req (pks b r))) \<and> wr_rkey w = mr_rkey eb (rma_mem (pks b1 r))
    \<and> imm_data w AND IBV_IMM_RTR \<noteq> 0
    \<and> heap_ptr (lcg_dev b (ep_server epb)) + ucast (imm_data w XOR IBV_IMM_RTR) = r
    \<and> lci_serve_send ea q a3 = lci_pk_free ea epa q (emit (Call_cb cb ce) a3)"
proof -
  obtain p where p: "sg_addr w1 = pk_data p" "unat (sg_length w1) = 40"
      "read64 (mem a1) (rts_src_addr p) = src" "read64 (mem a1) (rts_size p) = sz"
      "read64 (mem a1) (rts_cb p) = cb" "read64 (mem a1) (rts_ce p) = ce"
    using lc_sendl_OK [OF send(1)] send(2) by auto
  note f1 = field_eq [OF wire1 [unfolded p(1,2)]]
  have b: "read64 (mem b) (rts_src_addr r) = src" "read64 (mem b) (rts_size r) = sz"
      "read64 (mem b) (rts_cb r) = cb" "read64 (mem b) (rts_ce r) = ce"
    using f1 [of 16] f1 [of 24] f1 [of 0] f1 [of 8] p(3-) by (simp_all add: field_defs)
  note rtr = lci_handle_rts_effect [OF rts(1,2)]
  have w2: "sg_addr w2 = pk_data r" "unat (sg_length w2) = 48" using rtr(1) rts(3) by auto
  note f2 = field_eq [OF wire2 [unfolded w2]] field_eq32 [OF wire2 [unfolded w2]]
  have q: "read64 (mem a2) (rts_src_addr q) = src" "read64 (mem a2) (rts_size q) = sz"
      "read64 (mem a2) (rts_cb q) = cb" "read64 (mem a2) (rts_ce q) = ce"
      "read64 (mem a2) (rtr_tgt_addr q) = buffer (reqs b (pk_req (pks b r)))"
      "read32 (mem a2) (rtr_rkey q) = mr_rkey eb (rma_mem (pks b1 r))"
      "read32 (mem a2) (rtr_comm_id q) = ucast (r - heap_ptr (lcg_dev b (ep_server epb)))"
    using f2(1) [of 16] f2(1) [of 24] f2(1) [of 0] f2(1) [of 8] f2(1) [of 32] f2(2) [of 40] f2(2) [of 44]
      rtr b by (simp_all add: field_defs)
  obtain a3 l h w where w: "lci_handle_rtr ea n q a2 = Inr a3" "log a3 = log a2 @ l @ [Post_send h w]"
      "opcode w = IBV_WR_RDMA_WRITE_WITH_IMM" "sg_addr w = src" "sg_length w = ucast sz"
      "remote_addr w = buffer (reqs b (pk_req (pks b r)))" "wr_rkey w = mr_rkey eb (rma_mem (pks b1 r))"
      "imm_data w = ucast (r - heap_ptr (lcg_dev b (ep_server epb))) OR IBV_IMM_RTR"
      "mem a3 = mem a2" "lcg_ep a3 = lcg_ep a2" "pk_ep (pks a3 q) = n" "pk_proto (pks a3 q) = ucast LC_PROTO_LONG"
    using lci_handle_rtr_effect [OF ep, of ea q] q by auto
  have "get_ep a3 n = Inr epa" using ep w(10) by (simp add: get_ep_def)
  then have "lci_serve_send ea q a3 = lci_pk_free ea epa q (emit (Call_cb cb ce) a3)"
    using w(9-12) q by (simp add: lci_serve_send_def Let_def)
  then show ?thesis using w imm_rtr [OF heap] by auto
qed

text \<open>
  Property C21. A long receive completes exactly once. Once the answer is on its way, its packet
  counts two completions: that of the answer's send and that of the sender's write. In either
  order the first one completes nothing, and the second one runs the completion of the
  endpoint once, with the memory region given back.
\<close>

theorem rendezvous_completes_once:
  assumes "pk_proto (pks s p) = ucast LC_PROTO_RTR" "ref (pks s p) = 2" "pk_ep (pks s p) = n"
    "get_ep s n = Inr ep"
  shows "lci_serve_send e p s = Inr (upd_pk p (\<lambda>c. c\<lparr>ref := 1\<rparr>) s)
    \<and> lci_serve_imm e p s = Inr (emit (Dereg_mr (rma_mem (pks s p))) (upd_pk p (\<lambda>c. c\<lparr>ref := 1\<rparr>) s))
    \<and> bind_res (lci_serve_send e p s) (lci_serve_imm e p)
        = lci_ce_dispatch e n p (cap ep) (emit (Dereg_mr (rma_mem (pks s p))) (upd_pk p (\<lambda>c. c\<lparr>ref := 0\<rparr>) s))
    \<and> bind_res (lci_serve_imm e p s) (lci_serve_send e p)
        = lci_ce_dispatch e n p (cap ep) (emit (Dereg_mr (rma_mem (pks s p))) (upd_pk p (\<lambda>c. c\<lparr>ref := 0\<rparr>) s))"
  using assms by (auto simp: lci_serve_send_def lci_serve_imm_def drop_ref_def Let_def get_ep_def
      lc_server_rma_dereg_def real_server_dereg_def upd_pk_def emit_def split: option.splits
      intro!: arg_cong [where f = "lci_ce_dispatch e (pk_ep (pks s p)) p (cap ep)"])

section \<open>A rendezvous between two small processes\<close>

text \<open>
  Sender and receiver have the same memory layout here, and all packets are at \<open>0x10000\<close>; the
  wire is the copy of the memory of one process to the other.
\<close>

lemma ex_one_packet:
  obtains s t where "pool_put ex_env 0 0x10000 ex_state = Inr s" "pool_get_nb ex_env 0 s = Inr (0x10000, t)"
    "get_ep s 0 = Inr ex_ep" "get_ep t 0 = Inr ex_ep" "\<not> lcg_deadlock s" "dev_pool_ok ex_env 0 t"
proof -
  obtain g pool pool' where p: "lc_pool_put ((lc_pool_init pool_globals_init)\<lparr>lc_pool_nkey := 1\<rparr>)
       \<lparr>pl_key = 0, npools = 0, lpools = []\<rparr> 3 0x10000 = Inr (g, pool)"
      "lc_pool_get_nb g pool 3 0 = Inr (0x10000, g, pool')" "pool_inv g pool'"
    by (rule pool_example [of "0x10000" 0]) auto
  let ?s = "(upd_dev 0 (\<lambda>v. v\<lparr>sv_pkpool := pool\<rparr>) ex_state)\<lparr>globals := g\<rparr>"
  have s: "pool_put ex_env 0 0x10000 ex_state = Inr ?s"
    using p(1) by (simp add: pool_put_def ex_defs upd_dev_def)
  let ?t = "(upd_dev 0 (\<lambda>v. v\<lparr>sv_pkpool := pool'\<rparr>) ?s)\<lparr>globals := g, rands := (\<lambda>i. rands ?s (Suc i))\<rparr>"
  have g: "pool_get_nb ex_env 0 ?s = Inr (0x10000, ?t)"
    using p(2) by (simp add: pool_get_nb_def ex_defs upd_dev_def)
  show ?thesis
    by (rule that [OF s g]) (use p(3) in \<open>simp_all add: get_ep_def upd_dev_def ex_defs dev_pool_ok_def pool_consts\<close>)
qed

lemma ex_sendl:
  obtains s a where "pool_put ex_env 0 0x10000 ex_state = Inr s"
    "lc_sendl ex_env 0x30000 20000 1 7 0 5 6 s = Inr (LC_OK, a)" "get_ep a 0 = Inr ex_ep"
    "\<exists>h w. last (log a) = Post_send h w \<and> sg_addr w = pk_data 0x10000"
proof -
  obtain s t where s: "pool_put ex_env 0 0x10000 ex_state = Inr s" "pool_get_nb ex_env 0 s = Inr (0x10000, t)"
      "get_ep s 0 = Inr ex_ep" "get_ep t 0 = Inr ex_ep" "\<not> lcg_deadlock s"
    by (rule ex_one_packet)
  let ?a = "lc_server_sendm 0 (rp_handle (ex_reps ! 1)) sizeof_packet_rts 0x10000
      (MAKE_PROTO (gid ex_ep) LC_PROTO_RTS 7)
      (lci_prepare_rts 0x30000 20000 5 6 0x10000 (lci_pk_init 0 (- 1) LC_PROTO_RTS 0x10000 t))"
  have "ep_server ex_ep = 0" by (simp add: ex_ep_def)
  then have "lc_sendl ex_env 0x30000 20000 1 7 0 5 6 s = Inr (LC_OK, ?a)"
    using s ex_rep_at by (simp add: lc_sendl_def LC_POOL_GET_OR_RETN_def Let_def)
  moreover have "get_ep ?a 0 = Inr ex_ep"
    using s(4) by (simp add: get_ep_def lc_server_sendm_def Let_def emit_def lci_prepare_rts_def lci_pk_init_def
        upd_pk_def)
  moreover have "\<exists>h w. last (log ?a) = Post_send h w \<and> sg_addr w = pk_data 0x10000"
    by (simp add: lc_server_sendm_def Let_def emit_def setup_wr_def)
  ultimately show ?thesis using that s(1) by blast
qed

theorem rendezvous_round_trip_witness:
  "\<exists>s a1 b1 a3 h w. pool_put ex_env 0 0x10000 ex_state = Inr s
    \<and> lc_sendl ex_env 0x30000 20000 1 7 0 5 6 s = Inr (LC_OK, a1)
    \<and> lci_handle_rts ex_env 0 0x10000 (ex_state\<lparr>mem := mem a1\<rparr>) = Inr b1
    \<and> lci_handle_rtr ex_env 0 0x10000 (a1\<lparr>mem := mem b1\<rparr>) = Inr a3
    \<and> last (log a3) = Post_send h w \<and> sg_addr w = 0x30000 \<and> sg_length w = 20000
    \<and> lci_serve_send ex_env 0x10000 a3 = lci_pk_free ex_env ex_ep 0x10000 (emit (Call_cb 5 6) a3)"
proof -
  obtain s a h1 w1 where a: "pool_put ex_env 0 0x10000 ex_state = Inr s"
      "lc_sendl ex_env 0x30000 20000 1 7 0 5 6 s = Inr (LC_OK, a)" "get_ep a 0 = Inr ex_ep"
      "last (log a) = Post_send h1 w1" "sg_addr w1 = pk_data 0x10000"
    by (rule ex_sendl) blast
  let ?b = "ex_state\<lparr>mem := mem a\<rparr>"
  have b: "get_ep ?b 0 = Inr ex_ep" by (simp add: get_ep_def ex_state_def)
  obtain b1 where b1: "lci_handle_rts ex_env 0 0x10000 ?b = Inr b1"
    using b by (simp add: lci_handle_rts_def Let_def)
  obtain h2 w2 where w2: "last (log b1) = Post_send h2 w2" "sg_addr w2 = pk_data 0x10000"
    using lci_handle_rts_effect(1) [OF b b1] by auto
  have "get_ep (a\<lparr>mem := mem b1\<rparr>) 0 = Inr ex_ep" using a(3) by (simp add: get_ep_def)
  moreover have "unat (0x10000 - heap_ptr (lcg_dev ?b (ep_server ex_ep))) < 2 ^ 31" by (simp add: ex_defs)
  ultimately obtain a3 h w where "lci_handle_rtr ex_env 0 0x10000 (a\<lparr>mem := mem b1\<rparr>) = Inr a3"
      "last (log a3) = Post_send h w" "sg_addr w = 0x30000" "sg_length w = ucast (20000 :: u64)"
      "lci_serve_send ex_env 0x10000 a3 = lci_pk_free ex_env ex_ep 0x10000 (emit (Call_cb 5 6) a3)"
    using rendezvous_round_trip [OF a(2,4) _ b b1 w2(1), of "a\<lparr>mem := mem b1\<rparr>" "0x10000" ex_ep] a(5) w2(2)
    by auto
  then show ?thesis using a(1,2) b1 by auto
qed

theorem rendezvous_completes_once_witness:
  "bind_res (lci_serve_send ex_env 0x10000 (upd_pk 0x10000 (\<lambda>c. c\<lparr>ref := 2, pk_proto := ucast LC_PROTO_RTR\<rparr>) ex_state))
      (lci_serve_imm ex_env 0x10000)
    = bind_res (lci_serve_imm ex_env 0x10000 (upd_pk 0x10000 (\<lambda>c. c\<lparr>ref := 2, pk_proto := ucast LC_PROTO_RTR\<rparr>) ex_state))
      (lci_serve_send ex_env 0x10000)"
proof -
  let ?s = "upd_pk 0x10000 (\<lambda>c. c\<lparr>ref := 2, pk_proto := ucast LC_PROTO_RTR\<rparr>) ex_state"
  have "pk_proto (pks ?s 0x10000) = ucast LC_PROTO_RTR" "ref (pks ?s 0x10000) = 2"
      "pk_ep (pks ?s 0x10000) = 0" "get_ep ?s 0 = Inr ex_ep"
    by (simp_all add: upd_pk_def get_ep_def ex_state_def ex_base_def)
  from rendezvous_completes_once [OF this, of ex_env] show ?thesis by (elim conjE) (rule trans, assumption, rule sym)
qed

end
