(* ===== verification/LC_Progress.thy ===== *)
theory LC_Progress
  imports LC_Rendezvous
begin

text \<open>
  The progress engine of \<open>src/include/server/server_ibv.h\<close> and the start of a device in
  \<open>src/include/lc_priv.h\<close>: the polled completions are arguments, as lists of what
  \<open>ibv_poll_cq\<close> returned. A debug build's checks of the completion status are left out.
\<close>

section \<open>Model\<close>

definition MAX_CQ :: nat where "MAX_CQ = 16"

record ibv_wc =
  wc_wr_id :: addr
  wc_rdma_with_imm :: bool   \<comment> \<open>the opcode is \<open>IBV_WC_RECV_RDMA_WITH_IMM\<close>\<close>
  wc_imm_data :: u32
  wc_qp_num :: u32
  wc_byte_len :: u32

text \<open>The body of the loop over received completions.\<close>

definition progress_recv :: "lc_env \<Rightarrow> nat \<Rightarrow> ibv_wc \<Rightarrow> proc" where
  "progress_recv e d wc s =
     (let s = upd_dev d (\<lambda>v. v\<lparr>recv_posted := recv_posted v - 1\<rparr>) s
      in if \<not> wc_rdma_with_imm wc then
           let p = wc_wr_id wc;
               s = upd_pk p (\<lambda>c. c\<lparr>pk_req := req_s p\<rparr>) s;
               rank = qp2rank (lcg_dev s d) (unat (wc_qp_num wc) mod qp2rank_mod (lcg_dev s d))
           in if rank \<ge> length (sv_qp (lcg_dev s d)) then Inl Out_of_bounds
              else lci_serve_recv e p (wc_imm_data wc)
                (upd_req (req_s p) (\<lambda>r. r\<lparr>rq_rank := word_of_nat rank,
                    rhandle := sv_qp (lcg_dev s d) ! rank, rq_size := ucast (wc_byte_len wc)\<rparr>) s)
         else if wc_imm_data wc AND IBV_IMM_RTR \<noteq> 0 then
           let p = heap_ptr (lcg_dev s d) + ucast (wc_imm_data wc XOR IBV_IMM_RTR)
           in bind_res (lci_serve_imm e p s) (pool_put e d (wc_wr_id wc))
         else
           let p = wc_wr_id wc
           in lci_serve_recv_rdma e p (wc_imm_data wc) (upd_pk p (\<lambda>c. c\<lparr>pk_req := req_s p\<rparr>) s))"

text \<open>The body of the loop over sent completions; an unsignalled request has no packet.\<close>

definition progress_send :: "lc_env \<Rightarrow> addr \<Rightarrow> proc" where
  "progress_send e p s = (if p \<noteq> NULL then lci_serve_send e p s else Inr s)"

fun run_procs :: "proc list \<Rightarrow> proc" where
  "run_procs [] s = Inr s"
| "run_procs (f # fs) s = bind_res (f s) (run_procs fs)"

definition lc_server_progress ::
    "lc_env \<Rightarrow> nat \<Rightarrow> ibv_wc list \<Rightarrow> addr list \<Rightarrow> lc_state \<Rightarrow> (bool \<times> lc_state) res" where
  "lc_server_progress e d recv_wc send_wc s =
     bind_res (run_procs (map (progress_recv e d) recv_wc) s) (\<lambda>s.
     bind_res (run_procs (map (progress_send e) send_wc) s) (\<lambda>s.
       let ret = (recv_wc \<noteq> [] \<or> send_wc \<noteq> [])
       in if recv_posted (lcg_dev s d) < LC_SERVER_MAX_RCVS
          then bind_res (pool_get_nb e d s) (\<lambda>(p, s). bind_res (ibv_post_recv e d p s) (\<lambda>s. Inr (True, s)))
          else Inr (ret, s)))"

definition lc_progress :: "lc_env \<Rightarrow> nat \<Rightarrow> ibv_wc list \<Rightarrow> addr list \<Rightarrow> lc_state \<Rightarrow> (bool \<times> lc_state) res" where
  "lc_progress e d recv_wc send_wc s = lc_server_progress e d recv_wc send_wc s"

text \<open>
  The part of \<open>lci_dev_init\<close> that follows \<open>lc_server_init\<close>: the packets of the device. The
  page size divides in unsigned 64-bit arithmetic.
\<close>

definition base_packet :: "lc_env \<Rightarrow> nat \<Rightarrow> lc_state \<Rightarrow> addr" where
  "base_packet e d s = lc_server_heap_ptr d s + lcg_page_size e - sizeof_packet_context"

definition packet_addr :: "addr \<Rightarrow> nat \<Rightarrow> addr" where
  "packet_addr base i = base + word_of_nat i * LC_PACKET_SIZE"

definition dev_init_packet :: "lc_env \<Rightarrow> nat \<Rightarrow> addr \<Rightarrow> proc" where
  "dev_init_packet e d p s =
     (let s = upd_pk p (\<lambda>c. c\<lparr>poolid := 0\<rparr>) s;
          s = upd_req (req_s p) (\<lambda>r. r\<lparr>parent := p\<rparr>) s
      in pool_put e d p s)"

definition lci_dev_init :: "lc_env \<Rightarrow> nat \<Rightarrow> proc" where
  "lci_dev_init e d s =
     (let base = base_packet e d s
      in bind_res (lc_pool_create (globals s)) (\<lambda>(g, pool).
         let s = (upd_dev d (\<lambda>v. v\<lparr>sv_pkpool := pool\<rparr>) s)\<lparr>globals := g\<rparr>
         in bind_res (run_procs (map (\<lambda>i. dev_init_packet e d (packet_addr base i)) [0..<unat LC_SERVER_NUM_PKTS]) s)
           (\<lambda>s. let a = base + LC_SERVER_NUM_PKTS * LC_PACKET_SIZE;
                    a = (a + lcg_page_size e - 1) div lcg_page_size e * lcg_page_size e
                in Inr (upd_dev d (\<lambda>v. v\<lparr>curr_addr := a\<rparr>) s))))"

section \<open>The packets of a device\<close>

lemma run_procs_append: "run_procs (fs @ gs) s = bind_res (run_procs fs s) (run_procs gs)"
proof (induction fs arbitrary: s)
  case Nil
  then show ?case by simp
next
  case (Cons f fs)
  then show ?case by (cases "f s") simp_all
qed

lemma dev_init_packet_ok:
  assumes "dev_pool_ok e d s" "p \<noteq> NULL" "size (dev_mset d s) < 4095"
  shows "\<exists>s'. dev_init_packet e d p s = Inr s' \<and> dev_pool_ok e d s'
    \<and> dev_mset d s' = add_mset p (dev_mset d s) \<and> pks s' = (pks s)(p := (pks s p)\<lparr>poolid := 0\<rparr>)
    \<and> reqs s' = (reqs s)(req_s p := (reqs s (req_s p))\<lparr>parent := p\<rparr>)"
proof -
  let ?t = "upd_req (req_s p) (\<lambda>r. r\<lparr>parent := p\<rparr>) (upd_pk p (\<lambda>c. c\<lparr>poolid := 0\<rparr>) s)"
  obtain g pool where "pool_put e d p ?t = Inr (set_pool d g pool ?t)" "pool_inv g pool"
      "pool_mset pool = add_mset p (dev_mset d s)"
    using pool_put_dev [of e d ?t p] assms by auto
  then show ?thesis
    using assms(1) by (simp add: dev_init_packet_def Let_def) (simp add: dev_pool_ok_def upd_req_def upd_pk_def)
qed

lemma dev_init_packets_ok:
  "dev_pool_ok e d s \<Longrightarrow> \<forall>p \<in> set ps. p \<noteq> NULL \<Longrightarrow> size (dev_mset d s) + length ps \<le> 4095 \<Longrightarrow>
    \<exists>s'. run_procs (map (dev_init_packet e d) ps) s = Inr s' \<and> dev_mset d s' = dev_mset d s + mset ps
      \<and> (\<forall>p. poolid (pks s' p) = (if p \<in> set ps then 0 else poolid (pks s p)))
      \<and> (\<forall>p \<in> set ps. parent (reqs s' (req_s p)) = p)
      \<and> (\<forall>p. p \<notin> set ps \<longrightarrow> reqs s' (req_s p) = reqs s (req_s p))"
proof (induction ps arbitrary: s)
  case Nil
  then show ?case by simp
next
  case (Cons p ps)
  obtain t where t: "dev_init_packet e d p s = Inr t" "dev_pool_ok e d t"
      "dev_mset d t = add_mset p (dev_mset d s)" "pks t = (pks s)(p := (pks s p)\<lparr>poolid := 0\<rparr>)"
      "reqs t = (reqs s)(req_s p := (reqs s (req_s p))\<lparr>parent := p\<rparr>)"
    using dev_init_packet_ok [of e d s p] Cons.prems by auto
  obtain s' where s': "run_procs (map (dev_init_packet e d) ps) t = Inr s'"
      "dev_mset d s' = dev_mset d t + mset ps"
      "\<forall>p. poolid (pks s' p) = (if p \<in> set ps then 0 else poolid (pks t p))"
      "\<forall>p \<in> set ps. parent (reqs s' (req_s p)) = p"
      "\<forall>p. p \<notin> set ps \<longrightarrow> reqs s' (req_s p) = reqs t (req_s p)"
    using Cons.IH [OF t(2)] Cons.prems t(3) by auto
  have "parent (reqs s' (req_s p)) = p" using s'(4,5) t(5) by (cases "p \<in> set ps") auto
  moreover have "req_s q = req_s p \<longleftrightarrow> q = p" for q by (simp add: req_s_def)
  ultimately show ?case using t s' by (intro exI [of _ s']) auto
qed

text \<open>Addresses without wrap-around: the device's memory ends below \<open>2 ^ 64\<close>.\<close>

lemma unat_packet_addr:
  assumes "unat base + 1024 * 12288 < 2 ^ 64" "i \<le> 1024"
  shows "unat (packet_addr base i) = unat base + i * 12288"
proof -
  have "unat (word_of_nat i * LC_PACKET_SIZE :: u64) = i * 12288"
    using assms(2) by (simp add: size_defs unat_word_ariths unat_word_of_nat)
  then show ?thesis using assms by (simp add: packet_addr_def unat_word_ariths)
qed

lemma round_up:
  assumes "0 < p" "unat a + p - 1 < 2 ^ 64" "unat (w :: u64) = p"
  shows "unat ((a + w - 1) div w * w) = (unat a + p - 1) div p * p"
proof -
  have w: "w \<noteq> 0" using assms by auto
  have u: "unat (w - 1) = p - 1" using assms w by (simp add: unat_minus_one)
  have "unat (a + (w - 1)) = unat a + (p - 1)"
    using assms by (subst unat_word_ariths(1)) (simp add: u)
  then have n: "unat (a + w - 1) = unat a + p - 1" using assms(1) by (simp add: add_diff_eq)
  have "(unat a + p - 1) div p * p \<le> unat a + p - 1" by (rule div_times_less_eq_dividend)
  then have less: "(unat a + p - 1) div p * p < 2 ^ 64" using assms(2) by (rule le_less_trans)
  have "unat ((a + w - 1) div w) = (unat a + p - 1) div p" using n assms(3) by (simp add: unat_div)
  then show ?thesis using less assms(3) by (subst unat_word_ariths(2)) simp
qed

text \<open>The address range of a device's packets, and the first address behind it.\<close>

definition device_layout :: "lc_env \<Rightarrow> nat \<Rightarrow> lc_state \<Rightarrow> nat \<Rightarrow> nat \<Rightarrow> bool" where
  "device_layout e d s heap page \<longleftrightarrow> heap = unat (heap_ptr (lcg_dev s d)) \<and> page = unat (lcg_page_size e)
     \<and> 108 < page \<and> heap + 1024 * 12288 + 2 * page < 2 ^ 64"

definition packets_end :: "lc_env \<Rightarrow> addr \<Rightarrow> u64" where
  "packets_end e base = (base + LC_SERVER_NUM_PKTS * LC_PACKET_SIZE + lcg_page_size e - 1)
     div lcg_page_size e * lcg_page_size e"

lemma unat_base:
  assumes "device_layout e d s heap page"
  shows "unat (base_packet e d s) = heap + page - 108"
proof -
  have "unat (lcg_page_size e - sizeof_packet_context) = page - 108"
    using assms by (subst unat_sub) (auto simp: device_layout_def size_defs word_le_nat_alt)
  then have "unat (heap_ptr (lcg_dev s d) + (lcg_page_size e - sizeof_packet_context)) = heap + page - 108"
    using assms by (subst unat_word_ariths(1)) (auto simp: device_layout_def)
  then show ?thesis by (simp add: base_packet_def lc_server_heap_ptr_def add_diff_eq)
qed

lemma unat_packet:
  assumes "device_layout e d s heap page" "i \<le> 1024"
  shows "unat (packet_addr (base_packet e d s) i) = heap + page - 108 + i * 12288"
  using unat_packet_addr [of "base_packet e d s" i] unat_base [OF assms(1)] assms
  by (auto simp: device_layout_def)

lemma packets_end_bounds:
  assumes "device_layout e d s heap page"
  shows "page dvd unat (packets_end e (base_packet e d s))"
    "heap + page - 108 + 1024 * 12288 \<le> unat (packets_end e (base_packet e d s))"
    "unat (packets_end e (base_packet e d s)) < heap + 1024 * 12288 + 2 * page"
proof -
  let ?a = "base_packet e d s + LC_SERVER_NUM_PKTS * LC_PACKET_SIZE" and ?n = "heap + page - 108 + 1024 * 12288"
  have l: "108 < page" "heap + 1024 * 12288 + 2 * page < 2 ^ 64" "unat (lcg_page_size e) = page"
    using assms by (simp_all add: device_layout_def)
  have a: "unat ?a = ?n"
    using unat_packet [OF assms, of 1024] by (simp add: packet_addr_def LC_SERVER_NUM_PKTS_def)
  then have "unat ?a + page - 1 < 2 ^ 64" using l by linarith
  then have c: "unat (packets_end e (base_packet e d s)) = (?n + page - 1) div page * page"
    unfolding packets_end_def using round_up [of page ?a "lcg_page_size e"] l(1,3) a by simp
  show "page dvd unat (packets_end e (base_packet e d s))" unfolding c by simp
  show "?n \<le> unat (packets_end e (base_packet e d s))"
      "unat (packets_end e (base_packet e d s)) < heap + 1024 * 12288 + 2 * page"
    using c l(1) div_times_less_eq_dividend [of "?n + page - 1" page]
      dividend_less_div_times [of page "?n + page - 1"] by linarith+
qed

section \<open>Properties\<close>

text \<open>
  Property C22. Starting a device fills its pool with exactly \<open>LC_SERVER_NUM_PKTS\<close> packets.
  They lie one after the other without overlap between the device's memory and the address
  from which \<open>lc_ep_get_baseaddr\<close> hands out memory, which is the next page boundary; each of
  them knows its dequeue and is the parent of its own request.
\<close>

theorem lci_dev_init_packets:
  assumes pool: "lc_pool_create (globals s) = Inr (g, pool)" "pool_inv g pool" "worker_id e < MAX_NPOOLS"
    and lay: "device_layout e d s heap page"
  shows "\<exists>s'. lci_dev_init e d s = Inr s'
    \<and> dev_mset d s' = mset (map (packet_addr (base_packet e d s)) [0..<unat LC_SERVER_NUM_PKTS])
    \<and> (\<forall>i < unat LC_SERVER_NUM_PKTS. let p = packet_addr (base_packet e d s) i
          in unat p = heap + page - 108 + i * 12288 \<and> unat p + 12288 \<le> unat (curr_addr (lcg_dev s' d))
             \<and> poolid (pks s' p) = 0 \<and> parent (reqs s' (req_s p)) = p)
    \<and> page dvd unat (curr_addr (lcg_dev s' d))
    \<and> unat (curr_addr (lcg_dev s' d)) < heap + 1024 * 12288 + 2 * page"
proof -
  let ?base = "base_packet e d s" and ?t = "(upd_dev d (\<lambda>v. v\<lparr>sv_pkpool := pool\<rparr>) s)\<lparr>globals := g\<rparr>"
  let ?ps = "map (packet_addr ?base) [0..<unat LC_SERVER_NUM_PKTS]"
  have N: "unat LC_SERVER_NUM_PKTS = 1024" by (simp add: LC_SERVER_NUM_PKTS_def)
  have nz: "\<forall>p \<in> set ?ps. p \<noteq> NULL"
  proof
    fix p assume "p \<in> set ?ps"
    then obtain i where "p = packet_addr ?base i" "i < unat LC_SERVER_NUM_PKTS" by auto
    then have "unat p \<noteq> 0" using unat_packet [OF lay, of i] lay N by (simp add: device_layout_def)
    then show "p \<noteq> NULL" by auto
  qed
  have "pool_mset pool = {#}"
    using pool(1) by (auto simp: lc_pool_create_def Let_def pool_mset_def split: if_splits)
  then have t: "dev_pool_ok e d ?t" "dev_mset d ?t = {#}"
    using pool by (simp_all add: dev_pool_ok_def dev_mset_def upd_dev_def)
  have "length ?ps = 1024" by (simp only: length_map length_upt N)
  then have len: "size (dev_mset d ?t) + length ?ps \<le> 4095" by (simp only: t(2)) simp
  obtain u where u: "run_procs (map (dev_init_packet e d) ?ps) ?t = Inr u" "dev_mset d u = mset ?ps"
      "\<forall>p \<in> set ?ps. poolid (pks u p) = 0" "\<forall>p \<in> set ?ps. parent (reqs u (req_s p)) = p"
    using dev_init_packets_ok [OF t(1) nz len] unfolding t(2) by auto
  let ?s' = "upd_dev d (\<lambda>v. v\<lparr>curr_addr := packets_end e ?base\<rparr>) u"
  have "lci_dev_init e d s = Inr ?s'"
    using u(1) pool(1) by (simp add: lci_dev_init_def Let_def comp_def packets_end_def)
  moreover have "curr_addr (lcg_dev ?s' d) = packets_end e ?base" "dev_mset d ?s' = mset ?ps"
      "pks ?s' = pks u" "reqs ?s' = reqs u"
    using u(2) by (simp_all add: upd_dev_def dev_mset_def)
  moreover have "unat (packet_addr ?base i) = heap + page - 108 + i * 12288"
      "unat (packet_addr ?base i) + 12288 \<le> unat (packets_end e ?base)"
      "poolid (pks u (packet_addr ?base i)) = 0" "parent (reqs u (req_s (packet_addr ?base i))) = packet_addr ?base i"
    if "i < unat LC_SERVER_NUM_PKTS" for i
    using that unat_packet [OF lay, of i] packets_end_bounds(2) [OF lay] u(3,4) by (simp_all add: N [symmetric])
  ultimately show ?thesis using packets_end_bounds [OF lay] by (auto simp: Let_def)
qed

theorem lci_dev_init_packets_witness:
  "\<exists>s'. lci_dev_init ex_env 0 (ex_base\<lparr>globals := pool_globals_init\<rparr>) = Inr s'
     \<and> 4096 dvd unat (curr_addr (lcg_dev s' 0))"
proof -
  let ?s = "ex_base\<lparr>globals := pool_globals_init\<rparr>"
  have "lc_pool_create (globals ?s) =
      Inr ((lc_pool_init pool_globals_init)\<lparr>lc_pool_nkey := 1\<rparr>, \<lparr>pl_key = 0, npools = 0, lpools = []\<rparr>)"
    using lc_pool_create_first by simp
  moreover have "worker_id ex_env < MAX_NPOOLS" by (simp add: ex_defs pool_consts)
  moreover have "device_layout ex_env 0 ?s 0x8000 4096" by (simp add: device_layout_def ex_defs)
  ultimately show ?thesis
    using lci_dev_init_packets [OF _ lc_pool_create_first_inv, of ?s ex_env 0 "0x8000" 4096] by blast
qed

text \<open>
  A progress call that finds nothing to do keeps the receive queue filled and
  loses no packet: below \<open>LC_SERVER_MAX_RCVS\<close> posted receives it takes at most one packet from
  the pool, posts it and counts it, or, if it found none, leaves everything but the alarm
  flag alone. The flag that makes senders back off is raised only below half of the posted
  receives and lowered only when the queue is full again.
\<close>

theorem lc_server_progress_idle:
  assumes "dev_pool_ok e d s" "recv_posted (lcg_dev s d) < LC_SERVER_MAX_RCVS"
  shows "\<exists>s'. lc_server_progress e d [] [] s = Inr (True, s') \<and> dev_pool_ok e d s' \<and>
    (dev_mset d s' = dev_mset d s \<and> recv_posted (lcg_dev s' d) = recv_posted (lcg_dev s d) \<and> log s' = log s
       \<and> lcg_deadlock s' = (lcg_deadlock s \<or> recv_posted (lcg_dev s d) < 32)
     \<or> (\<exists>p. dev_mset d s = add_mset p (dev_mset d s')
         \<and> recv_posted (lcg_dev s' d) = recv_posted (lcg_dev s d) + 1
         \<and> log s' = log s @ [Post_recv p (pk_data p) POST_MSG_SIZE (heap_lkey (lcg_dev s d))]
         \<and> lcg_deadlock s' = (lcg_deadlock s \<and> recv_posted (lcg_dev s d) + 1 \<noteq> 64)))"
proof -
  obtain p g pool where get: "lc_pool_get_nb (globals s) (sv_pkpool (lcg_dev s d)) (worker_id e) (rands s 0)
      = Inr (p, g, pool)" "pool_inv g pool" "pop_effect (sv_pkpool (lcg_dev s d)) p pool"
    using lc_pool_get_nb_ok assms(1) unfolding dev_pool_ok_def by blast
  let ?t = "(upd_dev d (\<lambda>v. v\<lparr>sv_pkpool := pool\<rparr>) s)\<lparr>globals := g, rands := (\<lambda>i. rands s (Suc i))\<rparr>"
  have t: "pool_get_nb e d s = Inr (p, ?t)" using get(1) by (simp add: pool_get_nb_def)
  have run: "lc_server_progress e d [] [] s = bind_res (ibv_post_recv e d p ?t) (\<lambda>s. Inr (True, s))"
    using assms(2) t by (simp add: lc_server_progress_def)
  show ?thesis
  proof (cases "p = NULL")
    case True
    then show ?thesis using run get assms(1)
      by (auto simp: ibv_post_recv_def LC_SERVER_MAX_RCVS_def upd_dev_def dev_pool_ok_def dev_mset_def
          pop_effect_def)
  next
    case False
    obtain pid g' pool' where l: "lc_pool_get_local g pool (worker_id e) = Inr (pid, g', pool')"
        "pool_inv g' pool'" "pool_mset pool' = pool_mset pool"
      using get_local_ok [OF get(2)] assms(1) unfolding dev_pool_ok_def by blast
    have "pool_get_local e d ?t = Inr (pid, (upd_dev d (\<lambda>v. v\<lparr>sv_pkpool := pool'\<rparr>) ?t)\<lparr>globals := g'\<rparr>)"
      using l(1) by (simp add: pool_get_local_def upd_dev_def)
    then show ?thesis using run get l assms(1) False
      by (auto simp: ibv_post_recv_def LC_SERVER_MAX_RCVS_def upd_dev_def upd_pk_def emit_def dev_pool_ok_def
          dev_mset_def pop_effect_def Let_def)
  qed
qed

theorem lc_server_progress_idle_witness:
  "\<exists>s'. lc_server_progress ex_env 0 [] [] ex_state = Inr (True, s') \<and> dev_pool_ok ex_env 0 s'"
proof -
  have "dev_pool_ok ex_env 0 ex_state" "recv_posted (lcg_dev ex_state 0) < LC_SERVER_MAX_RCVS"
    using lc_pool_create_first_inv by (simp_all add: dev_pool_ok_def ex_defs pool_consts LC_SERVER_MAX_RCVS_def)
  from lc_server_progress_idle [OF this] show ?thesis by blast
qed

text \<open>
  While the alarm flag is set, every call that needs a packet asks the caller to
  try again and changes nothing.
\<close>

theorem senders_back_off:
  assumes "get_ep s n = Inr ep" "lcg_deadlock s"
  shows "lc_sendm e src sz rank tag n s = Inr (LC_ERR_RETRY, s)
    \<and> lc_putm e src sz rank dst n s = Inr (LC_ERR_RETRY, s)
    \<and> lc_putms e src sz rank dst meta n s = Inr (LC_ERR_RETRY, s)
    \<and> lc_sendl e src sz rank tag n cb ce s = Inr (LC_ERR_RETRY, s)
    \<and> lc_putl e src sz rank dst n cb ce s = Inr (LC_ERR_RETRY, s)
    \<and> lc_putls e src sz rank dst meta n cb ce s = Inr (LC_ERR_RETRY, s)
    \<and> (LC_MAX_INLINE < sz \<longrightarrow> lc_send e src sz rank tag n cb ce s = Inr (LC_ERR_RETRY, s))"
  using assms by (auto simp: lc_sendm_def lc_putm_def lc_putms_def lc_sendl_def lc_putl_def lc_putls_def
      lc_send_def LC_POOL_GET_OR_RETN_def not_le)

theorem senders_back_off_witness:
  "lc_send ex_env 0x30000 5000 1 7 0 5 6 (ex_state\<lparr>lcg_deadlock := True\<rparr>)
     = Inr (LC_ERR_RETRY, ex_state\<lparr>lcg_deadlock := True\<rparr>)"
  using senders_back_off [of "ex_state\<lparr>lcg_deadlock := True\<rparr>" 0 ex_ep ex_env "0x30000" 5000 1 7 _ _ 5 6]
  by (simp add: get_ep_def ex_state_def LC_MAX_INLINE_def)

text \<open>
  A signal sent with a remote write reaches the completion of its endpoint only
  if bit 15 of its metadata is clear. With that bit set, the immediate data looks like the
  last step of a rendezvous, and the receiver completes whatever lies at the address that the
  endpoint number and the metadata happen to form.
\<close>

theorem put_signal_metadata:
  assumes "wc_rdma_with_imm wc" "wc_imm_data wc = MAKE_PROTO rgid LC_PROTO_LONG meta" "unat rgid < 2 ^ 14"
  shows "progress_recv e d wc s =
    (let s = upd_dev d (\<lambda>v. v\<lparr>recv_posted := recv_posted v - 1\<rparr>) s
     in if bit meta 15
        then bind_res (lci_serve_imm e (heap_ptr (lcg_dev s d) + ucast (wc_imm_data wc XOR IBV_IMM_RTR)) s)
               (pool_put e d (wc_wr_id wc))
        else lci_serve_recv_rdma e (wc_wr_id wc) (wc_imm_data wc)
               (upd_pk (wc_wr_id wc) (\<lambda>c. c\<lparr>pk_req := req_s (wc_wr_id wc)\<rparr>) s))"
proof -
  have "\<not> bit rgid 29" using bit_bounded [OF assms(3), of 29] by simp
  moreover have "\<not> bit LC_PROTO_LONG 31" using bit_bounded [of LC_PROTO_LONG 2 31] by simp
  ultimately have "bit (wc_imm_data wc) 31 \<longleftrightarrow> bit meta 15"
    by (simp add: assms(2) MAKE_PROTO_def bit_simps)
  moreover have "w AND IBV_IMM_RTR = (if bit w 31 then IBV_IMM_RTR else 0)" for w :: u32
    by (rule bit_word_eqI) (auto simp: bit_simps)
  then have "w AND IBV_IMM_RTR = 0 \<longleftrightarrow> \<not> bit w 31" for w :: u32 by (simp add: IBV_IMM_RTR_def)
  ultimately have "wc_imm_data wc AND IBV_IMM_RTR \<noteq> 0 \<longleftrightarrow> bit meta 15" by blast
  then show ?thesis using assms(1) by (simp add: progress_recv_def Let_def)
qed

theorem put_signal_metadata_witness:
  "progress_recv ex_env 0 \<lparr>wc_wr_id = 0x10000, wc_rdma_with_imm = True,
       wc_imm_data = MAKE_PROTO 0 LC_PROTO_LONG 0x8000, wc_qp_num = 0, wc_byte_len = 64\<rparr> ex_state
   = bind_res (lci_serve_imm ex_env (0x8000 + ucast (MAKE_PROTO 0 LC_PROTO_LONG 0x8000 XOR IBV_IMM_RTR))
         (upd_dev 0 (\<lambda>v. v\<lparr>recv_posted := - 1\<rparr>) ex_state))
       (pool_put ex_env 0 0x10000)"
  using put_signal_metadata [of "\<lparr>wc_wr_id = 0x10000, wc_rdma_with_imm = True,
       wc_imm_data = MAKE_PROTO 0 LC_PROTO_LONG 0x8000, wc_qp_num = 0, wc_byte_len = 64\<rparr>" 0 "0x8000" ex_env 0 ex_state]
  by (simp add: Let_def upd_dev_def ex_defs)

text \<open>
  The pool number of a packet is kept in eight signed bits. A packet posted by a
  core whose dequeue has number 128 or above (the pool has room for 272) comes back with a
  negative number, and returning it indexes before the array of dequeues.
\<close>

theorem poolid_truncated:
  assumes "pool_get_local e d s = Inr (pid, t)" "128 \<le> pid" "pid < 255" "p \<noteq> NULL"
  shows "\<exists>s'. ibv_post_recv e d p s = Inr s' \<and> lci_pk_free_data e ep p s' = Inl Out_of_bounds"
proof -
  have "take_bit 8 pid = pid" "take_bit 8 (int pid) = int pid" "int pid div 128 = 1"
    using assms(2,3) by (simp_all add: take_bit_nat_eq_self_iff take_bit_int_eq_self_iff)
  then have "sint (word_of_nat pid :: u8) = int pid - 256"
    by (simp add: sint_uint signed_take_bit_eq_take_bit_minus bit_iff_odd unsigned_of_nat)
  then show ?thesis using assms
    by (simp add: ibv_post_recv_def Let_def lci_pk_free_data_def upd_pk_def emit_def upd_dev_def)
qed

text \<open>A machine whose calling core is the 201st to use the pool of the device.\<close>

definition ex_many_cores :: lc_state where
  "ex_many_cores = ex_state\<lparr>
     globals := (globals ex_state)\<lparr>tls_pool_struct := (\<lambda>w k. if w = 3 then 200 else - 1)\<rparr>\<rparr>"

theorem poolid_truncated_witness:
  "\<exists>s'. ibv_post_recv ex_env 0 0x10000 ex_many_cores = Inr s'
     \<and> lci_pk_free_data ex_env ex_ep 0x10000 s' = Inl Out_of_bounds"
proof -
  have "\<exists>t. pool_get_local ex_env 0 ex_many_cores = Inr (200, t)"
    by (simp add: pool_get_local_def lc_pool_get_local_def tls_index_ok_def ex_many_cores_def ex_defs
        pool_consts Let_def)
  then show ?thesis using poolid_truncated [of ex_env 0 ex_many_cores 200 _ "0x10000" ex_ep] by auto
qed

end
