(* ===== verification/LC_Delivery.thy ===== *)
theory LC_Delivery
  imports LC_Progress
begin

text \<open>
  Medium messages from one process to another: what \<open>lc_sendm\<close> hands to the device, and that
  the bytes the sender passed end up in the buffer the receiver posted.
\<close>

section \<open>The sending side\<close>

lemma pool_get_nb_fields:
  "pool_get_nb e d s = Inr (p, t) \<Longrightarrow> mem t = mem s \<and> log t = log s \<and> lcg_ep t = lcg_ep s \<and> reqs t = reqs s"
  by (auto simp: pool_get_nb_def upd_dev_def)

lemma pk_init_medium_fields:
  "pk_init_medium e n ep sz p s = Inr t \<Longrightarrow> mem t = mem s \<and> log t = log s \<and> lcg_ep t = lcg_ep s"
  by (auto simp: pk_init_medium_def pool_get_local_def lci_pk_init_def upd_pk_def upd_dev_def split: if_splits)

lemma lc_sendm_OK:
  assumes "get_ep s n = Inr ep" "lc_sendm e src sz rank tag n s = Inr (LC_OK, s')"
  shows "\<exists>p h w. p \<noteq> NULL \<and> log s' = log s @ [Post_send h w] \<and> wr_id w = p \<and> sg_addr w = pk_data p
    \<and> sg_length w = ucast sz \<and> imm_data w = MAKE_PROTO (gid ep) LC_PROTO_DATA tag
    \<and> mem s' = memcpy (mem s) (pk_data p) src sz"
proof -
  obtain p t u and rep :: lci_rep where u: "pool_get_nb e (ep_server ep) s = Inr (p, t)" "p \<noteq> NULL"
      "pk_init_medium e n ep sz p t = Inr u"
      "s' = lc_server_sendm (ep_server ep) (rp_handle rep) sz p (MAKE_PROTO (gid ep) LC_PROTO_DATA tag)
         (u\<lparr>mem := memcpy (mem u) (pk_data p) src sz\<rparr>)"
    using assms by (auto simp: lc_sendm_def LC_POOL_GET_OR_RETN_def Let_def split: if_splits)
  then show ?thesis
    using pool_get_nb_fields [OF u(1)] pk_init_medium_fields [OF u(3)]
    by (auto simp: lc_server_sendm_def Let_def emit_def setup_wr_def)
qed

section \<open>The receiving side\<close>

text \<open>What the progress engine sets up before it serves a packet that carries data.\<close>

definition received :: "nat \<Rightarrow> ibv_wc \<Rightarrow> u32 \<Rightarrow> addr \<Rightarrow> lc_state \<Rightarrow> lc_state" where
  "received d wc rank h s =
     upd_req (req_s (wc_wr_id wc)) (\<lambda>r. r\<lparr>rq_rank := rank, rhandle := h, rq_size := ucast (wc_byte_len wc)\<rparr>)
       (upd_pk (wc_wr_id wc) (\<lambda>c. c\<lparr>pk_req := req_s (wc_wr_id wc)\<rparr>)
         (upd_dev d (\<lambda>v. v\<lparr>recv_posted := recv_posted v - 1\<rparr>) s))"

lemma received_set_tbl: "received d wc rank h (set_tbl n t s) = set_tbl n t (received d wc rank h s)"
  by (simp add: received_def set_tbl_upd)

lemma received_posted:
  "req_s (wc_wr_id wc) \<noteq> req \<Longrightarrow>
    received d wc rank h (posted src sz rep req s) = posted src sz rep req (received d wc rank h s)"
  by (simp add: received_def posted_def lci_init_req_def upd_defs fun_upd_twist)

lemma received_fields:
  "mem (received d wc rank h s) = mem s" "lcg_ep (received d wc rank h s) = lcg_ep s"
  "pk_req (pks (received d wc rank h s) (wc_wr_id wc)) = req_s (wc_wr_id wc)"
  "rq_rank (reqs (received d wc rank h s) (req_s (wc_wr_id wc))) = rank"
  "rq_size (reqs (received d wc rank h s) (req_s (wc_wr_id wc))) = ucast (wc_byte_len wc)"
  by (simp_all add: received_def upd_defs)

lemma can_free_received: "can_free e d s p \<Longrightarrow> can_free e d (received d' wc rank h s) p"
  by (simp add: received_def) (auto simp: can_free_def poolid_ok_def dev_pool_ok_def dev_mset_def upd_dev_def)

lemma exp_ep_received: "exp_ep e s n ep h \<Longrightarrow> exp_ep e (received d wc rank hq s) n ep h"
  by (simp add: exp_ep_def received_fields)

lemma progress_recv_data:
  assumes "\<not> wc_rdma_with_imm wc" "qp2rank (lcg_dev s d) (unat (wc_qp_num wc) mod qp2rank_mod (lcg_dev s d)) = r"
    "r < length (sv_qp (lcg_dev s d))"
  shows "progress_recv e d wc s = lci_serve_recv e (wc_wr_id wc) (wc_imm_data wc)
    (received d wc (word_of_nat r) (sv_qp (lcg_dev s d) ! r) s)"
  using assms by (simp add: progress_recv_def Let_def received_def upd_dev_def upd_pk_def)

section \<open>Properties\<close>

text \<open>
  Property C2. A medium message arrives intact. One process sends with \<open>lc_sendm\<close>; the device
  puts the bytes of its work request into a posted packet of the other process, which has
  called \<open>lc_recv\<close> for that rank and tag on the endpoint of the same number and now makes
  progress. Then the request is complete, its size is the size of the message, and the posted
  buffer holds the bytes of the sender's buffer.
\<close>

theorem message_delivered:
  assumes send: "get_ep a n = Inr epa" "lc_sendm ea src sz to tag n a = Inr (LC_OK, a1)"
      "last (log a1) = Post_send h1 w" "unat sz < 2 ^ 32"
    and recv: "exp_ep eb b n epb h" "gid epa = gid epb" "ep_rep_at epb from = Inr rep" "unat tag < 2 ^ 16"
      "waiting h CLIENT (lc_make_key from tag) = []" "waiting h SERVER (lc_make_key from tag) = []"
      "lc_recv eb dst z from tag n req b = Inr (st, b1)"
      "has_sync eb" "cap epb AND EP_CE_SYNC \<noteq> 0"
    and wire: "\<not> wc_rdma_with_imm wc" "wc_imm_data wc = imm_data w" "wc_byte_len wc = sg_length w"
      "read_bytes (mem b) (pk_data (wc_wr_id wc)) (unat (sg_length w)) = read_bytes (mem a1) (sg_addr w) (unat (sg_length w))"
    and dev: "qp2rank (lcg_dev b d) (unat (wc_qp_num wc) mod qp2rank_mod (lcg_dev b d)) = nat (sint from)"
      "nat (sint from) < length (sv_qp (lcg_dev b d))" "req_s (wc_wr_id wc) \<noteq> req"
      "can_free eb (ep_server epb) b (wc_wr_id wc)"
  shows "\<exists>b2. progress_recv eb d wc b1 = Inr b2 \<and> sync (reqs b2 req) = 1 \<and> rq_size (reqs b2 req) = sz
    \<and> read_bytes (mem b2) dst (unat sz) = read_bytes (mem a) src (unat sz)"
proof -
  obtain p where p: "sg_addr w = pk_data p" "sg_length w = ucast sz"
      "imm_data w = MAKE_PROTO (gid epb) LC_PROTO_DATA tag" "mem a1 = memcpy (mem a) (pk_data p) src sz"
    using lc_sendm_OK [OF send(1,2)] send(3) recv(2) by auto
  have z: "unat (sg_length w) = unat sz" "ucast (sg_length w) = sz"
    using send(4) p(2) by (simp_all add: unsigned_ucast_eq take_bit_nat_eq_self_iff word_unat_eq_iff)
  obtain h2 where i: "lc_hash_insert h (lc_make_key from tag) req CLIENT = (1, req, h2)" "hash_inv h2"
    using orders_meet [OF recv(1,3,4,5,6)] by metis
  have b1: "b1 = set_tbl n h2 (posted dst z rep req b)"
    using recv_hash [OF recv(1,3) i(1), of dst z] recv(7) by (simp add: Let_def)
  let ?hq = "sv_qp (lcg_dev b d) ! nat (sint from)" and ?m = "wc_wr_id wc"
  let ?c = "received d wc from ?hq b"
  have fr: "word_of_nat (nat (sint from)) = from"
    using recv(3) by (simp add: ep_rep_at_def split: if_splits)
  have "lcg_dev b1 = lcg_dev b" by (simp add: b1 posted_def lci_init_req_def upd_req_def)
  then have run: "progress_recv eb d wc b1 = lci_serve_recv eb ?m (wc_imm_data wc) (received d wc from ?hq b1)"
    using progress_recv_data [OF wire(1), of b1 d "nat (sint from)" eb] dev(1,2) fr by simp
  have c: "received d wc from ?hq b1 = set_tbl n h2 (posted dst z rep req ?c)"
    by (simp add: b1 received_set_tbl received_posted [OF dev(3)])
  note e = exp_ep_received [OF recv(1), of d wc "from" ?hq]
  have rc: "lc_recv eb dst z from tag n req ?c = Inr (LC_OK, set_tbl n h2 (posted dst z rep req ?c))"
    using recv_hash [OF e recv(3) i(1), of dst z] by (simp add: Let_def)
  have q: "rq_rank (reqs ?c (pk_req (pks ?c ?m))) = from" "pk_req (pks ?c ?m) \<noteq> req"
    using dev(3) by (simp_all add: received_fields)
  obtain b2 where "bind_res (lc_recv eb dst z from tag n req ?c)
        (\<lambda>(_, s). lci_serve_recv eb ?m (MAKE_PROTO (gid epb) LC_PROTO_DATA tag) s) = Inr b2"
      "sync (reqs b2 req) = 1" "rq_size (reqs b2 req) = rq_size (reqs ?c (pk_req (pks ?c ?m)))"
      "read_bytes (mem b2) dst (unat (rq_size (reqs b2 req))) = read_bytes (mem ?c) (pk_data ?m) (unat (rq_size (reqs b2 req)))"
    using recv_then_arrival [OF e recv(3,4,5,6) q recv(8,9) can_free_received [OF dev(4)],
        where src = dst and sz = z] by blast
  then show ?thesis
    using rc run c p wire z by (auto simp: received_fields memcpy_reads)
qed

lemma ex_sendm:
  obtains s a w h where "pool_put ex_env 0 0x10000 ex_state = Inr s" "get_ep s 0 = Inr ex_ep"
    "lc_sendm ex_env 0x30000 64 1 7 0 s = Inr (LC_OK, a)" "last (log a) = Post_send h w"
    "sg_addr w = pk_data 0x10000"
proof -
  obtain s t where s: "pool_put ex_env 0 0x10000 ex_state = Inr s" "pool_get_nb ex_env 0 s = Inr (0x10000, t)"
      "get_ep s 0 = Inr ex_ep" "get_ep t 0 = Inr ex_ep" "\<not> lcg_deadlock s"
    by (rule ex_one_packet)
  have "ep_server ex_ep = 0" by (simp add: ex_ep_def)
  then show ?thesis using s ex_rep_at that
    by (simp add: lc_sendm_def LC_POOL_GET_OR_RETN_def Let_def pk_init_medium_def lc_server_sendm_def emit_def
        setup_wr_def)
qed

theorem message_delivered_witness:
  "\<exists>s a1 b1 b2 w h wc. pool_put ex_env 0 0x10000 ex_state = Inr s
    \<and> lc_sendm ex_env 0x30000 64 1 7 0 s = Inr (LC_OK, a1) \<and> last (log a1) = Post_send h w
    \<and> lc_recv ex_env 0x40000 64 1 7 0 0x20000 (ex_state\<lparr>mem := mem a1\<rparr>) = Inr (LC_OK, b1)
    \<and> wc = \<lparr>wc_wr_id = 0x10000, wc_rdma_with_imm = False, wc_imm_data = imm_data w, wc_qp_num = 1,
             wc_byte_len = sg_length w\<rparr>
    \<and> progress_recv ex_env 0 wc b1 = Inr b2 \<and> sync (reqs b2 0x20000) = 1
    \<and> read_bytes (mem b2) 0x40000 64 = read_bytes (mem s) 0x30000 64"
proof -
  obtain s a w h where a: "pool_put ex_env 0 0x10000 ex_state = Inr s" "get_ep s 0 = Inr ex_ep"
    "lc_sendm ex_env 0x30000 64 1 7 0 s = Inr (LC_OK, a)" "last (log a) = Post_send h w"
    "sg_addr w = pk_data 0x10000"
    by (rule ex_sendm)
  let ?b = "ex_state\<lparr>mem := mem a\<rparr>"
  let ?wc = "\<lparr>wc_wr_id = 0x10000, wc_rdma_with_imm = False, wc_imm_data = imm_data w, wc_qp_num = 1,
             wc_byte_len = sg_length w\<rparr>"
  have e: "exp_ep ex_env ?b 0 ex_ep lc_hash_create" using ex_exp_ep by (simp add: exp_ep_def)
  have f: "can_free ex_env (ep_server ex_ep) ?b (wc_wr_id ?wc)" using ex_can_free by simp
  obtain h1 where i: "lc_hash_insert lc_hash_create (lc_make_key 1 7) 0x20000 CLIENT = (1, 0x20000, h1)"
    by (rule orders_meet [OF e ex_rep_at, of 7 "0x20000" "0x10000"]) auto
  obtain b1 where b1: "lc_recv ex_env 0x40000 64 1 7 0 0x20000 ?b = Inr (LC_OK, b1)"
    using recv_hash [OF e ex_rep_at i] by (simp add: Let_def)
  have d: "has_sync ex_env" "cap ex_ep AND EP_CE_SYNC \<noteq> 0"
      "qp2rank (lcg_dev ?b 0) (unat (wc_qp_num ?wc) mod qp2rank_mod (lcg_dev ?b 0)) = nat (sint (1 :: u32))"
      "nat (sint (1 :: u32)) < length (sv_qp (lcg_dev ?b 0))" "req_s (wc_wr_id ?wc) \<noteq> 0x20000"
    by (simp_all add: ex_defs ep_flag_defs req_s_def)
  obtain b2 where "progress_recv ex_env 0 ?wc b1 = Inr b2" "sync (reqs b2 0x20000) = 1"
      "read_bytes (mem b2) 0x40000 64 = read_bytes (mem s) 0x30000 64"
    using message_delivered [OF a(2,3,4) _ e refl ex_rep_at _ _ _ b1 d(1,2) _ _ _ _ d(3,4,5) f] a(5) by auto
  then show ?thesis using a b1 by blast
qed

text \<open>
  Property C40. \<open>lc_send\<close> takes the medium protocol for messages of up to \<open>LC_PACKET_SIZE\<close>
  bytes, but a packet has room for \<open>SHORT_MSG_SIZE\<close>: the copy of a larger message ends in the
  next packet of the device, whose first byte is overwritten with user data.
\<close>

theorem lc_send_medium_overflow:
  assumes "get_ep s n = Inr ep" "lc_send e src sz rank tag n cb ce s = Inr (LC_OK, s')"
    "SHORT_MSG_SIZE < sz" "sz \<le> LC_PACKET_SIZE"
  shows "\<exists>p h w. Post_send h w \<in> set (log s') \<and> wr_id w = p \<and> p \<noteq> NULL
    \<and> mem s' (p + LC_PACKET_SIZE) = mem s (src + SHORT_MSG_SIZE)"
proof -
  have "\<not> sz \<le> LC_MAX_INLINE" using assms(3) by (simp add: size_defs word_le_nat_alt word_less_nat_alt)
  then obtain t where t: "lc_sendm e src sz rank tag n s = Inr (LC_OK, t)" "s' = emit (Call_cb cb ce) t"
    using assms(2,4) by (auto simp: lc_send_def)
  obtain p h w where p: "p \<noteq> NULL" "log t = log s @ [Post_send h w]" "wr_id w = p"
      "mem t = memcpy (mem s) (pk_data p) src sz"
    using lc_sendm_OK [OF assms(1) t(1)] by blast
  have d: "p + LC_PACKET_SIZE - pk_data p = SHORT_MSG_SIZE"
    by (simp add: pk_data_def SHORT_MSG_SIZE_def)
  have "mem t (p + LC_PACKET_SIZE) = mem s (src + SHORT_MSG_SIZE)"
    using assms(3) by (simp add: p(4) memcpy_def write_bytes_def d read_bytes_nth word_less_nat_alt)
  then show ?thesis using p t(2) by (auto simp: emit_def)
qed

theorem lc_send_medium_overflow_witness:
  "\<exists>s s' p. pool_put ex_env 0 0x10000 ex_state = Inr s
    \<and> lc_send ex_env 0x30000 12200 1 7 0 5 6 s = Inr (LC_OK, s')
    \<and> mem s' (p + LC_PACKET_SIZE) = mem s (0x30000 + SHORT_MSG_SIZE)"
proof -
  obtain s t where s: "pool_put ex_env 0 0x10000 ex_state = Inr s" "pool_get_nb ex_env 0 s = Inr (0x10000, t)"
      "get_ep s 0 = Inr ex_ep" "get_ep t 0 = Inr ex_ep" "\<not> lcg_deadlock s" "dev_pool_ok ex_env 0 t"
    by (rule ex_one_packet)
  obtain pid u where u: "pool_get_local ex_env 0 t = Inr (pid, u)"
    using get_local_ok s(6) unfolding dev_pool_ok_def pool_get_local_def by fastforce
  have "ep_server ex_ep = 0" by (simp add: ex_ep_def)
  then have "\<exists>s'. lc_send ex_env 0x30000 12200 1 7 0 5 6 s = Inr (LC_OK, s')" using s u ex_rep_at
    by (simp add: lc_send_def lc_sendm_def LC_POOL_GET_OR_RETN_def Let_def pk_init_medium_def size_defs)
  then show ?thesis
    using lc_send_medium_overflow [OF s(3), of ex_env "0x30000" 12200 1 7 5 6] s(1)
    by (force simp: size_defs)
qed

end
