(* ===== verification/LC_Strings.thy ===== *)
theory LC_Strings
  imports LC_Prelude
begin

text \<open>
  Decimal numbers as \<open>sprintf\<close> writes and \<open>sscanf\<close> reads them, for the names the processes
  exchange at start-up.
\<close>

section \<open>Writing\<close>

definition digit :: "nat \<Rightarrow> char" where
  "digit d = char_of (48 + d)"

text \<open>\<open>%u\<close> and \<open>%llu\<close>.\<close>

fun dec :: "nat \<Rightarrow> string" where
  "dec n = (if n < 10 then [digit n] else dec (n div 10) @ [digit (n mod 10)])"

declare dec.simps [simp del]

text \<open>\<open>%d\<close>.\<close>

definition sdec :: "int \<Rightarrow> string" where
  "sdec z = (if z < 0 then CHR ''-'' # dec (nat (- z)) else dec (nat z))"

section \<open>Reading\<close>

definition is_digit :: "char \<Rightarrow> bool" where
  "is_digit c \<longleftrightarrow> 48 \<le> (of_char c :: nat) \<and> (of_char c :: nat) \<le> 57"

definition digit_val :: "char \<Rightarrow> nat" where
  "digit_val c = of_char c - 48"

definition undec :: "string \<Rightarrow> nat" where
  "undec ds = foldl (\<lambda>n c. 10 * n + digit_val c) 0 ds"

text \<open>
  A conversion reads as many digits as there are and fails when there is none; the result is
  the value and the rest of the input.
\<close>

definition scan_nat :: "string \<Rightarrow> (nat \<times> string) option" where
  "scan_nat s = (let ds = takeWhile is_digit s
     in if ds = [] then None else Some (undec ds, dropWhile is_digit s))"

definition scan_int :: "string \<Rightarrow> (int \<times> string) option" where
  "scan_int s = (case s of
       [] \<Rightarrow> None
     | c # cs \<Rightarrow> if c = CHR ''-'' then map_option (\<lambda>(n, r). (- int n, r)) (scan_nat cs)
                 else map_option (\<lambda>(n, r). (int n, r)) (scan_nat s))"

definition scan_char :: "char \<Rightarrow> string \<Rightarrow> string option" where
  "scan_char c s = (case s of [] \<Rightarrow> None | x # xs \<Rightarrow> if x = c then Some xs else None)"

section \<open>Reading back what was written\<close>

lemma of_char_digit: "d < 10 \<Longrightarrow> of_char (digit d) = (48 + d :: nat)"
  by (simp add: digit_def)

lemma digit_simps [simp]: "d < 10 \<Longrightarrow> is_digit (digit d)" "d < 10 \<Longrightarrow> digit_val (digit d) = d"
  by (simp_all add: is_digit_def digit_val_def of_char_digit)

lemma dec_digits: "list_all is_digit (dec n)"
proof (induction n rule: dec.induct)
  case (1 n)
  then show ?case by (subst dec.simps) (simp add: list_all_append)
qed

lemma dec_not_Nil [simp]: "dec n \<noteq> []"
  by (subst dec.simps) simp

lemma undec_snoc: "undec (ds @ [c]) = 10 * undec ds + digit_val c"
  by (simp add: undec_def)

lemma undec_dec [simp]: "undec (dec n) = n"
proof (induction n rule: dec.induct)
  case (1 n)
  show ?case
  proof (cases "n < 10")
    case True
    then show ?thesis by (subst dec.simps) (simp add: undec_def)
  next
    case False
    then show ?thesis using 1 by (subst dec.simps) (simp add: undec_snoc)
  qed
qed

text \<open>What may follow a number without becoming part of it.\<close>

definition no_digit :: "string \<Rightarrow> bool" where
  "no_digit r \<longleftrightarrow> (case r of [] \<Rightarrow> True | c # _ \<Rightarrow> \<not> is_digit c)"

lemma scan_nat_dec [simp]:
  assumes "no_digit r"
  shows "scan_nat (dec n @ r) = Some (n, r)"
proof -
  have "takeWhile is_digit (dec n @ r) = dec n" "dropWhile is_digit (dec n @ r) = r"
    using assms dec_digits [of n]
    by (auto simp: takeWhile_append dropWhile_append list_all_iff no_digit_def split: list.splits)
  then show ?thesis by (simp add: scan_nat_def)
qed

lemma dash_not_digit [simp]: "\<not> is_digit CHR ''-''"
  by (simp add: is_digit_def)

lemma dec_first: "dec n = c # cs \<Longrightarrow> c \<noteq> CHR ''-''"
  using dec_digits [of n] by auto

lemma scan_int_sdec [simp]:
  assumes "no_digit r"
  shows "scan_int (sdec z @ r) = Some (z, r)"
proof (cases "z < 0")
  case True
  then show ?thesis using assms by (simp add: sdec_def scan_int_def)
next
  case False
  obtain c cs where c: "dec (nat z) = c # cs" by (cases "dec (nat z)") auto
  then have "c \<noteq> CHR ''-''" by (rule dec_first)
  then show ?thesis using assms False scan_nat_dec [OF assms, of "nat z"] c by (simp add: sdec_def scan_int_def)
qed

lemma scan_char_Cons [simp]: "scan_char c (c # s) = Some s"
  by (simp add: scan_char_def)

end
