(* ===== verification/LC_Ibv_Init.thy ===== *)
theory LC_Ibv_Init
  imports LC_Ibv LC_Strings
begin

text \<open>
  The start of the InfiniBand device: \<open>lc_server_init\<close> of \<open>src/include/server/server_ibv.h\<close>
  with the queue-pair functions of \<open>server_ibv_helper.h\<close> and the key names of \<open>src/pm.c\<close>. What
  the verbs library answers is a record of the device; what the other processes have published
  is a function from keys to values.
\<close>

section \<open>Model\<close>

text \<open>Queue pairs: address, number, and the inline size the library grants.\<close>

record ibv_qp =
  qp_addr :: addr
  qp_num :: u32
  qp_max_inline :: u64

record ibv_device =
  num_devices :: int
  open_device_ok :: bool
  query_device_rc :: int
  query_port_rc :: "nat \<Rightarrow> int"
  port_lid :: u16
  active_mtu :: nat
  alloc_pd_ok :: bool
  create_srq_ok :: bool
  create_cq_ok :: bool
  heap_mr :: "(addr \<times> u32 \<times> u32) option"   \<comment> \<open>address, lkey, rkey of the registered heap\<close>
  create_qp :: "nat \<Rightarrow> ibv_qp option"
  modify_qp_rc :: "addr \<Rightarrow> nat \<Rightarrow> int"        \<comment> \<open>by queue pair and target state\<close>

record conn_ctx =
  cc_addr :: u64
  cc_rkey :: u32
  cc_qp_num :: u32
  cc_lid :: u16

text \<open>The attributes handed to \<open>ibv_modify_qp\<close>, as far as they are set.\<close>

datatype qp_state = IBV_QPS_INIT | IBV_QPS_RTR | IBV_QPS_RTS

fun qps_code :: "qp_state \<Rightarrow> nat" where
  "qps_code IBV_QPS_INIT = 1"
| "qps_code IBV_QPS_RTR = 2"
| "qps_code IBV_QPS_RTS = 3"

record qp_attr =
  qa_state :: qp_state
  qa_port :: nat
  qa_mtu :: nat
  qa_dest_qp_num :: u32
  qa_dlid :: u16
  qa_max_rd_atomic :: nat
  qa_min_rnr_timer :: nat
  qa_timeout :: nat
  qa_retry_cnt :: nat
  qa_rnr_retry :: nat

definition qp_attr_zero :: "qp_state \<Rightarrow> qp_attr" where
  "qp_attr_zero st = \<lparr>qa_state = st, qa_port = 0, qa_mtu = 0, qa_dest_qp_num = 0, qa_dlid = 0,
     qa_max_rd_atomic = 0, qa_min_rnr_timer = 0, qa_timeout = 0, qa_retry_cnt = 0, qa_rnr_retry = 0\<rparr>"

text \<open>A failing \<open>ibv_modify_qp\<close> ends the process; otherwise the applied attributes are recorded.\<close>

definition modify_qp :: "ibv_device \<Rightarrow> addr \<Rightarrow> qp_attr \<Rightarrow> (addr \<times> qp_attr) list \<Rightarrow> (addr \<times> qp_attr) list res" where
  "modify_qp dv q attr l =
     (if modify_qp_rc dv q (qps_code (qa_state attr)) \<noteq> 0 then Inl Exit_failure else Inr (l @ [(q, attr)]))"

definition qp_create :: "ibv_device \<Rightarrow> nat \<Rightarrow> (ibv_qp \<times> u64) res" where
  "qp_create dv i =
     (case create_qp dv i of
        None \<Rightarrow> Inl Exit_failure
      | Some q \<Rightarrow> Inr (q, if qp_max_inline q < LC_MAX_INLINE then qp_max_inline q else LC_MAX_INLINE))"

definition qp_init :: "ibv_device \<Rightarrow> addr \<Rightarrow> nat \<Rightarrow> (addr \<times> qp_attr) list \<Rightarrow> (addr \<times> qp_attr) list res" where
  "qp_init dv q port l = modify_qp dv q ((qp_attr_zero IBV_QPS_INIT)\<lparr>qa_port := port\<rparr>) l"

definition qp_to_rtr ::
    "ibv_device \<Rightarrow> addr \<Rightarrow> nat \<Rightarrow> conn_ctx \<Rightarrow> (addr \<times> qp_attr) list \<Rightarrow> (addr \<times> qp_attr) list res" where
  "qp_to_rtr dv q port rctx l =
     modify_qp dv q ((qp_attr_zero IBV_QPS_RTR)\<lparr>qa_mtu := active_mtu dv, qa_dest_qp_num := cc_qp_num rctx,
        qa_max_rd_atomic := 1, qa_min_rnr_timer := 12, qa_dlid := cc_lid rctx, qa_port := port\<rparr>) l"

definition qp_to_rts :: "ibv_device \<Rightarrow> addr \<Rightarrow> (addr \<times> qp_attr) list \<Rightarrow> (addr \<times> qp_attr) list res" where
  "qp_to_rts dv q l =
     modify_qp dv q ((qp_attr_zero IBV_QPS_RTS)\<lparr>qa_timeout := 0x12, qa_retry_cnt := 7, qa_rnr_retry := 7,
        qa_max_rd_atomic := 1\<rparr>) l"

text \<open>The name of an endpoint, \<open>%llu-%d-%d-%d\<close>, and reading it back.\<close>

definition ep_name :: "conn_ctx \<Rightarrow> string" where
  "ep_name c = dec (unat (cc_addr c)) @ CHR ''-'' # sdec (sint (cc_rkey c)) @ CHR ''-''
     # sdec (sint (cc_qp_num c)) @ CHR ''-'' # sdec (uint (cc_lid c))"

definition scan_ep_name :: "string \<Rightarrow> conn_ctx option" where
  "scan_ep_name s =
     Option.bind (scan_nat s) (\<lambda>(a, s). Option.bind (scan_char CHR ''-'' s) (\<lambda>s.
     Option.bind (scan_int s) (\<lambda>(r, s). Option.bind (scan_char CHR ''-'' s) (\<lambda>s.
     Option.bind (scan_int s) (\<lambda>(q, s). Option.bind (scan_char CHR ''-'' s) (\<lambda>s.
     Option.bind (scan_int s) (\<lambda>(l, s).
       Some \<lparr>cc_addr = word_of_nat a, cc_rkey = word_of_int r, cc_qp_num = word_of_int q,
             cc_lid = word_of_int l\<rparr>)))))))"

text \<open>The keys of \<open>src/pm.c\<close>, \<open>_LC_KEY_%d_%d\<close>, published under rank and connection number.\<close>

definition lc_pm_key :: "nat \<Rightarrow> nat \<Rightarrow> string" where
  "lc_pm_key rank g = ''_LC_KEY_'' @ dec rank @ CHR ''_'' # dec g"

definition conn_id :: "nat \<Rightarrow> nat \<Rightarrow> nat" where
  "conn_id sid i = push_bit 8 sid OR i"

text \<open>The loop that looks for a port.\<close>

fun find_port :: "ibv_device \<Rightarrow> nat list \<Rightarrow> nat option" where
  "find_port dv [] = None"
| "find_port dv (p # ps) = (if query_port_rc dv p = 0 then Some p else find_port dv ps)"

text \<open>
  The search for a modulus under which all queue-pair numbers differ: \<open>fill_mod\<close> is the loop
  over the queue pairs with the flags \<open>b\<close>, \<open>find_mod\<close> the loop over \<open>j\<close>.
\<close>

fun fill_mod :: "nat \<Rightarrow> nat list \<Rightarrow> bool list \<Rightarrow> bool" where
  "fill_mod j [] b = True"
| "fill_mod j (q # qs) b = (if b ! (q mod j) then False else fill_mod j qs (b[q mod j := True]))"

fun find_mod :: "nat \<Rightarrow> nat \<Rightarrow> nat list \<Rightarrow> nat res" where
  "find_mod 0 j qs = Inl Out_of_fuel"
| "find_mod (Suc fuel) j qs =
     (if fill_mod j qs (replicate j False) then Inr j else find_mod fuel (Suc j) qs)"

fun fill_rank :: "nat \<Rightarrow> nat \<Rightarrow> nat list \<Rightarrow> (nat \<Rightarrow> nat) \<Rightarrow> nat \<Rightarrow> nat" where
  "fill_rank j i [] b = b"
| "fill_rank j i (q # qs) b = fill_rank j (Suc i) qs (b(q mod j := i))"

text \<open>
  The two loops over the processes: creating and publishing one queue pair per process, then
  connecting each of them to its peer.
\<close>

record init_state =
  is_qps :: "ibv_qp list"
  is_inline :: u64
  is_published :: "(string \<times> string) list"
  is_modified :: "(addr \<times> qp_attr) list"
  is_reps :: "lci_rep list"

fun create_qps ::
    "ibv_device \<Rightarrow> nat \<Rightarrow> nat \<Rightarrow> nat \<Rightarrow> addr \<Rightarrow> u32 \<Rightarrow> nat list \<Rightarrow> init_state \<Rightarrow> init_state res" where
  "create_qps dv port rank sid heap rkey [] st = Inr st"
| "create_qps dv port rank sid heap rkey (i # is) st =
     bind_res (qp_create dv i) (\<lambda>(q, inl).
     bind_res (qp_init dv (qp_addr q) port (is_modified st)) (\<lambda>l.
       let lctx = \<lparr>cc_addr = heap, cc_rkey = rkey, cc_qp_num = qp_num q, cc_lid = port_lid dv\<rparr>
       in create_qps dv port rank sid heap rkey is
            (st\<lparr>is_qps := is_qps st @ [q], is_inline := inl, is_modified := l,
               is_published := is_published st @ [(lc_pm_key rank (conn_id sid i), ep_name lctx)]\<rparr>)))"

fun connect_qps ::
    "ibv_device \<Rightarrow> nat \<Rightarrow> nat \<Rightarrow> nat \<Rightarrow> (string \<Rightarrow> string) \<Rightarrow> nat list \<Rightarrow> init_state \<Rightarrow> init_state res" where
  "connect_qps dv port rank sid kvs [] st = Inr st"
| "connect_qps dv port rank sid kvs (i # is) st =
     (case scan_ep_name (kvs (lc_pm_key i (conn_id sid rank))) of
        None \<Rightarrow> Inl Uninitialised
      | Some rctx \<Rightarrow>
          bind_res (qp_to_rtr dv (qp_addr (is_qps st ! i)) port rctx (is_modified st)) (\<lambda>l.
          bind_res (qp_to_rts dv (qp_addr (is_qps st ! i)) l) (\<lambda>l.
            connect_qps dv port rank sid kvs is
              (st\<lparr>is_modified := l,
                 is_reps := is_reps st @ [\<lparr>rp_handle = qp_addr (is_qps st ! i), rp_rank = word_of_nat i,
                   rp_base = cc_addr rctx, rp_rkey = cc_rkey rctx\<rparr>]\<rparr>))))"

definition lc_server_init ::
    "lc_env \<Rightarrow> ibv_device \<Rightarrow> nat \<Rightarrow> nat \<Rightarrow> (string \<Rightarrow> string) \<Rightarrow> nat \<Rightarrow> lc_pool \<Rightarrow> (lc_server \<times> init_state) res" where
  "lc_server_init e dv sid rank kvs fuel pool =
     (if num_devices dv \<le> 0 then Inl Exit_failure
      else if \<not> open_device_ok dv then Inl Exit_failure
      else if query_device_rc dv \<noteq> 0 then Inl Exit_failure
      else case find_port dv [0..<128] of
        None \<Rightarrow> Inl Exit_failure
      | Some port \<Rightarrow>
          if \<not> alloc_pd_ok dv then Inl Exit_failure
          else if \<not> create_srq_ok dv then Inl Exit_failure
          else if \<not> create_cq_ok dv then Inl Exit_failure
          else (case heap_mr dv of
            None \<Rightarrow> Inl Null_deref  \<comment> \<open>\<open>s->heap->addr\<close> is read before the check of \<open>s->heap\<close>\<close>
          | Some (heap, lkey, rkey) \<Rightarrow>
              bind_res (create_qps dv port rank sid heap rkey [0..<lcg_size e]
                 \<lparr>is_qps = [], is_inline = 0, is_published = [], is_modified = [], is_reps = []\<rparr>) (\<lambda>st.
              bind_res (connect_qps dv port rank sid kvs [0..<lcg_size e] st) (\<lambda>st.
                let qs = map (\<lambda>q. unat (qp_num q)) (is_qps st)
                in bind_res (find_mod fuel (lcg_size e) qs) (\<lambda>j.
                   Inr (\<lparr>sv_rep = is_reps st, sv_qp = map qp_addr (is_qps st), sv_pkpool = pool,
                         curr_addr = 0, sv_id = sid, qp2rank = fill_rank j 0 qs (\<lambda>_. 0), qp2rank_mod = j,
                         heap_ptr = heap, heap_lkey = lkey, recv_posted = 0, max_inline = is_inline st\<rparr>, st))))))"

section \<open>The modulus\<close>

lemma fill_mod_iff:
  "0 < j \<Longrightarrow> length b = j \<Longrightarrow>
    fill_mod j qs b \<longleftrightarrow> distinct (map (\<lambda>q. q mod j) qs) \<and> (\<forall>q \<in> set qs. \<not> b ! (q mod j))"
  by (induction j qs b rule: fill_mod.induct) (auto simp: nth_list_update)

lemma find_mod_ok:
  assumes "distinct qs" "\<forall>q \<in> set qs. q < m" "0 < j" "j \<le> m" "m < fuel + j"
  shows "\<exists>j'. find_mod fuel j qs = Inr j' \<and> 0 < j' \<and> distinct (map (\<lambda>q. q mod j') qs)"
  using assms(3-)
proof (induction fuel arbitrary: j)
  case 0
  then show ?case by simp
next
  case (Suc fuel)
  show ?case
  proof (cases "fill_mod j qs (replicate j False)")
    case True
    then show ?thesis using Suc.prems by (simp add: fill_mod_iff)
  next
    case False
    have "distinct (map (\<lambda>q. q mod m) qs)"
      using assms(1,2) by (simp add: distinct_map inj_on_def)
    then have "j \<noteq> m" using False Suc.prems by (auto simp: fill_mod_iff)
    then show ?thesis using False Suc by simp
  qed
qed

lemma fill_rank_other: "k \<notin> (\<lambda>q. q mod j) ` set qs \<Longrightarrow> fill_rank j i qs b k = b k"
  by (induction j i qs b rule: fill_rank.induct) auto

lemma fill_rank_nth:
  "distinct (map (\<lambda>q. q mod j) qs) \<Longrightarrow> n < length qs \<Longrightarrow> fill_rank j i qs b (qs ! n mod j) = i + n"
proof (induction qs arbitrary: n i b)
  case Nil
  then show ?case by simp
next
  case (Cons q qs)
  then show ?case by (cases n) (simp_all add: fill_rank_other)
qed

section \<open>Connections\<close>

lemma ep_name_scan: "scan_ep_name (ep_name c) = Some c"
proof -
  have d: "no_digit (CHR ''-'' # r)" "no_digit []" for r by (simp_all add: no_digit_def)
  show ?thesis
    using scan_int_sdec [OF d(2)] by (simp add: scan_ep_name_def ep_name_def d)
qed

lemma create_qps_ok:
  "create_qps dv port rank sid heap rkey js st = Inr st' \<Longrightarrow>
    \<exists>qs. length qs = length js \<and> (\<forall>k < length js. create_qp dv (js ! k) = Some (qs ! k))
      \<and> is_qps st' = is_qps st @ qs \<and> is_reps st' = is_reps st
      \<and> is_published st' = is_published st @ map (\<lambda>(i, q). (lc_pm_key rank (conn_id sid i),
          ep_name \<lparr>cc_addr = heap, cc_rkey = rkey, cc_qp_num = qp_num q, cc_lid = port_lid dv\<rparr>)) (zip js qs)"
proof (induction js arbitrary: st)
  case Nil
  then show ?case by simp
next
  case (Cons i js)
  obtain q l where q: "create_qp dv i = Some q"
    and r: "create_qps dv port rank sid heap rkey js
      (st\<lparr>is_qps := is_qps st @ [q],
          is_inline := (if qp_max_inline q < LC_MAX_INLINE then qp_max_inline q else LC_MAX_INLINE),
          is_modified := l,
          is_published := is_published st @ [(lc_pm_key rank (conn_id sid i),
            ep_name \<lparr>cc_addr = heap, cc_rkey = rkey, cc_qp_num = qp_num q, cc_lid = port_lid dv\<rparr>)]\<rparr>) = Inr st'"
    using Cons.prems by (auto simp: qp_create_def Let_def split: option.splits)
  from Cons.IH [OF r] obtain qs where "length qs = length js" "\<forall>k < length js. create_qp dv (js ! k) = Some (qs ! k)"
      "is_qps st' = is_qps st @ q # qs" "is_reps st' = is_reps st"
      "is_published st' = is_published st @ (lc_pm_key rank (conn_id sid i),
            ep_name \<lparr>cc_addr = heap, cc_rkey = rkey, cc_qp_num = qp_num q, cc_lid = port_lid dv\<rparr>) #
        map (\<lambda>(i, q). (lc_pm_key rank (conn_id sid i),
          ep_name \<lparr>cc_addr = heap, cc_rkey = rkey, cc_qp_num = qp_num q, cc_lid = port_lid dv\<rparr>)) (zip js qs)"
    by auto
  then show ?case using q by (intro exI [of _ "q # qs"]) (auto simp: nth_Cons split: nat.splits)
qed

lemma connect_qps_ok:
  "connect_qps dv port rank sid kvs js st = Inr st' \<Longrightarrow>
    \<forall>i \<in> set js. kvs (lc_pm_key i (conn_id sid rank)) = ep_name (c i) \<Longrightarrow>
    is_qps st' = is_qps st \<and> is_published st' = is_published st
    \<and> is_reps st' = is_reps st @ map (\<lambda>i. \<lparr>rp_handle = qp_addr (is_qps st ! i), rp_rank = word_of_nat i,
         rp_base = cc_addr (c i), rp_rkey = cc_rkey (c i)\<rparr>) js
    \<and> (\<forall>i \<in> set js. \<exists>a. (qp_addr (is_qps st ! i), a) \<in> set (is_modified st')
         \<and> qa_state a = IBV_QPS_RTR \<and> qa_dest_qp_num a = cc_qp_num (c i) \<and> qa_dlid a = cc_lid (c i))
    \<and> set (is_modified st) \<subseteq> set (is_modified st')"
proof (induction js arbitrary: st)
  case Nil
  then show ?case by simp
next
  case (Cons i js)
  let ?q = "qp_addr (is_qps st ! i)"
  obtain l l' where l: "qp_to_rtr dv ?q port (c i) (is_modified st) = Inr l" "qp_to_rts dv ?q l = Inr l'"
    and r: "connect_qps dv port rank sid kvs js (st\<lparr>is_modified := l', is_reps := is_reps st @
        [\<lparr>rp_handle = ?q, rp_rank = word_of_nat i, rp_base = cc_addr (c i), rp_rkey = cc_rkey (c i)\<rparr>]\<rparr>) = Inr st'"
    using Cons.prems by (auto simp: ep_name_scan split: option.splits)
  have m: "\<exists>a. (?q, a) \<in> set l' \<and> qa_state a = IBV_QPS_RTR \<and> qa_dest_qp_num a = cc_qp_num (c i) \<and> qa_dlid a = cc_lid (c i)"
      "set (is_modified st) \<subseteq> set l'"
    using l by (auto simp: qp_to_rtr_def qp_to_rts_def modify_qp_def qp_attr_zero_def split: if_splits)
  show ?case using Cons.IH [OF r] Cons.prems(2) m by fastforce
qed

lemma server_connected:
  assumes init: "lc_server_init e dv sid rank kvs fuel pool = Inr (sv, st)"
    and others: "\<forall>i < lcg_size e. kvs (lc_pm_key i (conn_id sid rank)) = ep_name (c i)" and i: "i < lcg_size e"
  shows "\<exists>q heap lkey rkey. create_qp dv i = Some q \<and> heap_mr dv = Some (heap, lkey, rkey)
    \<and> sv_qp sv ! i = qp_addr q \<and> heap_ptr sv = heap
    \<and> sv_rep sv ! i = \<lparr>rp_handle = qp_addr q, rp_rank = word_of_nat i, rp_base = cc_addr (c i), rp_rkey = cc_rkey (c i)\<rparr>
    \<and> (\<exists>a. (qp_addr q, a) \<in> set (is_modified st) \<and> qa_state a = IBV_QPS_RTR
         \<and> qa_dest_qp_num a = cc_qp_num (c i) \<and> qa_dlid a = cc_lid (c i))
    \<and> (lc_pm_key rank (conn_id sid i),
        ep_name \<lparr>cc_addr = heap, cc_rkey = rkey, cc_qp_num = qp_num q, cc_lid = port_lid dv\<rparr>) \<in> set (is_published st)"
proof -
  obtain heap lkey rkey port st0 where h: "heap_mr dv = Some (heap, lkey, rkey)"
    and c1: "create_qps dv port rank sid heap rkey [0..<lcg_size e]
      \<lparr>is_qps = [], is_inline = 0, is_published = [], is_modified = [], is_reps = []\<rparr> = Inr st0"
    and c2: "connect_qps dv port rank sid kvs [0..<lcg_size e] st0 = Inr st"
    and sv: "sv_rep sv = is_reps st" "sv_qp sv = map qp_addr (is_qps st)" "heap_ptr sv = heap"
    using init by (auto simp: lc_server_init_def Let_def split: if_splits option.splits)
  obtain qs where q: "length qs = lcg_size e" "\<forall>k < lcg_size e. create_qp dv k = Some (qs ! k)"
      "is_qps st0 = qs" "is_reps st0 = []"
      "is_published st0 = map (\<lambda>(i, q). (lc_pm_key rank (conn_id sid i),
          ep_name \<lparr>cc_addr = heap, cc_rkey = rkey, cc_qp_num = qp_num q, cc_lid = port_lid dv\<rparr>)) (zip [0..<lcg_size e] qs)"
    using create_qps_ok [OF c1] by auto
  have "(i, qs ! i) \<in> set (zip [0..<lcg_size e] qs)" using i q(1) by (force simp: set_zip)
  then show ?thesis
    using connect_qps_ok [OF c2, where c = c] others i h sv q by (auto simp: image_iff intro!: bexI)
qed

section \<open>Properties\<close>

text \<open>
  Property C25. The map from queue pairs to ranks is built and right: for distinct queue-pair
  numbers the search for a modulus ends, no later than one above the largest number, and the
  number of the \<open>i\<close>-th queue pair then leads to rank \<open>i\<close>.
\<close>

theorem qp2rank_correct:
  assumes "distinct qs" "qs \<noteq> []" "Max (set qs) + 2 \<le> fuel + length qs" "n < length qs"
  shows "\<exists>j. find_mod fuel (length qs) qs = Inr j \<and> 0 < j \<and> fill_rank j 0 qs (\<lambda>_. 0) (qs ! n mod j) = n"
proof -
  have m: "\<forall>q \<in> set qs. q < Max (set qs) + 1" using Max_ge by (fastforce simp: less_Suc_eq_le)
  have "card (set qs) \<le> card {..<Max (set qs) + 1}" using m by (intro card_mono) auto
  then have "length qs \<le> Max (set qs) + 1" using assms(1) by (simp add: distinct_card)
  then obtain j where "find_mod fuel (length qs) qs = Inr j" "0 < j" "distinct (map (\<lambda>q. q mod j) qs)"
    using find_mod_ok [OF assms(1) m, of "length qs" fuel] assms(2,3) by auto
  then show ?thesis using fill_rank_nth [of j qs n 0] assms(4) by simp
qed

theorem qp2rank_correct_witness:
  "\<exists>j. find_mod 12 3 [4, 7, 10] = Inr j \<and> fill_rank j 0 [4, 7, 10] (\<lambda>_. 0) (10 mod j) = 2"
  using qp2rank_correct [of "[4, 7, 10]" 12 2] by (auto simp: numeral_3_eq_3)

text \<open>
  The name a process publishes for a connection gives every reader back the
  address, key, queue-pair number and port identifier it was made of, also for keys and
  numbers that \<open>%d\<close> prints as negative.
\<close>

theorem ep_name_roundtrip: "scan_ep_name (ep_name c) = Some c"
  by (rule ep_name_scan)


text \<open>A device with two queue pairs, and a peer with known address.\<close>

definition ex_device :: ibv_device where
  "ex_device = \<lparr>num_devices = 1, open_device_ok = True, query_device_rc = 0,
     query_port_rc = (\<lambda>p. if p = 1 then 0 else 22), port_lid = 3, active_mtu = 5, alloc_pd_ok = True,
     create_srq_ok = True, create_cq_ok = True, heap_mr = Some (0x8000, 9, 10),
     create_qp = (\<lambda>i. Some \<lparr>qp_addr = 0x700 + 8 * word_of_nat i, qp_num = 5 + word_of_nat i, qp_max_inline = 64\<rparr>),
     modify_qp_rc = (\<lambda>_ _. 0)\<rparr>"

definition ex_peer :: conn_ctx where
  "ex_peer = \<lparr>cc_addr = 0x4000, cc_rkey = 77, cc_qp_num = 6, cc_lid = 4\<rparr>"

definition ex_env2 :: lc_env where
  "ex_env2 = \<lparr>has_exp = True, has_dyn = True, has_imm = True, has_sync = True, has_cq = True,
     has_am = True, has_glob = True, LC_MAX_EP = 8, lcg_size = 2, lcg_page_size = 4096, worker_id = 3,
     user_alloc = (\<lambda>f z l. (0, 0)), ibv_reg_mr = (\<lambda>b z l. 1), mr_rkey = (\<lambda>m. 0), mr_lkey = (\<lambda>m. 0)\<rparr>"

lemma ex_device_fields:
  "num_devices ex_device = 1" "open_device_ok ex_device" "query_device_rc ex_device = 0"
  "alloc_pd_ok ex_device" "create_srq_ok ex_device" "create_cq_ok ex_device"
  "heap_mr ex_device = Some (0x8000, 9, 10)" "modify_qp_rc ex_device q k = 0"
  "create_qp ex_device i = Some \<lparr>qp_addr = 0x700 + 8 * word_of_nat i, qp_num = 5 + word_of_nat i, qp_max_inline = 64\<rparr>"
  by (simp_all add: ex_device_def)

lemma ex_init:
  "\<exists>sv st. lc_server_init ex_env2 ex_device 0 0 (\<lambda>_. ep_name ex_peer) 8 \<lparr>pl_key = 0, npools = 0, lpools = []\<rparr> = Inr (sv, st)"
proof -
  have fp: "find_port ex_device (0 # Suc 0 # xs) = Some 1" for xs by (simp add: ex_device_def)
  have up: "[0..<128] = 0 # Suc 0 # [Suc (Suc 0)..<128]"
    by (rule trans [OF upt_conv_Cons], simp, rule arg_cong, rule upt_conv_Cons, simp)
  have p: "find_port ex_device [0..<128] = Some 1" unfolding up by (rule fp)
  have m: "find_mod 8 2 [5, 6] = Inr 2" by code_simp
  have z: "[0..<lcg_size ex_env2] = [0, 1]" "lcg_size ex_env2 = 2" by (simp_all add: ex_env2_def numeral_2_eq_2)
  let ?s0 = "\<lparr>is_qps = [], is_inline = 0, is_published = [], is_modified = [], is_reps = []\<rparr>"
  note qp = qp_create_def qp_init_def qp_to_rtr_def qp_to_rts_def modify_qp_def ep_name_scan ex_device_fields
  obtain st where st: "create_qps ex_device 1 0 0 0x8000 10 [0, 1] ?s0 = Inr st"
      "map (\<lambda>q. unat (qp_num q)) (is_qps st) = [5, 6]"
    by (simp add: qp)
  obtain st' where "connect_qps ex_device 1 0 0 (\<lambda>_. ep_name ex_peer) [0, 1] st = Inr st'" "is_qps st' = is_qps st"
    by (simp add: qp)
  then show ?thesis
    using st p m z by (simp add: lc_server_init_def ex_device_fields Let_def del: create_qps.simps
        connect_qps.simps One_nat_def)
qed


end
