(* ===== verification/LC_Coll.thy ===== *)
theory LC_Coll
  imports LC_Prelude
begin

text \<open>
  The collective operations of \<open>src/coll.c\<close> and \<open>src/coll/*.h\<close>. A call builds a schedule of
  point-to-point operations in the request and \<open>lc_col_progress\<close> works it off. Ranks are
  naturals below the number of processes; an element of the schedule is one constructor per
  type of operation.
\<close>

section \<open>Schedules (\<open>coll/common.h\<close>)\<close>

datatype col_sched =
    LC_COL_SEND (col_src: addr) u64 nat nat              \<comment> \<open>source, size, rank, tag\<close>
  | LC_COL_RECV addr u64 nat nat
  | LC_COL_SENDRECV addr addr u64 nat nat                \<comment> \<open>source, destination, size, rank, tag\<close>
  | LC_COL_OP addr addr u64                              \<comment> \<open>destination, source, size\<close>
  | LC_COL_MEM addr addr u64
  | LC_COL_FREE addr

text \<open>\<open>total\<close> is the length of \<open>next\<close>; \<open>pending\<close> are the flags of the two pending requests.\<close>

record lc_colreq =
  flag :: bool
  cur :: nat
  pending0 :: bool
  pending1 :: bool
  col_next :: "col_sched list"

definition COL_NEXT_SIZE :: nat where "COL_NEXT_SIZE = 128"

text \<open>The length of a number in binary; \<open>8 * sizeof(int) - __builtin_clz(value)\<close> for \<open>value > 0\<close>.\<close>

fun bit_length :: "nat \<Rightarrow> nat" where
  "bit_length n = (if n = 0 then 0 else Suc (bit_length (n div 2)))"

declare bit_length.simps [simp del]

definition opal_next_poweroftwo :: "nat \<Rightarrow> nat" where
  "opal_next_poweroftwo value = (if value = 0 then 1 else 2 ^ bit_length value mod 2 ^ 32)"

definition lc_colreq_init :: "lc_colreq \<Rightarrow> lc_colreq" where
  "lc_colreq_init req = req\<lparr>flag := False, cur := 0, col_next := [], pending0 := True, pending1 := True\<rparr>"

text \<open>\<open>req->next[req->total++]\<close> with the bound of the array.\<close>

definition col_push :: "col_sched \<Rightarrow> lc_colreq \<Rightarrow> lc_colreq res" where
  "col_push op req =
     (if length (col_next req) \<ge> COL_NEXT_SIZE then Inl Out_of_bounds
      else Inr (req\<lparr>col_next := col_next req @ [op]\<rparr>))"

definition lc_col_send :: "addr \<Rightarrow> u64 \<Rightarrow> nat \<Rightarrow> nat \<Rightarrow> lc_colreq \<Rightarrow> lc_colreq res" where
  "lc_col_send src sz rank tag req = col_push (LC_COL_SEND src sz rank tag) req"

definition lc_col_recv :: "addr \<Rightarrow> u64 \<Rightarrow> nat \<Rightarrow> nat \<Rightarrow> lc_colreq \<Rightarrow> lc_colreq res" where
  "lc_col_recv src sz rank tag req = col_push (LC_COL_RECV src sz rank tag) req"

definition lc_col_sendrecv :: "addr \<Rightarrow> addr \<Rightarrow> u64 \<Rightarrow> nat \<Rightarrow> nat \<Rightarrow> lc_colreq \<Rightarrow> lc_colreq res" where
  "lc_col_sendrecv src dst sz rank tag req = col_push (LC_COL_SENDRECV src dst sz rank tag) req"

definition lc_col_op :: "addr \<Rightarrow> addr \<Rightarrow> u64 \<Rightarrow> lc_colreq \<Rightarrow> lc_colreq res" where
  "lc_col_op dst src sz req = col_push (LC_COL_OP dst src sz) req"

definition lc_col_memmove :: "addr \<Rightarrow> addr \<Rightarrow> u64 \<Rightarrow> lc_colreq \<Rightarrow> lc_colreq res" where
  "lc_col_memmove dst src sz req = col_push (LC_COL_MEM dst src sz) req"

definition lc_col_free :: "addr \<Rightarrow> lc_colreq \<Rightarrow> lc_colreq res" where
  "lc_col_free src req = col_push (LC_COL_FREE src) req"

text \<open>
  What \<open>lc_col_progress\<close> uses of the library: sends and receives that complete one of the two
  pending requests, at once or later, the user's operation, and memory. The result of a send
  or receive is the new environment and the flag of its request afterwards; \<open>LC_SAFE\<close> repeats
  a send until it is accepted, which is part of \<open>cn_send\<close>.
\<close>

record 's col_net =
  cn_send :: "addr \<Rightarrow> u64 \<Rightarrow> nat \<Rightarrow> nat \<Rightarrow> 's \<Rightarrow> bool \<times> 's"
  cn_recv :: "addr \<Rightarrow> u64 \<Rightarrow> nat \<Rightarrow> nat \<Rightarrow> 's \<Rightarrow> bool \<times> 's"
  cn_op :: "addr \<Rightarrow> addr \<Rightarrow> u64 \<Rightarrow> 's \<Rightarrow> 's"
  cn_memmove :: "addr \<Rightarrow> addr \<Rightarrow> u64 \<Rightarrow> 's \<Rightarrow> 's"
  cn_free :: "addr \<Rightarrow> 's \<Rightarrow> 's"

definition col_exec :: "'s col_net \<Rightarrow> col_sched \<Rightarrow> lc_colreq \<Rightarrow> 's \<Rightarrow> lc_colreq \<times> 's" where
  "col_exec net op req s =
     (case op of
        LC_COL_SEND src sz rank tag \<Rightarrow>
          (let (f, s) = cn_send net src sz rank tag s in (req\<lparr>pending0 := f\<rparr>, s))
      | LC_COL_RECV src sz rank tag \<Rightarrow>
          (let (f, s) = cn_recv net src sz rank tag s in (req\<lparr>pending0 := f\<rparr>, s))
      | LC_COL_SENDRECV src dst sz rank tag \<Rightarrow>
          (let (f, s) = cn_send net src sz rank tag s;
               (g, s) = cn_recv net dst sz rank tag s
           in (req\<lparr>pending0 := f, pending1 := g\<rparr>, s))
      | LC_COL_OP dst src sz \<Rightarrow> (req, cn_op net dst src sz s)
      | LC_COL_MEM dst src sz \<Rightarrow> (req, cn_memmove net dst src sz s)
      | LC_COL_FREE src \<Rightarrow> (req, cn_free net src s))"

lemma col_exec_keeps:
  "col_exec net op req s = (req', s') \<Longrightarrow> cur req' = cur req \<and> col_next req' = col_next req \<and> flag req' = flag req"
  by (auto simp: col_exec_def split: col_sched.splits prod.splits)

text \<open>The loop; each iteration starts with both pending requests complete.\<close>

function col_loop :: "'s col_net \<Rightarrow> lc_colreq \<Rightarrow> 's \<Rightarrow> lc_colreq \<times> 's" where
  "col_loop net req s =
     (if cur req < length (col_next req) then
        (let op = col_next req ! cur req;
             (req', s') = col_exec net op (req\<lparr>cur := Suc (cur req)\<rparr>) s
         in if \<not> pending0 req' \<or> \<not> pending1 req' then (req', s') else col_loop net req' s')
      else (req\<lparr>flag := True\<rparr>, s))"
  by pat_completeness auto

termination
proof (relation "measure (\<lambda>(net, req, s). length (col_next req) - cur req)", goal_cases)
  case (2 net req s op p req' s')
  then have "col_exec net op (req\<lparr>cur := Suc (cur req)\<rparr>) s = (req', s')" by simp
  from col_exec_keeps [OF this] 2(1) show ?case by simp
qed simp

declare col_loop.simps [simp del]

definition lc_col_progress :: "'s col_net \<Rightarrow> lc_colreq \<Rightarrow> 's \<Rightarrow> lc_colreq \<times> 's" where
  "lc_col_progress net req s =
     (if \<not> pending0 req \<or> \<not> pending1 req then (req, s) else col_loop net req s)"

text \<open>The effect of one operation on the environment does not depend on the request.\<close>

definition col_effect :: "'s col_net \<Rightarrow> col_sched \<Rightarrow> 's \<Rightarrow> 's" where
  "col_effect net op s =
     (case op of
        LC_COL_SEND src sz rank tag \<Rightarrow> snd (cn_send net src sz rank tag s)
      | LC_COL_RECV src sz rank tag \<Rightarrow> snd (cn_recv net src sz rank tag s)
      | LC_COL_SENDRECV src dst sz rank tag \<Rightarrow> snd (cn_recv net dst sz rank tag (snd (cn_send net src sz rank tag s)))
      | LC_COL_OP dst src sz \<Rightarrow> cn_op net dst src sz s
      | LC_COL_MEM dst src sz \<Rightarrow> cn_memmove net dst src sz s
      | LC_COL_FREE src \<Rightarrow> cn_free net src s)"

lemma col_exec_effect: "col_exec net op req s = (req', s') \<Longrightarrow> s' = col_effect net op s"
  by (auto simp: col_exec_def col_effect_def split: col_sched.splits prod.splits)

lemma col_loop_spec:
  "col_loop net req s = (req', s') \<Longrightarrow> \<not> flag req \<Longrightarrow> pending0 req \<Longrightarrow> pending1 req \<Longrightarrow> cur req \<le> length (col_next req) \<Longrightarrow>
     cur req \<le> cur req' \<and> cur req' \<le> length (col_next req) \<and> col_next req' = col_next req
     \<and> s' = fold (col_effect net) (take (cur req' - cur req) (drop (cur req) (col_next req))) s
     \<and> (if flag req' then cur req' = length (col_next req) \<and> pending0 req' \<and> pending1 req'
        else \<not> pending0 req' \<or> \<not> pending1 req')"
proof (induction net req s arbitrary: req' s' rule: col_loop.induct)
  case (1 net req s)
  show ?case
  proof (cases "cur req < length (col_next req)")
    case True
    let ?op = "col_next req ! cur req"
    obtain r t where e: "col_exec net ?op (req\<lparr>cur := Suc (cur req)\<rparr>) s = (r, t)" by fastforce
    have r: "cur r = Suc (cur req)" "col_next r = col_next req" "\<not> flag r" "t = col_effect net ?op s"
      using col_exec_keeps [OF e] col_exec_effect [OF e] 1(3) by auto
    have d: "drop (cur req) (col_next req) = ?op # drop (cur r) (col_next r)"
      using True r by (simp add: Cons_nth_drop_Suc)
    show ?thesis
    proof (cases "pending0 r \<and> pending1 r")
      case p: True
      then have l: "col_loop net r t = (req', s')" using 1(2) True e by (simp add: col_loop.simps [of net req])
      have IH: "cur r \<le> cur req'" "cur req' \<le> length (col_next req)" "col_next req' = col_next req"
        "s' = fold (col_effect net) (take (cur req' - cur r) (drop (cur r) (col_next r))) t"
        "if flag req' then cur req' = length (col_next req) \<and> pending0 req' \<and> pending1 req'
         else \<not> pending0 req' \<or> \<not> pending1 req'"
        using 1(1) [OF True refl e [symmetric] refl _ l] p r True by (simp_all split: if_splits)
      have "cur req' - cur req = Suc (cur req' - cur r)" using IH(1) r(1) by simp
      then show ?thesis using IH r(1,4) by (simp only: d take_Suc_Cons fold_simps) simp
    next
      case False
      then have q: "req' = r" "s' = t" using 1(2) True e by (auto simp: col_loop.simps [of net req])
      have "take (cur r - cur req) (drop (cur req) (col_next req)) = [?op]" unfolding d r(1) by simp
      then show ?thesis using False r True unfolding q by simp
    qed
  next
    case False
    then show ?thesis using 1(2-6) by (auto simp: col_loop.simps [of net req])
  qed
qed

text \<open>
  Property C33. A call of \<open>lc_col_progress\<close> carries the schedule on where it stood: it performs
  the operations that follow, in order and without skipping one, and stops only behind an
  operation whose send or receive is not complete yet or at the end of the schedule. The
  request is flagged complete only at the end, when no send or receive is pending.
\<close>

theorem lc_col_progress_in_order:
  assumes "lc_col_progress net req s = (req', s')" "\<not> flag req" "cur req \<le> length (col_next req)"
  shows "cur req \<le> cur req' \<and> cur req' \<le> length (col_next req) \<and> col_next req' = col_next req
     \<and> s' = fold (col_effect net) (take (cur req' - cur req) (drop (cur req) (col_next req))) s
     \<and> (if flag req' then cur req' = length (col_next req) \<and> pending0 req' \<and> pending1 req'
        else \<not> pending0 req' \<or> \<not> pending1 req')"
  using assms col_loop_spec [of net req s req' s'] by (auto simp: lc_col_progress_def split: if_splits)

definition example_net :: "string list col_net" where
  "example_net = \<lparr>cn_send = (\<lambda>_ _ _ _ s. (True, ''send'' # s)), cn_recv = (\<lambda>_ _ _ _ s. (False, ''recv'' # s)),
     cn_op = (\<lambda>_ _ _ s. ''op'' # s), cn_memmove = (\<lambda>_ _ _ s. s), cn_free = (\<lambda>_ s. s)\<rparr>"

theorem lc_col_progress_in_order_witness:
  "\<exists>req' s'. lc_col_progress example_net \<lparr>flag = False, cur = 0, pending0 = True, pending1 = True,
       col_next = [LC_COL_SEND 8 1 1 7, LC_COL_RECV 8 1 1 7, LC_COL_OP 8 8 1]\<rparr> [] = (req', s')
     \<and> cur req' = 2 \<and> \<not> flag req' \<and> s' = [''recv'', ''send'']"
proof -
  let ?req = "\<lparr>flag = False, cur = 0, pending0 = True, pending1 = True,
       col_next = [LC_COL_SEND 8 1 1 7, LC_COL_RECV 8 1 1 7, LC_COL_OP 8 8 1]\<rparr>"
  let ?req' = "\<lparr>flag = False, cur = 2, pending0 = False, pending1 = True,
       col_next = [LC_COL_SEND 8 1 1 7, LC_COL_RECV 8 1 1 7, LC_COL_OP 8 8 1]\<rparr>"
  have "lc_col_progress example_net ?req [] = (?req', [''recv'', ''send''])"
    by (simp add: lc_col_progress_def col_loop.simps col_exec_def example_net_def)
  then show ?thesis using lc_col_progress_in_order [of example_net ?req "[]" ?req' "[''recv'', ''send'']"] by simp
qed

section \<open>The collectives\<close>

definition MCA_COLL_BASE_TAG_IALLREDUCE :: nat where "MCA_COLL_BASE_TAG_IALLREDUCE = 1340"
definition MCA_COLL_BASE_TAG_IBARRIER :: nat where "MCA_COLL_BASE_TAG_IBARRIER = 1341"
definition MCA_COLL_BASE_TAG_IBCAST :: nat where "MCA_COLL_BASE_TAG_IBCAST = 1342"

definition LC_COL_IN_PLACE :: addr where "LC_COL_IN_PLACE = - 1"

text \<open>\<open>for (distance = d; distance < lim; distance <<= 1)\<close>, as the list of distances.\<close>

function doublings :: "nat \<Rightarrow> nat \<Rightarrow> nat list" where
  "doublings d lim = (if 0 < d \<and> d < lim then d # doublings (2 * d) lim else [])"
  by pat_completeness auto
termination by (relation "measure (\<lambda>(d, lim). lim - d)") auto

declare doublings.simps [simp del]

fun res_fold :: "('a \<Rightarrow> 'b \<Rightarrow> 'b res) \<Rightarrow> 'a list \<Rightarrow> 'b \<Rightarrow> 'b res" where
  "res_fold f [] s = Inr s"
| "res_fold f (x # xs) s = bind_res (f x s) (res_fold f xs)"

definition newrank_of :: "nat \<Rightarrow> nat \<Rightarrow> int" where
  "newrank_of extra_ranks rank =
     (if rank < 2 * extra_ranks then if rank mod 2 = 0 then - 1 else int (rank div 2)
      else int rank - int extra_ranks)"

definition remote_of :: "nat \<Rightarrow> nat \<Rightarrow> nat \<Rightarrow> nat" where
  "remote_of extra_ranks newrank distance =
     (let newremote = newrank XOR distance
      in if newremote < extra_ranks then newremote * 2 + 1 else newremote + extra_ranks)"

text \<open>
  The schedule of the recursive doubling, with the temporary buffer \<open>tmp\<close> that the code
  allocates and fills with the input (see \<open>allreduce_start\<close>).
\<close>

definition allreduce_schedule :: "nat \<Rightarrow> nat \<Rightarrow> addr \<Rightarrow> addr \<Rightarrow> u64 \<Rightarrow> lc_colreq \<Rightarrow> lc_colreq res" where
  "allreduce_schedule rank n tmp rbuf cnt req =
     (let tag = MCA_COLL_BASE_TAG_IALLREDUCE;
          adjsize = opal_next_poweroftwo n div 2;
          extra_ranks = n - adjsize;
          newrank = newrank_of extra_ranks rank
      in bind_res
           (if rank < 2 * extra_ranks then
              if rank mod 2 = 0 then lc_col_send tmp cnt (rank + 1) tag req
              else bind_res (lc_col_recv rbuf cnt (rank - 1) tag req) (lc_col_op tmp rbuf cnt)
            else Inr req) (\<lambda>req.
         bind_res
           (if newrank < 0 then Inr req
            else res_fold (\<lambda>distance req.
                   bind_res (lc_col_sendrecv tmp rbuf cnt (remote_of extra_ranks (nat newrank) distance) tag req)
                     (lc_col_op tmp rbuf cnt))
                 (doublings 1 adjsize) req) (\<lambda>req.
         bind_res
           (if rank < 2 * extra_ranks then
              if rank mod 2 = 0 then lc_col_recv rbuf cnt (rank + 1) tag req
              else lc_col_send tmp cnt (rank - 1) tag req
            else Inr req) (\<lambda>req.
         bind_res
           (if rank < 2 * extra_ranks \<and> rank mod 2 = 0 then Inr req
            else lc_col_memmove rbuf tmp cnt req)
           (lc_col_free tmp)))))"

text \<open>
  The call: with one process the input is copied and the request is complete; otherwise the
  copy goes to the temporary buffer \<open>malloc\<close> returned, and the schedule is started.
\<close>

definition iompi_coll_base_allreduce_intra_recursivedoubling ::
    "'s col_net \<Rightarrow> nat \<Rightarrow> nat \<Rightarrow> addr \<Rightarrow> addr \<Rightarrow> addr \<Rightarrow> u64 \<Rightarrow> lc_colreq \<Rightarrow> 's \<Rightarrow> (lc_colreq \<times> 's) res" where
  "iompi_coll_base_allreduce_intra_recursivedoubling net rank n tmp sbuf rbuf cnt req s =
     (if n = 1 then Inr (req\<lparr>flag := True\<rparr>, cn_memmove net rbuf sbuf cnt s)
      else let req = lc_colreq_init req;
               s = (if sbuf = LC_COL_IN_PLACE then cn_memmove net tmp rbuf cnt s
                    else cn_memmove net tmp sbuf cnt s)
           in bind_res (allreduce_schedule rank n tmp rbuf cnt req) (\<lambda>req. Inr (lc_col_progress net req s)))"

definition barrier_schedule :: "nat \<Rightarrow> nat \<Rightarrow> addr \<Rightarrow> lc_colreq \<Rightarrow> lc_colreq res" where
  "barrier_schedule rank n ebuf req =
     res_fold (\<lambda>distance req.
         bind_res (lc_col_send ebuf 1 ((rank + distance) mod n) MCA_COLL_BASE_TAG_IBARRIER req)
           (lc_col_recv ebuf 1 ((rank + n - distance) mod n) MCA_COLL_BASE_TAG_IBARRIER))
       (doublings 1 n) req"

definition iompi_coll_base_barrier_intra_bruck ::
    "'s col_net \<Rightarrow> nat \<Rightarrow> nat \<Rightarrow> addr \<Rightarrow> lc_colreq \<Rightarrow> 's \<Rightarrow> (lc_colreq \<times> 's) res" where
  "iompi_coll_base_barrier_intra_bruck net rank n ebuf req s =
     bind_res (barrier_schedule rank n ebuf (lc_colreq_init req)) (\<lambda>req. Inr (lc_col_progress net req s))"

definition bcast_schedule :: "nat \<Rightarrow> nat \<Rightarrow> addr \<Rightarrow> u64 \<Rightarrow> nat \<Rightarrow> lc_colreq \<Rightarrow> lc_colreq res" where
  "bcast_schedule rank n buf cnt root req =
     (if rank \<noteq> root then lc_col_recv buf cnt root MCA_COLL_BASE_TAG_IBCAST req
      else res_fold (\<lambda>i req. if i = rank then Inr req
                else lc_col_send buf cnt i MCA_COLL_BASE_TAG_IBCAST req) [0..<n] req)"

definition iompi_coll_base_bcast_intra_basic_linear ::
    "'s col_net \<Rightarrow> nat \<Rightarrow> nat \<Rightarrow> addr \<Rightarrow> u64 \<Rightarrow> nat \<Rightarrow> lc_colreq \<Rightarrow> 's \<Rightarrow> (lc_colreq \<times> 's) res" where
  "iompi_coll_base_bcast_intra_basic_linear net rank n buf cnt root req s =
     bind_res (bcast_schedule rank n buf cnt root (lc_colreq_init req)) (\<lambda>req. Inr (lc_col_progress net req s))"

text \<open>The helpers of \<open>coll/util.h\<close>.\<close>

function cube_dim_loop :: "nat \<Rightarrow> nat \<Rightarrow> nat \<Rightarrow> nat" where
  "cube_dim_loop dim sz value = (if 0 < sz \<and> sz < value then cube_dim_loop (Suc dim) (2 * sz) value else dim)"
  by pat_completeness auto
termination by (relation "measure (\<lambda>(dim, sz, value). value - sz)") auto

declare cube_dim_loop.simps [simp del]

definition opal_cube_dim :: "nat \<Rightarrow> nat" where
  "opal_cube_dim value = cube_dim_loop 0 1 value"

fun opal_hibit :: "nat \<Rightarrow> nat \<Rightarrow> int" where
  "opal_hibit value 0 = - 1"
| "opal_hibit value (Suc start) = (if bit value start then int start else opal_hibit value start)"

end
