(* ===== verification/LC_Coll_Net.thy ===== *)
theory LC_Coll_Net
  imports LC_Coll "HOL-Library.Sublist"
begin

text \<open>
  Schedules of several processes running against each other. Messages between two processes
  with one tag arrive in order, as the matching table and the connection guarantee; a receive
  waits for its message, a send does not wait. The locale shows, for schedules whose sends and
  receives fit together, that every interleaving computes the same result and none gets stuck.
\<close>

section \<open>Interleavings\<close>

record 'v net_state =
  todo :: "nat \<Rightarrow> col_sched list"
  store :: "nat \<Rightarrow> addr \<Rightarrow> 'v"
  chan :: "nat \<Rightarrow> nat \<Rightarrow> nat \<Rightarrow> 'v list"     \<comment> \<open>from, to, tag\<close>

definition put_todo :: "nat \<Rightarrow> col_sched list \<Rightarrow> 'v net_state \<Rightarrow> 'v net_state" where
  "put_todo p ops c = c\<lparr>todo := (todo c)(p := ops)\<rparr>"

definition put_store :: "nat \<Rightarrow> addr \<Rightarrow> 'v \<Rightarrow> 'v net_state \<Rightarrow> 'v net_state" where
  "put_store p a v c = c\<lparr>store := (store c)(p := (store c p)(a := v))\<rparr>"

definition put_chan :: "nat \<Rightarrow> nat \<Rightarrow> nat \<Rightarrow> 'v list \<Rightarrow> 'v net_state \<Rightarrow> 'v net_state" where
  "put_chan p q g l c = c\<lparr>chan := (chan c)(p := (chan c p)(q := (chan c p q)(g := l)))\<rparr>"

inductive col_step :: "('v \<Rightarrow> 'v \<Rightarrow> 'v) \<Rightarrow> 'v net_state \<Rightarrow> 'v net_state \<Rightarrow> bool" for f where
  send: "todo c p = LC_COL_SEND src sz q g # ops \<Longrightarrow>
     col_step f c (put_todo p ops (put_chan p q g (chan c p q g @ [store c p src]) c))"
| recv: "todo c p = LC_COL_RECV dst sz q g # ops \<Longrightarrow> chan c q p g = v # vs \<Longrightarrow>
     col_step f c (put_todo p ops (put_store p dst v (put_chan q p g vs c)))"
| sendrecv: "todo c p = LC_COL_SENDRECV src dst sz q g # ops \<Longrightarrow>
     col_step f c (put_todo p (LC_COL_RECV dst sz q g # ops)
       (put_chan p q g (chan c p q g @ [store c p src]) c))"
| oper: "todo c p = LC_COL_OP dst src sz # ops \<Longrightarrow>
     col_step f c (put_todo p ops (put_store p dst (f (store c p dst) (store c p src)) c))"
| memmove: "todo c p = LC_COL_MEM dst src sz # ops \<Longrightarrow>
     col_step f c (put_todo p ops (put_store p dst (store c p src) c))"
| free: "todo c p = LC_COL_FREE src # ops \<Longrightarrow> col_step f c (put_todo p ops c)"

inductive col_steps :: "('v \<Rightarrow> 'v \<Rightarrow> 'v) \<Rightarrow> nat \<Rightarrow> 'v net_state \<Rightarrow> 'v net_state \<Rightarrow> bool" for f where
  none: "col_steps f 0 c c"
| more: "col_steps f k c d \<Longrightarrow> col_step f d e \<Longrightarrow> col_steps f (Suc k) c e"

definition net_start :: "(nat \<Rightarrow> col_sched list) \<Rightarrow> (nat \<Rightarrow> addr \<Rightarrow> 'v) \<Rightarrow> 'v net_state" where
  "net_start prog x = \<lparr>todo = prog, store = x, chan = (\<lambda>_ _ _. [])\<rparr>"

definition all_done :: "'v net_state \<Rightarrow> bool" where
  "all_done c \<longleftrightarrow> (\<forall>p. todo c p = [])"

section \<open>Schedules annotated with the values they expect\<close>

text \<open>
  Each primitive operation with a point in time; a receive with the value it is going to get.
\<close>

datatype 'v aop =
    ASnd (time: nat) addr nat nat
  | ARcv (time: nat) addr nat nat 'v
  | AOp (time: nat) addr addr
  | AMem (time: nat) addr addr
  | ANop (time: nat)

text \<open>The schedule an annotated list stands for; a send and receive may have been one operation.\<close>

inductive stands_for :: "'v aop list \<Rightarrow> col_sched list \<Rightarrow> bool" where
  nil: "stands_for [] []"
| snd: "stands_for as ops \<Longrightarrow> stands_for (ASnd t src q g # as) (LC_COL_SEND src sz q g # ops)"
| rcv: "stands_for as ops \<Longrightarrow> stands_for (ARcv t dst q g v # as) (LC_COL_RECV dst sz q g # ops)"
| sndrcv: "stands_for as ops \<Longrightarrow>
     stands_for (ASnd t src q g # ARcv t' dst q g v # as) (LC_COL_SENDRECV src dst sz q g # ops)"
| oper: "stands_for as ops \<Longrightarrow> stands_for (AOp t dst src # as) (LC_COL_OP dst src sz # ops)"
| memmove: "stands_for as ops \<Longrightarrow> stands_for (AMem t dst src # as) (LC_COL_MEM dst src sz # ops)"
| free: "stands_for as ops \<Longrightarrow> stands_for (ANop t # as) (LC_COL_FREE src # ops)"

inductive_cases stands_for_Cons: "stands_for as (op # ops)"
inductive_cases stands_for_Nil: "stands_for as []"

fun eff :: "('v \<Rightarrow> 'v \<Rightarrow> 'v) \<Rightarrow> 'v aop \<Rightarrow> (addr \<Rightarrow> 'v) \<Rightarrow> addr \<Rightarrow> 'v" where
  "eff f (ASnd t src q g) st = st"
| "eff f (ARcv t dst q g v) st = st(dst := v)"
| "eff f (AOp t dst src) st = st(dst := f (st dst) (st src))"
| "eff f (AMem t dst src) st = st(dst := st src)"
| "eff f (ANop t) st = st"

fun sent :: "('v \<Rightarrow> 'v \<Rightarrow> 'v) \<Rightarrow> nat \<Rightarrow> nat \<Rightarrow> 'v aop list \<Rightarrow> (addr \<Rightarrow> 'v) \<Rightarrow> 'v list" where
  "sent f q g [] st = []"
| "sent f q g (ASnd t src q' g' # as) st =
     (if q' = q \<and> g' = g then st src # sent f q g as st else sent f q g as st)"
| "sent f q g (a # as) st = sent f q g as (eff f a st)"

fun received :: "nat \<Rightarrow> nat \<Rightarrow> 'v aop list \<Rightarrow> 'v list" where
  "received q g [] = []"
| "received q g (ARcv t dst q' g' v # as) =
     (if q' = q \<and> g' = g then v # received q g as else received q g as)"
| "received q g (a # as) = received q g as"

fun send_times :: "nat \<Rightarrow> nat \<Rightarrow> 'v aop list \<Rightarrow> nat list" where
  "send_times q g [] = []"
| "send_times q g (ASnd t src q' g' # as) =
     (if q' = q \<and> g' = g then t # send_times q g as else send_times q g as)"
| "send_times q g (a # as) = send_times q g as"

fun recv_times :: "nat \<Rightarrow> nat \<Rightarrow> 'v aop list \<Rightarrow> nat list" where
  "recv_times q g [] = []"
| "recv_times q g (ARcv t dst q' g' v # as) =
     (if q' = q \<and> g' = g then t # recv_times q g as else recv_times q g as)"
| "recv_times q g (a # as) = recv_times q g as"

fun final :: "('v \<Rightarrow> 'v \<Rightarrow> 'v) \<Rightarrow> 'v aop list \<Rightarrow> (addr \<Rightarrow> 'v) \<Rightarrow> addr \<Rightarrow> 'v" where
  "final f [] st = st"
| "final f (a # as) st = final f as (eff f a st)"

definition increasing :: "'v aop list \<Rightarrow> bool" where
  "increasing as \<longleftrightarrow> sorted_wrt (<) (map time as)"

lemma length_recv_times: "length (recv_times q g as) = length (received q g as)"
  by (induction q g as rule: received.induct) auto

lemma length_send_times: "length (send_times q g as) = length (sent f q g as st)"
proof (induction as arbitrary: st)
  case (Cons a as)
  show ?case by (cases a) (simp_all add: Cons.IH)
qed simp

lemma send_times_in: "t \<in> set (send_times q g as) \<Longrightarrow> \<exists>a \<in> set as. time a = t"
  by (induction q g as rule: send_times.induct) (auto split: if_splits)

lemma increasing_head: "increasing (a # as) \<Longrightarrow> b \<in> set (a # as) \<Longrightarrow> time a \<le> time b"
  by (auto simp: increasing_def)

section \<open>What the channels hold\<close>

text \<open>
  What lies in a channel and what is still going to be sent is what the other side is going to
  receive, and every message still to be sent is due before its receive.
\<close>

definition chan_inv :: "('v \<Rightarrow> 'v \<Rightarrow> 'v) \<Rightarrow> (nat \<Rightarrow> 'v aop list) \<Rightarrow> (nat \<Rightarrow> addr \<Rightarrow> 'v) \<Rightarrow>
    (nat \<Rightarrow> nat \<Rightarrow> nat \<Rightarrow> 'v list) \<Rightarrow> bool" where
  "chan_inv f A st ch \<longleftrightarrow> (\<forall>p q g. ch p q g @ sent f q g (A p) (st p) = received p g (A q)
     \<and> list_all2 (<) (send_times q g (A p)) (drop (length (ch p q g)) (recv_times p g (A q))))"

lemma chan_invD:
  assumes "chan_inv f A st ch"
  shows "ch p q g @ sent f q g (A p) (st p) = received p g (A q)"
    and "list_all2 (<) (send_times q g (A p)) (drop (length (ch p q g)) (recv_times p g (A q)))"
  using assms by (simp_all add: chan_inv_def)

lemma drop_tl: "drop n (tl l) = tl (drop n l)"
  by (simp add: drop_Suc tl_drop flip: drop_Suc)

lemma chan_send:
  assumes "chan_inv f A st ch" "A p = ASnd t src q g # as"
  shows "chan_inv f (A(p := as)) st (ch(p := (ch p)(q := (ch p q)(g := ch p q g @ [st p src]))))"
proof -
  have r: "received p' g' ((A(p := as)) q') = received p' g' (A q')"
       "recv_times p' g' ((A(p := as)) q') = recv_times p' g' (A q')" for p' q' g'
    using assms(2) by simp_all
  have d: "list_all2 (<) us (drop n (tl l))" if "list_all2 (<) (u # us) (drop n l)"
    for u :: nat and us n l
    using that by (auto simp: list_all2_Cons1 drop_tl)
  show ?thesis unfolding chan_inv_def r
  proof (intro allI conjI)
    fix p' q' g'
    note D = chan_invD [OF assms(1), where p = p' and q = q' and g = g']
    show "(ch(p := (ch p)(q := (ch p q)(g := ch p q g @ [st p src])))) p' q' g' @
        sent f q' g' ((A(p := as)) p') (st p') = received p' g' (A q')"
      using D(1) assms(2) by (auto split: if_splits)
    show "list_all2 (<) (send_times q' g' ((A(p := as)) p'))
        (drop (length ((ch(p := (ch p)(q := (ch p q)(g := ch p q g @ [st p src])))) p' q' g')) (recv_times p' g' (A q')))"
      using D(2) assms(2) by (auto split: if_splits simp: drop_Suc dest: d)
  qed
qed

lemma chan_recv:
  assumes "chan_inv f A st ch" "A p = ARcv t dst q g v # as" "ch q p g = w # vs"
  shows "w = v" and "chan_inv f (A(p := as)) (st(p := (st p)(dst := v))) (ch(q := (ch q)(p := (ch q p)(g := vs))))"
proof -
  show "w = v" using chan_invD(1) [OF assms(1), of q p g] assms(2,3) by simp
  have r: "sent f q' g' ((A(p := as)) p') ((st(p := (st p)(dst := v))) p') = sent f q' g' (A p') (st p')"
       "send_times q' g' ((A(p := as)) p') = send_times q' g' (A p')" for p' q' g'
    using assms(2) by simp_all
  show "chan_inv f (A(p := as)) (st(p := (st p)(dst := v))) (ch(q := (ch q)(p := (ch q p)(g := vs))))"
    unfolding chan_inv_def r
  proof (intro allI conjI)
    fix p' q' g'
    note D = chan_invD [OF assms(1), where p = p' and q = q' and g = g']
    show "(ch(q := (ch q)(p := (ch q p)(g := vs)))) p' q' g' @ sent f q' g' (A p') (st p')
        = received p' g' ((A(p := as)) q')"
      using D(1) assms(2,3) by (auto split: if_splits)
    show "list_all2 (<) (send_times q' g' (A p'))
        (drop (length ((ch(q := (ch q)(p := (ch q p)(g := vs)))) p' q' g')) (recv_times p' g' ((A(p := as)) q')))"
      using D(2) assms(2,3) by (auto split: if_splits)
  qed
qed

definition local_op :: "'v aop \<Rightarrow> bool" where
  "local_op a \<longleftrightarrow> (case a of ASnd _ _ _ _ \<Rightarrow> False | ARcv _ _ _ _ _ \<Rightarrow> False | _ \<Rightarrow> True)"

lemma chan_local:
  assumes "chan_inv f A st ch" "A p = a # as" "local_op a"
  shows "chan_inv f (A(p := as)) (st(p := eff f a (st p))) ch"
proof -
  have r: "received p' g' ((A(p := as)) q') = received p' g' (A q')"
       "recv_times p' g' ((A(p := as)) q') = recv_times p' g' (A q')"
       "sent f q' g' ((A(p := as)) p') ((st(p := eff f a (st p))) p') = sent f q' g' (A p') (st p')"
       "send_times q' g' ((A(p := as)) p') = send_times q' g' (A p')" for p' q' g'
    using assms(2,3) by (cases a; simp add: local_op_def)+
  show ?thesis using assms(1) unfolding chan_inv_def r .
qed

lemma sent_nonempty: "ASnd t src q g \<in> set as \<Longrightarrow> sent f q g as st \<noteq> []"
proof (induction as arbitrary: st)
  case (Cons a as)
  then show ?case by (cases a) (auto simp del: fun_upd_apply)
qed simp

lemma received_nonempty: "received p g as \<noteq> [] \<Longrightarrow> \<exists>t dst v. ARcv t dst p g v \<in> set as"
  by (induction p g as rule: received.induct) (auto split: if_splits)

text \<open>A process that is still going to send is still going to be received from.\<close>

lemma waits_for:
  assumes "chan_inv f A st ch" "ASnd t src q g \<in> set (A p)"
  shows "\<exists>t' dst v. ARcv t' dst p g v \<in> set (A q)"
  using chan_invD(1) [OF assms(1), of p q g] sent_nonempty [OF assms(2), of f "st p"]
  by (intro received_nonempty) auto

lemma suffix_later:
  assumes "suffix as bs" "increasing bs" "a \<in> set as" "b \<in> set bs" "time a \<le> time b"
  shows "b \<in> set as"
proof -
  obtain cs where "bs = cs @ as" using assms(1) by (auto simp: suffix_def)
  then show ?thesis using assms(2-5) by (force simp: increasing_def sorted_wrt_append)
qed

text \<open>The primitive operations still to do; every step of the system does one of them.\<close>

fun op_weight :: "col_sched \<Rightarrow> nat" where
  "op_weight (LC_COL_SENDRECV src dst sz q g) = 2"
| "op_weight _ = 1"

definition col_weight :: "nat \<Rightarrow> (nat \<Rightarrow> col_sched list) \<Rightarrow> nat" where
  "col_weight n td = (\<Sum>p < n. sum_list (map op_weight (td p)))"

lemma col_weight_upd:
  assumes "p < n" "sum_list (map op_weight (td p)) = Suc (sum_list (map op_weight ops))"
  shows "col_weight n td = Suc (col_weight n (td(p := ops)))"
  using assms by (simp add: col_weight_def sum.remove [of "{..<n}" p])

text \<open>Everything that holds between the schedules as written and a state they can be in.\<close>

definition col_inv :: "('v \<Rightarrow> 'v \<Rightarrow> 'v) \<Rightarrow> (nat \<Rightarrow> 'v aop list) \<Rightarrow> (nat \<Rightarrow> addr \<Rightarrow> 'v) \<Rightarrow>
    (nat \<Rightarrow> 'v aop list) \<Rightarrow> 'v net_state \<Rightarrow> bool" where
  "col_inv f A0 x A c \<longleftrightarrow> chan_inv f A (store c) (chan c)
     \<and> (\<forall>p. stands_for (A p) (todo c p) \<and> increasing (A p) \<and> suffix (A p) (A0 p)
        \<and> final f (A p) (store c p) = final f (A0 p) (x p))"

lemmas put_defs = put_todo_def put_store_def put_chan_def

lemma increasing_tl: "increasing (a # as) \<Longrightarrow> increasing as"
  by (simp add: increasing_def)

lemma col_inv_upd:
  assumes "col_inv f A0 x A c" "A p = a # as" "chan_inv f (A(p := as)) (store d) (chan d)"
    "stands_for as ops" "todo d = (todo c)(p := ops)" "store d = (store c)(p := eff f a (store c p))"
  shows "col_inv f A0 x (A(p := as)) d"
proof -
  have "increasing as" "suffix as (A0 p)" "final f as (eff f a (store c p)) = final f (A0 p) (x p)"
    using assms(1,2) increasing_tl [of a as] suffix_ConsD [of a as "A0 p"]
    unfolding col_inv_def by (metis, metis, metis final.simps(2))
  then show ?thesis using assms by (simp add: col_inv_def)
qed

lemma col_inv_step:
  assumes "col_inv f A0 x A c" "col_step f c d"
  shows "\<exists>B. col_inv f A0 x B d"
proof -
  have inv: "chan_inv f A (store c) (chan c)" "\<And>p. stands_for (A p) (todo c p)"
    using assms(1) by (auto simp: col_inv_def)
  from assms(2) show ?thesis
  proof cases
    case (send p src sz q g ops)
    obtain t as where "A p = ASnd t src q g # as" "stands_for as ops"
      using inv(2) [of p] unfolding send(2) by (auto elim: stands_for_Cons)
    then show ?thesis using col_inv_upd [OF assms(1), of p "ASnd t src q g" as d ops] chan_send [OF inv(1)]
      by (auto simp: send(1) put_defs)
  next
    case (recv p dst sz q g ops v vs)
    obtain t w as where a: "A p = ARcv t dst q g w # as" "stands_for as ops"
      using inv(2) [of p] unfolding recv(2) by (auto elim: stands_for_Cons)
    note chan_recv [OF inv(1) a(1) recv(3)]
    then show ?thesis using col_inv_upd [OF assms(1), of p "ARcv t dst q g w" as d ops] a
      by (auto simp: recv(1) put_defs)
  next
    case (sendrecv p src dst sz q g ops)
    obtain t t' v as where a: "A p = ASnd t src q g # ARcv t' dst q g v # as" "stands_for as ops"
      using inv(2) [of p] unfolding sendrecv(2) by (auto elim: stands_for_Cons)
    then show ?thesis
      using col_inv_upd [OF assms(1), of p "ASnd t src q g" "ARcv t' dst q g v # as" d "LC_COL_RECV dst sz q g # ops"]
        chan_send [OF inv(1)]
      by (auto simp: sendrecv(1) put_defs stands_for.rcv)
  next
    case (oper p dst src sz ops)
    obtain t as where a: "A p = AOp t dst src # as" "stands_for as ops"
      using inv(2) [of p] unfolding oper(2) by (auto elim: stands_for_Cons)
    then show ?thesis using col_inv_upd [OF assms(1), of p "AOp t dst src" as d ops] chan_local [OF inv(1) a(1)]
      by (auto simp: oper(1) put_defs local_op_def)
  next
    case (memmove p dst src sz ops)
    obtain t as where a: "A p = AMem t dst src # as" "stands_for as ops"
      using inv(2) [of p] unfolding memmove(2) by (auto elim: stands_for_Cons)
    then show ?thesis using col_inv_upd [OF assms(1), of p "AMem t dst src" as d ops] chan_local [OF inv(1) a(1)]
      by (auto simp: memmove(1) put_defs local_op_def)
  next
    case (free p src ops)
    obtain t as where a: "A p = ANop t # as" "stands_for as ops"
      using inv(2) [of p] unfolding free(2) by (auto elim: stands_for_Cons)
    then show ?thesis using col_inv_upd [OF assms(1), of p "ANop t" as d ops] chan_local [OF inv(1) a(1)]
      by (auto simp: free(1) put_defs local_op_def)
  qed
qed

lemma earliest_process:
  assumes "A p \<noteq> []"
  shows "\<exists>p. A p \<noteq> [] \<and> (\<forall>q. A q \<noteq> [] \<longrightarrow> time (hd (A p)) \<le> time (hd (A q)))"
  using ex_has_least_nat [of "\<lambda>p. A p \<noteq> []" p "\<lambda>p. time (hd (A p))"] assms by auto

lemma col_inv_progress:
  assumes "col_inv f A0 x A c" "\<not> all_done c"
  shows "\<exists>d. col_step f c d"
proof -
  have inv: "chan_inv f A (store c) (chan c)" "\<And>p. stands_for (A p) (todo c p)" "\<And>p. increasing (A p)"
    using assms(1) by (auto simp: col_inv_def)
  obtain p0 where "todo c p0 \<noteq> []" using assms(2) by (auto simp: all_done_def)
  then have "A p0 \<noteq> []" using inv(2) [of p0] by (auto elim: stands_for.cases)
  then obtain p where p: "A p \<noteq> []" "\<And>q. A q \<noteq> [] \<Longrightarrow> time (hd (A p)) \<le> time (hd (A q))"
    using earliest_process [of A p0] by auto
  show ?thesis
  proof (cases "todo c p")
    case Nil
    then show ?thesis using inv(2) [of p] p(1) by (auto elim: stands_for_Nil)
  next
    case (Cons op ops)
    have ready: "chan c q p g \<noteq> []" if op: "op = LC_COL_RECV dst sz q g" for dst sz q g
    proof
      assume e: "chan c q p g = []"
      obtain t v as where a: "A p = ARcv t dst q g v # as"
        using inv(2) [of p] unfolding Cons op by (auto elim: stands_for_Cons)
      have "list_all2 (<) (send_times p g (A q)) (t # recv_times q g as)"
        using chan_invD(2) [OF inv(1), of p g q] a e by simp
      then obtain t' ts where t': "send_times p g (A q) = t' # ts" "t' < t" by (auto simp: list_all2_Cons2)
      then obtain b where b: "b \<in> set (A q)" "time b = t'" using send_times_in [of t' p g "A q"] by auto
      then have "time (hd (A q)) \<le> t'" "A q \<noteq> []"
        using increasing_head [of "hd (A q)" "tl (A q)" b] inv(3) [of q] by (cases "A q"; auto)+
      then show False using p(2) [of q] a t'(2) by simp
    qed
    show ?thesis
    proof (cases op)
      case (LC_COL_RECV dst sz q g)
      then show ?thesis using ready Cons col_step.recv [of c p dst sz q g ops _ _ f] by (metis list.exhaust)
    qed (use Cons col_step.intros in metis)+
  qed
qed

lemma col_step_weight:
  assumes "col_step f c d" "\<forall>p \<ge> n. todo c p = []"
  shows "col_weight n (todo c) = Suc (col_weight n (todo d)) \<and> (\<forall>p \<ge> n. todo d p = [])"
proof -
  obtain p op ops l where p: "todo c p = op # ops" "todo d = (todo c)(p := l)"
      "sum_list (map op_weight (op # ops)) = Suc (sum_list (map op_weight l))"
    using assms(1) by cases (auto simp: put_defs)
  have "p < n" using assms(2) p(1) by (metis list.distinct(1) not_le)
  with p assms(2) show ?thesis using col_weight_upd [of p n "todo c" l] by auto
qed

locale col_protocol =
  fixes f :: "'v \<Rightarrow> 'v \<Rightarrow> 'v" and n :: nat and prog :: "nat \<Rightarrow> col_sched list"
    and x :: "nat \<Rightarrow> addr \<Rightarrow> 'v" and A0 :: "nat \<Rightarrow> 'v aop list"
  assumes stands: "stands_for (A0 p) (prog p)"
    and ordered: "increasing (A0 p)"
    and fits: "sent f q g (A0 p) (x p) = received p g (A0 q)"
    and times: "list_all2 (<) (send_times q g (A0 p)) (recv_times p g (A0 q))"
    and finite: "n \<le> p \<Longrightarrow> prog p = []"
begin

lemma reachable_inv: "col_steps f k (net_start prog x) c \<Longrightarrow> \<exists>A. col_inv f A0 x A c"
proof (induction k "net_start prog x" c rule: col_steps.induct)
  case none
  have "col_inv f A0 x A0 (net_start prog x)"
    using stands ordered fits times by (simp add: col_inv_def chan_inv_def net_start_def)
  then show ?case by blast
next
  case (more k d e)
  then show ?case using col_inv_step by blast
qed

lemma reachable_weight:
  "col_steps f k (net_start prog x) c \<Longrightarrow> k + col_weight n (todo c) = col_weight n prog \<and> (\<forall>p \<ge> n. todo c p = [])"
proof (induction k "net_start prog x" c rule: col_steps.induct)
  case none
  then show ?case using finite by (simp add: net_start_def)
next
  case (more k d e)
  then show ?case using col_step_weight by fastforce
qed

lemma result:
  assumes "col_steps f k (net_start prog x) c" "all_done c"
  shows "store c p = final f (A0 p) (x p)"
proof -
  obtain A where "col_inv f A0 x A c" using reachable_inv [OF assms(1)] by auto
  then have "stands_for (A p) []" "final f (A p) (store c p) = final f (A0 p) (x p)"
    using assms(2) by (auto simp: col_inv_def all_done_def dest: spec [of _ p])
  then show ?thesis by (auto elim: stands_for_Nil)
qed

lemma not_stuck:
  assumes "col_steps f k (net_start prog x) c" "\<not> all_done c"
  shows "\<exists>d. col_step f c d"
  using reachable_inv [OF assms(1)] col_inv_progress [OF _ assms(2)] by auto

lemma done_iff: "col_steps f k (net_start prog x) c \<Longrightarrow> all_done c \<longleftrightarrow> k = col_weight n prog"
proof -
  assume s: "col_steps f k (net_start prog x) c"
  have w: "col_weight n (todo c) = 0 \<longleftrightarrow> (\<forall>p < n. todo c p = [])"
  proof -
    have "sum_list (map op_weight l) = 0 \<longleftrightarrow> l = []" for l
      by (cases l; cases "hd l") auto
    then show ?thesis by (auto simp: col_weight_def)
  qed
  then show ?thesis using reachable_weight [OF s] by (auto simp: all_done_def) (metis not_le)
qed

text \<open>Whatever the interleaving, after the same number of steps every process has its result.\<close>

lemma completes:
  assumes "col_steps f k (net_start prog x) c"
  shows "if k = col_weight n prog then all_done c \<and> (\<forall>p. store c p = final f (A0 p) (x p))
         else k < col_weight n prog \<and> (\<exists>d. col_step f c d)"
proof -
  have "k \<le> col_weight n prog" using reachable_weight [OF assms] by simp
  then show ?thesis using done_iff [OF assms] result [OF assms] not_stuck [OF assms] by auto
qed

lemma run_exists: "k \<le> col_weight n prog \<Longrightarrow> \<exists>c. col_steps f k (net_start prog x) c"
proof (induction k)
  case (Suc k)
  then obtain c where c: "col_steps f k (net_start prog x) c" by auto
  then obtain d where "col_step f c d" using completes [OF c] Suc.prems by (auto split: if_splits)
  then show ?case using col_steps.more [OF c] by blast
qed (auto intro: col_steps.none)

end

lemma empty_protocol: "col_protocol f n (\<lambda>_. []) x (\<lambda>_. [])"
  by unfold_locales (simp_all add: stands_for.nil increasing_def)

end
