(* ===== verification/LC_Coll_Spec.thy ===== *)
theory LC_Coll_Spec
  imports LC_Coll_Net
begin

text \<open>
  The schedules of the broadcast, the barrier and the allreduce as lists, their lengths, and
  what all processes together compute with them.
\<close>

section \<open>Schedules as lists\<close>

lemma res_fold_append: "res_fold f (xs @ ys) s = bind_res (res_fold f xs s) (res_fold f ys)"
proof (induction xs arbitrary: s)
  case (Cons x xs)
  show ?case by (cases "f x s") (simp_all add: Cons.IH)
qed simp

definition sched_all :: "col_sched list \<Rightarrow> lc_colreq \<Rightarrow> lc_colreq res" where
  "sched_all ops req = res_fold col_push ops req"

lemma sched_all_eq:
  "length (col_next req) \<le> COL_NEXT_SIZE \<Longrightarrow> sched_all ops req =
     (if length (col_next req) + length ops \<le> COL_NEXT_SIZE then Inr (req\<lparr>col_next := col_next req @ ops\<rparr>)
      else Inl Out_of_bounds)"
  by (induction ops arbitrary: req) (auto simp: sched_all_def col_push_def)

lemma sched_all_simps:
  "sched_all [] = Inr" "bind_res (sched_all xs req) (sched_all ys) = sched_all (xs @ ys) req"
  "lc_col_send src sz rank tag = sched_all [LC_COL_SEND src sz rank tag]"
  "lc_col_recv src sz rank tag = sched_all [LC_COL_RECV src sz rank tag]"
  "lc_col_sendrecv src dst sz rank tag = sched_all [LC_COL_SENDRECV src dst sz rank tag]"
  "lc_col_op dst src sz = sched_all [LC_COL_OP dst src sz]"
  "lc_col_memmove dst src sz = sched_all [LC_COL_MEM dst src sz]"
  "lc_col_free src = sched_all [LC_COL_FREE src]"
proof -
  have one: "col_push op = sched_all [op]" for op
  proof
    show "col_push op req = sched_all [op] req" for req by (cases "col_push op req") (simp_all add: sched_all_def)
  qed
  show "sched_all [] = Inr" by (auto simp: sched_all_def)
  show "bind_res (sched_all xs req) (sched_all ys) = sched_all (xs @ ys) req"
    by (simp add: sched_all_def [abs_def] res_fold_append)
  show "lc_col_send src sz rank tag = sched_all [LC_COL_SEND src sz rank tag]"
    "lc_col_recv src sz rank tag = sched_all [LC_COL_RECV src sz rank tag]"
    "lc_col_sendrecv src dst sz rank tag = sched_all [LC_COL_SENDRECV src dst sz rank tag]"
    "lc_col_op dst src sz = sched_all [LC_COL_OP dst src sz]"
    "lc_col_memmove dst src sz = sched_all [LC_COL_MEM dst src sz]"
    "lc_col_free src = sched_all [LC_COL_FREE src]"
    by (simp_all add: fun_eq_iff lc_col_send_def lc_col_recv_def lc_col_sendrecv_def lc_col_op_def
        lc_col_memmove_def lc_col_free_def one)
qed

lemma res_fold_push: "res_fold (\<lambda>x. sched_all (f x)) xs = sched_all (concat (map f xs))"
proof
  show "res_fold (\<lambda>x. sched_all (f x)) xs req = sched_all (concat (map f xs)) req" for req
  proof (induction xs arbitrary: req)
    case (Cons x xs)
    have "res_fold (\<lambda>x. sched_all (f x)) xs = sched_all (concat (map f xs))" by (rule ext) (rule Cons.IH)
    then show ?case by (simp add: sched_all_simps(2))
  qed (simp add: sched_all_def)
qed

text \<open>A schedule built in a fresh request.\<close>

lemma fresh_push:
  "sched_all ops (lc_colreq_init req) = Inr req' \<Longrightarrow> col_next req' = ops \<and> length ops \<le> COL_NEXT_SIZE
     \<and> \<not> flag req' \<and> cur req' = 0 \<and> pending0 req' \<and> pending1 req'"
  by (subst (asm) sched_all_eq) (auto simp: lc_colreq_init_def split: if_splits)

lemma doublings_eq:
  "0 < d \<Longrightarrow> lim \<le> d * 2 ^ m \<Longrightarrow> (m = 0 \<or> d * 2 ^ (m - 1) < lim) \<Longrightarrow> doublings d lim = map (\<lambda>k. d * 2 ^ k) [0..<m]"
proof (induction m arbitrary: d)
  case 0
  then show ?case by (subst doublings.simps) simp
next
  case (Suc m)
  have "d * 1 \<le> d * 2 ^ m" by (rule mult_le_mono) simp_all
  then have d: "d < lim" using Suc.prems(3) by (metis diff_Suc_1 le_less_trans mult.right_neutral nat.distinct(1))
  have "m = 0 \<or> 2 * d * 2 ^ (m - 1) < lim" using Suc.prems(3) by (cases m) (auto simp: ac_simps)
  then have "doublings (2 * d) lim = map (\<lambda>k. 2 * d * 2 ^ k) [0..<m]"
    using Suc.IH [of "2 * d"] Suc.prems by (simp add: ac_simps)
  then have "doublings d lim = d # map (\<lambda>k. 2 * d * 2 ^ k) [0..<m]"
    using Suc.prems(1) d by (subst doublings.simps) simp
  also have "\<dots> = map (\<lambda>k. d * 2 ^ k) [0..<Suc m]"
    by (simp add: map_upt_Suc ac_simps del: upt_Suc)
  finally show ?case .
qed

lemma bit_length_bounds: "n < 2 ^ bit_length n \<and> (0 < n \<longrightarrow> 2 ^ (bit_length n - 1) \<le> n)"
proof (induction n rule: bit_length.induct)
  case (1 n)
  show ?case
  proof (cases "n = 0")
    case False
    then have IH: "n div 2 < 2 ^ bit_length (n div 2)" "0 < n div 2 \<longrightarrow> 2 ^ (bit_length (n div 2) - 1) \<le> n div 2"
      using 1 by auto
    have s: "bit_length n = Suc (bit_length (n div 2))" using False by (subst bit_length.simps) simp
    have "2 ^ bit_length (n div 2) \<le> n"
    proof (cases "n div 2 = 0")
      case True
      then show ?thesis using False by (subst bit_length.simps) simp
    next
      case f: False
      then have "bit_length (n div 2) = Suc (bit_length (n div 2) - 1)" by (subst (1 2) bit_length.simps) simp
      then have "(2::nat) ^ bit_length (n div 2) = 2 * 2 ^ (bit_length (n div 2) - 1)" by (metis power_Suc)
      then show ?thesis using IH(2) f by linarith
    qed
    then show ?thesis using IH(1) s by simp
  qed (subst bit_length.simps, simp)
qed

lemma bit_length_pos: "0 < n \<Longrightarrow> 0 < bit_length n"
  by (subst bit_length.simps) simp

lemma bit_length_le: "n < 2 ^ m \<Longrightarrow> bit_length n \<le> m"
proof -
  assume n: "n < 2 ^ m"
  show ?thesis
  proof (cases "n = 0")
    case False
    then have "(2::nat) ^ (bit_length n - 1) < 2 ^ m" using bit_length_bounds [of n] n by linarith
    then have "bit_length n - 1 < m" by simp
    then show ?thesis by simp
  qed (subst bit_length.simps, simp)
qed

text \<open>The number of rounds of the barrier and of the recursive doubling.\<close>

definition rounds :: "nat \<Rightarrow> nat" where
  "rounds n = bit_length (n - 1)"

lemma rounds_bounds: "0 < n \<Longrightarrow> n \<le> 2 ^ rounds n \<and> (rounds n = 0 \<or> 2 ^ (rounds n - 1) < n)"
  using bit_length_bounds [of "n - 1"] by (auto simp: rounds_def bit_length.simps [of 0])

lemma doublings_rounds: "0 < n \<Longrightarrow> doublings 1 n = map (\<lambda>k. 2 ^ k) [0..<rounds n]"
  using doublings_eq [of 1 n "rounds n"] rounds_bounds [of n] by simp

lemma doublings_pow: "doublings 1 (2 ^ m) = map (\<lambda>k. 2 ^ k) [0..<m]"
  using doublings_eq [of 1 "2 ^ m" m] by (cases m) auto

lemma rounds_distance: "0 < n \<Longrightarrow> k < rounds n \<Longrightarrow> 2 ^ k < n"
proof -
  assume n: "0 < n" "k < rounds n"
  then have "(2::nat) ^ k \<le> 2 ^ (rounds n - 1)" by (intro power_increasing) auto
  also have "\<dots> < n" using rounds_bounds [OF n(1)] n(2) by auto
  finally show ?thesis .
qed

section \<open>Protocols in rounds\<close>

lemma sent_append: "sent f q g (as @ bs) st = sent f q g as st @ sent f q g bs (final f as st)"
proof (induction as arbitrary: st)
  case (Cons a as)
  show ?case by (cases a) (simp_all add: Cons.IH del: fun_upd_apply)
qed simp

lemma received_append: "received q g (as @ bs) = received q g as @ received q g bs"
  by (induction q g as rule: received.induct) auto

lemma send_times_append: "send_times q g (as @ bs) = send_times q g as @ send_times q g bs"
  by (induction q g as rule: send_times.induct) auto

lemma recv_times_append: "recv_times q g (as @ bs) = recv_times q g as @ recv_times q g bs"
  by (induction q g as rule: recv_times.induct) auto

lemma final_append: "final f (as @ bs) st = final f bs (final f as st)"
  by (induction as arbitrary: st) auto

lemmas aops_append = sent_append received_append send_times_append recv_times_append final_append

lemma stands_for_append: "stands_for as ops \<Longrightarrow> stands_for bs ops' \<Longrightarrow> stands_for (as @ bs) (ops @ ops')"
  by (induction rule: stands_for.induct) (auto intro: stands_for.intros)

definition in_rounds :: "(nat \<Rightarrow> 'v aop list) \<Rightarrow> nat \<Rightarrow> 'v aop list" where
  "in_rounds R m = concat (map R [0..<m])"

lemma in_rounds_Suc: "in_rounds R (Suc m) = in_rounds R m @ R m"
  by (simp add: in_rounds_def)

lemma in_rounds_0 [simp]: "in_rounds R 0 = []"
  by (simp add: in_rounds_def)

lemma set_in_rounds: "set (in_rounds R m) = (\<Union>k < m. set (R k))"
  by (auto simp: in_rounds_def)

text \<open>Operations of round \<open>k\<close> take place between \<open>4 * k\<close> and \<open>4 * k + 3\<close>.\<close>

definition timely :: "nat \<Rightarrow> 'v aop list \<Rightarrow> bool" where
  "timely k as \<longleftrightarrow> increasing as \<and> (\<forall>a \<in> set as. time a div 4 = k)"

lemma round_times [simp]:
  "Suc (4 * k) div 4 = k" "Suc (Suc (4 * k)) div 4 = k" "(4 * k + 2) div 4 = k" "(4 * k + 3) div 4 = (k::nat)"
  by linarith+

lemma increasing_in_rounds: "(\<And>k. timely k (R k)) \<Longrightarrow> increasing (in_rounds R m)"
proof (induction m)
  case (Suc m)
  have "time a < time b" if ab: "a \<in> set (in_rounds R m)" "b \<in> set (R m)" for a b
  proof -
    obtain k where k: "k < m" "a \<in> set (R k)" using ab(1) by (auto simp: set_in_rounds)
    then have "time a div 4 < time b div 4" using ab(2) Suc.prems by (auto simp: timely_def)
    then show ?thesis using div_le_mono [of "time b" "time a" 4] by linarith
  qed
  then show ?case using Suc.IH Suc.prems [of m] Suc.prems
    by (auto simp: in_rounds_Suc increasing_def timely_def sorted_wrt_append)
qed (simp add: increasing_def)

lemma stands_for_in_rounds: "(\<And>k. k < m \<Longrightarrow> stands_for (R k) (P k)) \<Longrightarrow> stands_for (in_rounds R m) (concat (map P [0..<m]))"
  by (induction m) (auto simp: in_rounds_Suc intro: stands_for_append stands_for.nil)

lemma fits_in_rounds:
  assumes "\<And>k p q g. k < m \<Longrightarrow> sent f q g (R p k) (final f (in_rounds (R p) k) (x p)) = received p g (R q k)"
  shows "sent f q g (in_rounds (R p) m) (x p) = received p g (in_rounds (R q) m)"
  using assms by (induction m) (auto simp: in_rounds_Suc aops_append)

lemma times_in_rounds:
  assumes "\<And>k. k < m \<Longrightarrow> list_all2 (<) (send_times q g (R p k)) (recv_times p g (R q k))"
  shows "list_all2 (<) (send_times q g (in_rounds (R p) m)) (recv_times p g (in_rounds (R q) m))"
  using assms by (induction m) (auto simp: in_rounds_Suc aops_append intro: list_all2_appendI)

text \<open>For the protocols here, all but the description of a single round is the same.\<close>

lemma protocol_in_rounds:
  assumes "\<And>p. p < n \<Longrightarrow> prog p = concat (map (P p) [0..<m])" "\<And>p. n \<le> p \<Longrightarrow> prog p = []"
    and "\<And>p k. p < n \<Longrightarrow> k < m \<Longrightarrow> stands_for (R p k) (P p k)" "\<And>p k. n \<le> p \<Longrightarrow> R p k = []"
    and "\<And>p k. timely k (R p k)"
    and "\<And>k p q g. k < m \<Longrightarrow> sent f q g (R p k) (final f (in_rounds (R p) k) (x p)) = received p g (R q k)"
    and "\<And>k p q g. k < m \<Longrightarrow> list_all2 (<) (send_times q g (R p k)) (recv_times p g (R q k))"
  shows "col_protocol f n prog x (\<lambda>p. in_rounds (R p) m)"
proof
  fix p q g
  show "stands_for (in_rounds (R p) m) (prog p)"
  proof (cases "p < n")
    case True
    then show ?thesis using assms(1,3) by (auto intro: stands_for_in_rounds)
  next
    case False
    then have "in_rounds (R p) m = []" using assms(4) by (simp add: in_rounds_def)
    then show ?thesis using False assms(2) by (simp add: stands_for.nil)
  qed
  show "increasing (in_rounds (R p) m)" using assms(5) by (rule increasing_in_rounds)
  show "sent f q g (in_rounds (R p) m) (x p) = received p g (in_rounds (R q) m)"
    using assms(6) by (rule fits_in_rounds)
  show "list_all2 (<) (send_times q g (in_rounds (R p) m)) (recv_times p g (in_rounds (R q) m))"
    using assms(7) by (rule times_in_rounds)
  show "n \<le> p \<Longrightarrow> prog p = []" by (rule assms(2))
qed

section \<open>Broadcast\<close>

definition bcast_ops :: "nat \<Rightarrow> addr \<Rightarrow> u64 \<Rightarrow> nat \<Rightarrow> nat \<Rightarrow> col_sched list" where
  "bcast_ops n buf cnt root rank =
     (if rank \<noteq> root then [LC_COL_RECV buf cnt root MCA_COLL_BASE_TAG_IBCAST]
      else map (\<lambda>i. LC_COL_SEND buf cnt i MCA_COLL_BASE_TAG_IBCAST) (filter (\<lambda>i. i \<noteq> root) [0..<n]))"

lemma bcast_schedule_ops: "bcast_schedule rank n buf cnt root = sched_all (bcast_ops n buf cnt root rank)"
proof -
  have m: "map g (filter (\<lambda>i. i \<noteq> root) l) = concat (map (\<lambda>i. if i = root then [] else [g i]) l)"
    for g :: "nat \<Rightarrow> col_sched" and l by (induction l) auto
  have c: "(\<lambda>i req. if i = root then Inr req else lc_col_send buf cnt i tag req)
      = (\<lambda>i. sched_all (if i = root then [] else [LC_COL_SEND buf cnt i tag]))" for tag
    by (simp add: fun_eq_iff sched_all_simps)
  show ?thesis
    by (cases "rank = root")
      (simp_all add: fun_eq_iff bcast_schedule_def bcast_ops_def m c res_fold_push sched_all_simps)
qed

text \<open>The root sends at times below \<open>n\<close>; the others receive at time \<open>n\<close>.\<close>

definition bcast_aops :: "nat \<Rightarrow> (nat \<Rightarrow> addr) \<Rightarrow> nat \<Rightarrow> (nat \<Rightarrow> addr \<Rightarrow> 'v) \<Rightarrow> nat \<Rightarrow> 'v aop list" where
  "bcast_aops n buf root x p =
     (if n \<le> p then []
      else if p \<noteq> root then [ARcv n (buf p) root MCA_COLL_BASE_TAG_IBCAST (x root (buf root))]
      else map (\<lambda>i. ASnd i (buf root) i MCA_COLL_BASE_TAG_IBCAST) (filter (\<lambda>i. i \<noteq> root) [0..<n]))"

lemma sent_map_ASnd: "sent f q g (map (\<lambda>i. ASnd i b i h) l) st = (if g = h then map (\<lambda>_. st b) (filter (\<lambda>i. i = q) l) else [])"
  by (induction l) auto

lemma send_times_map_ASnd: "send_times q g (map (\<lambda>i. ASnd i b i h) l) = (if g = h then filter (\<lambda>i. i = q) l else [])"
  by (induction l) auto

lemma received_map_ASnd: "received q g (map (\<lambda>i. ASnd i b i h) l) = [] \<and> recv_times q g (map (\<lambda>i. ASnd i b i h) l) = []"
  by (induction l) auto

lemma final_map_ASnd: "final f (map (\<lambda>i. ASnd i b i h) l) st = st"
  by (induction l) auto

lemma map_time_ASnd: "map time (map (\<lambda>i. ASnd i b i h) l) = l"
  by (induction l) auto

lemma filter_eq_upt: "filter (\<lambda>i. i \<noteq> r \<and> i = q) [0..<n] = (if q < n \<and> q \<noteq> r then [q] else [])"
  by (induction n) auto

lemma bcast_protocol:
  assumes "root < n" "\<And>p. p < n \<Longrightarrow> prog p = bcast_ops n (buf p) cnt root p" "\<And>p. n \<le> p \<Longrightarrow> prog p = []"
  shows "col_protocol f n prog x (bcast_aops n buf root x)"
proof
  fix p q g
  show "stands_for (bcast_aops n buf root x p) (prog p)"
  proof -
    have "stands_for (map (\<lambda>i. ASnd i b i h) l) (map (\<lambda>i. LC_COL_SEND b cnt i h) l)" for b h l
      by (induction l) (auto intro: stands_for.intros)
    then show ?thesis using assms(2,3)
      by (auto simp: bcast_aops_def bcast_ops_def not_le intro: stands_for.intros)
  qed
  show "increasing (bcast_aops n buf root x p)"
    by (auto simp: bcast_aops_def increasing_def map_time_ASnd sorted_wrt_filter simp del: map_map)
  show "sent f q g (bcast_aops n buf root x p) (x p) = received p g (bcast_aops n buf root x q)"
    using assms(1) by (auto simp: bcast_aops_def sent_map_ASnd received_map_ASnd filter_eq_upt)
  show "list_all2 (<) (send_times q g (bcast_aops n buf root x p)) (recv_times p g (bcast_aops n buf root x q))"
    using assms(1) by (auto simp: bcast_aops_def send_times_map_ASnd received_map_ASnd filter_eq_upt)
  show "n \<le> p \<Longrightarrow> prog p = []" by (rule assms(3))
qed

definition bcast_prog :: "nat \<Rightarrow> (nat \<Rightarrow> addr) \<Rightarrow> u64 \<Rightarrow> nat \<Rightarrow> nat \<Rightarrow> col_sched list" where
  "bcast_prog n buf cnt root p = (if root < n \<and> p < n then bcast_ops n (buf p) cnt root p else [])"

definition bcast_plan :: "nat \<Rightarrow> (nat \<Rightarrow> addr) \<Rightarrow> nat \<Rightarrow> (nat \<Rightarrow> addr \<Rightarrow> 'v) \<Rightarrow> nat \<Rightarrow> 'v aop list" where
  "bcast_plan n buf root x p = (if root < n then bcast_aops n buf root x p else [])"

interpretation bcast: col_protocol f n "bcast_prog n buf cnt root" x "bcast_plan n buf root x"
proof (cases "root < n")
  case True
  then have "bcast_plan n buf root x = bcast_aops n buf root x" by (simp add: fun_eq_iff bcast_plan_def)
  then show "col_protocol f n (bcast_prog n buf cnt root) x (bcast_plan n buf root x)"
    using True by (auto intro!: bcast_protocol simp: bcast_prog_def)
next
  case False
  then show "col_protocol f n (bcast_prog n buf cnt root) x (bcast_plan n buf root x)"
    using empty_protocol by (simp add: bcast_prog_def [abs_def] bcast_plan_def [abs_def])
qed

text \<open>
  Property C23. Every process gets the root's value. Whatever the interleaving, the schedules
  that the processes of a broadcast build run to their end in a fixed number of steps without
  getting stuck, and then each buffer holds what the buffer of the root held.
\<close>

theorem bcast_delivers:
  assumes "root < n" "\<forall>p < n. bcast_schedule p n (buf p) cnt root (lc_colreq_init r) = Inr (req p)"
    and "prog = (\<lambda>p. if p < n then col_next (req p) else [])" "col_steps f k (net_start prog x) c"
  shows "if k = col_weight n prog then all_done c \<and> (\<forall>p < n. store c p (buf p) = x root (buf root))
         else k < col_weight n prog \<and> (\<exists>d. col_step f c d)"
proof -
  have "prog = bcast_prog n buf cnt root"
    using assms(1-3) fresh_push by (auto simp: bcast_schedule_ops bcast_prog_def fun_eq_iff)
  then show ?thesis using bcast.completes [of f k n buf cnt root x c] assms(1,4)
    by (auto simp: bcast_plan_def bcast_aops_def final_map_ASnd split: if_splits)
qed

definition fresh_req :: lc_colreq where
  "fresh_req = \<lparr>flag = False, cur = 0, pending0 = True, pending1 = True, col_next = []\<rparr>"

text \<open>The schedules of all processes, for the concrete runs below.\<close>

definition run_of :: "nat \<Rightarrow> (nat \<Rightarrow> lc_colreq \<Rightarrow> lc_colreq res) \<Rightarrow> nat \<Rightarrow> col_sched list" where
  "run_of n sched p = (if p < n then (case sched p (lc_colreq_init fresh_req) of Inr req \<Rightarrow> col_next req | Inl _ \<Rightarrow> []) else [])"

theorem bcast_delivers_witness:
  "\<exists>c. col_steps (+) 4 (net_start (run_of 3 (\<lambda>p. bcast_schedule p 3 64 8 1)) (\<lambda>p a. int p * 100)) c
     \<and> all_done c \<and> (\<forall>p < 3. store c p 64 = 100)"
proof -
  let ?prog = "run_of 3 (\<lambda>p. bcast_schedule p 3 64 8 1)" and ?x = "\<lambda>(p::nat) (a::addr). int p * 100"
  define req where "req p = lc_colreq_init fresh_req\<lparr>col_next := bcast_ops 3 64 8 1 p\<rparr>" for p
  have built: "\<forall>p < 3. bcast_schedule p 3 64 8 1 (lc_colreq_init fresh_req) = Inr (req p)"
    by (auto simp: bcast_schedule_ops sched_all_eq req_def lc_colreq_init_def bcast_ops_def COL_NEXT_SIZE_def upt_rec)
  then have prog: "?prog = (\<lambda>p. if p < 3 then col_next (req p) else [])"
    by (auto simp: run_of_def fun_eq_iff)
  have w: "col_weight 3 ?prog = 4"
    unfolding prog col_weight_def
    by (simp add: req_def bcast_ops_def lessThan_nat_numeral lessThan_Suc numeral_eq_Suc upt_rec)
  have "?prog = bcast_prog 3 (\<lambda>_. 64) 8 1" unfolding prog by (auto simp: req_def bcast_prog_def)
  then obtain c where c: "col_steps (+) 4 (net_start ?prog ?x) c"
    using bcast.run_exists [of 4 3 "\<lambda>_. 64" 8 1 "(+)" ?x] w by auto
  show ?thesis using bcast_delivers [of 1 3 "\<lambda>_. 64" 8 fresh_req req, OF _ built prog c] w c by auto
qed

text \<open>
  The schedule has room for 128 operations and nothing checks it: with more than
  129 processes the root of a broadcast writes behind its request.
\<close>

theorem bcast_overflow:
  assumes "root < n"
  shows "if n \<le> 129 then \<exists>req'. bcast_schedule root n buf cnt root (lc_colreq_init req) = Inr req'
         else bcast_schedule root n buf cnt root (lc_colreq_init req) = Inl Out_of_bounds"
proof -
  have "length (filter (\<lambda>i. i \<noteq> root) [0..<n]) = n - 1"
    using assms by (induction n) (auto simp: less_Suc_eq)
  then show ?thesis
    by (auto simp: bcast_schedule_ops sched_all_eq bcast_ops_def lc_colreq_init_def COL_NEXT_SIZE_def)
qed

theorem bcast_overflow_witness:
  "bcast_schedule 0 200 64 8 0 (lc_colreq_init fresh_req) = Inl Out_of_bounds"
  using bcast_overflow [of 0 200 64 8] by simp

section \<open>Barrier\<close>

definition barrier_round :: "nat \<Rightarrow> addr \<Rightarrow> nat \<Rightarrow> nat \<Rightarrow> col_sched list" where
  "barrier_round n ebuf rank k =
     [LC_COL_SEND ebuf 1 ((rank + 2 ^ k) mod n) MCA_COLL_BASE_TAG_IBARRIER,
      LC_COL_RECV ebuf 1 ((rank + n - 2 ^ k) mod n) MCA_COLL_BASE_TAG_IBARRIER]"

lemma barrier_schedule_ops:
  assumes "0 < n"
  shows "barrier_schedule rank n ebuf = sched_all (concat (map (barrier_round n ebuf rank) [0..<rounds n]))"
proof -
  define h where "h d = [LC_COL_SEND ebuf 1 ((rank + d) mod n) MCA_COLL_BASE_TAG_IBARRIER,
      LC_COL_RECV ebuf 1 ((rank + n - d) mod n) MCA_COLL_BASE_TAG_IBARRIER]" for d
  have "barrier_schedule rank n ebuf = res_fold (\<lambda>d. sched_all (h d)) (doublings 1 n)"
    by (simp add: fun_eq_iff barrier_schedule_def sched_all_simps h_def)
  then show ?thesis
    by (simp add: res_fold_push doublings_rounds [OF assms] h_def barrier_round_def [abs_def] comp_def del: One_nat_def)
qed

text \<open>The byte that is passed around: the value in the buffer of a process before round \<open>k\<close>.\<close>

fun barrier_val :: "nat \<Rightarrow> (nat \<Rightarrow> addr) \<Rightarrow> (nat \<Rightarrow> addr \<Rightarrow> 'v) \<Rightarrow> nat \<Rightarrow> nat \<Rightarrow> 'v" where
  "barrier_val n ebuf x p 0 = x p (ebuf p)"
| "barrier_val n ebuf x p (Suc k) = barrier_val n ebuf x ((p + n - 2 ^ k) mod n) k"

definition barrier_aops :: "nat \<Rightarrow> (nat \<Rightarrow> addr) \<Rightarrow> (nat \<Rightarrow> addr \<Rightarrow> 'v) \<Rightarrow> nat \<Rightarrow> nat \<Rightarrow> 'v aop list" where
  "barrier_aops n ebuf x p k = (if n \<le> p then [] else
     [ASnd (4 * k) (ebuf p) ((p + 2 ^ k) mod n) MCA_COLL_BASE_TAG_IBARRIER,
      ARcv (4 * k + 1) (ebuf p) ((p + n - 2 ^ k) mod n) MCA_COLL_BASE_TAG_IBARRIER (barrier_val n ebuf x p (Suc k))])"

lemma mod_shift:
  fixes p q d n :: nat
  assumes "p < n" "q < n" "d < n"
  shows "(p + d) mod n = q \<longleftrightarrow> (q + n - d) mod n = p"
proof -
  have "(p + d) mod n = (if p + d < n then p + d else p + d - n)"
    using assms by (simp add: le_mod_geq)
  moreover have "(q + n - d) mod n = (if q < d then q + n - d else q - d)"
    using assms by (auto simp: le_mod_geq)
  ultimately show ?thesis using assms by auto
qed

lemma barrier_final:
  "p < n \<Longrightarrow> final f (in_rounds (barrier_aops n ebuf x p) k) (x p) (ebuf p) = barrier_val n ebuf x p k"
  by (induction k) (simp_all add: in_rounds_Suc final_append barrier_aops_def)

lemma barrier_timely: "timely k (barrier_aops n ebuf x p k)"
  by (simp add: timely_def increasing_def barrier_aops_def)

lemmas barrier_increasing = increasing_in_rounds [OF barrier_timely]

lemma barrier_protocol:
  assumes "0 < n" "\<And>p. p < n \<Longrightarrow> prog p = concat (map (barrier_round n (ebuf p) p) [0..<rounds n])"
    "\<And>p. n \<le> p \<Longrightarrow> prog p = []"
  shows "col_protocol f n prog x (\<lambda>p. in_rounds (barrier_aops n ebuf x p) (rounds n))"
proof (rule protocol_in_rounds [OF assms(2,3)])
  fix k p q g
  show "p < n \<Longrightarrow> stands_for (barrier_aops n ebuf x p k) (barrier_round n (ebuf p) p k)"
    by (simp add: barrier_aops_def barrier_round_def stands_for.intros)
  show "timely k (barrier_aops n ebuf x p k)" by (rule barrier_timely)
  assume k: "k < rounds n"
  have d: "p < n \<Longrightarrow> q < n \<Longrightarrow> (p + 2 ^ k) mod n = q \<longleftrightarrow> (q + n - 2 ^ k) mod n = p"
    by (rule mod_shift) (use rounds_distance [OF assms(1) k] in auto)
  have b: "y mod n < n" for y using assms(1) by simp
  show "sent f q g (barrier_aops n ebuf x p k) (final f (in_rounds (barrier_aops n ebuf x p) k) (x p))
      = received p g (barrier_aops n ebuf x q k)"
    using d b [of "p + 2 ^ k"] b [of "q + n - 2 ^ k"] barrier_final [of p n f ebuf x k]
    by (cases "p < n"; cases "q < n") (auto simp: barrier_aops_def)
  show "list_all2 (<) (send_times q g (barrier_aops n ebuf x p k)) (recv_times p g (barrier_aops n ebuf x q k))"
    using d b [of "p + 2 ^ k"] b [of "q + n - 2 ^ k"]
    by (cases "p < n"; cases "q < n") (auto simp: barrier_aops_def)
qed (use assms in \<open>simp_all add: barrier_aops_def\<close>)

definition barrier_prog :: "nat \<Rightarrow> (nat \<Rightarrow> addr) \<Rightarrow> nat \<Rightarrow> col_sched list" where
  "barrier_prog n ebuf p = (if p < n then concat (map (barrier_round n (ebuf p) p) [0..<rounds n]) else [])"

definition barrier_plan :: "nat \<Rightarrow> (nat \<Rightarrow> addr) \<Rightarrow> (nat \<Rightarrow> addr \<Rightarrow> 'v) \<Rightarrow> nat \<Rightarrow> 'v aop list" where
  "barrier_plan n ebuf x p = in_rounds (barrier_aops n ebuf x p) (rounds n)"

interpretation barrier: col_protocol f n "barrier_prog n ebuf" x "barrier_plan n ebuf x"
proof (cases "0 < n")
  case True
  then show "col_protocol f n (barrier_prog n ebuf) x (barrier_plan n ebuf x)"
    unfolding barrier_plan_def [abs_def] by (intro barrier_protocol) (auto simp: barrier_prog_def)
next
  case False
  then show "col_protocol f n (barrier_prog n ebuf) x (barrier_plan n ebuf x)"
    using empty_protocol
    by (simp add: barrier_prog_def [abs_def] barrier_plan_def [abs_def] rounds_def bit_length.simps [of 0])
qed

lemma barrier_aops_in:
  assumes "k < m" "p < n"
  shows "ASnd (4 * k) (ebuf p) ((p + 2 ^ k) mod n) MCA_COLL_BASE_TAG_IBARRIER \<in> set (in_rounds (barrier_aops n ebuf x p) m)"
  using assms by (force simp: set_in_rounds barrier_aops_def)

lemma barrier_recv_in:
  assumes "ARcv t dst p g v \<in> set (in_rounds (barrier_aops n ebuf x q) m)"
  shows "\<exists>k < m. t = 4 * k + 1 \<and> p = (q + n - 2 ^ k) mod n \<and> q < n"
  using assms by (auto simp: set_in_rounds barrier_aops_def split: if_splits)

lemma shift_inj:
  fixes p i j n :: nat
  assumes "(p + i) mod n = (p + j) mod n" "i < n" "j < n"
  shows "i = j"
proof -
  have "(int p + int i) mod int n = (int p + int j) mod int n" using assms(1) by (metis of_nat_add of_nat_mod)
  then have "int i mod int n = int j mod int n" by (metis add_diff_cancel_left' mod_diff_left_eq)
  then show ?thesis using assms(2,3) by simp
qed

text \<open>A message of round \<open>k\<close> that is still to be sent keeps its receiver in round \<open>k\<close>.\<close>

lemma barrier_blocks:
  assumes "0 < n" "chan_inv f A st ch" "\<And>p. suffix (A p) (in_rounds (barrier_aops n ebuf x p) (rounds n))"
    and "p < n" "k < rounds n" "ASnd (4 * k) (ebuf p) ((p + 2 ^ k) mod n) MCA_COLL_BASE_TAG_IBARRIER \<in> set (A p)"
  shows "\<exists>a \<in> set (A ((p + 2 ^ k) mod n)). time a \<le> 4 * k + 1"
proof -
  define q where "q = (p + 2 ^ k) mod n"
  obtain t dst v where r: "ARcv t dst p MCA_COLL_BASE_TAG_IBARRIER v \<in> set (A q)"
    using waits_for [OF assms(2,6)] by (auto simp: q_def)
  then have "ARcv t dst p MCA_COLL_BASE_TAG_IBARRIER v \<in> set (in_rounds (barrier_aops n ebuf x q) (rounds n))"
    using set_mono_suffix [OF assms(3)] by blast
  then obtain j where j: "j < rounds n" "t = 4 * j + 1" "p = (q + n - 2 ^ j) mod n" "q < n"
    using barrier_recv_in [of t dst p _ v n ebuf x q "rounds n"] by auto
  then have "(p + 2 ^ j) mod n = q"
    using mod_shift [of p n q "2 ^ j"] rounds_distance [OF assms(1) j(1)] assms(4) by auto
  then have "(2::nat) ^ j = 2 ^ k"
    using shift_inj [of p "2 ^ j" n "2 ^ k"] rounds_distance [OF assms(1)] j(1) assms(5) by (auto simp: q_def)
  then have "ARcv (4 * k + 1) dst p MCA_COLL_BASE_TAG_IBARRIER v \<in> set (A q)" using r j(2) by simp
  then show ?thesis unfolding q_def by (rule bexI [rotated]) simp
qed

lemma barrier_waits:
  assumes "0 < n" "chan_inv f A st ch" "\<And>p. suffix (A p) (in_rounds (barrier_aops n ebuf x p) (rounds n))"
    and q: "q < n" "A q = in_rounds (barrier_aops n ebuf x q) (rounds n)"
  shows "k < rounds n \<Longrightarrow> 0 < d \<Longrightarrow> d < 2 * 2 ^ k \<Longrightarrow> \<exists>a \<in> set (A ((q + d) mod n)). time a \<le> 4 * k + 1"
proof (induction k arbitrary: d)
  case 0
  then have "d = 1" by simp
  then show ?case using barrier_blocks [OF assms(1-3) q(1), of 0] barrier_aops_in [of 0 "rounds n" q n ebuf x] q 0
    by auto
next
  case (Suc k)
  show ?case
  proof (cases "d < 2 ^ Suc k")
    case True
    then show ?thesis using Suc.IH [of d] Suc.prems by force
  next
    case False
    define p where "p = (q + (d - 2 ^ Suc k)) mod n"
    have p: "p < n" "(p + 2 ^ Suc k) mod n = (q + d) mod n"
      using False assms(1) by (auto simp: p_def mod_add_left_eq)
    have "\<exists>a \<in> set (A p). time a \<le> 4 * Suc k"
    proof (cases "d = 2 ^ Suc k")
      case True
      then have "p = q" using q(1) by (simp add: p_def)
      then show ?thesis using barrier_aops_in [OF Suc.prems(1) q(1), of ebuf x] q(2) by force
    next
      case f: False
      have "d - 2 ^ Suc k < 2 * 2 ^ k" using Suc.prems(3) by simp
      then show ?thesis using Suc.IH [of "d - 2 ^ Suc k"] Suc.prems f False by (force simp: p_def)
    qed
    then have "ASnd (4 * Suc k) (ebuf p) ((p + 2 ^ Suc k) mod n) MCA_COLL_BASE_TAG_IBARRIER \<in> set (A p)"
      using suffix_later [OF assms(3) barrier_increasing _ barrier_aops_in [OF Suc.prems(1) p(1), of ebuf x]]
      by auto
    then show ?thesis using barrier_blocks [OF assms(1-3) p(1) Suc.prems(1)] p(2) by simp
  qed
qed

lemma stands_for_length: "stands_for as ops \<Longrightarrow> length as = sum_list (map op_weight ops)"
  by (induction rule: stands_for.induct) auto

lemma col_inv_fresh:
  assumes "col_inv f A0 x A c" "stands_for (A0 p) (todo c p)"
  shows "A p = A0 p"
proof -
  have "suffix (A p) (A0 p)" "stands_for (A p) (todo c p)" using assms(1) by (auto simp: col_inv_def)
  then show ?thesis using stands_for_length [OF assms(2)] stands_for_length [of "A p" "todo c p"]
    by (auto simp: suffix_def)
qed

text \<open>
  Property C15. The barrier is a barrier: whatever the interleaving, when some process has
  worked off its schedule, every process has begun its own.
\<close>

theorem barrier_synchronises:
  assumes "1 < n" "\<forall>p < n. barrier_schedule p n (ebuf p) (lc_colreq_init r) = Inr (req p)"
    and prog: "prog = (\<lambda>p. if p < n then col_next (req p) else [])" and steps: "col_steps f k (net_start prog x) c"
    and p: "p < n" "todo c p = []" and q: "q < n"
  shows "todo c q \<noteq> col_next (req q)"
proof
  let ?A0 = "barrier_plan n ebuf x"
  assume todo: "todo c q = col_next (req q)"
  have "col_next (req p) = concat (map (barrier_round n (ebuf p) p) [0..<rounds n])" if "p < n" for p
    using assms(1,2) that fresh_push by (auto simp: barrier_schedule_ops)
  then have P: "prog = barrier_prog n ebuf" using prog by (auto simp: barrier_prog_def)
  obtain A where A: "col_inv f ?A0 x A c" using barrier.reachable_inv steps unfolding P by blast
  have m: "0 < rounds n" using assms(1) by (simp add: rounds_def bit_length_pos)
  have "prog q = todo c q" using prog q todo by simp
  then have "A q = ?A0 q" using col_inv_fresh [OF A, of q] barrier.stands [of n ebuf x q] P by simp
  have Ap: "A p = []" using A p(2) unfolding col_inv_def by (metis stands_for_Nil)
  have "p \<noteq> q" using \<open>A q = ?A0 q\<close> Ap barrier_aops_in [OF m q, of ebuf x]
    by (auto simp: barrier_plan_def)
  define d where "d = (p + n - q) mod n"
  have d: "(q + d) mod n = p" "d < n" using mod_shift [of p n d q] p q by (auto simp: d_def ac_simps mod_add_right_eq)
  then have "0 < d" using \<open>p \<noteq> q\<close> q by (cases d) auto
  have "n \<le> 2 * 2 ^ (rounds n - 1)" using rounds_bounds [of n] assms(1) m by (simp flip: power_Suc)
  then have "\<exists>a \<in> set (A ((q + d) mod n)). time a \<le> 4 * (rounds n - 1) + 1"
    using barrier_waits [of n f A "store c" "chan c" ebuf x q "rounds n - 1" d] A assms(1) q \<open>A q = ?A0 q\<close> m d(2) \<open>0 < d\<close>
    by (auto simp: col_inv_def barrier_plan_def)
  then show False using d(1) Ap by simp
qed

lemma length_concat_le: "(\<And>k. length (g k) \<le> b) \<Longrightarrow> length (concat (map g [0..<m])) \<le> m * b"
  by (induction m) (auto intro: add_le_mono simp: add.commute)

lemma sched_all_ok:
  "length ops \<le> 128 \<Longrightarrow> sched_all ops (lc_colreq_init req) = Inr ((lc_colreq_init req)\<lparr>col_next := ops\<rparr>)"
  by (subst sched_all_eq) (auto simp: lc_colreq_init_def COL_NEXT_SIZE_def)

lemma barrier_fits:
  assumes "0 < n" "n \<le> 2 ^ 31"
  shows "barrier_schedule p n ebuf (lc_colreq_init req)
    = Inr ((lc_colreq_init req)\<lparr>col_next := concat (map (barrier_round n ebuf p) [0..<rounds n])\<rparr>)"
proof -
  have "rounds n \<le> 31" unfolding rounds_def using assms by (intro bit_length_le) auto
  moreover have "length (barrier_round n ebuf p k) \<le> 2" for k by (simp add: barrier_round_def)
  ultimately have "length (concat (map (barrier_round n ebuf p) [0..<rounds n])) \<le> 128"
    using length_concat_le [of "barrier_round n ebuf p" 2 "rounds n"] by simp
  then show ?thesis using assms(1) by (simp add: barrier_schedule_ops sched_all_ok)
qed

theorem barrier_synchronises_witness:
  "\<exists>c. col_steps (+) 4 (net_start (run_of 2 (\<lambda>p. barrier_schedule p 2 64)) (\<lambda>p a. 0 :: int)) c
     \<and> todo c 0 = [] \<and> todo c 1 \<noteq> run_of 2 (\<lambda>p. barrier_schedule p 2 64) 1"
proof -
  let ?prog = "run_of 2 (\<lambda>p. barrier_schedule p 2 64)" and ?x = "\<lambda>(p::nat) (a::addr). 0 :: int"
  define req where "req p = lc_colreq_init fresh_req\<lparr>col_next := concat (map (barrier_round 2 64 p) [0..<rounds 2])\<rparr>" for p
  have built: "\<forall>p < 2. barrier_schedule p 2 64 (lc_colreq_init fresh_req) = Inr (req p)"
    by (auto simp: barrier_fits req_def)
  then have prog: "?prog = (\<lambda>p. if p < 2 then col_next (req p) else [])"
    by (auto simp: run_of_def fun_eq_iff)
  have r: "rounds 2 = Suc 0" by (simp add: rounds_def bit_length.simps)
  have w: "col_weight 2 ?prog = 4"
    unfolding prog col_weight_def req_def r by (simp add: barrier_round_def lessThan_nat_numeral)
  have P: "?prog = barrier_prog 2 (\<lambda>_. 64)" unfolding prog by (auto simp: req_def barrier_prog_def)
  then obtain c where c: "col_steps (+) 4 (net_start ?prog ?x) c"
    using barrier.run_exists [of 4 2 "\<lambda>_. 64" "(+)" ?x] w by auto
  then have "all_done c" using barrier.done_iff [of "(+)" 4 2 "\<lambda>_. 64" ?x c] w P by simp
  then show ?thesis
    using barrier_synchronises [of 2 "\<lambda>_. 64" fresh_req req ?prog "(+)" 4 ?x c 0 1, OF _ built prog c] c
    by (auto simp: all_done_def prog)
qed

end
