(* ===== verification/LC_Allreduce.thy ===== *)
theory LC_Allreduce
  imports LC_Coll_Spec
begin

text \<open>
  The allreduce of \<open>coll/ialreduce.h\<close>: recursive doubling on the largest power of two that is
  not above the number of processes, with the remaining processes folded into it first and
  served last.
\<close>

unbundle bit_operations_syntax

section \<open>Ranks of the recursive doubling\<close>

definition real_rank :: "nat \<Rightarrow> nat \<Rightarrow> nat" where
  "real_rank e r = (if r < e then r * 2 + 1 else r + e)"

lemma remote_of_real: "remote_of e r d = real_rank e (r XOR d)"
  by (simp add: remote_of_def real_rank_def Let_def)

lemma real_rank_inj: "real_rank e r = real_rank e s \<longleftrightarrow> r = s"
  by (auto simp: real_rank_def split: if_splits)

lemma real_rank_less: "r < 2 ^ m \<Longrightarrow> 2 ^ m \<le> n \<Longrightarrow> n < 2 * 2 ^ m \<Longrightarrow> real_rank (n - 2 ^ m) r < n"
  by (auto simp: real_rank_def)

lemma newrank_real: "newrank_of e (real_rank e r) = int r"
  by (auto simp: newrank_of_def real_rank_def) presburger

lemma real_newrank: "0 \<le> newrank_of e p \<Longrightarrow> real_rank e (nat (newrank_of e p)) = p"
  by (auto simp: newrank_of_def real_rank_def split: if_splits) presburger+

lemma newrank_less:
  assumes "p < n" "2 ^ m \<le> n" "n < 2 * 2 ^ m" "0 \<le> newrank_of (n - 2 ^ m) p"
  shows "nat (newrank_of (n - 2 ^ m) p) < 2 ^ m"
  using assms by (auto simp: newrank_of_def split: if_splits)

lemma newrank_negative: "newrank_of e p < 0 \<longleftrightarrow> p < 2 * e \<and> even p"
  by (auto simp: newrank_of_def even_iff_mod_2_eq_zero)

lemma xor_less:
  fixes r :: nat
  assumes "r < 2 ^ m" "j < m"
  shows "r XOR 2 ^ j < 2 ^ m"
proof -
  have "drop_bit m (r XOR 2 ^ j) = 0"
    unfolding drop_bit_xor using assms by (simp add: drop_bit_eq_div power_strict_increasing)
  then show ?thesis by (simp add: drop_bit_eq_div div_eq_0_iff)
qed

lemma xor_twice [simp]: "(r XOR d) XOR d = (r::nat)"
  by (simp add: xor.assoc)

section \<open>Sums over blocks\<close>

definition folded :: "nat \<Rightarrow> (nat \<Rightarrow> 'v::comm_monoid_add) \<Rightarrow> nat \<Rightarrow> 'v" where
  "folded e g r = (if r < e then g (2 * r + 1) + g (2 * r) else g (r + e))"

definition block_sum :: "nat \<Rightarrow> nat \<Rightarrow> (nat \<Rightarrow> 'v::comm_monoid_add) \<Rightarrow> nat \<Rightarrow> nat \<Rightarrow> 'v" where
  "block_sum m e g k r = (\<Sum>r' | r' < 2 ^ m \<and> r' div 2 ^ k = r div 2 ^ k. folded e g r')"

lemma same_half: "a div 2 = b div 2 \<longleftrightarrow> a = b \<or> a = (b::nat) XOR 1"
proof -
  have "b XOR 1 = (if even b then b + 1 else b - 1)" by (simp add: xor_Suc_0_eq)
  then show ?thesis by (cases "even b") (simp_all, presburger+)
qed

lemma xor_div: "(r XOR 2 ^ j) div 2 ^ j = (r div 2 ^ j) XOR (1::nat)"
proof -
  have "drop_bit j (r XOR 2 ^ j) = drop_bit j r XOR (1::nat)"
    unfolding drop_bit_xor by (simp add: drop_bit_eq_div [of j "2 ^ j"])
  then show ?thesis by (simp add: drop_bit_eq_div)
qed

lemma block_sum_Suc:
  "block_sum m e g (Suc j) r = block_sum m e g j r + block_sum m e g j (r XOR 2 ^ j)"
proof -
  have "r' div 2 ^ Suc j = r div 2 ^ Suc j \<longleftrightarrow> r' div 2 ^ j = r div 2 ^ j \<or> r' div 2 ^ j = (r XOR 2 ^ j) div 2 ^ j" for r'
    using same_half [of "r' div 2 ^ j" "r div 2 ^ j"] by (simp add: xor_div div_mult2_eq mult.commute [of 2])
  then have "{r'. r' < 2 ^ m \<and> r' div 2 ^ Suc j = r div 2 ^ Suc j} =
      {r'. r' < 2 ^ m \<and> r' div 2 ^ j = r div 2 ^ j} \<union> {r'. r' < 2 ^ m \<and> r' div 2 ^ j = (r XOR 2 ^ j) div 2 ^ j}"
    by auto
  moreover have "r div 2 ^ j \<noteq> (r XOR 2 ^ j) div 2 ^ j"
    unfolding xor_div by (cases "even (r div 2 ^ j)") (auto simp: xor_Suc_0_eq elim: oddE)
  ultimately show ?thesis unfolding block_sum_def
    by (simp add: sum.union_disjoint [symmetric] disjoint_iff)
qed

lemma block_sum_0: "r < 2 ^ m \<Longrightarrow> block_sum m e g 0 r = folded e g r"
proof -
  assume "r < 2 ^ m"
  then have "{r'. r' < 2 ^ m \<and> r' div 2 ^ 0 = r div 2 ^ 0} = {r}" by auto
  then show ?thesis by (simp add: block_sum_def)
qed

lemma sum_pairs: "(\<Sum>r < e. g (2 * r + 1) + g (2 * r)) = (\<Sum>p < 2 * (e::nat). g p)"
  by (induction e) (auto simp: ac_simps)

lemma sum_folded:
  assumes "2 ^ m \<le> n" "n < 2 * 2 ^ m"
  shows "(\<Sum>r < 2 ^ m. folded (n - 2 ^ m) g r) = (\<Sum>p < n. g p)"
proof -
  define e where "e = n - 2 ^ m"
  have e: "e \<le> 2 ^ m" "2 * e \<le> n" "n = 2 ^ m + e" using assms by (auto simp: e_def)
  have "(\<Sum>r < 2 ^ m. folded e g r) = (\<Sum>r < e. folded e g r) + (\<Sum>r = e..<2 ^ m. folded e g r)"
    using e(1) by (metis atLeast0LessThan sum.atLeastLessThan_concat zero_le)
  also have "\<dots> = (\<Sum>r < e. g (2 * r + 1) + g (2 * r)) + (\<Sum>r = e..<2 ^ m. g (r + e))"
    by (simp add: folded_def)
  also have "\<dots> = (\<Sum>p < 2 * e. g p) + (\<Sum>p = 2 * e..<n. g p)"
    unfolding sum_pairs using sum.shift_bounds_nat_ivl [of g e e "2 ^ m"] e(3) by (simp add: mult_2)
  also have "\<dots> = (\<Sum>p < n. g p)"
    using e(2) by (metis atLeast0LessThan sum.atLeastLessThan_concat zero_le)
  finally show ?thesis by (simp add: e_def)
qed

lemma block_sum_all:
  assumes "2 ^ m \<le> n" "n < 2 * 2 ^ m" "r < 2 ^ m"
  shows "block_sum m (n - 2 ^ m) g m r = (\<Sum>p < n. g p)"
proof -
  have "{r'. r' < 2 ^ m \<and> r' div 2 ^ m = r div 2 ^ m} = {..<2 ^ m}" using assms(3) by auto
  then show ?thesis using sum_folded [OF assms(1,2)] by (simp add: block_sum_def)
qed

section \<open>The schedule in rounds\<close>

definition ar_round :: "nat \<Rightarrow> nat \<Rightarrow> addr \<Rightarrow> addr \<Rightarrow> u64 \<Rightarrow> nat \<Rightarrow> nat \<Rightarrow> col_sched list" where
  "ar_round m e tmp rbuf cnt rank k =
     (let tag = MCA_COLL_BASE_TAG_IALLREDUCE
      in if k = 0 then
           if 2 * e \<le> rank then []
           else if even rank then [LC_COL_SEND tmp cnt (rank + 1) tag]
           else [LC_COL_RECV rbuf cnt (rank - 1) tag, LC_COL_OP tmp rbuf cnt]
         else if k \<le> m then
           if newrank_of e rank < 0 then []
           else [LC_COL_SENDRECV tmp rbuf cnt (remote_of e (nat (newrank_of e rank)) (2 ^ (k - 1))) tag,
                 LC_COL_OP tmp rbuf cnt]
         else if 2 * e \<le> rank then [LC_COL_MEM rbuf tmp cnt, LC_COL_FREE tmp]
           else if even rank then [LC_COL_RECV rbuf cnt (rank + 1) tag, LC_COL_FREE tmp]
           else [LC_COL_SEND tmp cnt (rank - 1) tag, LC_COL_MEM rbuf tmp cnt, LC_COL_FREE tmp])"

definition ar_dim :: "nat \<Rightarrow> nat" where
  "ar_dim n = bit_length n - 1"

lemma ar_dim_bounds: "0 < n \<Longrightarrow> 2 ^ ar_dim n \<le> n \<and> n < 2 * 2 ^ ar_dim n"
  using bit_length_bounds [of n] bit_length_pos [of n] by (simp add: ar_dim_def flip: power_Suc)

lemma adjsize: "0 < n \<Longrightarrow> n < 2 ^ 31 \<Longrightarrow> opal_next_poweroftwo n div 2 = 2 ^ ar_dim n"
proof -
  assume n: "0 < n" "n < 2 ^ 31"
  then have "bit_length n \<le> 31" by (intro bit_length_le)
  then have "(2::nat) ^ bit_length n < 2 ^ 32" by (intro power_strict_increasing) auto
  moreover have "(2::nat) ^ bit_length n = 2 * 2 ^ ar_dim n"
    using bit_length_pos [OF n(1)] by (simp add: ar_dim_def flip: power_Suc)
  ultimately show ?thesis using n(1) by (simp add: opal_next_poweroftwo_def)
qed

lemma concat_split:
  "concat (map g [0..<Suc (Suc m)]) = g 0 @ concat (map (\<lambda>k. g (Suc k)) [0..<m]) @ g (Suc m)"
proof -
  have "map g [0..<Suc (Suc m)] = g 0 # map (\<lambda>k. g (Suc k)) [0..<Suc m]"
    by (rule map_upt_Suc)
  then show ?thesis unfolding \<open>map g _ = _\<close> by simp
qed

lemma allreduce_schedule_ops:
  assumes n: "1 < n" "n < 2 ^ 31"
  shows "allreduce_schedule rank n tmp rbuf cnt =
    sched_all (concat (map (ar_round (ar_dim n) (n - 2 ^ ar_dim n) tmp rbuf cnt rank) [0..<Suc (Suc (ar_dim n))]))"
proof -
  let ?m = "ar_dim n" and ?e = "n - 2 ^ ar_dim n" and ?tag = MCA_COLL_BASE_TAG_IALLREDUCE
  have adj: "opal_next_poweroftwo n div 2 = 2 ^ ?m" using n by (intro adjsize) auto
  have mid: "concat (map (\<lambda>k. ar_round ?m ?e tmp rbuf cnt rank (Suc k)) [0..<?m]) =
      (if newrank_of ?e rank < 0 then [] else concat (map (\<lambda>d. [LC_COL_SENDRECV tmp rbuf cnt
         (remote_of ?e (nat (newrank_of ?e rank)) d) ?tag, LC_COL_OP tmp rbuf cnt]) (doublings 1 (2 ^ ?m))))"
    unfolding doublings_pow
    by (auto simp: ar_round_def Let_def comp_def concat_eq_Nil_conv intro!: arg_cong [of _ _ concat])
  show ?thesis unfolding concat_split mid
    by (rule ext) (cases "rank < 2 * ?e"; cases "even rank"; cases "newrank_of ?e rank < 0";
      simp add: allreduce_schedule_def adj Let_def res_fold_push
        sched_all_simps ar_round_def even_iff_mod_2_eq_zero [symmetric] newrank_negative
        del: One_nat_def)
qed

section \<open>What the processes compute\<close>

definition ar_aops :: "nat \<Rightarrow> nat \<Rightarrow> (nat \<Rightarrow> addr) \<Rightarrow> (nat \<Rightarrow> addr) \<Rightarrow> (nat \<Rightarrow> addr \<Rightarrow> 'v::comm_monoid_add) \<Rightarrow>
    nat \<Rightarrow> nat \<Rightarrow> 'v aop list" where
  "ar_aops n m tmp rbuf x p k =
     (let tag = MCA_COLL_BASE_TAG_IALLREDUCE; e = n - 2 ^ m; g = (\<lambda>q. x q (tmp q)); r = nat (newrank_of e p)
      in if n \<le> p then []
         else if k = 0 then
           if 2 * e \<le> p then []
           else if even p then [ASnd 0 (tmp p) (p + 1) tag]
           else [ARcv 1 (rbuf p) (p - 1) tag (g (p - 1)), AOp 2 (tmp p) (rbuf p)]
         else if k \<le> m then
           if newrank_of e p < 0 then []
           else [ASnd (4 * k) (tmp p) (real_rank e (r XOR 2 ^ (k - 1))) tag,
                 ARcv (4 * k + 1) (rbuf p) (real_rank e (r XOR 2 ^ (k - 1))) tag
                   (block_sum m e g (k - 1) (r XOR 2 ^ (k - 1))),
                 AOp (4 * k + 2) (tmp p) (rbuf p)]
         else if 2 * e \<le> p then [AMem (4 * k + 1) (rbuf p) (tmp p), ANop (4 * k + 2)]
           else if even p then [ARcv (4 * k + 1) (rbuf p) (p + 1) tag (block_sum m e g m (p div 2)), ANop (4 * k + 2)]
           else [ASnd (4 * k) (tmp p) (p - 1) tag, AMem (4 * k + 1) (rbuf p) (tmp p), ANop (4 * k + 2)])"

lemma ar_timely: "timely k (ar_aops n m tmp rbuf x p k)"
  by (simp add: timely_def increasing_def ar_aops_def Let_def)

text \<open>After round \<open>k\<close> of the doubling a process holds the sum of its block of \<open>2 ^ k\<close> ranks.\<close>

lemma ar_tmp:
  assumes n: "2 ^ m \<le> n" "n < 2 * 2 ^ m" and r: "r < 2 ^ m" and p: "p = real_rank (n - 2 ^ m) r"
    and d: "tmp p \<noteq> rbuf p" and k: "k \<le> m"
  shows "final (+) (in_rounds (ar_aops n m tmp rbuf x p) (Suc k)) (x p) (tmp p)
    = block_sum m (n - 2 ^ m) (\<lambda>q. x q (tmp q)) k r"
  using k
proof (induction k)
  case 0
  have "p < n" using real_rank_less [OF r n] p by simp
  then show ?case using d r p
    by (auto simp: in_rounds_def ar_aops_def Let_def block_sum_0 folded_def real_rank_def mult.commute)
next
  case (Suc k)
  have "p < n" using real_rank_less [OF r n] p by simp
  moreover have "newrank_of (n - 2 ^ m) p = int r" using p newrank_real by simp
  ultimately have "final (+) (ar_aops n m tmp rbuf x p (Suc k)) st (tmp p)
      = st (tmp p) + block_sum m (n - 2 ^ m) (\<lambda>q. x q (tmp q)) k (r XOR 2 ^ k)" for st
    using Suc.prems d by (simp add: ar_aops_def Let_def)
  then show ?case using Suc by (simp add: in_rounds_Suc [of _ "Suc k"] final_append block_sum_Suc)
qed

text \<open>In each round of the doubling a process and its partner are each other's partners.\<close>

lemma partner:
  assumes n: "2 ^ m \<le> n" "n < 2 * 2 ^ m" and p: "p < n" "0 \<le> newrank_of (n - 2 ^ m) p" and j: "j < m"
    and q: "q = real_rank (n - 2 ^ m) (nat (newrank_of (n - 2 ^ m) p) XOR 2 ^ j)"
  shows "q < n \<and> newrank_of (n - 2 ^ m) q = int (nat (newrank_of (n - 2 ^ m) p) XOR 2 ^ j)
    \<and> p = real_rank (n - 2 ^ m) (nat (newrank_of (n - 2 ^ m) q) XOR 2 ^ j)"
proof -
  have r: "nat (newrank_of (n - 2 ^ m) p) < 2 ^ m" using p n by (intro newrank_less)
  then have "q < n" unfolding q using n j by (intro real_rank_less xor_less)
  moreover have nq: "newrank_of (n - 2 ^ m) q = int (nat (newrank_of (n - 2 ^ m) p) XOR 2 ^ j)"
    unfolding q by (rule newrank_real)
  moreover have "p = real_rank (n - 2 ^ m) (nat (newrank_of (n - 2 ^ m) q) XOR 2 ^ j)"
    unfolding nq using real_newrank [OF p(2)] by simp
  ultimately show ?thesis by blast
qed

definition partnered :: "nat \<Rightarrow> nat \<Rightarrow> nat \<Rightarrow> nat \<Rightarrow> nat \<Rightarrow> bool" where
  "partnered n m j p q \<longleftrightarrow> p < n \<and> 0 \<le> newrank_of (n - 2 ^ m) p
     \<and> q = real_rank (n - 2 ^ m) (nat (newrank_of (n - 2 ^ m) p) XOR 2 ^ j)"

lemma partnered_sym:
  assumes "2 ^ m \<le> n" "n < 2 * 2 ^ m" "j < m" "partnered n m j p q"
  shows "partnered n m j q p"
  using partner [of m n p j q] assms by (auto simp: partnered_def)

lemma ar_loop_ops:
  assumes "j < m"
  shows "sent f q g (ar_aops n m tmp rbuf x p (Suc j)) st =
      (if partnered n m j p q \<and> g = MCA_COLL_BASE_TAG_IALLREDUCE then [st (tmp p)] else [])"
    and "received q g (ar_aops n m tmp rbuf x p (Suc j)) =
      (if partnered n m j p q \<and> g = MCA_COLL_BASE_TAG_IALLREDUCE
       then [block_sum m (n - 2 ^ m) (\<lambda>q. x q (tmp q)) j (nat (newrank_of (n - 2 ^ m) p) XOR 2 ^ j)] else [])"
    and "send_times q g (ar_aops n m tmp rbuf x p (Suc j)) =
      (if partnered n m j p q \<and> g = MCA_COLL_BASE_TAG_IALLREDUCE then [4 * Suc j] else [])"
    and "recv_times q g (ar_aops n m tmp rbuf x p (Suc j)) =
      (if partnered n m j p q \<and> g = MCA_COLL_BASE_TAG_IALLREDUCE then [4 * Suc j + 1] else [])"
  using assms by (auto simp: ar_aops_def Let_def partnered_def)

definition good_round :: "nat \<Rightarrow> nat \<Rightarrow> (nat \<Rightarrow> addr) \<Rightarrow> (nat \<Rightarrow> addr) \<Rightarrow> (nat \<Rightarrow> addr \<Rightarrow> 'v::comm_monoid_add) \<Rightarrow> nat \<Rightarrow> bool" where
  "good_round n m tmp rbuf x k \<longleftrightarrow> (\<forall>p q g.
     sent (+) q g (ar_aops n m tmp rbuf x p k) (final (+) (in_rounds (ar_aops n m tmp rbuf x p) k) (x p))
       = received p g (ar_aops n m tmp rbuf x q k)
     \<and> list_all2 (<) (send_times q g (ar_aops n m tmp rbuf x p k)) (recv_times p g (ar_aops n m tmp rbuf x q k)))"

lemma ar_loop_fits:
  assumes n: "2 ^ m \<le> n" "n < 2 * 2 ^ m" and d: "\<And>p. tmp p \<noteq> rbuf p" and j: "j < m"
  shows "good_round n m tmp rbuf x (Suc j)"
  unfolding good_round_def
proof (intro allI)
  fix p q g
  let ?e = "n - 2 ^ m"
  have PQ: "partnered n m j p q = partnered n m j q p" using partnered_sym [OF n j] by blast
  have "final (+) (in_rounds (ar_aops n m tmp rbuf x p) (Suc j)) (x p) (tmp p)
      = block_sum m ?e (\<lambda>q. x q (tmp q)) j (nat (newrank_of ?e q) XOR 2 ^ j)" if "partnered n m j p q"
  proof -
    have p: "p < n" "0 \<le> newrank_of ?e p" "q = real_rank ?e (nat (newrank_of ?e p) XOR 2 ^ j)"
      using that by (simp_all add: partnered_def)
    have "newrank_of ?e q = int (nat (newrank_of ?e p) XOR 2 ^ j)" using partner [OF n p(1,2) j p(3)] by blast
    then have "nat (newrank_of ?e q) XOR 2 ^ j = nat (newrank_of ?e p)" by simp
    moreover have "p = real_rank ?e (nat (newrank_of ?e p))" using real_newrank [OF p(2)] by simp
    moreover have "nat (newrank_of ?e p) < 2 ^ m" using newrank_less [OF p(1) n p(2)] .
    ultimately show ?thesis using ar_tmp [OF n, of "nat (newrank_of ?e p)" p tmp rbuf j x] d j by simp
  qed
  then show "sent (+) q g (ar_aops n m tmp rbuf x p (Suc j)) (final (+) (in_rounds (ar_aops n m tmp rbuf x p) (Suc j)) (x p))
       = received p g (ar_aops n m tmp rbuf x q (Suc j))
     \<and> list_all2 (<) (send_times q g (ar_aops n m tmp rbuf x p (Suc j))) (recv_times p g (ar_aops n m tmp rbuf x q (Suc j)))"
    unfolding ar_loop_ops [OF j] PQ by simp
qed

lemma pairs: "p < 2 * e \<and> even p \<and> q = p + 1 \<longleftrightarrow> q < 2 * e \<and> odd q \<and> p = q - (1::nat)"
  by presburger

lemma ar_first_fits:
  assumes n: "2 ^ m \<le> n" "n < 2 * 2 ^ m"
  shows "good_round n m tmp rbuf x 0"
  unfolding good_round_def
proof (intro allI)
  fix p q g
  have e: "2 * (n - 2 ^ m) \<le> n" using n by linarith
  show "sent (+) q g (ar_aops n m tmp rbuf x p 0) (final (+) (in_rounds (ar_aops n m tmp rbuf x p) 0) (x p))
       = received p g (ar_aops n m tmp rbuf x q 0)
     \<and> list_all2 (<) (send_times q g (ar_aops n m tmp rbuf x p 0)) (recv_times p g (ar_aops n m tmp rbuf x q 0))"
    using pairs [of p "n - 2 ^ m" q] e
    by (cases "p < 2 * (n - 2 ^ m) \<and> even p \<and> q = p + 1") (auto simp: ar_aops_def Let_def)
qed

lemma ar_last_fits:
  assumes n: "2 ^ m \<le> n" "n < 2 * 2 ^ m" and d: "\<And>p. tmp p \<noteq> rbuf p"
  shows "good_round n m tmp rbuf x (Suc m)"
  unfolding good_round_def
proof (intro allI)
  fix p q g
  let ?e = "n - 2 ^ m"
  have e: "2 * ?e \<le> n" "?e \<le> 2 ^ m" using n by linarith+
  have "final (+) (in_rounds (ar_aops n m tmp rbuf x p) (Suc m)) (x p) (tmp p)
      = block_sum m ?e (\<lambda>q. x q (tmp q)) m (q div 2)" if "q < 2 * ?e" "even q" "p = q + 1"
  proof -
    have "q div 2 < ?e" "p = real_rank ?e (q div 2)" using that by (auto simp: real_rank_def elim!: evenE)
    then show ?thesis using ar_tmp [OF n, of "q div 2" p tmp rbuf m x] d e by simp
  qed
  then show "sent (+) q g (ar_aops n m tmp rbuf x p (Suc m)) (final (+) (in_rounds (ar_aops n m tmp rbuf x p) (Suc m)) (x p))
       = received p g (ar_aops n m tmp rbuf x q (Suc m))
     \<and> list_all2 (<) (send_times q g (ar_aops n m tmp rbuf x p (Suc m))) (recv_times p g (ar_aops n m tmp rbuf x q (Suc m)))"
    using pairs [of q "n - 2 ^ m" p] e
    by (cases "q < 2 * ?e \<and> even q \<and> p = q + 1") (auto simp: ar_aops_def Let_def)
qed

lemma ar_stands:
  "p < n \<Longrightarrow> stands_for (ar_aops n m tmp rbuf x p k) (ar_round m (n - 2 ^ m) (tmp p) (rbuf p) cnt p k)"
  by (auto simp: ar_aops_def ar_round_def Let_def remote_of_real intro: stands_for.intros)

lemma allreduce_protocol:
  assumes n: "0 < n" and d: "\<And>p. tmp p \<noteq> rbuf p" and m: "m = ar_dim n"
    and prog: "\<And>p. p < n \<Longrightarrow> prog p = concat (map (ar_round m (n - 2 ^ m) (tmp p) (rbuf p) cnt p) [0..<Suc (Suc m)])"
      "\<And>p. n \<le> p \<Longrightarrow> prog p = []"
  shows "col_protocol (+) n prog x (\<lambda>p. in_rounds (ar_aops n m tmp rbuf x p) (Suc (Suc m)))"
proof (rule protocol_in_rounds [OF prog])
  have b: "2 ^ m \<le> n" "n < 2 * 2 ^ m" using ar_dim_bounds [OF n] m by auto
  have good: "good_round n m tmp rbuf x k" if "k < Suc (Suc m)" for k
    using that d ar_first_fits [OF b, of tmp rbuf x] ar_loop_fits [OF b, of tmp rbuf "k - 1" x] ar_last_fits [OF b, of tmp rbuf x]
    by (cases k) (auto simp: less_Suc_eq)
  fix k p q g
  show "p < n \<Longrightarrow> stands_for (ar_aops n m tmp rbuf x p k) (ar_round m (n - 2 ^ m) (tmp p) (rbuf p) cnt p k)"
    by (rule ar_stands)
  show "timely k (ar_aops n m tmp rbuf x p k)" by (rule ar_timely)
  assume "k < Suc (Suc m)"
  from good [OF this]
  show "sent (+) q g (ar_aops n m tmp rbuf x p k) (final (+) (in_rounds (ar_aops n m tmp rbuf x p) k) (x p))
      = received p g (ar_aops n m tmp rbuf x q k)"
    and "list_all2 (<) (send_times q g (ar_aops n m tmp rbuf x p k)) (recv_times p g (ar_aops n m tmp rbuf x q k))"
    by (auto simp: good_round_def)
qed (simp_all add: ar_aops_def)

definition allreduce_prog :: "nat \<Rightarrow> (nat \<Rightarrow> addr) \<Rightarrow> (nat \<Rightarrow> addr) \<Rightarrow> u64 \<Rightarrow> nat \<Rightarrow> col_sched list" where
  "allreduce_prog n tmp rbuf cnt p =
     (if p < n \<and> (\<forall>q. tmp q \<noteq> rbuf q)
      then concat (map (ar_round (ar_dim n) (n - 2 ^ ar_dim n) (tmp p) (rbuf p) cnt p) [0..<Suc (Suc (ar_dim n))])
      else [])"

definition allreduce_plan :: "nat \<Rightarrow> (nat \<Rightarrow> addr) \<Rightarrow> (nat \<Rightarrow> addr) \<Rightarrow> (nat \<Rightarrow> addr \<Rightarrow> 'v::comm_monoid_add) \<Rightarrow>
    nat \<Rightarrow> 'v aop list" where
  "allreduce_plan n tmp rbuf x p =
     (if 0 < n \<and> (\<forall>q. tmp q \<noteq> rbuf q) then in_rounds (ar_aops n (ar_dim n) tmp rbuf x p) (Suc (Suc (ar_dim n))) else [])"

interpretation allreduce: col_protocol "(+)" n "allreduce_prog n tmp rbuf cnt" x "allreduce_plan n tmp rbuf x"
proof (cases "0 < n \<and> (\<forall>q. tmp q \<noteq> rbuf q)")
  case True
  then have "allreduce_plan n tmp rbuf x = (\<lambda>p. in_rounds (ar_aops n (ar_dim n) tmp rbuf x p) (Suc (Suc (ar_dim n))))"
    by (simp add: allreduce_plan_def [abs_def])
  then show "col_protocol (+) n (allreduce_prog n tmp rbuf cnt) x (allreduce_plan n tmp rbuf x)"
    using True by (auto intro!: allreduce_protocol simp: allreduce_prog_def simp del: upt_Suc)
next
  case False
  then have "allreduce_prog n tmp rbuf cnt = (\<lambda>_. [])" "allreduce_plan n tmp rbuf x = (\<lambda>_. [])"
    by (auto simp: allreduce_prog_def allreduce_plan_def fun_eq_iff)
  then show "col_protocol (+) n (allreduce_prog n tmp rbuf cnt) x (allreduce_plan n tmp rbuf x)"
    using empty_protocol by simp
qed

lemma ar_result:
  assumes n: "2 ^ m \<le> n" "n < 2 * 2 ^ m" and d: "\<And>p. tmp p \<noteq> rbuf p" and p: "p < n"
  shows "final (+) (in_rounds (ar_aops n m tmp rbuf x p) (Suc (Suc m))) (x p) (rbuf p) = (\<Sum>q < n. x q (tmp q))"
proof (cases "newrank_of (n - 2 ^ m) p < 0")
  case True
  then have "p < 2 * (n - 2 ^ m)" "even p" by (simp_all add: newrank_negative)
  moreover have "p div 2 < 2 ^ m" using \<open>p < 2 * (n - 2 ^ m)\<close> n by linarith
  ultimately show ?thesis using p block_sum_all [OF n, of "p div 2" "\<lambda>q. x q (tmp q)"]
    by (simp add: in_rounds_Suc [of _ "Suc m"] final_append ar_aops_def [of _ _ _ _ _ _ "Suc m"] Let_def)
next
  case False
  define r where "r = nat (newrank_of (n - 2 ^ m) p)"
  have r: "r < 2 ^ m" "p = real_rank (n - 2 ^ m) r"
    using newrank_less [OF p n] real_newrank [of "n - 2 ^ m" p] False by (auto simp: r_def)
  have "2 * (n - 2 ^ m) \<le> p \<or> odd p" using False by (auto simp: newrank_negative)
  then have "final (+) (ar_aops n m tmp rbuf x p (Suc m)) st (rbuf p) = st (tmp p)" for st
    using p by (auto simp: ar_aops_def Let_def)
  then show ?thesis using ar_tmp [OF n r, of tmp rbuf m x] d block_sum_all [OF n r(1), of "\<lambda>q. x q (tmp q)"]
    by (simp add: in_rounds_Suc [of _ "Suc m"] final_append)
qed

lemma allreduce_fits:
  assumes "1 < n" "n < 2 ^ 31"
  shows "allreduce_schedule p n tmp rbuf cnt (lc_colreq_init req)
    = Inr ((lc_colreq_init req)\<lparr>col_next := concat (map (ar_round (ar_dim n) (n - 2 ^ ar_dim n) tmp rbuf cnt p)
         [0..<Suc (Suc (ar_dim n))])\<rparr>)"
proof -
  have "ar_dim n \<le> 31" using bit_length_le [OF assms(2)] by (simp add: ar_dim_def)
  moreover have "length (ar_round (ar_dim n) (n - 2 ^ ar_dim n) tmp rbuf cnt p k) \<le> 3" for k
    by (simp add: ar_round_def Let_def)
  ultimately have "length (concat (map (ar_round (ar_dim n) (n - 2 ^ ar_dim n) tmp rbuf cnt p) [0..<Suc (Suc (ar_dim n))])) \<le> 128"
    using length_concat_le [of "ar_round (ar_dim n) (n - 2 ^ ar_dim n) tmp rbuf cnt p" 3 "Suc (Suc (ar_dim n))"]
    by (simp del: upt_Suc)
  then show ?thesis unfolding allreduce_schedule_ops [OF assms] by (rule sched_all_ok)
qed

text \<open>
  Property C3. The allreduce reduces. For every number of processes, power of two or not, and
  whatever the interleaving, the schedules built by the processes run to their end in a fixed
  number of steps without getting stuck, and then the result buffer of every process holds the
  sum of the inputs of all processes. The operation may be any commutative and associative one
  with a unit, written \<open>+\<close> here; the input of a process is what the call copied to its
  temporary buffer.
\<close>

theorem allreduce_sums:
  fixes x :: "nat \<Rightarrow> addr \<Rightarrow> 'v::comm_monoid_add"
  assumes n: "1 < n" "n < 2 ^ 31" and d: "\<And>p. tmp p \<noteq> rbuf p"
    and req: "\<forall>p < n. allreduce_schedule p n (tmp p) (rbuf p) cnt (lc_colreq_init r) = Inr (req p)"
    and prog: "prog = (\<lambda>p. if p < n then col_next (req p) else [])" and steps: "col_steps (+) k (net_start prog x) c"
  shows "if k = col_weight n prog then all_done c \<and> (\<forall>p < n. store c p (rbuf p) = (\<Sum>q < n. x q (tmp q)))
         else k < col_weight n prog \<and> (\<exists>d. col_step (+) c d)"
proof -
  have "prog = allreduce_prog n tmp rbuf cnt"
  proof
    fix p
    have "req p = (lc_colreq_init r)\<lparr>col_next := concat (map (ar_round (ar_dim n) (n - 2 ^ ar_dim n) (tmp p) (rbuf p) cnt p)
        [0..<Suc (Suc (ar_dim n))])\<rparr>" if "p < n"
      using that req allreduce_fits [OF n] by (metis sum.inject(2))
    then show "prog p = allreduce_prog n tmp rbuf cnt p"
      using prog d by (simp add: allreduce_prog_def del: upt_Suc)
  qed
  then have "if k = col_weight n prog then all_done c \<and> (\<forall>p. store c p = final (+) (allreduce_plan n tmp rbuf x p) (x p))
         else k < col_weight n prog \<and> (\<exists>d. col_step (+) c d)"
    using allreduce.completes [of k n tmp rbuf cnt x c] steps by simp
  moreover have "2 ^ ar_dim n \<le> n" "n < 2 * 2 ^ ar_dim n" using ar_dim_bounds [of n] n by auto
  moreover from this have "final (+) (allreduce_plan n tmp rbuf x p) (x p) (rbuf p) = (\<Sum>q < n. x q (tmp q))" if "p < n" for p
    using d n that ar_result [of "ar_dim n" n tmp rbuf p x] by (simp add: allreduce_plan_def)
  ultimately show ?thesis by (auto split: if_splits)
qed

theorem allreduce_sums_witness:
  "\<exists>c. col_steps (+) 16 (net_start (run_of 3 (\<lambda>p. allreduce_schedule p 3 64 128 8)) (\<lambda>p a. int p + 10)) c
     \<and> all_done c \<and> (\<forall>p < 3. store c p 128 = 33)"
proof -
  let ?prog = "run_of 3 (\<lambda>p. allreduce_schedule p 3 64 128 8)" and ?x = "\<lambda>(p::nat) (a::addr). int p + 10"
  have dim: "ar_dim 3 = 1" by (simp add: ar_dim_def bit_length.simps)
  define req where "req p = (lc_colreq_init fresh_req)\<lparr>col_next := concat (map (ar_round (ar_dim 3) (3 - 2 ^ ar_dim 3) 64 128 8 p)
      [0..<Suc (Suc (ar_dim 3))])\<rparr>" for p
  have built: "\<forall>p < 3. allreduce_schedule p 3 64 128 8 (lc_colreq_init fresh_req) = Inr (req p)"
    unfolding req_def by (intro allI impI allreduce_fits) simp_all
  then have prog: "?prog = (\<lambda>p. if p < 3 then col_next (req p) else [])"
    by (auto simp: run_of_def fun_eq_iff)
  have w: "col_weight 3 ?prog = 16"
    unfolding prog col_weight_def req_def dim by (simp add: ar_round_def Let_def newrank_of_def lessThan_nat_numeral upt_rec)
  have "?prog = allreduce_prog 3 (\<lambda>_. 64) (\<lambda>_. 128) 8"
    unfolding prog by (auto simp: req_def allreduce_prog_def simp del: upt_Suc)
  then obtain c where c: "col_steps (+) 16 (net_start ?prog ?x) c"
    using allreduce.run_exists [of 16 3 "\<lambda>_. 64" "\<lambda>_. 128" 8 ?x] w by auto
  show ?thesis
    using allreduce_sums [of 3 "\<lambda>_. 64" "\<lambda>_. 128" 8 fresh_req req, OF _ _ _ built prog c] w c
    by (auto simp: lessThan_nat_numeral)
qed



end
