(* ===== verification/LC_Avl.thy ===== *)
theory LC_Avl
  imports LC_Prelude
begin

text \<open>
  The AVL trees of \<open>src/dreg/avl.c\<close>, on which the registration cache rests. A node is a value
  of a datatype, as every node has one parent; the data of a node is a buffer with an address,
  because the code hands such addresses out, copies between buffers and keeps removed nodes
  with their buffers on a free list. \<open>malloc\<close> serves a given number of further allocations;
  after that \<open>ckalloc\<close> exits.
\<close>

section \<open>Types (\<open>avl_typs.h\<close>, \<open>avl.h\<close>)\<close>

datatype NODE = IS_TREE | IS_LBRANCH | IS_RBRANCH | IS_LEAF | IS_NULL
datatype VISIT = PREORDER | INORDER | POSTORDER
datatype SIBLING_ORDER = LEFT_TO_RIGHT | RIGHT_TO_LEFT
datatype DIRECTION = LEFT | RIGHT

fun OPPOSITE :: "DIRECTION \<Rightarrow> DIRECTION" where
  "OPPOSITE LEFT = RIGHT"
| "OPPOSITE RIGHT = LEFT"

datatype avl_node = NULL_TREE | AVLnode (avl_data: nat) (avl_bal: int) (avl_left: avl_node) (avl_right: avl_node)

record avl_descriptor =
  avl_root :: avl_node
  avl_count :: int

record 'a avl_mem =
  cells :: "nat \<Rightarrow> 'a"            \<comment> \<open>what the buffer at an address holds\<close>
  avl_free_list :: "nat list"     \<comment> \<open>buffers of the nodes on the free list\<close>
  avl_brk :: nat                  \<comment> \<open>the next address \<open>malloc\<close> returns\<close>
  avl_left_over :: nat            \<comment> \<open>how many allocations still succeed\<close>
  is_finalize :: bool             \<comment> \<open>\<open>g_is_dreg_finalize\<close>\<close>

fun subtree :: "DIRECTION \<Rightarrow> avl_node \<Rightarrow> avl_node" where
  "subtree LEFT t = avl_left t"
| "subtree RIGHT t = avl_right t"

fun set_subtree :: "DIRECTION \<Rightarrow> avl_node \<Rightarrow> avl_node \<Rightarrow> avl_node" where
  "set_subtree d s NULL_TREE = NULL_TREE"
| "set_subtree LEFT s (AVLnode p b l r) = AVLnode p b s r"
| "set_subtree RIGHT s (AVLnode p b l r) = AVLnode p b l s"

fun set_bal :: "int \<Rightarrow> avl_node \<Rightarrow> avl_node" where
  "set_bal b NULL_TREE = NULL_TREE"
| "set_bal b (AVLnode p _ l r) = AVLnode p b l r"

section \<open>Nodes\<close>

definition ckalloc :: "'a avl_mem \<Rightarrow> (nat \<times> 'a avl_mem) res" where
  "ckalloc m = (if avl_left_over m = 0 then Inl Exit_failure
     else Inr (avl_brk m, m\<lparr>avl_brk := avl_brk m + 1, avl_left_over := avl_left_over m - 1\<rparr>))"

definition new_node :: "'a \<Rightarrow> 'a avl_mem \<Rightarrow> (avl_node \<times> 'a avl_mem) res" where
  "new_node x m =
     bind_res (case avl_free_list m of
         p # ps \<Rightarrow> Inr (p, m\<lparr>avl_free_list := ps\<rparr>)
       | [] \<Rightarrow> bind_res (ckalloc m) (\<lambda>(_, m). ckalloc m))
       (\<lambda>(p, m). Inr (AVLnode p 0 NULL_TREE NULL_TREE, m\<lparr>cells := (cells m)(p := x)\<rparr>))"

definition free_node :: "nat \<Rightarrow> 'a avl_mem \<Rightarrow> 'a avl_mem" where
  "free_node p m = (if is_finalize m then m else m\<lparr>avl_free_list := p # avl_free_list m\<rparr>)"

definition node_type :: "avl_node \<Rightarrow> NODE" where
  "node_type t =
     (if t = NULL_TREE then IS_NULL
      else if avl_left t \<noteq> NULL_TREE \<and> avl_right t \<noteq> NULL_TREE then IS_TREE
      else if avl_left t \<noteq> NULL_TREE then IS_LBRANCH
      else if avl_right t \<noteq> NULL_TREE then IS_RBRANCH
      else IS_LEAF)"

text \<open>Comparison functions are applied to their first argument already.\<close>

definition avl_min :: "'a \<Rightarrow> NODE \<Rightarrow> int" where
  "avl_min elt2 nd_typ = (if nd_typ = IS_RBRANCH \<or> nd_typ = IS_LEAF then 0 else - 1)"

definition avl_max :: "'a \<Rightarrow> NODE \<Rightarrow> int" where
  "avl_max elt2 nd_typ = (if nd_typ = IS_LBRANCH \<or> nd_typ = IS_LEAF then 0 else 1)"

section \<open>Rotations\<close>

definition rotate_once :: "avl_node \<Rightarrow> DIRECTION \<Rightarrow> (bool \<times> avl_node) res" where
  "rotate_once old dir =
     (let other = OPPOSITE dir; new = subtree other old
      in if old = NULL_TREE \<or> new = NULL_TREE then Inl Null_deref
         else let ht_unchanged = (avl_bal new = 0);
                  b = (if dir = LEFT then avl_bal new - 1 else avl_bal new + 1);
                  old' = set_bal (- b) (set_subtree other (subtree dir new) old)
              in Inr (ht_unchanged, set_bal b (set_subtree dir old' new)))"

definition rotate_twice :: "avl_node \<Rightarrow> DIRECTION \<Rightarrow> avl_node res" where
  "rotate_twice old dir =
     (let other = OPPOSITE dir; mid = subtree other old; new = subtree dir mid
      in if old = NULL_TREE \<or> mid = NULL_TREE \<or> new = NULL_TREE then Inl Null_deref
         else let old' = set_subtree other (subtree dir new) old;
                  mid' = set_subtree dir (subtree other new) mid;
                  root = set_subtree other mid' (set_subtree dir old' new);
                  b = avl_bal root;
                  root = set_subtree LEFT (set_bal (- max b 0) (subtree LEFT root)) root;
                  root = set_subtree RIGHT (set_bal (- min b 0) (subtree RIGHT root)) root
              in Inr (set_bal 0 root))"

definition balance :: "avl_node \<Rightarrow> (int \<times> avl_node) res" where
  "balance root =
     (if root = NULL_TREE then Inl Null_deref
      else if avl_bal root < - 1 then
        if subtree LEFT root = NULL_TREE then Inl Null_deref
        else if avl_bal (subtree LEFT root) = 1
        then bind_res (rotate_twice root RIGHT) (\<lambda>root. Inr (1, root))
        else bind_res (rotate_once root RIGHT) (\<lambda>(special_case, root). Inr (if special_case then 0 else 1, root))
      else if avl_bal root > 1 then
        if subtree RIGHT root = NULL_TREE then Inl Null_deref
        else if avl_bal (subtree RIGHT root) = - 1
        then bind_res (rotate_twice root LEFT) (\<lambda>root. Inr (1, root))
        else bind_res (rotate_once root LEFT) (\<lambda>(special_case, root). Inr (if special_case then 0 else 1, root))
      else Inr (0, root))"

section \<open>Search, insertion, deletion\<close>

text \<open>The loop of \<open>avl_find\<close>; the node type is the one of the root all along.\<close>

fun avl_find_loop :: "('a \<Rightarrow> NODE \<Rightarrow> int) \<Rightarrow> NODE \<Rightarrow> avl_node \<Rightarrow> 'a avl_mem \<Rightarrow> nat option" where
  "avl_find_loop compar nd_typ NULL_TREE m = None"
| "avl_find_loop compar nd_typ (AVLnode p b l r) m =
     (let cmp = compar (cells m p) nd_typ
      in if cmp = 0 then Some p
         else avl_find_loop compar nd_typ (if cmp < 0 then l else r) m)"

definition avl_find :: "('a \<Rightarrow> NODE \<Rightarrow> int) \<Rightarrow> avl_node \<Rightarrow> 'a avl_mem \<Rightarrow> nat option" where
  "avl_find compar t m = avl_find_loop compar (node_type t) t m"

text \<open>
  The result of an insertion: the address of a duplicate if there is one, whether the height
  grew, and the tree. \<open>avl_grow\<close> is the code behind the recursive call.
\<close>

definition avl_grow :: "int \<Rightarrow> avl_node \<Rightarrow> (int \<times> avl_node) res" where
  "avl_grow increase t =
     (let t = set_bal (avl_bal t + increase) t
      in if increase \<noteq> 0 \<and> avl_bal t \<noteq> 0
         then bind_res (balance t) (\<lambda>(changed, t). Inr (1 - changed, t))
         else Inr (0, t))"

fun avl_insert :: "('a \<Rightarrow> int) \<Rightarrow> 'a \<Rightarrow> avl_node \<Rightarrow> 'a avl_mem \<Rightarrow> (nat option \<times> int \<times> avl_node \<times> 'a avl_mem) res" where
  "avl_insert compar x NULL_TREE m = bind_res (new_node x m) (\<lambda>(t, m). Inr (None, 1, t, m))"
| "avl_insert compar x (AVLnode p b l r) m =
     (let cmp = compar (cells m p)
      in if cmp < 0 then
           bind_res (avl_insert compar x l m) (\<lambda>(dup, h, l, m).
             if dup \<noteq> None then Inr (dup, 0, AVLnode p b l r, m)
             else bind_res (avl_grow (- h) (AVLnode p b l r)) (\<lambda>(h, t). Inr (None, h, t, m)))
         else if cmp > 0 then
           bind_res (avl_insert compar x r m) (\<lambda>(dup, h, r, m).
             if dup \<noteq> None then Inr (dup, 0, AVLnode p b l r, m)
             else bind_res (avl_grow h (AVLnode p b l r)) (\<lambda>(h, t). Inr (None, h, t, m)))
         else Inr (Some p, 0, AVLnode p b l r, m))"

fun avl_smallest :: "avl_node \<Rightarrow> nat res" where
  "avl_smallest NULL_TREE = Inl Null_deref"
| "avl_smallest (AVLnode p b l r) =
     (if avl_min p (node_type (AVLnode p b l r)) = 0 then Inr p else avl_smallest l)"

definition avl_shrink :: "int \<Rightarrow> avl_node \<Rightarrow> (int \<times> avl_node) res" where
  "avl_shrink decrease t =
     (let t = set_bal (avl_bal t - decrease) t
      in if decrease \<noteq> 0 \<and> avl_bal t \<noteq> 0 then balance t
         else if decrease \<noteq> 0 then Inr (1, t)
         else Inr (0, t))"

text \<open>
  A deletion returns the address it leaves in \<open>*data\<close>. With two children the buffer of the
  node stays in the tree and gets the contents of its successor's.
\<close>

fun avl_delete :: "('a \<Rightarrow> NODE \<Rightarrow> int) \<Rightarrow> avl_node \<Rightarrow> 'a avl_mem \<Rightarrow> (nat option \<times> int \<times> avl_node \<times> 'a avl_mem) res" where
  "avl_delete compar NULL_TREE m = Inr (None, 0, NULL_TREE, m)"
| "avl_delete compar (AVLnode p b l r) m =
     (let nd_typ = node_type (AVLnode p b l r);
          cmp = compar (cells m p) nd_typ
      in if cmp < 0 then
           bind_res (avl_delete compar l m) (\<lambda>(d, h, l, m).
             if d = None then Inr (None, 0, AVLnode p b l r, m)
             else bind_res (avl_shrink (- h) (AVLnode p b l r)) (\<lambda>(h, t). Inr (d, h, t, m)))
         else if cmp > 0 then
           bind_res (avl_delete compar r m) (\<lambda>(d, h, r, m).
             if d = None then Inr (None, 0, AVLnode p b l r, m)
             else bind_res (avl_shrink h (AVLnode p b l r)) (\<lambda>(h, t). Inr (d, h, t, m)))
         else if nd_typ = IS_LEAF then Inr (Some p, 1, NULL_TREE, free_node p m)
         else if nd_typ = IS_RBRANCH then Inr (Some p, 1, r, free_node p m)
         else if nd_typ = IS_LBRANCH then Inr (Some p, 1, l, free_node p m)
         else bind_res (avl_smallest r) (\<lambda>successor.
           let scratch_space = cells m successor
           in bind_res (avl_delete avl_min r m) (\<lambda>(_, h, r, m).
                let m = m\<lparr>cells := (cells m)(p := scratch_space)\<rparr>
                in bind_res (avl_shrink h (AVLnode p b l r)) (\<lambda>(h, t). Inr (Some p, h, t, m)))))"

section \<open>Traversals\<close>

text \<open>The calls of the action, in order.\<close>

type_synonym avl_visit = "nat \<times> VISIT \<times> NODE \<times> int \<times> int"

fun avl_walk :: "SIBLING_ORDER \<Rightarrow> int \<Rightarrow> avl_node \<Rightarrow> avl_visit list" where
  "avl_walk so level NULL_TREE = []"
| "avl_walk so level (AVLnode p b l r) =
     (let node = node_type (AVLnode p b l r);
          wl = avl_walk so (level + 1) l; wr = avl_walk so (level + 1) r
      in (p, PREORDER, node, level, b) # (if so = LEFT_TO_RIGHT then wl else wr)
         @ (p, INORDER, node, level, b) # (if so = LEFT_TO_RIGHT then wr else wl)
         @ [(p, POSTORDER, node, level, b)])"

text \<open>\<open>avl_free\<close>: the calls of the action if there is one; each node is released after its subtrees.\<close>

fun avl_free :: "bool \<Rightarrow> SIBLING_ORDER \<Rightarrow> int \<Rightarrow> avl_node \<Rightarrow> 'a avl_mem \<Rightarrow> (nat \<times> VISIT \<times> NODE \<times> int) list \<times> 'a avl_mem" where
  "avl_free action so level NULL_TREE m = ([], m)"
| "avl_free action so level (AVLnode p b l r) m =
     (let node = node_type (AVLnode p b l r);
          act = (\<lambda>order. if action then [(p, order, node, level)] else []);
          (a1, m) = (if so = LEFT_TO_RIGHT then avl_free action so (level + 1) l m else avl_free action so (level + 1) r m);
          (a2, m) = (if so = LEFT_TO_RIGHT then avl_free action so (level + 1) r m else avl_free action so (level + 1) l m)
      in (act PREORDER @ a1 @ act INORDER @ a2 @ act POSTORDER, free_node p m))"

section \<open>The public functions\<close>

definition avlinit :: "'a avl_mem \<Rightarrow> (avl_descriptor \<times> 'a avl_mem) res" where
  "avlinit m = bind_res (ckalloc (m\<lparr>avl_free_list := []\<rparr>))
     (\<lambda>(_, m). Inr (\<lparr>avl_root = NULL_TREE, avl_count = 0\<rparr>, m))"

text \<open>A missing descriptor is the case that \<open>&(avl_desc->root) == NULL\<close> detects.\<close>

definition avldispose :: "bool \<Rightarrow> SIBLING_ORDER \<Rightarrow> avl_descriptor option \<Rightarrow> 'a avl_mem \<Rightarrow>
    (nat \<times> VISIT \<times> NODE \<times> int) list \<times> 'a avl_mem" where
  "avldispose action so desc m =
     (case desc of None \<Rightarrow> ([], m\<lparr>avl_free_list := []\<rparr>)
      | Some desc \<Rightarrow> avl_free action so 1 (avl_root desc) (m\<lparr>avl_free_list := []\<rparr>))"

definition avlwalk :: "SIBLING_ORDER \<Rightarrow> avl_descriptor \<Rightarrow> avl_visit list" where
  "avlwalk so desc = avl_walk so 1 (avl_root desc)"

definition avlcount :: "avl_descriptor \<Rightarrow> int" where
  "avlcount desc = avl_count desc"

definition avlins :: "('a \<Rightarrow> 'a \<Rightarrow> int) \<Rightarrow> 'a \<Rightarrow> avl_descriptor \<Rightarrow> 'a avl_mem \<Rightarrow> (nat option \<times> avl_descriptor \<times> 'a avl_mem) res" where
  "avlins compar x desc m =
     bind_res (avl_insert (compar x) x (avl_root desc) m) (\<lambda>(d, h, t, m).
       Inr (d, desc\<lparr>avl_root := t, avl_count := avl_count desc + (if d = None then 1 else 0)\<rparr>, m))"

definition del_with :: "('a \<Rightarrow> NODE \<Rightarrow> int) \<Rightarrow> avl_descriptor \<Rightarrow> 'a avl_mem \<Rightarrow> (nat option \<times> avl_descriptor \<times> 'a avl_mem) res" where
  "del_with compar desc m =
     bind_res (avl_delete compar (avl_root desc) m) (\<lambda>(d, h, t, m).
       Inr (d, desc\<lparr>avl_root := t, avl_count := avl_count desc - (if d = None then 0 else 1)\<rparr>, m))"

definition avldel :: "('a \<Rightarrow> 'a \<Rightarrow> int) \<Rightarrow> 'a \<Rightarrow> avl_descriptor \<Rightarrow> 'a avl_mem \<Rightarrow> (nat option \<times> avl_descriptor \<times> 'a avl_mem) res" where
  "avldel compar x desc m = del_with (\<lambda>y _. compar x y) desc m"

definition avlfind :: "('a \<Rightarrow> 'a \<Rightarrow> int) \<Rightarrow> 'a \<Rightarrow> avl_descriptor \<Rightarrow> 'a avl_mem \<Rightarrow> nat option" where
  "avlfind compar x desc m = avl_find (\<lambda>y _. compar x y) (avl_root desc) m"

definition avlfindex :: "('k \<Rightarrow> 'a \<Rightarrow> int) \<Rightarrow> 'k \<Rightarrow> avl_descriptor \<Rightarrow> 'a avl_mem \<Rightarrow> nat option" where
  "avlfindex compar k desc m = avl_find (\<lambda>y _. compar k y) (avl_root desc) m"

definition avldelmin :: "avl_descriptor \<Rightarrow> 'a avl_mem \<Rightarrow> (nat option \<times> avl_descriptor \<times> 'a avl_mem) res" where
  "avldelmin desc m = del_with avl_min desc m"

definition avlfindmin :: "avl_descriptor \<Rightarrow> 'a avl_mem \<Rightarrow> nat option" where
  "avlfindmin desc m = avl_find avl_min (avl_root desc) m"

definition avldelmax :: "avl_descriptor \<Rightarrow> 'a avl_mem \<Rightarrow> (nat option \<times> avl_descriptor \<times> 'a avl_mem) res" where
  "avldelmax desc m = del_with avl_max desc m"

definition avlfindmax :: "avl_descriptor \<Rightarrow> 'a avl_mem \<Rightarrow> nat option" where
  "avlfindmax desc m = avl_find avl_max (avl_root desc) m"

section \<open>Balance\<close>

fun avl_height :: "avl_node \<Rightarrow> int" where
  "avl_height NULL_TREE = 0"
| "avl_height (AVLnode p b l r) = 1 + max (avl_height l) (avl_height r)"

fun avl_ok :: "avl_node \<Rightarrow> bool" where
  "avl_ok NULL_TREE = True"
| "avl_ok (AVLnode p b l r) \<longleftrightarrow> b = avl_height r - avl_height l \<and> - 1 \<le> b \<and> b \<le> 1 \<and> avl_ok l \<and> avl_ok r"

fun inorder :: "avl_node \<Rightarrow> nat list" where
  "inorder NULL_TREE = []"
| "inorder (AVLnode p b l r) = inorder l @ p # inorder r"

lemma avl_height_nonneg [simp]: "0 \<le> avl_height t"
  by (induction t) auto

lemma avl_height_0 [simp]: "avl_height t = 0 \<longleftrightarrow> t = NULL_TREE"
proof (cases t)
  case (AVLnode p b l r)
  have "0 \<le> max (avl_height l) (avl_height r)" by (simp add: max_def)
  then show ?thesis using AVLnode by (auto simp del: max.bounded_iff)
qed simp

lemma inorder_Nil [simp]: "inorder t = [] \<longleftrightarrow> t = NULL_TREE"
  by (cases t) auto

lemma balance_ok:
  assumes "avl_ok l" "avl_ok r" "b = avl_height r - avl_height l" "- 2 \<le> b" "b \<le> 2"
  shows "\<exists>c t. balance (AVLnode p b l r) = Inr (c, t) \<and> avl_ok t \<and> inorder t = inorder l @ p # inorder r
    \<and> avl_height t = avl_height (AVLnode p b l r) - c \<and> (c = 0 \<or> c = 1) \<and> (- 1 \<le> b \<and> b \<le> 1 \<longrightarrow> c = 0)"
proof -
  consider "b = - 2" | "b = 2" | "- 1 \<le> b \<and> b \<le> 1" using assms(4,5) by linarith
  then show ?thesis
  proof cases
    case 1
    then obtain q c ll lr where l: "l = AVLnode q c ll lr"
      using assms(3) avl_height_nonneg [of r] by (cases l) auto
    show ?thesis
    proof (cases "c = 1")
      case True
      then obtain s d a e where lr: "lr = AVLnode s d a e" using assms(1) l avl_height_nonneg [of ll] by (cases lr) auto
      show ?thesis using 1 assms True unfolding l lr
        by (auto simp: balance_def rotate_twice_def Let_def max_def min_def split: if_splits)
    next
      case False
      then show ?thesis using 1 assms unfolding l
        by (auto simp: balance_def rotate_once_def Let_def max_def split: if_splits)
    qed
  next
    case 2
    then obtain q c rl rr where r: "r = AVLnode q c rl rr"
      using assms(3) avl_height_nonneg [of l] by (cases r) auto
    show ?thesis
    proof (cases "c = - 1")
      case True
      then obtain s d a e where rl: "rl = AVLnode s d a e" using assms(2) r avl_height_nonneg [of rr] by (cases rl) auto
      show ?thesis using 2 assms True unfolding r rl
        by (auto simp: balance_def rotate_twice_def Let_def max_def min_def split: if_splits)
    next
      case False
      then show ?thesis using 2 assms unfolding r
        by (auto simp: balance_def rotate_once_def Let_def max_def split: if_splits)
    qed
  next
    case 3
    then show ?thesis using assms by (auto simp: balance_def)
  qed
qed

text \<open>What the code behind a recursive call makes of a subtree that grew or shrank.\<close>

definition step_ok :: "(int \<times> avl_node) res \<Rightarrow> int \<Rightarrow> int \<Rightarrow> nat list \<Rightarrow> bool" where
  "step_ok res h s ps \<longleftrightarrow> (\<exists>c t. res = Inr (c, t) \<and> avl_ok t \<and> inorder t = ps \<and> avl_height t = h + s * c \<and> (c = 0 \<or> c = 1))"

lemma avl_grow_left:
  assumes "avl_ok (AVLnode p b l r)" "avl_ok l'" "avl_height l' = avl_height l + h" "h = 0 \<or> h = 1"
  shows "step_ok (avl_grow (- h) (AVLnode p b l' r)) (avl_height (AVLnode p b l r)) 1 (inorder l' @ p # inorder r)"
  using assms balance_ok [of l' r "b - 1" p] by (auto simp: avl_grow_def step_ok_def Let_def)

lemma avl_grow_right:
  assumes "avl_ok (AVLnode p b l r)" "avl_ok r'" "avl_height r' = avl_height r + h" "h = 0 \<or> h = 1"
  shows "step_ok (avl_grow h (AVLnode p b l r')) (avl_height (AVLnode p b l r)) 1 (inorder l @ p # inorder r')"
  using assms balance_ok [of l r' "b + 1" p] by (auto simp: avl_grow_def step_ok_def Let_def)

lemma avl_shrink_left:
  assumes "avl_ok (AVLnode p b l r)" "avl_ok l'" "avl_height l' = avl_height l - h" "h = 0 \<or> h = 1"
  shows "step_ok (avl_shrink (- h) (AVLnode p b l' r)) (avl_height (AVLnode p b l r)) (- 1) (inorder l' @ p # inorder r)"
  using assms balance_ok [of l' r "b + 1" p] by (auto simp: avl_shrink_def step_ok_def Let_def)

lemma avl_shrink_right:
  assumes "avl_ok (AVLnode p b l r)" "avl_ok r'" "avl_height r' = avl_height r - h" "h = 0 \<or> h = 1"
  shows "step_ok (avl_shrink h (AVLnode p b l r')) (avl_height (AVLnode p b l r)) (- 1) (inorder l @ p # inorder r')"
  using assms balance_ok [of l r' "b - 1" p] by (auto simp: avl_shrink_def step_ok_def Let_def)

section \<open>Buffers\<close>

definition mem_ok :: "'a avl_mem \<Rightarrow> nat list \<Rightarrow> bool" where
  "mem_ok m ps \<longleftrightarrow> distinct (ps @ avl_free_list m) \<and> (\<forall>p \<in> set ps \<union> set (avl_free_list m). p < avl_brk m)"

definition has_room :: "'a avl_mem \<Rightarrow> bool" where
  "has_room m \<longleftrightarrow> avl_free_list m \<noteq> [] \<or> 2 \<le> avl_left_over m"

lemma mem_ok_perm: "mset ps = mset qs \<Longrightarrow> mem_ok m ps = mem_ok m qs"
  by (auto simp: mem_ok_def dest: mset_eq_setD mset_eq_imp_distinct_iff)

lemma mem_ok_cells [simp]: "mem_ok (m\<lparr>cells := c\<rparr>) ps = mem_ok m ps"
  by (simp add: mem_ok_def)

lemma mem_ok_subset: "mem_ok m (xs @ ys) \<Longrightarrow> mem_ok m xs \<and> mem_ok m ys" "mem_ok m (p # ys) \<Longrightarrow> mem_ok m ys"
  by (auto simp: mem_ok_def)

lemma mem_ok_free: "mem_ok m (q # ps) \<Longrightarrow> mem_ok (free_node q m) ps"
  by (auto simp: mem_ok_def free_node_def)

lemma new_node_ok:
  assumes "mem_ok m ps" "has_room m"
  shows "\<exists>p m'. new_node x m = Inr (AVLnode p 0 NULL_TREE NULL_TREE, m') \<and> p \<notin> set ps \<and> mem_ok m' (p # ps)
    \<and> cells m' = (cells m)(p := x) \<and> is_finalize m' = is_finalize m \<and> avl_left_over m \<le> avl_left_over m' + 2"
  using assms by (cases "avl_free_list m") (auto simp: new_node_def ckalloc_def mem_ok_def has_room_def)

lemma avl_insert_no_room:
  "\<not> has_room m \<Longrightarrow> \<forall>p \<in> set (inorder t). compar (cells m p) \<noteq> 0 \<Longrightarrow> avl_insert compar x t m = Inl Exit_failure"
proof (induction t)
  case NULL_TREE
  then show ?case by (auto simp: new_node_def ckalloc_def has_room_def split: list.splits)
next
  case (AVLnode p b l r)
  then show ?case by (cases "compar (cells m p)" "0 :: int" rule: linorder_cases) (auto simp: Let_def)
qed

section \<open>Search\<close>

text \<open>
  A comparison that goes right, stops or goes left along the tree: positive on the items of a
  first part, zero on those of a second, negative on the rest.
\<close>

definition descending :: "('a \<Rightarrow> int) \<Rightarrow> 'a avl_mem \<Rightarrow> nat list \<Rightarrow> bool" where
  "descending f m ps \<longleftrightarrow> sorted_wrt (\<lambda>p q. sgn (f (cells m q)) \<le> sgn (f (cells m p))) ps"

lemma descending_node:
  "descending f m (xs @ p # ys) \<longleftrightarrow> descending f m xs \<and> descending f m ys
     \<and> (\<forall>q \<in> set xs. sgn (f (cells m p)) \<le> sgn (f (cells m q))) \<and> (\<forall>q \<in> set ys. sgn (f (cells m q)) \<le> sgn (f (cells m p)))
     \<and> (\<forall>q \<in> set xs. \<forall>r \<in> set ys. sgn (f (cells m r)) \<le> sgn (f (cells m q)))"
  by (auto simp: descending_def sorted_wrt_append)

lemma sgn_le_neg: "sgn (a::int) \<le> sgn b \<Longrightarrow> b < 0 \<Longrightarrow> a < 0"
  by (auto simp: sgn_if split: if_splits)

lemma sgn_le_pos: "sgn (b::int) \<le> sgn a \<Longrightarrow> 0 < b \<Longrightarrow> 0 < a"
  by (auto simp: sgn_if split: if_splits)

lemma descending_sides:
  assumes "descending f m (xs @ p # ys)"
  shows "f (cells m p) < 0 \<Longrightarrow> \<forall>q \<in> set ys. f (cells m q) < 0"
    and "0 < f (cells m p) \<Longrightarrow> \<forall>q \<in> set xs. 0 < f (cells m q)"
  using assms sgn_le_neg sgn_le_pos unfolding descending_node by blast+

lemma avl_find_loop_ok:
  "descending (\<lambda>y. f y nd) m (inorder t) \<Longrightarrow>
     (case avl_find_loop f nd t m of
        Some p \<Rightarrow> p \<in> set (inorder t) \<and> f (cells m p) nd = 0
      | None \<Rightarrow> \<forall>p \<in> set (inorder t). f (cells m p) nd \<noteq> 0)"
proof (induction t)
  case (AVLnode p b l r)
  then have d: "descending (\<lambda>y. f y nd) m (inorder l)" "descending (\<lambda>y. f y nd) m (inorder r)"
    by (simp_all add: descending_node)
  have s: "f (cells m p) nd < 0 \<Longrightarrow> \<forall>q \<in> set (inorder r). f (cells m q) nd < 0"
       "0 < f (cells m p) nd \<Longrightarrow> \<forall>q \<in> set (inorder l). 0 < f (cells m q) nd"
    using descending_sides [of "\<lambda>y. f y nd" m "inorder l" p "inorder r"] AVLnode.prems by simp_all
  show ?case using AVLnode.IH(1) [OF d(1)] AVLnode.IH(2) [OF d(2)] s
    by (cases "f (cells m p) nd" "0 :: int" rule: linorder_cases)
       (auto simp: Let_def split: option.splits)
qed simp

lemma avl_find_ok:
  assumes "descending f m (inorder t)"
  shows "case avl_find (\<lambda>y _. f y) t m of
      Some p \<Rightarrow> p \<in> set (inorder t) \<and> f (cells m p) = 0
    | None \<Rightarrow> \<forall>p \<in> set (inorder t). f (cells m p) \<noteq> 0"
  unfolding avl_find_def using avl_find_loop_ok [of "\<lambda>y _. f y"] assms by simp

section \<open>Insertion\<close>

definition insert_ok :: "('a \<Rightarrow> int) \<Rightarrow> 'a \<Rightarrow> avl_node \<Rightarrow> 'a avl_mem \<Rightarrow> (nat option \<times> int \<times> avl_node \<times> 'a avl_mem) res \<Rightarrow> bool" where
  "insert_ok f x t m res \<longleftrightarrow>
     (\<exists>p. res = Inr (Some p, 0, t, m) \<and> p \<in> set (inorder t) \<and> f (cells m p) = 0)
   \<or> (\<exists>p h t' m' xs ys. res = Inr (None, h, t', m') \<and> new_node x m = Inr (AVLnode p 0 NULL_TREE NULL_TREE, m')
        \<and> avl_ok t' \<and> avl_height t' = avl_height t + h \<and> (h = 0 \<or> h = 1)
        \<and> inorder t = xs @ ys \<and> inorder t' = xs @ p # ys
        \<and> (\<forall>q \<in> set xs. 0 < f (cells m q)) \<and> (\<forall>q \<in> set ys. f (cells m q) < 0))"

lemma avl_insert_ok:
  "avl_ok t \<Longrightarrow> descending f m (inorder t) \<Longrightarrow> mem_ok m ps \<Longrightarrow> has_room m \<Longrightarrow> insert_ok f x t m (avl_insert f x t m)"
proof (induction t)
  case NULL_TREE
  then show ?case using new_node_ok [of m ps x] by (auto simp: insert_ok_def)
next
  case (AVLnode p b l r)
  then have d: "descending f m (inorder l)" "descending f m (inorder r)" and ok: "avl_ok l" "avl_ok r"
    by (simp_all add: descending_node)
  note L = AVLnode.IH(1) [OF ok(1) d(1) AVLnode.prems(3,4)] and R = AVLnode.IH(2) [OF ok(2) d(2) AVLnode.prems(3,4)]
  have s: "f (cells m p) < 0 \<Longrightarrow> \<forall>q \<in> set (inorder r). f (cells m q) < 0"
       "0 < f (cells m p) \<Longrightarrow> \<forall>q \<in> set (inorder l). 0 < f (cells m q)"
    using descending_sides [of f m "inorder l" p "inorder r"] AVLnode.prems(2) by simp_all
  consider "f (cells m p) < 0" | "f (cells m p) = 0" | "0 < f (cells m p)" by linarith
  then show ?case
  proof cases
    case 1
    from L consider (dup) q where "avl_insert f x l m = Inr (Some q, 0, l, m)" "q \<in> set (inorder l)" "f (cells m q) = 0"
      | (new) q h l' m' xs ys where "avl_insert f x l m = Inr (None, h, l', m')" "new_node x m = Inr (AVLnode q 0 NULL_TREE NULL_TREE, m')"
        "avl_ok l'" "avl_height l' = avl_height l + h" "h = 0 \<or> h = 1" "inorder l = xs @ ys" "inorder l' = xs @ q # ys"
        "\<forall>q \<in> set xs. 0 < f (cells m q)" "\<forall>q \<in> set ys. f (cells m q) < 0"
      unfolding insert_ok_def by blast
    then show ?thesis
    proof cases
      case dup
      then show ?thesis using 1 by (simp add: insert_ok_def)
    next
      case new
      note a = new
      obtain c t' where "avl_grow (- h) (AVLnode p b l' r) = Inr (c, t')" "avl_ok t'" "inorder t' = inorder l' @ p # inorder r"
          "avl_height t' = avl_height (AVLnode p b l r) + c" "c = 0 \<or> c = 1"
        using avl_grow_left [OF AVLnode.prems(1) a(3-5)] by (auto simp: step_ok_def)
      then have "avl_insert f x (AVLnode p b l r) m = Inr (None, c, t', m') \<and> avl_ok t'
          \<and> avl_height t' = avl_height (AVLnode p b l r) + c \<and> (c = 0 \<or> c = 1)
          \<and> inorder (AVLnode p b l r) = xs @ (ys @ p # inorder r) \<and> inorder t' = xs @ q # (ys @ p # inorder r)"
        using 1 a(1,6,7) by simp
      moreover have "\<forall>q \<in> set (ys @ p # inorder r). f (cells m q) < 0" using 1 s a(9) by auto
      ultimately show ?thesis
        unfolding insert_ok_def using a(2,8) by blast
    qed
  next
    case 2
    then show ?thesis by (simp add: insert_ok_def)
  next
    case 3
    from R consider (dup) q where "avl_insert f x r m = Inr (Some q, 0, r, m)" "q \<in> set (inorder r)" "f (cells m q) = 0"
      | (new) q h r' m' xs ys where "avl_insert f x r m = Inr (None, h, r', m')" "new_node x m = Inr (AVLnode q 0 NULL_TREE NULL_TREE, m')"
        "avl_ok r'" "avl_height r' = avl_height r + h" "h = 0 \<or> h = 1" "inorder r = xs @ ys" "inorder r' = xs @ q # ys"
        "\<forall>q \<in> set xs. 0 < f (cells m q)" "\<forall>q \<in> set ys. f (cells m q) < 0"
      unfolding insert_ok_def by blast
    then show ?thesis
    proof cases
      case dup
      then show ?thesis using 3 by (simp add: insert_ok_def)
    next
      case new
      note a = new
      obtain c t' where "avl_grow h (AVLnode p b l r') = Inr (c, t')" "avl_ok t'" "inorder t' = inorder l @ p # inorder r'"
          "avl_height t' = avl_height (AVLnode p b l r) + c" "c = 0 \<or> c = 1"
        using avl_grow_right [OF AVLnode.prems(1) a(3-5)] by (auto simp: step_ok_def)
      then have "avl_insert f x (AVLnode p b l r) m = Inr (None, c, t', m') \<and> avl_ok t'
          \<and> avl_height t' = avl_height (AVLnode p b l r) + c \<and> (c = 0 \<or> c = 1)
          \<and> inorder (AVLnode p b l r) = (inorder l @ p # xs) @ ys \<and> inorder t' = (inorder l @ p # xs) @ q # ys"
        using 3 a(1,6,7) by simp
      moreover have "\<forall>q \<in> set (inorder l @ p # xs). 0 < f (cells m q)" using 3 s a(8) by auto
      ultimately show ?thesis
        unfolding insert_ok_def using a(2,9) by blast
    qed
  qed
qed

section \<open>Deletion\<close>

lemma node_type_simps [simp]:
  "node_type NULL_TREE = IS_NULL"
  "node_type (AVLnode p b l r) = IS_LEAF \<longleftrightarrow> l = NULL_TREE \<and> r = NULL_TREE"
  "node_type (AVLnode p b l r) = IS_RBRANCH \<longleftrightarrow> l = NULL_TREE \<and> r \<noteq> NULL_TREE"
  "node_type (AVLnode p b l r) = IS_LBRANCH \<longleftrightarrow> l \<noteq> NULL_TREE \<and> r = NULL_TREE"
  "node_type (AVLnode p b l r) = IS_TREE \<longleftrightarrow> l \<noteq> NULL_TREE \<and> r \<noteq> NULL_TREE"
  by (auto simp: node_type_def)

lemma avl_min_node: "avl_min y (node_type (AVLnode p b l r)) = (if l = NULL_TREE then 0 else - 1)"
  by (auto simp: avl_min_def)

lemma avl_max_node: "avl_max y (node_type (AVLnode p b l r)) = (if r = NULL_TREE then 0 else 1)"
  by (auto simp: avl_max_def)

lemma avl_smallest_ok: "t \<noteq> NULL_TREE \<Longrightarrow> avl_smallest t = Inr (hd (inorder t))"
  by (induction t) (auto simp: avl_min_node)

lemma height_single: "avl_ok (AVLnode p b l r) \<Longrightarrow>
    (l = NULL_TREE \<longrightarrow> avl_height (AVLnode p b l r) = avl_height r + 1) \<and> (r = NULL_TREE \<longrightarrow> avl_height (AVLnode p b l r) = avl_height l + 1)"
  by auto

lemma avl_delete_min:
  "avl_ok t \<Longrightarrow> t \<noteq> NULL_TREE \<Longrightarrow> \<exists>h t'. avl_delete avl_min t m = Inr (Some (hd (inorder t)), h, t', free_node (hd (inorder t)) m)
     \<and> avl_ok t' \<and> inorder t' = tl (inorder t) \<and> avl_height t' = avl_height t - h \<and> (h = 0 \<or> h = 1)"
proof (induction t)
  case (AVLnode p b l r)
  show ?case
  proof (cases "l = NULL_TREE")
    case True
    then show ?thesis using AVLnode.prems(1) height_single [of p b l r] by (auto simp: Let_def avl_min_node)
  next
    case False
    then obtain h l' where a: "avl_delete avl_min l m = Inr (Some (hd (inorder l)), h, l', free_node (hd (inorder l)) m)"
        "avl_ok l'" "inorder l' = tl (inorder l)" "avl_height l' = avl_height l - h" "h = 0 \<or> h = 1"
      using AVLnode by auto
    obtain c t' where "avl_shrink (- h) (AVLnode p b l' r) = Inr (c, t')" "avl_ok t'" "inorder t' = inorder l' @ p # inorder r"
        "avl_height t' = avl_height (AVLnode p b l r) - c" "c = 0 \<or> c = 1"
      using avl_shrink_left [OF AVLnode.prems(1) a(2,4,5)] by (auto simp: step_ok_def)
    then show ?thesis using False a(1,3) by (simp add: Let_def avl_min_node)
  qed
qed simp

text \<open>
  A deletion under a comparison that is zero for one item at most: the item goes, one buffer
  of the tree becomes free, and only the returned buffer changes its contents.
\<close>

definition delete_ok :: "('a \<Rightarrow> int) \<Rightarrow> avl_node \<Rightarrow> 'a avl_mem \<Rightarrow> (nat option \<times> int \<times> avl_node \<times> 'a avl_mem) res \<Rightarrow> bool" where
  "delete_ok f t m res \<longleftrightarrow>
     res = Inr (None, 0, t, m) \<and> (\<forall>p \<in> set (inorder t). f (cells m p) \<noteq> 0)
   \<or> (\<exists>p q h t' c xs ys. res = Inr (Some p, h, t', (free_node q m)\<lparr>cells := c\<rparr>)
        \<and> avl_ok t' \<and> avl_height t' = avl_height t - h \<and> (h = 0 \<or> h = 1)
        \<and> mset (inorder t) = add_mset q (mset (inorder t'))
        \<and> inorder t = xs @ p # ys \<and> f (cells m p) = 0
        \<and> map c (inorder t') = map (cells m) (xs @ ys) \<and> (\<forall>a. a \<noteq> p \<longrightarrow> c a = cells m a))"

lemma avl_delete_root:
  assumes "avl_ok (AVLnode p b l r)" "distinct (inorder (AVLnode p b l r))" "f (cells m p) = 0"
  shows "delete_ok f (AVLnode p b l r) m (avl_delete (\<lambda>y _. f y) (AVLnode p b l r) m)"
proof (cases "l = NULL_TREE \<or> r = NULL_TREE")
  case True
  then have e: "avl_delete (\<lambda>y _. f y) (AVLnode p b l r) m =
      Inr (Some p, 1, if l = NULL_TREE then r else l, (free_node p m)\<lparr>cells := cells m\<rparr>)"
    using assms(3) by (auto simp: Let_def free_node_def)
  show ?thesis using True assms height_single [OF assms(1)] unfolding delete_ok_def e
    by (intro disjI2 exI [of _ p] exI [of _ "1::int"] exI [of _ "if l = NULL_TREE then r else l"]
        exI [of _ "cells m"] exI [of _ "inorder l"] exI [of _ "inorder r"]) auto
next
  case False
  define q where "q = hd (inorder r)"
  obtain qs where r: "inorder r = q # qs" using False by (cases "inorder r") (auto simp: q_def)
  obtain h r' where a: "avl_delete avl_min r m = Inr (Some q, h, r', free_node q m)" "avl_ok r'"
      "inorder r' = tl (inorder r)" "avl_height r' = avl_height r - h" "h = 0 \<or> h = 1"
    using avl_delete_min [of r m] assms(1) False by (auto simp: q_def)
  obtain c t' where t': "avl_shrink h (AVLnode p b l r') = Inr (c, t')" "avl_ok t'" "inorder t' = inorder l @ p # inorder r'"
      "avl_height t' = avl_height (AVLnode p b l r) - c" "c = 0 \<or> c = 1"
    using avl_shrink_right [OF assms(1) a(2,4,5)] by (auto simp: step_ok_def)
  have "avl_smallest r = Inr q" using avl_smallest_ok False by (simp add: q_def)
  then have e: "avl_delete (\<lambda>y _. f y) (AVLnode p b l r) m =
      Inr (Some p, c, t', (free_node q m)\<lparr>cells := (cells m)(p := cells m q)\<rparr>)"
    using False assms(3) a(1) t'(1) by (auto simp: Let_def free_node_def)
  have "map ((cells m)(p := cells m q)) (inorder t') = map (cells m) (inorder l @ inorder r)"
    using assms(2) unfolding t'(3) a(3) by (auto simp: r)
  moreover have "mset (inorder (AVLnode p b l r)) = add_mset q (mset (inorder t'))"
    unfolding t'(3) a(3) by (simp add: r)
  ultimately show ?thesis using t'(2,4,5) assms(3) unfolding delete_ok_def e
    by (intro disjI2 exI [of _ p] exI [of _ q] exI [of _ c] exI [of _ t'] exI [of _ "(cells m)(p := cells m q)"]
        exI [of _ "inorder l"] exI [of _ "inorder r"]) auto
qed

lemma avl_delete_ok:
  "avl_ok t \<Longrightarrow> descending f m (inorder t) \<Longrightarrow> distinct (inorder t) \<Longrightarrow>
     delete_ok f t m (avl_delete (\<lambda>y _. f y) t m)"
proof (induction t)
  case NULL_TREE
  then show ?case by (simp add: delete_ok_def)
next
  case (AVLnode p b l r)
  then have d: "descending f m (inorder l)" "descending f m (inorder r)" and ok: "avl_ok l" "avl_ok r"
      and dist: "distinct (inorder l)" "distinct (inorder r)"
    by (simp_all add: descending_node)
  note L = AVLnode.IH(1) [OF ok(1) d(1) dist(1)] and R = AVLnode.IH(2) [OF ok(2) d(2) dist(2)]
  have s: "f (cells m p) < 0 \<Longrightarrow> \<forall>q \<in> set (inorder r). f (cells m q) < 0"
       "0 < f (cells m p) \<Longrightarrow> \<forall>q \<in> set (inorder l). 0 < f (cells m q)"
    using descending_sides [of f m "inorder l" p "inorder r"] AVLnode.prems(2) by simp_all
  consider "f (cells m p) < 0" | "f (cells m p) = 0" | "0 < f (cells m p)" by linarith
  then show ?case
  proof cases
    case 1
    from L consider (none) "avl_delete (\<lambda>y _. f y) l m = Inr (None, 0, l, m)" "\<forall>p \<in> set (inorder l). f (cells m p) \<noteq> 0"
      | (del) a q h l' c xs ys where "avl_delete (\<lambda>y _. f y) l m = Inr (Some a, h, l', (free_node q m)\<lparr>cells := c\<rparr>)"
        "avl_ok l'" "avl_height l' = avl_height l - h" "h = 0 \<or> h = 1" "mset (inorder l) = add_mset q (mset (inorder l'))"
        "inorder l = xs @ a # ys" "f (cells m a) = 0" "map c (inorder l') = map (cells m) (xs @ ys)" "\<forall>b. b \<noteq> a \<longrightarrow> c b = cells m b"
      unfolding delete_ok_def by blast
    then show ?thesis
    proof cases
      case none
      then show ?thesis using 1 s by (force simp: delete_ok_def Let_def)
    next
      case del
      obtain k t' where t': "avl_shrink (- h) (AVLnode p b l' r) = Inr (k, t')" "avl_ok t'" "inorder t' = inorder l' @ p # inorder r"
          "avl_height t' = avl_height (AVLnode p b l r) - k" "k = 0 \<or> k = 1"
        using avl_shrink_left [OF AVLnode.prems(1) del(2-4)] by (auto simp: step_ok_def)
      have e: "avl_delete (\<lambda>y _. f y) (AVLnode p b l r) m = Inr (Some a, k, t', (free_node q m)\<lparr>cells := c\<rparr>)"
        using 1 del(1) t'(1) by (simp add: Let_def)
      have "map c (p # inorder r) = map (cells m) (p # inorder r)"
        using AVLnode.prems(3) del(6,9) by auto
      then show ?thesis unfolding delete_ok_def e using t' del(5-9)
        by (intro disjI2 exI [of _ a] exI [of _ q] exI [of _ k] exI [of _ t'] exI [of _ c]
            exI [of _ xs] exI [of _ "ys @ p # inorder r"]) auto
    qed
  next
    case 2
    then show ?thesis using avl_delete_root AVLnode.prems by blast
  next
    case 3
    from R consider (none) "avl_delete (\<lambda>y _. f y) r m = Inr (None, 0, r, m)" "\<forall>p \<in> set (inorder r). f (cells m p) \<noteq> 0"
      | (del) a q h r' c xs ys where "avl_delete (\<lambda>y _. f y) r m = Inr (Some a, h, r', (free_node q m)\<lparr>cells := c\<rparr>)"
        "avl_ok r'" "avl_height r' = avl_height r - h" "h = 0 \<or> h = 1" "mset (inorder r) = add_mset q (mset (inorder r'))"
        "inorder r = xs @ a # ys" "f (cells m a) = 0" "map c (inorder r') = map (cells m) (xs @ ys)" "\<forall>b. b \<noteq> a \<longrightarrow> c b = cells m b"
      unfolding delete_ok_def by blast
    then show ?thesis
    proof cases
      case none
      then show ?thesis using 3 s by (force simp: delete_ok_def Let_def)
    next
      case del
      obtain k t' where t': "avl_shrink h (AVLnode p b l r') = Inr (k, t')" "avl_ok t'" "inorder t' = inorder l @ p # inorder r'"
          "avl_height t' = avl_height (AVLnode p b l r) - k" "k = 0 \<or> k = 1"
        using avl_shrink_right [OF AVLnode.prems(1) del(2-4)] by (auto simp: step_ok_def)
      have e: "avl_delete (\<lambda>y _. f y) (AVLnode p b l r) m = Inr (Some a, k, t', (free_node q m)\<lparr>cells := c\<rparr>)"
        using 3 del(1) t'(1) by (simp add: Let_def)
      have "map c (inorder l @ [p]) = map (cells m) (inorder l @ [p])"
        using AVLnode.prems(3) del(6,9) by auto
      then show ?thesis unfolding delete_ok_def e using t' del(5-9)
        by (intro disjI2 exI [of _ a] exI [of _ q] exI [of _ k] exI [of _ t'] exI [of _ c]
            exI [of _ "inorder l @ p # xs"] exI [of _ ys]) auto
    qed
  qed
qed

section \<open>Ordered items\<close>

definition avl_items :: "avl_descriptor \<Rightarrow> 'a avl_mem \<Rightarrow> 'a list" where
  "avl_items desc m = map (cells m) (inorder (avl_root desc))"

definition by_key :: "('a \<Rightarrow> 'k::linorder) \<Rightarrow> 'a list \<Rightarrow> bool" where
  "by_key key xs \<longleftrightarrow> sorted_wrt (\<lambda>x y. key x < key y) xs"

definition avl_inv :: "('a \<Rightarrow> 'k::linorder) \<Rightarrow> ('a \<Rightarrow> bool) \<Rightarrow> avl_descriptor \<Rightarrow> 'a avl_mem \<Rightarrow> bool" where
  "avl_inv key valid desc m \<longleftrightarrow> avl_ok (avl_root desc) \<and> mem_ok m (inorder (avl_root desc))
     \<and> by_key key (avl_items desc m) \<and> (\<forall>x \<in> set (avl_items desc m). valid x)
     \<and> avl_count desc = int (length (avl_items desc m))"

definition ins_item :: "('a \<Rightarrow> 'k::linorder) \<Rightarrow> 'a \<Rightarrow> 'a list \<Rightarrow> 'a list" where
  "ins_item key x xs = filter (\<lambda>y. key y < key x) xs @ x # filter (\<lambda>y. key x < key y) xs"

lemma ins_item_split:
  assumes "\<forall>y \<in> set xs. key y < key x" "\<forall>y \<in> set ys. key x < key y"
  shows "ins_item key x (xs @ ys) = xs @ x # ys"
proof -
  have "filter (\<lambda>y. key y < key x) xs = xs" "filter (\<lambda>y. key y < key x) ys = []"
       "filter (\<lambda>y. key x < key y) xs = []" "filter (\<lambda>y. key x < key y) ys = ys"
    using assms by (auto simp: filter_id_conv filter_empty_conv not_less less_imp_le)
  then show ?thesis by (simp add: ins_item_def)
qed

lemma del_item_split:
  assumes "by_key key (xs @ y # ys)" "key y = k"
  shows "filter (\<lambda>z. key z \<noteq> k) (xs @ y # ys) = xs @ ys"
proof -
  have "filter (\<lambda>z. key z \<noteq> k) xs = xs" "filter (\<lambda>z. key z \<noteq> k) ys = ys"
    using assms by (auto simp: by_key_def sorted_wrt_append intro!: filter_True)
  then show ?thesis using assms(2) by simp
qed

locale avl_order =
  fixes compar :: "'a \<Rightarrow> 'a \<Rightarrow> int" and key :: "'a \<Rightarrow> 'k::linorder" and valid :: "'a \<Rightarrow> bool"
  assumes less: "valid x \<Longrightarrow> valid y \<Longrightarrow> compar x y < 0 \<longleftrightarrow> key x < key y"
    and greater: "valid x \<Longrightarrow> valid y \<Longrightarrow> 0 < compar x y \<longleftrightarrow> key y < key x"
begin

lemma equal: "valid x \<Longrightarrow> valid y \<Longrightarrow> compar x y = 0 \<longleftrightarrow> key x = key y"
  using less [of x y] greater [of x y] by (metis linorder_neqE_linordered_idom linorder_neqE order_less_irrefl)

lemma inv_descending:
  assumes "avl_inv key valid desc m" "valid x"
  shows "descending (compar x) m (inorder (avl_root desc))"
proof -
  let ?ps = "inorder (avl_root desc)"
  have "sorted_wrt (\<lambda>p q. key (cells m p) < key (cells m q)) ?ps" "\<forall>p \<in> set ?ps. valid (cells m p)"
    using assms(1) by (auto simp: avl_inv_def by_key_def avl_items_def sorted_wrt_map)
  moreover have "sgn (compar x b) \<le> sgn (compar x a)" if "valid a" "valid b" "key a < key b" for a b
    using that assms(2) less [of x a] less [of x b] greater [of x a] greater [of x b] equal [of x a] equal [of x b]
    by (auto simp: sgn_if)
  ultimately show ?thesis unfolding descending_def by (auto intro: sorted_wrt_mono_rel [rotated])
qed

lemma avlfind_spec:
  assumes "avl_inv key valid desc m" "valid x"
  shows "case avlfind compar x desc m of
      Some p \<Rightarrow> p \<in> set (inorder (avl_root desc)) \<and> key (cells m p) = key x
    | None \<Rightarrow> key x \<notin> key ` set (avl_items desc m)"
proof -
  have v: "valid (cells m p)" if "p \<in> set (inorder (avl_root desc))" for p
    using assms(1) that by (auto simp: avl_inv_def avl_items_def)
  show ?thesis using avl_find_ok [OF inv_descending [OF assms]] equal [OF assms(2) v]
    by (auto simp: avlfind_def avl_items_def split: option.splits)
qed

lemma avlins_no_room:
  assumes inv: "avl_inv key valid desc m" and x: "valid x" "key x \<notin> key ` set (avl_items desc m)" and room: "\<not> has_room m"
  shows "avlins compar x desc m = Inl Exit_failure"
proof -
  have "compar x (cells m p) \<noteq> 0" if "p \<in> set (inorder (avl_root desc))" for p
    using inv x that equal [of x "cells m p"] by (force simp: avl_inv_def avl_items_def)
  then show ?thesis using avl_insert_no_room [OF room] by (simp add: avlins_def)
qed

lemma avlins_spec:
  assumes inv: "avl_inv key valid desc m" and x: "valid x" and room: "has_room m"
  shows "if key x \<in> key ` set (avl_items desc m)
    then \<exists>p. avlins compar x desc m = Inr (Some p, desc, m) \<and> p \<in> set (inorder (avl_root desc)) \<and> key (cells m p) = key x
    else \<exists>desc' m'. avlins compar x desc m = Inr (None, desc', m') \<and> avl_inv key valid desc' m'
           \<and> avl_items desc' m' = ins_item key x (avl_items desc m)
           \<and> avl_left_over m \<le> avl_left_over m' + 2 \<and> is_finalize m' = is_finalize m"
proof -
  let ?t = "avl_root desc"
  have v: "valid (cells m p)" if "p \<in> set (inorder ?t)" for p
    using inv that by (auto simp: avl_inv_def avl_items_def)
  have mem: "mem_ok m (inorder ?t)" and ok: "avl_ok ?t" using inv by (simp_all add: avl_inv_def)
  note eq = equal [OF x v] and lt = less [OF x v] and gt = greater [OF x v]
  from avl_insert_ok [OF ok inv_descending [OF inv x] mem room, of x]
  consider (dup) p where "avl_insert (compar x) x ?t m = Inr (Some p, 0, ?t, m)" "p \<in> set (inorder ?t)" "compar x (cells m p) = 0"
    | (new) p h t' m' xs ys where "avl_insert (compar x) x ?t m = Inr (None, h, t', m')"
      "new_node x m = Inr (AVLnode p 0 NULL_TREE NULL_TREE, m')" "avl_ok t'" "inorder ?t = xs @ ys" "inorder t' = xs @ p # ys"
      "\<forall>q \<in> set xs. 0 < compar x (cells m q)" "\<forall>q \<in> set ys. compar x (cells m q) < 0"
    unfolding insert_ok_def by blast
  then show ?thesis
  proof cases
    case dup
    then show ?thesis using eq by (auto simp: avlins_def avl_items_def)
  next
    case new
    obtain q m'' where "new_node x m = Inr (AVLnode q 0 NULL_TREE NULL_TREE, m'')" "q \<notin> set (inorder ?t)"
        "mem_ok m'' (q # inorder ?t)" "cells m'' = (cells m)(q := x)" "avl_left_over m \<le> avl_left_over m'' + 2"
        "is_finalize m'' = is_finalize m"
      using new_node_ok [OF mem room] by blast
    then have m': "p \<notin> set (inorder ?t)" "mem_ok m' (p # inorder ?t)" "cells m' = (cells m)(p := x)"
        "avl_left_over m \<le> avl_left_over m' + 2" "is_finalize m' = is_finalize m" using new(2) by auto
    have k: "\<forall>y \<in> set (map (cells m) xs). key y < key x" "\<forall>y \<in> set (map (cells m) ys). key x < key y"
      using new(4,6,7) gt lt by auto
    define desc' where "desc' = desc\<lparr>avl_root := t', avl_count := avl_count desc + 1\<rparr>"
    have c: "map (cells m') xs = map (cells m) xs" "map (cells m') ys = map (cells m) ys" using m'(1,3) new(4) by auto
    have items: "avl_items desc' m' = map (cells m) xs @ x # map (cells m) ys"
      using c m'(3) new(5) by (simp add: avl_items_def desc'_def)
    have "avl_items desc' m' = ins_item key x (avl_items desc m)"
      unfolding items ins_item_split [OF k, symmetric] by (simp add: avl_items_def new(4))
    moreover have "avl_inv key valid desc' m'"
      unfolding avl_inv_def items
    proof (intro conjI)
      show "mem_ok m' (inorder (avl_root desc'))"
        using m'(2) mem_ok_perm [of "p # inorder ?t" "inorder t'" m'] new(4,5) by (simp add: desc'_def)
      show "by_key key (map (cells m) xs @ x # map (cells m) ys)"
        using inv k new(4) by (auto simp: avl_inv_def by_key_def avl_items_def sorted_wrt_append intro: less_trans)
      show "\<forall>y \<in> set (map (cells m) xs @ x # map (cells m) ys). valid y" using x v new(4) by auto
      show "avl_count desc' = int (length (map (cells m) xs @ x # map (cells m) ys))"
        using inv new(4) by (simp add: desc'_def avl_inv_def avl_items_def)
    qed (use new(3) in \<open>simp add: desc'_def\<close>)
    moreover have "avlins compar x desc m = Inr (None, desc', m')" using new(1) by (simp add: avlins_def desc'_def)
    moreover have "key x \<notin> key ` set (avl_items desc m)" using k new(4) by (auto simp: avl_items_def)
    ultimately show ?thesis using m'(4,5) by auto
  qed
qed

lemma avldel_spec:
  assumes inv: "avl_inv key valid desc m" and x: "valid x"
  shows "if key x \<in> key ` set (avl_items desc m)
    then \<exists>p desc' m'. avldel compar x desc m = Inr (Some p, desc', m') \<and> avl_inv key valid desc' m'
           \<and> avl_items desc' m' = filter (\<lambda>y. key y \<noteq> key x) (avl_items desc m)
           \<and> p \<in> set (inorder (avl_root desc)) \<and> key (cells m p) = key x
           \<and> avl_left_over m' = avl_left_over m \<and> is_finalize m' = is_finalize m
    else avldel compar x desc m = Inr (None, desc, m)"
proof -
  let ?t = "avl_root desc"
  have v: "valid (cells m p)" if "p \<in> set (inorder ?t)" for p
    using inv that by (auto simp: avl_inv_def avl_items_def)
  have mem: "mem_ok m (inorder ?t)" and ok: "avl_ok ?t" using inv by (simp_all add: avl_inv_def)
  then have dist: "distinct (inorder ?t)" by (simp add: mem_ok_def)
  note eq = equal [OF x v]
  from avl_delete_ok [OF ok inv_descending [OF inv x] dist]
  consider (none) "avl_delete (\<lambda>y _. compar x y) ?t m = Inr (None, 0, ?t, m)" "\<forall>p \<in> set (inorder ?t). compar x (cells m p) \<noteq> 0"
    | (del) p q h t' c xs ys where "avl_delete (\<lambda>y _. compar x y) ?t m = Inr (Some p, h, t', (free_node q m)\<lparr>cells := c\<rparr>)"
      "avl_ok t'" "mset (inorder ?t) = add_mset q (mset (inorder t'))" "inorder ?t = xs @ p # ys" "compar x (cells m p) = 0"
      "map c (inorder t') = map (cells m) (xs @ ys)"
    unfolding delete_ok_def by blast
  then show ?thesis
  proof cases
    case none
    then show ?thesis using eq by (auto simp: avldel_def del_with_def avl_items_def)
  next
    case del
    define desc' where "desc' = desc\<lparr>avl_root := t', avl_count := avl_count desc - 1\<rparr>"
    define m' where "m' = (free_node q m)\<lparr>cells := c\<rparr>"
    have p: "p \<in> set (inorder ?t)" "key (cells m p) = key x" using del(4,5) eq by auto
    have items: "avl_items desc' m' = map (cells m) xs @ map (cells m) ys"
      using del(6) by (simp add: avl_items_def desc'_def m'_def)
    have old: "avl_items desc m = map (cells m) xs @ cells m p # map (cells m) ys" by (simp add: avl_items_def del(4))
    have bk: "by_key key (avl_items desc m)" using inv by (simp add: avl_inv_def)
    then have "avl_items desc' m' = filter (\<lambda>y. key y \<noteq> key x) (avl_items desc m)"
      unfolding items using del_item_split [of key "map (cells m) xs" "cells m p" "map (cells m) ys"] p(2) old by simp
    moreover have "avl_inv key valid desc' m'"
      unfolding avl_inv_def items
    proof (intro conjI)
      have "mem_ok m (q # inorder t')" using mem mem_ok_perm [of "inorder ?t" "q # inorder t'" m] del(3) by simp
      then show "mem_ok m' (inorder (avl_root desc'))" using mem_ok_free [of m q "inorder t'"] by (simp add: m'_def desc'_def)
      show "by_key key (map (cells m) xs @ map (cells m) ys)" using bk by (auto simp: old by_key_def sorted_wrt_append)
      show "\<forall>y \<in> set (map (cells m) xs @ map (cells m) ys). valid y" using v del(4) by auto
      show "avl_count desc' = int (length (map (cells m) xs @ map (cells m) ys))"
        using inv by (simp add: desc'_def avl_inv_def old)
    qed (use del(2) in \<open>simp add: desc'_def\<close>)
    moreover have "avldel compar x desc m = Inr (Some p, desc', m')"
      using del(1) by (simp add: avldel_def del_with_def desc'_def m'_def)
    moreover have "key x \<in> key ` set (avl_items desc m)" using p(2) by (auto simp: old)
    moreover have "avl_left_over m' = avl_left_over m" "is_finalize m' = is_finalize m"
      by (simp_all add: m'_def free_node_def)
    ultimately show ?thesis using p by auto
  qed
qed

end

text \<open>
  Property C12. An insertion keeps the tree balanced, ordered and counted. If an item with the
  same key is there, its address is returned and nothing changes; otherwise the item goes to
  its place among the others.
\<close>

theorem avlins_inserts:
  assumes "avl_order compar key valid" "avl_inv key valid desc m" "valid x" "has_room m"
  shows "if key x \<in> key ` set (avl_items desc m)
    then \<exists>p. avlins compar x desc m = Inr (Some p, desc, m) \<and> p \<in> set (inorder (avl_root desc)) \<and> key (cells m p) = key x
    else \<exists>desc' m'. avlins compar x desc m = Inr (None, desc', m') \<and> avl_inv key valid desc' m'
           \<and> avl_items desc' m' = ins_item key x (avl_items desc m)
           \<and> avl_left_over m \<le> avl_left_over m' + 2 \<and> is_finalize m' = is_finalize m"
  using assms by (rule avl_order.avlins_spec)

lemma int_order: "avl_order (\<lambda>x y. x - y :: int) id (\<lambda>_. True)"
  by unfold_locales auto

text \<open>A tree with the items 10, 20 and 30 in buffers 0, 1 and 2, and one buffer on the free list.\<close>

definition ex_avl :: avl_descriptor where
  "ex_avl = \<lparr>avl_root = AVLnode 1 0 (AVLnode 0 0 NULL_TREE NULL_TREE) (AVLnode 2 0 NULL_TREE NULL_TREE), avl_count = 3\<rparr>"

definition ex_avl_mem :: "int avl_mem" where
  "ex_avl_mem = \<lparr>cells = (\<lambda>p. 10 * (int p + 1)), avl_free_list = [7], avl_brk = 8, avl_left_over = 0, is_finalize = False\<rparr>"

lemma ex_avl_inv: "avl_inv id (\<lambda>_. True) ex_avl ex_avl_mem" "has_room ex_avl_mem" "avl_items ex_avl ex_avl_mem = [10, 20, 30]"
  by (simp_all add: avl_inv_def ex_avl_def ex_avl_mem_def mem_ok_def has_room_def avl_items_def by_key_def)

theorem avlins_inserts_witness:
  "\<exists>desc' m'. avlins (-) 25 ex_avl ex_avl_mem = Inr (None, desc', m') \<and> avl_items desc' m' = [10, 20, 25, 30]"
  using avlins_inserts [OF int_order ex_avl_inv(1) _ ex_avl_inv(2), of 25] by (auto simp: ex_avl_inv(3) ins_item_def)

text \<open>
  Property C13. A deletion removes exactly the item with the given key and keeps the tree
  balanced, ordered and counted; if there is none, nothing changes. The address returned is
  that of the buffer that held the item.
\<close>

theorem avldel_deletes:
  assumes "avl_order compar key valid" "avl_inv key valid desc m" "valid x"
  shows "if key x \<in> key ` set (avl_items desc m)
    then \<exists>p desc' m'. avldel compar x desc m = Inr (Some p, desc', m') \<and> avl_inv key valid desc' m'
           \<and> avl_items desc' m' = filter (\<lambda>y. key y \<noteq> key x) (avl_items desc m)
           \<and> p \<in> set (inorder (avl_root desc)) \<and> key (cells m p) = key x
           \<and> avl_left_over m' = avl_left_over m \<and> is_finalize m' = is_finalize m
    else avldel compar x desc m = Inr (None, desc, m)"
  using assms by (rule avl_order.avldel_spec)

theorem avldel_deletes_witness:
  "\<exists>p desc' m'. avldel (-) 20 ex_avl ex_avl_mem = Inr (Some p, desc', m') \<and> avl_items desc' m' = [10, 30]"
proof -
  have "if (20::int) \<in> id ` set (avl_items ex_avl ex_avl_mem)
    then \<exists>p desc' m'. avldel (-) 20 ex_avl ex_avl_mem = Inr (Some p, desc', m') \<and> avl_inv id (\<lambda>_. True) desc' m'
           \<and> avl_items desc' m' = filter (\<lambda>y. id y \<noteq> id 20) (avl_items ex_avl ex_avl_mem)
           \<and> p \<in> set (inorder (avl_root ex_avl)) \<and> id (cells ex_avl_mem p) = id 20
           \<and> avl_left_over m' = avl_left_over ex_avl_mem \<and> is_finalize m' = is_finalize ex_avl_mem
    else avldel (-) 20 ex_avl ex_avl_mem = Inr (None, ex_avl, ex_avl_mem)"
    using avldel_deletes [OF int_order ex_avl_inv(1), of 20] by simp
  then show ?thesis by (auto simp: ex_avl_inv(3))
qed

text \<open>
  What \<open>avldel\<close> returns for a node with two children is the address of a buffer
  that is still in the tree and holds the next larger item, not the one that was deleted.
\<close>

theorem avldel_returns_successor:
  assumes "avl_order compar key valid" "avl_inv key valid desc m" "avl_root desc = AVLnode p b l r"
    "l \<noteq> NULL_TREE" "r \<noteq> NULL_TREE" "avldel compar (cells m p) desc m = Inr (d, desc', m')"
  shows "d = Some p \<and> p \<in> set (inorder (avl_root desc')) \<and> cells m' p = cells m (hd (inorder r))"
proof -
  have ok: "avl_ok (AVLnode p b l r)" "valid (cells m p)" using assms(2,3) by (auto simp: avl_inv_def avl_items_def)
  have z: "compar (cells m p) (cells m p) = 0" using avl_order.equal [OF assms(1) ok(2) ok(2)] by simp
  define q where "q = hd (inorder r)"
  obtain h r' where a: "avl_delete avl_min r m = Inr (Some q, h, r', free_node q m)" "avl_ok r'"
      "avl_height r' = avl_height r - h" "h = 0 \<or> h = 1"
    using avl_delete_min [of r m] ok(1) assms(5) by (auto simp: q_def)
  obtain c t' where t': "avl_shrink h (AVLnode p b l r') = Inr (c, t')" "inorder t' = inorder l @ p # inorder r'"
    using avl_shrink_right [OF ok(1) a(2-4)] by (auto simp: step_ok_def)
  have "avl_smallest r = Inr q" using avl_smallest_ok assms(5) by (simp add: q_def)
  then have "avl_delete (\<lambda>y _. compar (cells m p) y) (avl_root desc) m
      = Inr (Some p, c, t', (free_node q m)\<lparr>cells := (cells m)(p := cells m q)\<rparr>)"
    using assms(3-5) a(1) t'(1) z by (auto simp: Let_def free_node_def)
  then show ?thesis using assms(6) t'(2) by (auto simp: avldel_def del_with_def q_def)
qed

theorem avldel_returns_successor_witness:
  "\<exists>desc' m'. avldel (-) 20 ex_avl ex_avl_mem = Inr (Some 1, desc', m') \<and> cells m' 1 = 30"
proof -
  have c: "cells ex_avl_mem 1 = 20" by (simp add: ex_avl_mem_def)
  obtain p desc' m' where e: "avldel (-) (cells ex_avl_mem 1) ex_avl ex_avl_mem = Inr (p, desc', m')"
    unfolding c using avl_order.avldel_spec [OF int_order ex_avl_inv(1), of 20] by (auto simp: ex_avl_inv(3) split: if_splits)
  show ?thesis
    using e [unfolded c] avldel_returns_successor [OF int_order ex_avl_inv(1) _ _ _ e] by (auto simp: ex_avl_def ex_avl_mem_def)
qed

text \<open>
  \<open>avlfindmin\<close> and \<open>avlfindmax\<close> look at the root only. The node type they test is
  computed once, for the root: with a left child there, \<open>avlfindmin\<close> runs off the left end and
  returns \<open>NULL\<close>, and \<open>avlfindmax\<close> does so with a right child.
\<close>

theorem avlfindmin_root_only:
  assumes "avl_root desc = AVLnode p b l r"
  shows "avlfindmin desc m = (if l = NULL_TREE then Some p else None)
    \<and> avlfindmax desc m = (if r = NULL_TREE then Some p else None)"
proof -
  have "avl_find_loop avl_min nd t m = None" if "nd \<noteq> IS_RBRANCH" "nd \<noteq> IS_LEAF" for nd t
    using that by (induction t) (auto simp: avl_min_def Let_def)
  moreover have "avl_find_loop avl_max nd t m = None" if "nd \<noteq> IS_LBRANCH" "nd \<noteq> IS_LEAF" for nd t
    using that by (induction t) (auto simp: avl_max_def Let_def)
  ultimately show ?thesis
    using assms by (auto simp: avlfindmin_def avlfindmax_def avl_find_def avl_min_node avl_max_node Let_def)
qed

theorem avlfindmin_root_only_witness: "avlfindmin ex_avl ex_avl_mem = None \<and> avlfindmax ex_avl ex_avl_mem = None"
  using avlfindmin_root_only [of ex_avl 1 0 "AVLnode 0 0 NULL_TREE NULL_TREE" "AVLnode 2 0 NULL_TREE NULL_TREE" ex_avl_mem]
  by (simp add: ex_avl_def)

text \<open>
  A tree of height \<open>h\<close> has at least \<open>2 ^ (h div 2) - 1\<close> nodes, so that searches take
  at most twice the logarithm of the number of items.
\<close>

theorem avl_height_bound:
  assumes "avl_ok t"
  shows "2 ^ (nat (avl_height t) div 2) \<le> length (inorder t) + 1"
  using assms
proof (induction t)
  case (AVLnode p b l r)
  define i j where "i = nat (avl_height l)" and "j = nat (avl_height r)"
  have h: "nat (avl_height (AVLnode p b l r)) = Suc (max i j)" "i \<le> Suc j" "j \<le> Suc i"
    using AVLnode.prems avl_height_nonneg [of l] avl_height_nonneg [of r]
    by (auto simp: i_def j_def nat_add_distrib max_def)
  have "Suc (max i j) div 2 \<le> Suc (min i j div 2)" using h(2,3) by (auto simp: max_def min_def)
  then have "(2::nat) ^ (Suc (max i j) div 2) \<le> 2 ^ Suc (min i j div 2)" by (rule power_increasing) simp
  also have "\<dots> \<le> 2 ^ (i div 2) + 2 ^ (j div 2)"
  proof -
    have "(2::nat) ^ (min i j div 2) \<le> 2 ^ (i div 2)" "(2::nat) ^ (min i j div 2) \<le> 2 ^ (j div 2)"
      by (auto intro!: power_increasing div_le_mono)
    then show ?thesis unfolding power_Suc by linarith
  qed
  also have "\<dots> \<le> length (inorder (AVLnode p b l r)) + 1" using AVLnode by (auto simp: i_def j_def)
  finally show ?case unfolding h(1) .
qed simp

theorem avl_height_bound_witness: "2 ^ (nat (avl_height (avl_root ex_avl)) div 2) \<le> length (inorder (avl_root ex_avl)) + 1"
  by (rule avl_height_bound) (simp add: ex_avl_def)

text \<open>The walk visits the items in order from left to right, and backwards from right to left.\<close>

lemma avlwalk_inorder:
  "[p. (p, v, _, _, _) \<leftarrow> avl_walk so level t, v = INORDER] = (if so = LEFT_TO_RIGHT then inorder t else rev (inorder t))"
  by (induction t arbitrary: level) (auto simp: Let_def)

end
