(* ===== verification/LC_Dreg.thy ===== *)
theory LC_Dreg
  imports LC_Avl
begin

text \<open>
  The registration cache of \<open>src/dreg/dreg.c\<close>. Registered regions are kept per virtual memory
  area (vma): a list of disjoint areas in order, each with the entries that cover it, and an
  AVL tree of the areas for searching. Entries, areas and list cells come from free lists.

  Page numbers are naturals below \<open>2 ^ 52\<close>, as they are addresses shifted by 12; the sizes of
  entries are computed modulo \<open>2 ^ 64\<close> as in C. The doubly linked list of areas is a list of
  area numbers, with \<open>None\<close> for the sentinel \<open>&vma_list\<close>; the lists of entries are lists of
  entry numbers. \<open>malloc\<close> of areas and of list cells succeeds. The macro
  \<open>rdma_dreg_cache_limit\<close> is 0, which switches the limit off. The locks are not part of the
  model: every public function runs under \<open>dreg_lock\<close>.
\<close>

section \<open>State\<close>

definition rdma_dreg_cache_limit :: nat where "rdma_dreg_cache_limit = 0"
definition rdma_ndreg_entries :: nat where "rdma_ndreg_entries = 8192"
definition DREG_PAGEBITS :: nat where "DREG_PAGEBITS = 12"
definition DREG_PAGESIZE :: nat where "DREG_PAGESIZE = 4096"

record dreg_entry =
  pagenum :: nat
  npages :: nat
  refcount :: int
  memhandle :: u64                      \<comment> \<open>\<open>memhandle[0]\<close>, as \<open>rdma_num_hcas\<close> is 1\<close>
  next_unused :: "nat option"
  prev_unused :: "nat option"
  is_valid :: bool

record vma =
  vm_start :: nat
  vm_end :: nat
  vm_list :: "nat list"
  vm_count :: nat

datatype mr_event = Get_dma_mem u64 nat u64 | Free_dma_mem u64    \<comment> \<open>address, bytes and handle\<close>

record dreg_state =
  vmas :: "nat \<Rightarrow> vma"
  vma_list :: "nat list"
  vma_tree :: avl_descriptor
  vma_mem :: "nat avl_mem"
  vma_free_list :: "nat list"
  vma_brk :: nat
  pinned_pages_count :: int
  dregs :: "nat \<Rightarrow> dreg_entry"
  dreg_free_list :: "nat list"
  dreg_unused_list :: "nat option"
  dreg_unused_tail :: "nat option"
  dreg_inuse_count :: int
  dreg_max_use_count :: int
  is_dreg_initialized :: bool
  deregister_mr_array :: "nat list option"             \<comment> \<open>\<open>None\<close> if not allocated; its length is \<open>n_dereg_mr\<close>\<close>
  delayed_buf_region :: "(u64 \<times> u64) list option"     \<comment> \<open>likewise, with \<open>buf_reg_count\<close>\<close>
  mr_log :: "mr_event list"

definition upd_vma :: "nat \<Rightarrow> (vma \<Rightarrow> vma) \<Rightarrow> dreg_state \<Rightarrow> dreg_state" where
  "upd_vma v f s = s\<lparr>vmas := (vmas s)(v := f (vmas s v))\<rparr>"

definition upd_dreg :: "nat \<Rightarrow> (dreg_entry \<Rightarrow> dreg_entry) \<Rightarrow> dreg_state \<Rightarrow> dreg_state" where
  "upd_dreg d f s = s\<lparr>dregs := (dregs s)(d := f (dregs s d))\<rparr>"

definition DREG_BEGIN :: "dreg_entry \<Rightarrow> nat" where
  "DREG_BEGIN r = pagenum r"

definition DREG_END :: "dreg_entry \<Rightarrow> nat" where
  "DREG_END r = (pagenum r + npages r + (2 ^ 64 - 1)) mod 2 ^ 64"

section \<open>The lists\<close>

text \<open>\<open>vma->next\<close> and \<open>vma->prev\<close>; \<open>None\<close> is the sentinel on both sides.\<close>

definition next_of :: "nat list \<Rightarrow> nat option \<Rightarrow> nat option" where
  "next_of xs i =
     (case i of
        None \<Rightarrow> (case xs of [] \<Rightarrow> None | x # _ \<Rightarrow> Some x)
      | Some v \<Rightarrow> (case dropWhile (\<lambda>x. x \<noteq> v) xs of _ # y # _ \<Rightarrow> Some y | _ \<Rightarrow> None))"

definition prev_of :: "nat list \<Rightarrow> nat option \<Rightarrow> nat option" where
  "prev_of xs i = next_of (rev xs) i"

fun insert_before :: "nat option \<Rightarrow> nat \<Rightarrow> nat list \<Rightarrow> nat list" where
  "insert_before i v [] = [v]"
| "insert_before i v (x # xs) = (if i = Some x then v # x # xs else x # insert_before i v xs)"

fun insert_after :: "nat \<Rightarrow> nat \<Rightarrow> nat list \<Rightarrow> nat list" where
  "insert_after i v [] = []"
| "insert_after i v (x # xs) = (if i = x then x # v # xs else x # insert_after i v xs)"

text \<open>The fields of the sentinel, a zero-initialised global.\<close>

definition vma_at :: "dreg_state \<Rightarrow> nat option \<Rightarrow> vma" where
  "vma_at s i = (case i of None \<Rightarrow> \<lparr>vm_start = 0, vm_end = 0, vm_list = [], vm_count = 0\<rparr> | Some v \<Rightarrow> vmas s v)"

section \<open>The tree of areas\<close>

definition vma_compare :: "(nat \<Rightarrow> vma) \<Rightarrow> nat \<Rightarrow> nat \<Rightarrow> int" where
  "vma_compare h a b = sint (word_of_nat (vm_start (h a)) - word_of_nat (vm_start (h b)) :: u64)"

definition vma_compare_search :: "(nat \<Rightarrow> vma) \<Rightarrow> nat \<Rightarrow> nat \<Rightarrow> int" where
  "vma_compare_search h addr v =
     (if vm_end (h v) < addr then 1 else if vm_start (h v) \<le> addr then 0 else - 1)"

definition vma_compare_closest :: "dreg_state \<Rightarrow> nat \<Rightarrow> nat \<Rightarrow> int" where
  "vma_compare_closest s addr v =
     (if vm_end (vmas s v) < addr then 1
      else if vm_start (vmas s v) \<le> addr \<or> vm_end (vma_at s (prev_of (vma_list s) (Some v))) < addr then 0
      else - 1)"

definition vma_search :: "nat \<Rightarrow> dreg_state \<Rightarrow> nat option" where
  "vma_search addr s = map_option (cells (vma_mem s)) (avlfindex (vma_compare_search (vmas s)) addr (vma_tree s) (vma_mem s))"

definition vma_closest :: "nat \<Rightarrow> dreg_state \<Rightarrow> nat option" where
  "vma_closest addr s = map_option (cells (vma_mem s)) (avlfindex (vma_compare_closest s) addr (vma_tree s) (vma_mem s))"

definition vma_new :: "nat \<Rightarrow> nat \<Rightarrow> dreg_state \<Rightarrow> (nat option \<times> dreg_state) res" where
  "vma_new start stop s =
     (if rdma_dreg_cache_limit \<noteq> 0 \<and> pinned_pages_count s + (int stop - int start + 1) > int rdma_dreg_cache_limit
      then Inr (None, s)
      else let (v, s) = (case vma_free_list s of
                 v # vs \<Rightarrow> (v, s\<lparr>vma_free_list := vs\<rparr>)
               | [] \<Rightarrow> (vma_brk s, s\<lparr>vma_brk := Suc (vma_brk s)\<rparr>));
               s = upd_vma v (\<lambda>_. \<lparr>vm_start = start, vm_end = stop, vm_list = [], vm_count = 0\<rparr>) s
           in bind_res (avlins (vma_compare (vmas s)) v (vma_tree s) (vma_mem s)) (\<lambda>(_, t, m).
                Inr (Some v, s\<lparr>vma_tree := t, vma_mem := m,
                       pinned_pages_count := pinned_pages_count s + (int stop - int start + 1)\<rparr>)))"

definition vma_remove :: "nat \<Rightarrow> dreg_state \<Rightarrow> dreg_state res" where
  "vma_remove v s =
     bind_res (avldel (vma_compare (vmas s)) v (vma_tree s) (vma_mem s)) (\<lambda>(_, t, m).
       Inr (s\<lparr>vma_tree := t, vma_mem := m,
              pinned_pages_count := pinned_pages_count s - (int (vm_end (vmas s v)) - int (vm_start (vmas s v)) + 1)\<rparr>))"

definition vma_destroy :: "nat \<Rightarrow> dreg_state \<Rightarrow> dreg_state" where
  "vma_destroy v s = (if is_finalize (vma_mem s) then s else s\<lparr>vma_free_list := v # vma_free_list s\<rparr>)"

section \<open>Entries of an area\<close>

text \<open>The sign of \<open>compare_dregs\<close>; the addresses of entries are ordered as their numbers.\<close>

definition compare_dregs :: "(nat \<Rightarrow> dreg_entry) \<Rightarrow> nat \<Rightarrow> nat \<Rightarrow> int" where
  "compare_dregs D e1 e2 =
     (if DREG_END (D e1) \<noteq> DREG_END (D e2)
      then sint (word_of_nat (DREG_END (D e1)) - word_of_nat (DREG_END (D e2)) :: u64)
      else int e1 - int e2)"

fun add_sorted :: "(nat \<Rightarrow> dreg_entry) \<Rightarrow> nat \<Rightarrow> nat list \<Rightarrow> nat list" where
  "add_sorted D r [] = [r]"
| "add_sorted D r (e # es) = (if compare_dregs D e r > 0 then e # add_sorted D r es else r # e # es)"

definition add_entry :: "nat \<Rightarrow> nat \<Rightarrow> dreg_state \<Rightarrow> dreg_state" where
  "add_entry v r s =
     upd_vma v (\<lambda>a. a\<lparr>vm_list := add_sorted (dregs s) r (vm_list a), vm_count := Suc (vm_count a)\<rparr>) s"

definition remove_entry :: "nat \<Rightarrow> nat \<Rightarrow> dreg_state \<Rightarrow> dreg_state" where
  "remove_entry v r s =
     (if r \<in> set (vm_list (vmas s v))
      then upd_vma v (\<lambda>a. a\<lparr>vm_list := remove1 r (vm_list a), vm_count := vm_count a - 1\<rparr>) s
      else s)"

definition copy_list :: "nat \<Rightarrow> nat \<Rightarrow> dreg_state \<Rightarrow> dreg_state" where
  "copy_list v from s = upd_vma v (\<lambda>a. a\<lparr>vm_list := vm_list (vmas s from), vm_count := vm_count (vmas s from)\<rparr>) s"

fun same_entries :: "nat list \<Rightarrow> nat list \<Rightarrow> bool" where
  "same_entries [] es = True"
| "same_entries ds [] = True"
| "same_entries (d # ds) (e # es) = (d = e \<and> same_entries ds es)"

definition compare_lists :: "vma \<Rightarrow> vma \<Rightarrow> bool" where
  "compare_lists v w = (vm_count v = vm_count w \<and> same_entries (vm_list v) (vm_list w))"

section \<open>Removal and insertion\<close>

text \<open>Unlinking an area from the list, the tree and the memory; \<open>t\<close> lies behind \<open>vma\<close> in a merge.\<close>

definition merge_with_prev :: "nat \<Rightarrow> nat \<Rightarrow> dreg_state \<Rightarrow> dreg_state res" where
  "merge_with_prev p t s =
     bind_res (vma_remove t ((upd_vma p (\<lambda>a. a\<lparr>vm_end := vm_end (vmas s t)\<rparr>) s)\<lparr>vma_list := remove1 t (vma_list s)\<rparr>))
       (\<lambda>s. Inr (vma_destroy t s))"

text \<open>The two halves of the \<open>do\<close> loop; the results are \<open>merged\<close> and, in the first, the area that is left.\<close>

definition merge_prev :: "nat \<Rightarrow> dreg_state \<Rightarrow> (bool \<times> nat \<times> dreg_state) res" where
  "merge_prev v s =
     (let p = prev_of (vma_list s) (Some v)
      in if vm_start (vmas s v) = vm_end (vma_at s p) + 1 \<and> compare_lists (vmas s v) (vma_at s p) then
           (case p of None \<Rightarrow> Inl Null_deref
            | Some p \<Rightarrow> bind_res (merge_with_prev p v s) (\<lambda>s. Inr (True, p, s)))
         else Inr (False, v, s))"

definition merge_next :: "nat \<Rightarrow> dreg_state \<Rightarrow> (bool \<times> dreg_state) res" where
  "merge_next v s =
     (let n = next_of (vma_list s) (Some v)
      in if vm_end (vmas s v) + 1 = vm_start (vma_at s n) \<and> compare_lists (vmas s v) (vma_at s n) then
           (case n of None \<Rightarrow> Inl Null_deref
            | Some n \<Rightarrow> bind_res (merge_with_prev v n s) (\<lambda>s. Inr (True, s)))
         else Inr (False, s))"

fun merge_loop :: "nat \<Rightarrow> nat \<Rightarrow> dreg_state \<Rightarrow> (nat \<times> dreg_state) res" where
  "merge_loop 0 v s = Inl Out_of_fuel"
| "merge_loop (Suc fuel) v s =
     bind_res (merge_prev v s) (\<lambda>(m1, v, s).
       bind_res (merge_next v s) (\<lambda>(m2, s).
         if m1 \<or> m2 then merge_loop fuel v s else Inr (v, s)))"

fun dreg_remove_loop :: "nat \<Rightarrow> nat \<Rightarrow> nat option \<Rightarrow> dreg_state \<Rightarrow> dreg_state res" where
  "dreg_remove_loop 0 r i s = Inl Out_of_fuel"
| "dreg_remove_loop (Suc fuel) r i s =
     (case i of
        None \<Rightarrow> Inr s
      | Some v \<Rightarrow>
          if vm_start (vmas s v) \<le> DREG_END (dregs s r) then
            let s = remove_entry v r s
            in if vm_list (vmas s v) = [] then
                 let nxt = next_of (vma_list s) (Some v)
                 in bind_res (vma_remove v s) (\<lambda>s.
                      dreg_remove_loop fuel r nxt (vma_destroy v (s\<lparr>vma_list := remove1 v (vma_list s)\<rparr>)))
               else bind_res (merge_loop (Suc (length (vma_list s))) v s) (\<lambda>(v, s).
                      dreg_remove_loop fuel r (next_of (vma_list s) (Some v)) s)
          else Inr s)"

definition dreg_remove :: "nat \<Rightarrow> dreg_state \<Rightarrow> (int \<times> dreg_state) res" where
  "dreg_remove r s =
     (case vma_search (DREG_BEGIN (dregs s r)) s of
        None \<Rightarrow> Inr (- 1, s)
      | Some v \<Rightarrow> bind_res (dreg_remove_loop (Suc (length (vma_list s))) r (Some v) s) (\<lambda>s. Inr (0, s)))"

text \<open>Shortening an area to the pages before \<open>mid\<close> and putting the rest behind it.\<close>

definition split_at :: "nat \<Rightarrow> nat \<Rightarrow> dreg_state \<Rightarrow> (nat option \<times> dreg_state) res" where
  "split_at i mid s =
     bind_res (vma_new mid (vm_end (vmas s i)) s) (\<lambda>(v, s).
       case v of None \<Rightarrow> Inr (None, s)
       | Some v \<Rightarrow>
           let s = upd_vma i (\<lambda>a. a\<lparr>vm_end := mid - 1\<rparr>) s;
               s = copy_list v i s
           in Inr (Some v, s\<lparr>vma_list := insert_after i v (vma_list s)\<rparr>))"

text \<open>The loop; where the code jumps to \<open>remove\<close>, the removal and the result \<open>-1\<close> stand.\<close>

fun dreg_insert_loop :: "nat \<Rightarrow> nat \<Rightarrow> nat option \<Rightarrow> nat \<Rightarrow> nat \<Rightarrow> dreg_state \<Rightarrow> (int \<times> dreg_state) res" where
  "dreg_insert_loop 0 r i begin stop s = Inl Out_of_fuel"
| "dreg_insert_loop (Suc fuel) r i begin stop s =
     (if stop < begin then Inr (0, s)
      else case i of
        None \<Rightarrow>
          bind_res (vma_new begin stop s) (\<lambda>(v, s).
            case v of
              None \<Rightarrow> bind_res (dreg_remove r s) (\<lambda>(_, s). Inr (- 1, s))
            | Some v \<Rightarrow>
                let s = s\<lparr>vma_list := insert_before None v (vma_list s)\<rparr>;
                    begin = vm_end (vmas s v) + 1;
                    s = add_entry v r s
                in dreg_insert_loop fuel r (next_of (vma_list s) None) begin stop s)
      | Some a \<Rightarrow>
          if begin < vm_start (vmas s a) then
            bind_res (vma_new begin (if vm_start (vmas s a) \<le> stop then vm_start (vmas s a) - 1 else stop) s) (\<lambda>(v, s).
              case v of
                None \<Rightarrow> bind_res (dreg_remove r s) (\<lambda>(_, s). Inr (- 1, s))
              | Some v \<Rightarrow>
                  let s = s\<lparr>vma_list := insert_before (Some a) v (vma_list s)\<rparr>;
                      begin = vm_end (vmas s v) + 1;
                      s = add_entry v r s
                  in dreg_insert_loop fuel r (next_of (vma_list s) (Some v)) begin stop s)
          else if vm_start (vmas s a) = begin then
            if stop < vm_end (vmas s a) then
              bind_res (split_at a (stop + 1) s) (\<lambda>(v, s).
                case v of
                  None \<Rightarrow> bind_res (dreg_remove r s) (\<lambda>(_, s). Inr (- 1, s))
                | Some v \<Rightarrow> let s = add_entry a r s
                    in dreg_insert_loop fuel r (next_of (vma_list s) (Some a)) (stop + 1) stop s)
            else let s = add_entry a r s; begin = vm_end (vmas s a) + 1
                 in dreg_insert_loop fuel r (next_of (vma_list s) (Some a)) begin stop s
          else
            bind_res (split_at a begin s) (\<lambda>(v, s).
              case v of
                None \<Rightarrow> bind_res (dreg_remove r s) (\<lambda>(_, s). Inr (- 1, s))
              | Some v \<Rightarrow> dreg_insert_loop fuel r (next_of (vma_list s) (Some a)) begin stop s))"

definition dreg_insert :: "nat \<Rightarrow> dreg_state \<Rightarrow> (int \<times> dreg_state) res" where
  "dreg_insert r s =
     dreg_insert_loop (2 * length (vma_list s) + 4) r (vma_closest (DREG_BEGIN (dregs s r)) s)
       (DREG_BEGIN (dregs s r)) (DREG_END (dregs s r)) s"

definition dreg_lookup :: "nat \<Rightarrow> nat \<Rightarrow> dreg_state \<Rightarrow> nat option" where
  "dreg_lookup begin stop s =
     (case vma_search begin s of
        None \<Rightarrow> None
      | Some v \<Rightarrow> (case vm_list (vmas s v) of
            [] \<Rightarrow> None
          | d # _ \<Rightarrow> if stop \<le> DREG_END (dregs s d) then Some d else None))"

section \<open>The tree and the list of areas\<close>

abbreviation starts :: "(nat \<Rightarrow> vma) \<Rightarrow> nat \<Rightarrow> nat" where
  "starts h \<equiv> (\<lambda>v. vm_start (h v))"

definition tree_inv :: "(nat \<Rightarrow> vma) \<Rightarrow> avl_descriptor \<Rightarrow> nat avl_mem \<Rightarrow> nat list \<Rightarrow> bool" where
  "tree_inv h t m vs \<longleftrightarrow> avl_inv (starts h) (\<lambda>v. vm_start (h v) < 2 ^ 63) t m \<and> avl_items t m = vs"

lemma sint_diff:
  assumes "a < 2 ^ 63" "b < 2 ^ 63"
  shows "sint (word_of_nat a - word_of_nat b :: u64) = int a - int b"
proof -
  have "sint (word_of_nat a :: u64) = int a" "sint (word_of_nat b :: u64) = int b"
    using assms by (simp_all add: sint_uint signed_take_bit_int_eq_self_iff unsigned_of_nat take_bit_nat_eq_self)
  moreover have "- (2 ^ 63) \<le> int a - int b" "int a - int b < 2 ^ 63" using assms by auto
  ultimately show ?thesis by (simp add: signed_take_bit_int_eq_self_iff sint_word_ariths)
qed

interpretation vma_order: avl_order "vma_compare h" "starts h" "\<lambda>v. vm_start (h v) < 2 ^ 63"
  by unfold_locales (auto simp: vma_compare_def sint_diff)

lemma tree_inv_cong: "(\<And>v. v \<in> set vs \<Longrightarrow> vm_start (h v) = vm_start (h' v)) \<Longrightarrow> tree_inv h t m vs = tree_inv h' t m vs"
proof -
  have imp: "tree_inv f t m vs \<Longrightarrow> tree_inv g t m vs" if e: "\<And>v. v \<in> set vs \<Longrightarrow> vm_start (f v) = vm_start (g v)" for f g
  proof -
    have "sorted_wrt (\<lambda>x y. vm_start (f x) < vm_start (f y)) vs \<Longrightarrow> sorted_wrt (\<lambda>x y. vm_start (g x) < vm_start (g y)) vs"
      using e by (auto elim!: sorted_wrt_mono_rel [rotated])
    then show "tree_inv f t m vs \<Longrightarrow> tree_inv g t m vs" using e by (auto simp: tree_inv_def avl_inv_def by_key_def)
  qed
  assume "\<And>v. v \<in> set vs \<Longrightarrow> vm_start (h v) = vm_start (h' v)"
  then show ?thesis using imp [of h h'] imp [of h' h] by auto
qed

lemma avl_items_mem: "p \<in> set (inorder (avl_root t)) \<Longrightarrow> cells m p \<in> set (avl_items t m)"
  by (auto simp: avl_items_def)

lemma tree_search:
  assumes "avl_items t m = vs" "sorted_wrt (\<lambda>a b. sgn (f b) \<le> sgn (f a)) vs"
  shows "case map_option (cells m) (avlfindex (\<lambda>_. f) addr t m) of
      Some v \<Rightarrow> v \<in> set vs \<and> f v = 0
    | None \<Rightarrow> \<forall>v \<in> set vs. f v \<noteq> 0"
proof -
  have "descending f m (inorder (avl_root t))"
    using assms by (auto simp: descending_def avl_items_def sorted_wrt_map)
  from avl_find_ok [OF this] show ?thesis
    using assms(1) by (auto simp: avlfindex_def avl_items_def split: option.splits)
qed

text \<open>\<open>vma_new\<close> before the area is linked into the list.\<close>

lemma vma_new_ok:
  assumes tree: "tree_inv (vmas s) (vma_tree s) (vma_mem s) (xs @ ys)"
    and keys: "\<forall>a \<in> set xs. vm_start (vmas s a) < start" "\<forall>a \<in> set ys. start < vm_start (vmas s a)" "start < 2 ^ 63"
    and fresh: "distinct ((xs @ ys) @ vma_free_list s)" "\<forall>v \<in> set ((xs @ ys) @ vma_free_list s). v < vma_brk s"
  shows "if has_room (vma_mem s) then \<exists>v s'. vma_new start stop s = Inr (Some v, s') \<and> v \<notin> set (xs @ ys)
    \<and> vmas s' = (vmas s)(v := \<lparr>vm_start = start, vm_end = stop, vm_list = [], vm_count = 0\<rparr>)
    \<and> tree_inv (vmas s') (vma_tree s') (vma_mem s') (xs @ v # ys)
    \<and> distinct ((xs @ v # ys) @ vma_free_list s') \<and> (\<forall>a \<in> set ((xs @ v # ys) @ vma_free_list s'). a < vma_brk s')
    \<and> avl_left_over (vma_mem s) \<le> avl_left_over (vma_mem s') + 2 \<and> vma_list s' = vma_list s \<and> dregs s' = dregs s
    else vma_new start stop s = Inl Exit_failure"
proof -
  define v s1 where "v = (case vma_free_list s of v # vs \<Rightarrow> v | [] \<Rightarrow> vma_brk s)"
    and "s1 = (case vma_free_list s of v # vs \<Rightarrow> s\<lparr>vma_free_list := vs\<rparr> | [] \<Rightarrow> s\<lparr>vma_brk := Suc (vma_brk s)\<rparr>)"
  define s2 where "s2 = upd_vma v (\<lambda>_. \<lparr>vm_start = start, vm_end = stop, vm_list = [], vm_count = 0\<rparr>) s1"
  have v: "v \<notin> set (xs @ ys)" "distinct ((xs @ v # ys) @ vma_free_list s1)"
      "\<forall>a \<in> set ((xs @ v # ys) @ vma_free_list s1). a < vma_brk s1"
    using fresh by (auto simp: v_def s1_def less_SucI split: list.splits)
  have s2: "vmas s2 = (vmas s)(v := \<lparr>vm_start = start, vm_end = stop, vm_list = [], vm_count = 0\<rparr>)"
      "vma_tree s2 = vma_tree s" "vma_mem s2 = vma_mem s" "vma_list s2 = vma_list s" "dregs s2 = dregs s"
      "vma_free_list s2 = vma_free_list s1" "vma_brk s2 = vma_brk s1"
    by (simp_all add: s2_def upd_vma_def s1_def split: list.splits)
  have "tree_inv (vmas s2) (vma_tree s) (vma_mem s) (xs @ ys)"
    using tree_inv_cong [of "xs @ ys" "vmas s2" "vmas s"] v(1) tree unfolding s2(1) by (metis fun_upd_apply)
  then have inv: "avl_inv (starts (vmas s2)) (\<lambda>v. vm_start (vmas s2 v) < 2 ^ 63) (vma_tree s) (vma_mem s)"
      "avl_items (vma_tree s) (vma_mem s) = xs @ ys"
    unfolding tree_inv_def by blast+
  have k: "\<forall>a \<in> set xs. vm_start (vmas s2 a) < vm_start (vmas s2 v)" "\<forall>a \<in> set ys. vm_start (vmas s2 v) < vm_start (vmas s2 a)"
    using keys v(1) by (auto simp: s2(1))
  then have "vm_start (vmas s2 v) \<notin> starts (vmas s2) ` set (xs @ ys)" by auto
  then have new: "vm_start (vmas s2 v) \<notin> starts (vmas s2) ` set (avl_items (vma_tree s) (vma_mem s))" by (simp add: inv(2))
  have valid: "vm_start (vmas s2 v) < 2 ^ 63" using keys(3) by (simp add: s2(1))
  show ?thesis
  proof (cases "has_room (vma_mem s)")
    case False
    then have "avlins (vma_compare (vmas s2)) v (vma_tree s) (vma_mem s) = Inl Exit_failure"
      using vma_order.avlins_no_room [OF inv(1) valid new] by simp
    then show ?thesis using False
      by (simp add: vma_new_def rdma_dreg_cache_limit_def v_def s1_def s2_def upd_vma_def split: list.splits)
  next
    case True
    obtain t m where tm: "avlins (vma_compare (vmas s2)) v (vma_tree s) (vma_mem s) = Inr (None, t, m)"
        "avl_inv (starts (vmas s2)) (\<lambda>v. vm_start (vmas s2 v) < 2 ^ 63) t m"
        "avl_items t m = ins_item (starts (vmas s2)) v (xs @ ys)" "avl_left_over (vma_mem s) \<le> avl_left_over m + 2"
      using vma_order.avlins_spec [OF inv(1), of v] valid new True by (auto simp: inv(2))
    have "avl_items t m = xs @ v # ys" using tm(3) ins_item_split [OF k] by (simp add: inv(2))
    moreover have "vma_new start stop s = Inr (Some v, s2\<lparr>vma_tree := t, vma_mem := m,
        pinned_pages_count := pinned_pages_count s2 + (int stop - int start + 1)\<rparr>)"
      using tm(1) by (simp add: vma_new_def rdma_dreg_cache_limit_def v_def s1_def s2_def upd_vma_def split: list.splits)
    ultimately show ?thesis using v s2 tm True by (auto simp: tree_inv_def)
  qed
qed

lemma vma_remove_ok:
  assumes tree: "tree_inv (vmas s) (vma_tree s) (vma_mem s) (xs @ v # ys)"
  shows "\<exists>s'. vma_remove v s = Inr s' \<and> tree_inv (vmas s') (vma_tree s') (vma_mem s') (xs @ ys)
    \<and> avl_left_over (vma_mem s') = avl_left_over (vma_mem s) \<and> is_finalize (vma_mem s') = is_finalize (vma_mem s)
    \<and> s' = s\<lparr>vma_tree := vma_tree s', vma_mem := vma_mem s', pinned_pages_count := pinned_pages_count s'\<rparr>"
proof -
  have inv: "avl_inv (starts (vmas s)) (\<lambda>v. vm_start (vmas s v) < 2 ^ 63) (vma_tree s) (vma_mem s)"
      "avl_items (vma_tree s) (vma_mem s) = xs @ v # ys" and valid: "vm_start (vmas s v) < 2 ^ 63"
    using tree by (auto simp: tree_inv_def avl_inv_def)
  have bk: "by_key (starts (vmas s)) (xs @ v # ys)" using inv by (simp add: avl_inv_def)
  obtain p t m where tm: "avldel (vma_compare (vmas s)) v (vma_tree s) (vma_mem s) = Inr (Some p, t, m)"
      "avl_inv (starts (vmas s)) (\<lambda>v. vm_start (vmas s v) < 2 ^ 63) t m"
      "avl_items t m = filter (\<lambda>y. vm_start (vmas s y) \<noteq> vm_start (vmas s v)) (xs @ v # ys)"
      "avl_left_over m = avl_left_over (vma_mem s)" "is_finalize m = is_finalize (vma_mem s)"
    using vma_order.avldel_spec [OF inv(1) valid] by (auto simp: inv(2))
  have "avl_items t m = xs @ ys" using tm(3) del_item_split [OF bk refl] by simp
  then show ?thesis using tm by (auto simp: vma_remove_def tree_inv_def)
qed

lemma next_of_simps:
  "next_of (x # xs) None = Some x" "next_of [] None = None"
  "a \<notin> set xs \<Longrightarrow> next_of (xs @ a # ys) (Some a) = (case ys of [] \<Rightarrow> None | y # _ \<Rightarrow> Some y)"
proof -
  show "next_of (xs @ a # ys) (Some a) = (case ys of [] \<Rightarrow> None | y # _ \<Rightarrow> Some y)" if "a \<notin> set xs"
  proof -
    have "dropWhile (\<lambda>x. x \<noteq> a) (xs @ a # ys) = a # ys" using that by (induction xs) auto
    then show ?thesis by (simp add: next_of_def split: list.splits)
  qed
qed (simp_all add: next_of_def)

lemma prev_of_simps:
  "a \<notin> set ys \<Longrightarrow> prev_of (xs @ a # ys) (Some a) = (if xs = [] then None else Some (last xs))"
proof -
  assume "a \<notin> set ys"
  then have "next_of (rev ys @ a # rev xs) (Some a) = (case rev xs of [] \<Rightarrow> None | y # _ \<Rightarrow> Some y)"
    by (intro next_of_simps) simp
  then show ?thesis by (cases xs rule: rev_cases) (auto simp: prev_of_def)
qed

lemma insert_before_simps:
  "insert_before None v xs = xs @ [v]"
  "a \<notin> set xs \<Longrightarrow> insert_before (Some a) v (xs @ a # ys) = xs @ v # a # ys"
  by (induction xs) auto

lemma insert_after_simps: "a \<notin> set xs \<Longrightarrow> insert_after a v (xs @ a # ys) = xs @ a # v # ys"
  by (induction xs) auto

section \<open>What the areas hold\<close>

definition links_inv :: "dreg_state \<Rightarrow> bool" where
  "links_inv s \<longleftrightarrow> tree_inv (vmas s) (vma_tree s) (vma_mem s) (vma_list s)
     \<and> distinct (vma_list s @ vma_free_list s) \<and> (\<forall>a \<in> set (vma_list s @ vma_free_list s). a < vma_brk s)
     \<and> sorted_wrt (\<lambda>a b. vm_end (vmas s a) < vm_start (vmas s b)) (vma_list s)
     \<and> (\<forall>a \<in> set (vma_list s). vm_start (vmas s a) \<le> vm_end (vmas s a) \<and> vm_end (vmas s a) < 2 ^ 52)"

definition pages :: "vma \<Rightarrow> nat set" where
  "pages a = {vm_start a..vm_end a}"

definition ordered :: "(nat \<Rightarrow> dreg_entry) \<Rightarrow> nat list \<Rightarrow> bool" where
  "ordered D es \<longleftrightarrow> sorted_wrt (\<lambda>a b. compare_dregs D a b > 0) es \<and> (\<forall>e \<in> set es. DREG_END (D e) < 2 ^ 52)"

definition area_ok :: "(nat \<Rightarrow> dreg_entry) \<Rightarrow> (nat \<Rightarrow> nat set) \<Rightarrow> vma \<Rightarrow> bool" where
  "area_ok D cov a \<longleftrightarrow> vm_count a = length (vm_list a) \<and> ordered D (vm_list a) \<and> (\<forall>p \<in> pages a. set (vm_list a) = cov p)"

definition lists_inv :: "(nat \<Rightarrow> nat set) \<Rightarrow> dreg_state \<Rightarrow> bool" where
  "lists_inv cov s \<longleftrightarrow> (\<forall>a \<in> set (vma_list s). area_ok (dregs s) cov (vmas s a))
     \<and> (\<forall>p. cov p \<noteq> {} \<longrightarrow> (\<exists>a \<in> set (vma_list s). p \<in> pages (vmas s a)))"

lemma compare_dregs_pos:
  assumes "DREG_END (D a) < 2 ^ 52" "DREG_END (D b) < 2 ^ 52"
  shows "compare_dregs D a b > 0 \<longleftrightarrow> DREG_END (D b) < DREG_END (D a) \<or> DREG_END (D b) = DREG_END (D a) \<and> b < a"
  using assms by (auto simp: compare_dregs_def sint_diff)

lemma set_add_sorted: "set (add_sorted D r es) = insert r (set es)" "length (add_sorted D r es) = Suc (length es)"
  by (induction es) auto

lemma ordered_add:
  assumes "ordered D es" "r \<notin> set es" "DREG_END (D r) < 2 ^ 52"
  shows "ordered D (add_sorted D r es)"
proof -
  have "sorted_wrt (\<lambda>a b. compare_dregs D a b > 0) (add_sorted D r es)"
    using assms unfolding ordered_def
  proof (induction es)
    case (Cons e es)
    have small: "DREG_END (D e) < 2 ^ 52" "\<forall>x \<in> set es. DREG_END (D x) < 2 ^ 52" using Cons.prems by auto
    show ?case
    proof (cases "compare_dregs D e r > 0")
      case True
      then show ?thesis using Cons by (auto simp: set_add_sorted)
    next
      case False
      then have "compare_dregs D r e > 0"
        using Cons.prems small by (auto simp: compare_dregs_pos linorder_neq_iff)
      moreover from this have "compare_dregs D r x > 0" if "x \<in> set es" for x
        using Cons.prems small that by (auto simp: compare_dregs_pos)
      ultimately show ?thesis using False Cons.prems by simp
    qed
  qed simp
  then show ?thesis using assms by (auto simp: ordered_def set_add_sorted)
qed

lemma ordered_head: "ordered D (d # es) \<Longrightarrow> e \<in> set (d # es) \<Longrightarrow> DREG_END (D e) \<le> DREG_END (D d)"
  by (fastforce simp: ordered_def compare_dregs_pos)

lemma ordered_distinct: "ordered D es \<Longrightarrow> distinct es"
  by (induction es) (auto simp: ordered_def compare_dregs_def)

lemma ordered_remove1: "ordered D es \<Longrightarrow> ordered D (remove1 r es)"
proof -
  assume o: "ordered D es"
  then have "remove1 r es = filter (\<lambda>x. x \<noteq> r) es" by (simp add: distinct_remove1_removeAll ordered_distinct removeAll_filter_not_eq eq_commute)
  then show ?thesis using o by (auto simp: ordered_def sorted_wrt_filter)
qed

text \<open>Pages of different areas are different.\<close>

lemma areas_apart:
  assumes "links_inv s" "a \<in> set (vma_list s)" "b \<in> set (vma_list s)" "p \<in> pages (vmas s a)" "p \<in> pages (vmas s b)"
  shows "a = b"
proof (rule ccontr)
  assume "a \<noteq> b"
  obtain i j where ij: "i < length (vma_list s)" "j < length (vma_list s)" "a = vma_list s ! i" "b = vma_list s ! j"
    using assms(2,3) by (auto simp: in_set_conv_nth)
  have "vm_end (vmas s a) < vm_start (vmas s b) \<or> vm_end (vmas s b) < vm_start (vmas s a)"
    using assms(1) ij \<open>a \<noteq> b\<close> by (cases i j rule: linorder_cases) (auto simp: links_inv_def sorted_wrt_iff_nth_less)
  then show False using assms(4,5) by (auto simp: pages_def)
qed

lemma sorted_areas_cong:
  "(\<And>b. b \<in> set xs \<Longrightarrow> h b = g b) \<Longrightarrow> sorted_wrt (\<lambda>a b. vm_end (h a) < vm_start (h b)) xs
     = sorted_wrt (\<lambda>a b. vm_end (g a) < vm_start (g b)) xs"
  by (induction xs) auto

lemma links_order:
  assumes "links_inv s" "vma_list s = xs @ a # ys"
  shows "\<And>b. b \<in> set xs \<Longrightarrow> vm_start (vmas s b) \<le> vm_end (vmas s b) \<and> vm_end (vmas s b) < vm_start (vmas s a)"
    and "\<And>b. b \<in> set ys \<Longrightarrow> vm_end (vmas s a) < vm_start (vmas s b)"
    and "vm_start (vmas s a) \<le> vm_end (vmas s a)" "vm_end (vmas s a) < 2 ^ 52" "a \<notin> set xs" "a \<notin> set ys"
  using assms by (auto simp: links_inv_def sorted_wrt_append)

lemma start_in_pages: "links_inv s \<Longrightarrow> a \<in> set (vma_list s) \<Longrightarrow> vm_start (vmas s a) \<in> pages (vmas s a)"
  by (auto simp: links_inv_def pages_def)

section \<open>Steps on the areas\<close>

lemma vma_new_exit:
  assumes "links_inv s" "vma_list s = xs @ ys" "\<not> has_room (vma_mem s)"
    and "\<forall>a \<in> set xs. vm_start (vmas s a) < start" "\<forall>a \<in> set ys. start < vm_start (vmas s a)" "start < 2 ^ 63"
  shows "vma_new start stop s = Inl Exit_failure"
  using vma_new_ok [of s xs ys start stop] assms by (auto simp: links_inv_def)

lemma split_exit:
  assumes "links_inv s" "vma_list s = xs @ a # ys" "\<not> has_room (vma_mem s)" "vm_start (vmas s a) < mid" "mid \<le> vm_end (vmas s a)"
  shows "split_at a mid s = Inl Exit_failure"
proof -
  have "\<forall>b \<in> set (xs @ [a]). vm_start (vmas s b) < mid" "\<forall>b \<in> set ys. mid < vm_start (vmas s b)" "mid < 2 ^ 63"
    using links_order [OF assms(1,2)] assms(4,5) by fastforce+
  then show ?thesis using vma_new_exit [of s "xs @ [a]" ys mid] assms by (simp add: split_at_def)
qed

text \<open>Splitting an area changes nothing in what covers a page.\<close>

lemma split_ok:
  assumes links: "links_inv s" and lists: "lists_inv cov s" and l: "vma_list s = xs @ a # ys"
    and mid: "vm_start (vmas s a) < mid" "mid \<le> vm_end (vmas s a)" and room: "has_room (vma_mem s)"
  shows "\<exists>v s'. split_at a mid s = Inr (Some v, s') \<and> links_inv s' \<and> lists_inv cov s' \<and> vma_list s' = xs @ a # v # ys
    \<and> vm_start (vmas s' v) = mid \<and> vm_end (vmas s' v) = vm_end (vmas s a) \<and> vm_end (vmas s' a) = mid - 1
    \<and> vm_start (vmas s' a) = vm_start (vmas s a) \<and> (\<forall>b \<in> set (xs @ ys). vmas s' b = vmas s b) \<and> dregs s' = dregs s
    \<and> avl_left_over (vma_mem s) \<le> avl_left_over (vma_mem s') + 2"
proof -
  have L: "tree_inv (vmas s) (vma_tree s) (vma_mem s) ((xs @ [a]) @ ys)"
      "distinct (((xs @ [a]) @ ys) @ vma_free_list s)" "\<forall>v \<in> set (((xs @ [a]) @ ys) @ vma_free_list s). v < vma_brk s"
      "sorted_wrt (\<lambda>a b. vm_end (vmas s a) < vm_start (vmas s b)) (xs @ a # ys)"
      "\<forall>b \<in> set (xs @ a # ys). vm_start (vmas s b) \<le> vm_end (vmas s b) \<and> vm_end (vmas s b) < 2 ^ 52"
    using links by (auto simp: links_inv_def l)
  have k: "\<forall>b \<in> set (xs @ [a]). vm_start (vmas s b) < mid" "\<forall>b \<in> set ys. mid < vm_start (vmas s b)" "mid < 2 ^ 63"
    using links_order [OF links l] mid by fastforce+
  obtain v s1 where v: "vma_new mid (vm_end (vmas s a)) s = Inr (Some v, s1)" "v \<notin> set ((xs @ [a]) @ ys)"
      "vmas s1 = (vmas s)(v := \<lparr>vm_start = mid, vm_end = vm_end (vmas s a), vm_list = [], vm_count = 0\<rparr>)"
      "tree_inv (vmas s1) (vma_tree s1) (vma_mem s1) ((xs @ [a]) @ v # ys)"
      "distinct (((xs @ [a]) @ v # ys) @ vma_free_list s1)" "\<forall>b \<in> set (((xs @ [a]) @ v # ys) @ vma_free_list s1). b < vma_brk s1"
      "avl_left_over (vma_mem s) \<le> avl_left_over (vma_mem s1) + 2" "vma_list s1 = vma_list s" "dregs s1 = dregs s"
    using vma_new_ok [OF L(1) k L(2,3), unfolded if_P [OF room]] by blast
  define h where "h = (vmas s)(a := (vmas s a)\<lparr>vm_end := mid - 1\<rparr>,
      v := \<lparr>vm_start = mid, vm_end = vm_end (vmas s a), vm_list = vm_list (vmas s a), vm_count = vm_count (vmas s a)\<rparr>)"
  define s' where "s' = s1\<lparr>vmas := h, vma_list := xs @ a # v # ys\<rparr>"
  have "a \<noteq> v" "a \<notin> set xs" using v(2) L(2) by auto
  then have e: "split_at a mid s = Inr (Some v, s')"
    using v(1) by (simp add: split_at_def copy_list_def upd_vma_def v(3,8) l insert_after_simps s'_def h_def fun_upd_twist)
  have hv: "h v = \<lparr>vm_start = mid, vm_end = vm_end (vmas s a), vm_list = vm_list (vmas s a), vm_count = vm_count (vmas s a)\<rparr>"
      "h a = (vmas s a)\<lparr>vm_end := mid - 1\<rparr>" "\<And>b. b \<in> set (xs @ ys) \<Longrightarrow> h b = vmas s b"
    using \<open>a \<noteq> v\<close> v(2) L(2) by (auto simp: h_def)
  have starts_h: "vm_start (h b) = vm_start (vmas s1 b)" for b using \<open>a \<noteq> v\<close> by (simp add: h_def v(3))
  have "tree_inv h (vma_tree s1) (vma_mem s1) (xs @ a # v # ys)"
    using tree_inv_cong [of "xs @ a # v # ys" h "vmas s1", OF starts_h] v(4) by simp
  then have "links_inv s'"
    using v(5,6) L(4,5) hv mid k sorted_areas_cong [of xs h "vmas s"] sorted_areas_cong [of ys h "vmas s"]
    unfolding links_inv_def s'_def by (auto simp: sorted_wrt_append)
  moreover have "lists_inv cov s'"
  proof -
    have old: "area_ok (dregs s) cov (vmas s a)" "pages (h a) \<union> pages (h v) = pages (vmas s a)"
      using lists mid by (auto simp: lists_inv_def l hv pages_def)
    then have "area_ok (dregs s) cov (h a)" "area_ok (dregs s) cov (h v)"
      unfolding area_ok_def by (auto simp: hv)
    then show ?thesis using lists old(2) hv unfolding lists_inv_def s'_def by (auto simp: l v(9))
  qed
  ultimately show ?thesis using e v(7,9) hv by (auto simp: s'_def)
qed

lemma add_entry_ok:
  assumes links: "links_inv s" and lists: "lists_inv cov s" and a: "a \<in> set (vma_list s)"
    and r: "\<forall>p \<in> pages (vmas s a). r \<notin> cov p" "DREG_END (dregs s r) < 2 ^ 52"
  shows "links_inv (add_entry a r s)"
    and "lists_inv (\<lambda>p. if p \<in> pages (vmas s a) then insert r (cov p) else cov p) (add_entry a r s)"
proof -
  let ?h = "vmas (add_entry a r s)" and ?cov = "\<lambda>p. if p \<in> pages (vmas s a) then insert r (cov p) else cov p"
  have se: "vm_start (?h b) = vm_start (vmas s b)" "vm_end (?h b) = vm_end (vmas s b)" "pages (?h b) = pages (vmas s b)" for b
    by (auto simp: add_entry_def upd_vma_def pages_def)
  have o: "vma_list (add_entry a r s) = vma_list s" "vma_tree (add_entry a r s) = vma_tree s" "vma_mem (add_entry a r s) = vma_mem s"
      "vma_free_list (add_entry a r s) = vma_free_list s" "vma_brk (add_entry a r s) = vma_brk s" "dregs (add_entry a r s) = dregs s"
    by (auto simp: add_entry_def upd_vma_def)
  show "links_inv (add_entry a r s)"
    using links tree_inv_cong [of "vma_list s" ?h "vmas s"] se unfolding links_inv_def o by simp
  have "area_ok (dregs s) ?cov (?h b)" if b: "b \<in> set (vma_list s)" for b
  proof (cases "b = a")
    case True
    have ok: "area_ok (dregs s) cov (vmas s a)" using lists a by (auto simp: lists_inv_def)
    have "r \<notin> set (vm_list (vmas s a))"
      using ok r(1) start_in_pages [OF links a] by (auto simp: area_ok_def)
    then have "ordered (dregs s) (add_sorted (dregs s) r (vm_list (vmas s a)))"
      using ok r(2) by (auto simp: area_ok_def intro: ordered_add)
    then show ?thesis using ok True by (auto simp: area_ok_def set_add_sorted add_entry_def upd_vma_def pages_def)
  next
    case False
    then have "?h b = vmas s b" by (simp add: add_entry_def upd_vma_def)
    moreover have "p \<notin> pages (vmas s a)" if "p \<in> pages (vmas s b)" for p using areas_apart [OF links a b] that False by blast
    ultimately show ?thesis using lists b by (auto simp: lists_inv_def area_ok_def)
  qed
  then show "lists_inv ?cov (add_entry a r s)" using lists a unfolding lists_inv_def o by (auto simp: se)
qed

text \<open>A new area for pages that nothing covers.\<close>

lemma new_area_ok:
  assumes links: "links_inv s" and lists: "lists_inv cov s" and l: "vma_list s = xs @ ys"
    and between: "\<forall>b \<in> set xs. vm_end (vmas s b) < start" "\<forall>b \<in> set ys. stop < vm_start (vmas s b)" "start \<le> stop" "stop < 2 ^ 52"
    and r: "DREG_END (dregs s r) < 2 ^ 52" and room: "has_room (vma_mem s)"
  shows "\<exists>v s1 s'. vma_new start stop s = Inr (Some v, s1) \<and> vm_end (vmas s1 v) = stop \<and> vma_list s1 = vma_list s
    \<and> s' = add_entry v r (s1\<lparr>vma_list := xs @ v # ys\<rparr>) \<and> links_inv s'
    \<and> lists_inv (\<lambda>p. if p \<in> {start..stop} then insert r (cov p) else cov p) s' \<and> vma_list s' = xs @ v # ys
    \<and> v \<notin> set (xs @ ys) \<and> (\<forall>b \<in> set (xs @ ys). vmas s' b = vmas s b) \<and> dregs s' = dregs s
    \<and> avl_left_over (vma_mem s) \<le> avl_left_over (vma_mem s') + 2"
proof -
  have L: "tree_inv (vmas s) (vma_tree s) (vma_mem s) (xs @ ys)"
      "distinct ((xs @ ys) @ vma_free_list s)" "\<forall>v \<in> set ((xs @ ys) @ vma_free_list s). v < vma_brk s"
      "sorted_wrt (\<lambda>a b. vm_end (vmas s a) < vm_start (vmas s b)) (xs @ ys)"
      "\<forall>b \<in> set (xs @ ys). vm_start (vmas s b) \<le> vm_end (vmas s b) \<and> vm_end (vmas s b) < 2 ^ 52"
    using links by (auto simp: links_inv_def l)
  have k: "\<forall>b \<in> set xs. vm_start (vmas s b) < start" "\<forall>b \<in> set ys. start < vm_start (vmas s b)" "start < 2 ^ 63"
  proof -
    show "\<forall>b \<in> set xs. vm_start (vmas s b) < start" using L(5) between(1) by (metis Un_iff le_less_trans set_append)
    show "\<forall>b \<in> set ys. start < vm_start (vmas s b)" using between(2,3) by (metis le_less_trans)
    show "start < 2 ^ 63" using between(3,4) by simp
  qed
  obtain v s1 where v: "vma_new start stop s = Inr (Some v, s1)" "v \<notin> set (xs @ ys)"
      "vmas s1 = (vmas s)(v := \<lparr>vm_start = start, vm_end = stop, vm_list = [], vm_count = 0\<rparr>)"
      "tree_inv (vmas s1) (vma_tree s1) (vma_mem s1) (xs @ v # ys)"
      "distinct ((xs @ v # ys) @ vma_free_list s1)" "\<forall>b \<in> set ((xs @ v # ys) @ vma_free_list s1). b < vma_brk s1"
      "avl_left_over (vma_mem s) \<le> avl_left_over (vma_mem s1) + 2" "vma_list s1 = vma_list s" "dregs s1 = dregs s"
    using vma_new_ok [OF L(1) k L(2,3), unfolded if_P [OF room]] by blast
  define s2 where "s2 = s1\<lparr>vma_list := xs @ v # ys\<rparr>"
  have h: "\<And>b. b \<in> set (xs @ ys) \<Longrightarrow> vmas s2 b = vmas s b" "vm_start (vmas s2 v) = start" "vm_end (vmas s2 v) = stop"
      "vm_list (vmas s2 v) = []" "vm_count (vmas s2 v) = 0" "dregs s2 = dregs s"
    using v(2,9) by (auto simp: s2_def v(3))
  have links2: "links_inv s2"
    unfolding links_inv_def
    using v(4-6) L(4,5) h between sorted_areas_cong [of xs "vmas s2" "vmas s"] sorted_areas_cong [of ys "vmas s2" "vmas s"]
    by (auto simp: s2_def sorted_wrt_append)
  have empty: "cov p = {}" if "p \<in> {start..stop}" for p
  proof (rule ccontr)
    assume "cov p \<noteq> {}"
    then obtain b where "b \<in> set (xs @ ys)" "p \<in> pages (vmas s b)" using lists by (auto simp: lists_inv_def l)
    then show False using between that by (auto simp: pages_def)
  qed
  have lists2: "lists_inv cov s2"
  proof -
    have "area_ok (dregs s) cov (vmas s2 v)" using h empty by (auto simp: area_ok_def ordered_def pages_def)
    then show ?thesis using lists h(1,6) unfolding lists_inv_def by (auto simp: l s2_def)
  qed
  have v2: "v \<in> set (vma_list s2)" "pages (vmas s2 v) = {start..stop}" using h by (auto simp: s2_def pages_def)
  have "links_inv (add_entry v r s2)"
    using r h(6) empty v2(2) by (intro add_entry_ok(1) [OF links2 lists2 v2(1)]) auto
  moreover have "lists_inv (\<lambda>p. if p \<in> {start..stop} then insert r (cov p) else cov p) (add_entry v r s2)"
    unfolding v2(2) [symmetric] using r h(6) empty v2(2) by (intro add_entry_ok(2) [OF links2 lists2 v2(1)]) auto
  ultimately show ?thesis using v h by (intro exI [of _ v] exI [of _ s1] exI [of _ "add_entry v r s2"])
      (auto simp: s2_def add_entry_def upd_vma_def)
qed

section \<open>Insertion\<close>

definition head_opt :: "nat list \<Rightarrow> nat option" where
  "head_opt xs = (case xs of [] \<Rightarrow> None | x # _ \<Rightarrow> Some x)"

text \<open>The coverage when \<open>r\<close> has been entered for the pages from \<open>b0\<close> to before \<open>b\<close>.\<close>

definition upto_page :: "(nat \<Rightarrow> nat set) \<Rightarrow> nat \<Rightarrow> nat \<Rightarrow> nat \<Rightarrow> nat \<Rightarrow> nat set" where
  "upto_page cov r b0 b p = (if b0 \<le> p \<and> p < b then insert r (cov p) else cov p)"

definition loop_weight :: "dreg_state \<Rightarrow> nat list \<Rightarrow> nat \<Rightarrow> nat" where
  "loop_weight s ys b = 2 * length ys + (if ys \<noteq> [] \<and> vm_start (vmas s (hd ys)) = b then 0 else 1)"

text \<open>The only way to fail is \<open>exit\<close> when memory for a tree node is exhausted.\<close>

definition insert_done :: "(nat \<Rightarrow> nat set) \<Rightarrow> nat \<Rightarrow> nat \<Rightarrow> nat \<Rightarrow> nat \<Rightarrow> dreg_state \<Rightarrow> (int \<times> dreg_state) res \<Rightarrow> bool" where
  "insert_done cov r b0 stop fuel s res \<longleftrightarrow>
     res = Inl Exit_failure \<and> avl_left_over (vma_mem s) < 2 * fuel
     \<or> (\<exists>s'. res = Inr (0, s') \<and> links_inv s' \<and> lists_inv (upto_page cov r b0 (stop + 1)) s' \<and> dregs s' = dregs s
          \<and> avl_left_over (vma_mem s) \<le> avl_left_over (vma_mem s') + 2 * fuel)"

lemma insert_loop_end:
  assumes "links_inv s" "lists_inv (upto_page cov r b0 (stop + 1)) s" "0 < fuel"
  shows "insert_done cov r b0 stop fuel s (dreg_insert_loop fuel r i (stop + 1) stop s)"
  using assms by (cases fuel) (auto simp: insert_done_def)

lemma upto_page_extend:
  assumes "b0 \<le> b" "b \<le> b'"
  shows "(\<lambda>p. if p \<in> {b..<b'} then insert r (upto_page cov r b0 b p) else upto_page cov r b0 b p) = upto_page cov r b0 b'"
  using assms by (auto simp: upto_page_def fun_eq_iff)

definition loop_pre :: "(nat \<Rightarrow> nat set) \<Rightarrow> nat \<Rightarrow> nat \<Rightarrow> nat \<Rightarrow> nat \<Rightarrow> nat \<Rightarrow> nat list \<Rightarrow> nat list \<Rightarrow> dreg_state \<Rightarrow> bool" where
  "loop_pre cov r b0 b stop fuel xs ys s \<longleftrightarrow> links_inv s \<and> lists_inv (upto_page cov r b0 b) s \<and> b0 \<le> b \<and> b \<le> stop
     \<and> vma_list s = xs @ ys \<and> (\<forall>a \<in> set xs. vm_end (vmas s a) < b) \<and> (ys \<noteq> [] \<longrightarrow> b \<le> vm_end (vmas s (hd ys)))
     \<and> stop < 2 ^ 52 \<and> DREG_END (dregs s r) < 2 ^ 52 \<and> loop_weight s ys b < fuel"

lemma insert_step_new:
  assumes pre: "loop_pre cov r b0 b stop (Suc fuel) xs ys s"
    and e: "e = (if ys \<noteq> [] \<and> vm_start (vmas s (hd ys)) \<le> stop then vm_start (vmas s (hd ys)) - 1 else stop)"
    and gap: "ys = [] \<or> b < vm_start (vmas s (hd ys))" and room: "has_room (vma_mem s)"
  shows "\<exists>v s1 s'. vma_new b e s = Inr (Some v, s1) \<and> vm_end (vmas s1 v) = e \<and> vma_list s1 = vma_list s \<and> dregs s' = dregs s
    \<and> s' = add_entry v r (s1\<lparr>vma_list := xs @ v # ys\<rparr>) \<and> vma_list s' = xs @ v # ys \<and> v \<notin> set (xs @ ys)
    \<and> links_inv s' \<and> lists_inv (upto_page cov r b0 (e + 1)) s' \<and> 0 < fuel
    \<and> avl_left_over (vma_mem s) \<le> avl_left_over (vma_mem s') + 2
    \<and> (e < stop \<longrightarrow> loop_pre cov r b0 (e + 1) stop fuel (xs @ [v]) ys s')"
proof -
  note P = pre [unfolded loop_pre_def]
  have be: "b \<le> e" "e \<le> stop" "e < 2 ^ 52" using P gap e by auto
  have ys: "stop' < vm_start (vmas s c)" if "c \<in> set ys" "stop' < vm_start (vmas s (hd ys))" for c stop'
  proof (cases ys)
    case (Cons y zs)
    then show ?thesis using that links_order(2) [of s xs y zs c] links_order(3) [of s xs y zs] P by fastforce
  qed (use that in simp)
  have "e < vm_start (vmas s (hd ys))" if "ys \<noteq> []" using that gap e by auto
  then have yse: "\<forall>c \<in> set ys. e < vm_start (vmas s c)" using ys by (metis empty_iff list.set(1))
  obtain v s1 s' where v: "vma_new b e s = Inr (Some v, s1)" "vm_end (vmas s1 v) = e" "vma_list s1 = vma_list s"
      "s' = add_entry v r (s1\<lparr>vma_list := xs @ v # ys\<rparr>)" "links_inv s'"
      "lists_inv (\<lambda>p. if p \<in> {b..e} then insert r (upto_page cov r b0 b p) else upto_page cov r b0 b p) s'"
      "vma_list s' = xs @ v # ys" "v \<notin> set (xs @ ys)" "\<forall>c \<in> set (xs @ ys). vmas s' c = vmas s c" "dregs s' = dregs s"
      "avl_left_over (vma_mem s) \<le> avl_left_over (vma_mem s') + 2"
    using new_area_ok [of s "upto_page cov r b0 b" xs ys b e r] P be yse room by auto
  have "{b..e} = {b..<e + 1}" by auto
  then have lists: "lists_inv (upto_page cov r b0 (e + 1)) s'" using v(6) upto_page_extend [of b0 b "e + 1" r cov] P be by simp
  have fuel: "0 < fuel" using P by (cases ys) (auto simp: loop_weight_def split: if_splits)
  have "loop_pre cov r b0 (e + 1) stop fuel (xs @ [v]) ys s'" if "e < stop"
  proof -
    have y: "ys \<noteq> []" "e + 1 = vm_start (vmas s (hd ys))" using that e gap by (auto split: if_splits)
    have hd: "vmas s' (hd ys) = vmas s (hd ys)" using v(9) y(1) by simp
    have "vm_start (vmas s (hd ys)) \<le> vm_end (vmas s (hd ys))" using P y(1) by (auto simp: links_inv_def)
    moreover have "vm_end (vmas s' v) = e" using v(2,4) by (simp add: add_entry_def upd_vma_def)
    moreover have "loop_weight s' ys (e + 1) < fuel" using P y gap by (auto simp: loop_weight_def hd split: if_splits)
    moreover have "\<forall>a \<in> set xs. vm_end (vmas s' a) < e + 1" using P v(9) be(1) by auto
    ultimately show ?thesis unfolding loop_pre_def using v lists P that y hd be by auto
  qed
  then show ?thesis using v lists fuel by blast
qed

lemma insert_step_add:
  assumes pre: "loop_pre cov r b0 b stop (Suc fuel) xs (a # ys) s" and r: "\<And>p. r \<notin> cov p"
    and at: "vm_start (vmas s a) = b" "vm_end (vmas s a) \<le> stop"
  shows "links_inv (add_entry a r s) \<and> lists_inv (upto_page cov r b0 (vm_end (vmas s a) + 1)) (add_entry a r s) \<and> 0 < fuel
    \<and> (vm_end (vmas s a) < stop \<longrightarrow> loop_pre cov r b0 (vm_end (vmas s a) + 1) stop fuel (xs @ [a]) ys (add_entry a r s))"
proof -
  note P = pre [unfolded loop_pre_def]
  let ?e = "vm_end (vmas s a)" and ?s = "add_entry a r s"
  have l: "vma_list s = xs @ a # ys" and links: "links_inv s" using P by auto
  have pg: "pages (vmas s a) = {b..<?e + 1}" using at by (auto simp: pages_def)
  have A: "links_inv ?s" "lists_inv (\<lambda>p. if p \<in> {b..<?e + 1} then insert r (upto_page cov r b0 b p) else upto_page cov r b0 b p) ?s"
    using add_entry_ok [of s "upto_page cov r b0 b" a r] P r unfolding pg by (auto simp: upto_page_def)
  then have lists: "lists_inv (upto_page cov r b0 (?e + 1)) ?s" using upto_page_extend [of b0 b "?e + 1" r cov] P by simp
  have h: "vm_start (vmas ?s c) = vm_start (vmas s c)" "vm_end (vmas ?s c) = vm_end (vmas s c)" "vma_list ?s = vma_list s"
      "dregs ?s = dregs s" "vma_mem ?s = vma_mem s" for c
    by (auto simp: add_entry_def upd_vma_def)
  have "loop_pre cov r b0 (?e + 1) stop fuel (xs @ [a]) ys ?s" if "?e < stop"
  proof -
    have "?e < vm_end (vmas s (hd ys))" if y: "ys \<noteq> []"
    proof (rule less_le_trans)
      show "?e < vm_start (vmas s (hd ys))" using links_order(2) [OF links l, of "hd ys"] y by simp
      show "vm_start (vmas s (hd ys)) \<le> vm_end (vmas s (hd ys))" using links y by (auto simp: links_inv_def l)
    qed
    moreover have "loop_weight ?s ys (?e + 1) < fuel" using P at(1) by (auto simp: loop_weight_def h split: if_splits)
    moreover have "\<forall>c \<in> set xs. vm_end (vmas s c) < ?e + 1" using links_order [OF links l] by fastforce
    ultimately show ?thesis unfolding loop_pre_def using A(1) lists P that by (auto simp: h Suc_le_eq)
  qed
  moreover have "0 < fuel" using P by (auto simp: loop_weight_def split: if_splits)
  ultimately show ?thesis using A(1) lists by blast
qed

lemma insert_step_split:
  assumes pre: "loop_pre cov r b0 b stop (Suc fuel) xs (a # ys) s" and at: "vm_start (vmas s a) < b"
    and room: "has_room (vma_mem s)"
  shows "\<exists>v s'. split_at a b s = Inr (Some v, s') \<and> vma_list s' = (xs @ [a]) @ v # ys \<and> dregs s' = dregs s
    \<and> avl_left_over (vma_mem s) \<le> avl_left_over (vma_mem s') + 2 \<and> loop_pre cov r b0 b stop fuel (xs @ [a]) (v # ys) s'"
proof -
  note P = pre [unfolded loop_pre_def]
  have l: "vma_list s = xs @ a # ys" and links: "links_inv s" using P by auto
  obtain v s' where v: "split_at a b s = Inr (Some v, s')" "links_inv s'" "lists_inv (upto_page cov r b0 b) s'"
      "vma_list s' = xs @ a # v # ys" "vm_start (vmas s' v) = b" "vm_end (vmas s' v) = vm_end (vmas s a)" "vm_end (vmas s' a) = b - 1"
      "\<forall>c \<in> set (xs @ ys). vmas s' c = vmas s c" "dregs s' = dregs s" "avl_left_over (vma_mem s) \<le> avl_left_over (vma_mem s') + 2"
    using split_ok [of s "upto_page cov r b0 b" xs a ys b] P at room by auto
  have "loop_weight s' (v # ys) b < fuel" using P at v(5) by (auto simp: loop_weight_def split: if_splits)
  then have "loop_pre cov r b0 b stop fuel (xs @ [a]) (v # ys) s'"
    unfolding loop_pre_def using v P at by auto
  then show ?thesis using v by auto
qed

lemma insert_step_last:
  assumes pre: "loop_pre cov r b0 b stop (Suc fuel) xs (a # ys) s" and r: "\<And>p. r \<notin> cov p"
    and at: "vm_start (vmas s a) = b" "stop < vm_end (vmas s a)" and room: "has_room (vma_mem s)"
  shows "\<exists>v s'. split_at a (stop + 1) s = Inr (Some v, s') \<and> dregs s' = dregs s \<and> 0 < fuel
    \<and> avl_left_over (vma_mem s) \<le> avl_left_over (vma_mem s') + 2 \<and> links_inv (add_entry a r s') \<and> lists_inv (upto_page cov r b0 (stop + 1)) (add_entry a r s')"
proof -
  note P = pre [unfolded loop_pre_def]
  obtain v s' where v: "split_at a (stop + 1) s = Inr (Some v, s')" "links_inv s'" "lists_inv (upto_page cov r b0 b) s'"
      "vma_list s' = xs @ a # v # ys" "vm_end (vmas s' a) = stop" "vm_start (vmas s' a) = b" "dregs s' = dregs s"
      "avl_left_over (vma_mem s) \<le> avl_left_over (vma_mem s') + 2"
    using split_ok [of s "upto_page cov r b0 b" xs a ys "stop + 1"] P at room by auto
  have pg: "pages (vmas s' a) = {b..<stop + 1}" using v(5,6) by (auto simp: pages_def)
  have "lists_inv (\<lambda>p. if p \<in> {b..<stop + 1} then insert r (upto_page cov r b0 b p) else upto_page cov r b0 b p) (add_entry a r s')"
      "links_inv (add_entry a r s')"
    using add_entry_ok [of s' "upto_page cov r b0 b" a r] v P r unfolding pg by (auto simp: upto_page_def)
  moreover have "0 < fuel" using P by (auto simp: loop_weight_def split: if_splits)
  ultimately show ?thesis using v upto_page_extend [of b0 b "stop + 1" r cov] P by auto
qed

text \<open>Where the loop needs a new area and there is no memory for its tree node.\<close>

lemma insert_loop_exit:
  assumes pre: "loop_pre cov r b0 b stop (Suc fuel) xs ys s" and room: "\<not> has_room (vma_mem s)"
    and new: "\<not> (ys \<noteq> [] \<and> vm_start (vmas s (hd ys)) = b \<and> vm_end (vmas s (hd ys)) \<le> stop)"
  shows "dreg_insert_loop (Suc fuel) r (head_opt ys) b stop s = Inl Exit_failure"
proof (cases ys)
  case Nil
  have "vma_new b stop s = Inl Exit_failure"
    using pre room Nil by (intro vma_new_exit [of s xs ys]) (auto simp: loop_pre_def links_inv_def intro: le_less_trans)
  then show ?thesis using pre Nil by (simp add: head_opt_def loop_pre_def)
next
  case (Cons a zs)
  note P = pre [unfolded loop_pre_def]
  have l: "links_inv s" "vma_list s = xs @ a # zs" using P Cons by auto
  have xs: "\<forall>c \<in> set xs. vm_start (vmas s c) < b" using P links_order(1) [OF l] by (meson le_less_trans)
  have b: "b \<le> stop" "stop < 2 ^ 52" "b \<le> vm_end (vmas s a)" using P Cons by auto
  consider (gap) "b < vm_start (vmas s a)" | (last) "vm_start (vmas s a) = b" "stop < vm_end (vmas s a)"
    | (inside) "vm_start (vmas s a) < b" using new Cons by force
  then show ?thesis
  proof cases
    case gap
    then have "\<forall>c \<in> set ys. b < vm_start (vmas s c)" using links_order(2,3) [OF l] Cons by fastforce
    then have "vma_new b e s = Inl Exit_failure" for e using l room xs b Cons by (intro vma_new_exit [of s xs ys]) auto
    then show ?thesis using gap b Cons by (simp add: head_opt_def)
  next
    case last
    then show ?thesis using split_exit [OF l room, of "stop + 1"] b Cons by (simp add: head_opt_def)
  next
    case inside
    then show ?thesis using split_exit [OF l room inside] b Cons by (simp add: head_opt_def)
  qed
qed

lemma insert_loop_ok:
  assumes r: "\<And>p. r \<notin> cov p"
  shows "loop_pre cov r b0 b stop fuel xs ys s \<Longrightarrow> insert_done cov r b0 stop fuel s (dreg_insert_loop fuel r (head_opt ys) b stop s)"
proof (induction fuel arbitrary: b xs ys s)
  case 0
  then show ?case by (simp add: loop_pre_def)
next
  case (Suc fuel)
  have bs: "b \<le> stop" and l: "vma_list s = xs @ ys" using Suc.prems by (auto simp: loop_pre_def)
  have dregs: "insert_done cov r b0 stop fuel s' res \<Longrightarrow> dregs s' = dregs s
      \<Longrightarrow> avl_left_over (vma_mem s) \<le> avl_left_over (vma_mem s') + 2 \<Longrightarrow> insert_done cov r b0 stop (Suc fuel) s res" for s' res
    by (auto simp: insert_done_def)
  consider (exit) "\<not> has_room (vma_mem s)" "\<not> (ys \<noteq> [] \<and> vm_start (vmas s (hd ys)) = b \<and> vm_end (vmas s (hd ys)) \<le> stop)"
    | (Nil) "ys = []" "has_room (vma_mem s)"
    | (Cons) a zs where "ys = a # zs" "has_room (vma_mem s) \<or> vm_start (vmas s a) = b \<and> vm_end (vmas s a) \<le> stop"
    by (cases ys) auto
  then show ?case
  proof cases
    case exit
    then show ?thesis using insert_loop_exit [OF Suc.prems] by (simp add: insert_done_def has_room_def)
  next
    case Nil
    obtain v s1 s' where v: "vma_new b stop s = Inr (Some v, s1)" "vm_end (vmas s1 v) = stop" "vma_list s1 = vma_list s"
        "dregs s' = dregs s" "s' = add_entry v r (s1\<lparr>vma_list := xs @ v # ys\<rparr>)" "links_inv s'"
        "lists_inv (upto_page cov r b0 (stop + 1)) s'" "0 < fuel" "avl_left_over (vma_mem s) \<le> avl_left_over (vma_mem s') + 2"
      using insert_step_new [OF Suc.prems, of stop] Nil by auto
    have "dreg_insert_loop (Suc fuel) r (head_opt ys) b stop s = dreg_insert_loop fuel r (next_of (vma_list s') None) (stop + 1) stop s'"
      using v(1-3,5) bs l Nil by (simp add: head_opt_def insert_before_simps Let_def)
    then show ?thesis using dregs [OF insert_loop_end [OF v(6,7,8)] v(4,9)] by simp
  next
    case Cons
    note room = Cons(2) and Cons = Cons(1)
    have a: "a \<notin> set xs" using Suc.prems Cons by (auto simp: loop_pre_def links_inv_def)
    consider (gap) "b < vm_start (vmas s a)" | (last) "vm_start (vmas s a) = b" "stop < vm_end (vmas s a)"
      | (add) "vm_start (vmas s a) = b" "vm_end (vmas s a) \<le> stop" | (inside) "vm_start (vmas s a) < b" by linarith
    then show ?thesis
    proof cases
      case gap
      define e where "e = (if vm_start (vmas s a) \<le> stop then vm_start (vmas s a) - 1 else stop)"
      have e': "e = (if ys \<noteq> [] \<and> vm_start (vmas s (hd ys)) \<le> stop then vm_start (vmas s (hd ys)) - 1 else stop)"
        and gap': "ys = [] \<or> b < vm_start (vmas s (hd ys))" using gap by (simp_all add: e_def Cons)
      obtain v s1 s' where v: "vma_new b e s = Inr (Some v, s1)" "vm_end (vmas s1 v) = e" "vma_list s1 = vma_list s"
          "dregs s' = dregs s" "s' = add_entry v r (s1\<lparr>vma_list := xs @ v # ys\<rparr>)" "vma_list s' = xs @ v # ys" "v \<notin> set (xs @ ys)"
          "links_inv s'" "lists_inv (upto_page cov r b0 (e + 1)) s'" "0 < fuel" "avl_left_over (vma_mem s) \<le> avl_left_over (vma_mem s') + 2"
          "e < stop \<longrightarrow> loop_pre cov r b0 (e + 1) stop fuel (xs @ [v]) ys s'"
        using insert_step_new [OF Suc.prems e' gap'] room gap by auto
      have n: "next_of (vma_list s') (Some v) = head_opt ys"
        using v(6,7) next_of_simps(3) [of v xs ys] by (simp add: head_opt_def)
      have e: "dreg_insert_loop (Suc fuel) r (head_opt ys) b stop s = dreg_insert_loop fuel r (head_opt ys) (e + 1) stop s'"
        using v(1-3,5) bs l gap a n Cons by (simp add: head_opt_def insert_before_simps Let_def e_def)
      show ?thesis
      proof (cases "e < stop")
        case True
        then show ?thesis using dregs [OF Suc.IH [OF mp [OF v(12)]] v(4,11)] e by simp
      next
        case False
        then have "e = stop" by (auto simp: e_def split: if_splits)
        then show ?thesis using dregs [OF insert_loop_end [OF v(8) _ v(10)] v(4,11)] v(9) e by simp
      qed
    next
      case last
      obtain v s' where v: "split_at a (stop + 1) s = Inr (Some v, s')" "dregs s' = dregs s" "0 < fuel"
          "links_inv (add_entry a r s')" "lists_inv (upto_page cov r b0 (stop + 1)) (add_entry a r s')"
          "avl_left_over (vma_mem s) \<le> avl_left_over (vma_mem s') + 2"
        using insert_step_last [OF Suc.prems [unfolded Cons] r last] room last by auto
      have "dregs (add_entry a r s') = dregs s" "vma_mem (add_entry a r s') = vma_mem s'" using v(2) by (simp_all add: add_entry_def upd_vma_def)
      then show ?thesis using dregs [OF insert_loop_end [OF v(4,5,3)]] v(1,6) bs last Cons by (simp add: head_opt_def Let_def)
    next
      case add
      note A = insert_step_add [OF Suc.prems [unfolded Cons] r add]
      let ?s = "add_entry a r s" and ?e = "vm_end (vmas s a)"
      have d: "dregs ?s = dregs s" "vma_list ?s = vma_list s" "vm_end (vmas ?s a) = ?e"
        "avl_left_over (vma_mem s) \<le> avl_left_over (vma_mem ?s) + 2" by (simp_all add: add_entry_def upd_vma_def)
      have n: "next_of (vma_list ?s) (Some a) = head_opt zs"
        using a l Cons next_of_simps(3) [of a xs zs] by (simp add: d head_opt_def)
      have e: "dreg_insert_loop (Suc fuel) r (head_opt ys) b stop s = dreg_insert_loop fuel r (head_opt zs) (?e + 1) stop ?s"
        using bs add Cons n d(3) by (simp add: head_opt_def Let_def not_less)
      show ?thesis
      proof (cases "?e < stop")
        case True
        then show ?thesis using dregs [OF Suc.IH d(1,4)] A e by metis
      next
        case False
        then have "?e = stop" using add by simp
        then show ?thesis using dregs [OF insert_loop_end d(1,4)] A e by metis
      qed
    next
      case inside
      obtain v s' where v: "split_at a b s = Inr (Some v, s')" "vma_list s' = (xs @ [a]) @ v # zs" "dregs s' = dregs s"
          "loop_pre cov r b0 b stop fuel (xs @ [a]) (v # zs) s'" "avl_left_over (vma_mem s) \<le> avl_left_over (vma_mem s') + 2"
        using insert_step_split [OF Suc.prems [unfolded Cons] inside] room inside by auto
      have "next_of (vma_list s') (Some a) = head_opt (v # zs)"
        using a v(2) next_of_simps(3) [of a xs "v # zs"] by (simp add: head_opt_def)
      then have "dreg_insert_loop (Suc fuel) r (head_opt ys) b stop s = dreg_insert_loop fuel r (head_opt (v # zs)) b stop s'"
        using v(1) bs inside Cons by (simp add: head_opt_def)
      then show ?thesis using dregs [OF Suc.IH [OF v(4)] v(3,5)] by simp
    qed
  qed
qed

end
