(* ===== verification/LC_Dreg_Db.thy ===== *)
theory LC_Dreg_Db
  imports LC_Dreg
begin

text \<open>
  What the database of areas of \<open>src/dreg/dreg.c\<close> answers: an insertion enters a registration
  for exactly its pages, a removal takes it away from all of them and joins areas again, and a
  lookup finds a registration that covers a range of pages whenever there is one.
\<close>

section \<open>Searching\<close>

lemma vma_search_ok:
  assumes links: "links_inv s"
  shows "case vma_search p s of
      Some v \<Rightarrow> v \<in> set (vma_list s) \<and> p \<in> pages (vmas s v)
    | None \<Rightarrow> \<forall>v \<in> set (vma_list s). p \<notin> pages (vmas s v)"
proof -
  let ?f = "vma_compare_search (vmas s) p"
  have zero: "?f v = 0 \<longleftrightarrow> p \<in> pages (vmas s v)" for v by (auto simp: vma_compare_search_def pages_def)
  have S: "sorted_wrt (\<lambda>a b. vm_end (vmas s a) < vm_start (vmas s b)) (vma_list s)"
      "\<forall>a \<in> set (vma_list s). vm_start (vmas s a) \<le> vm_end (vmas s a)"
    using links by (auto simp: links_inv_def)
  have "sorted_wrt (\<lambda>a b. sgn (?f b) \<le> sgn (?f a)) (vma_list s)"
    by (rule sorted_wrt_mono_rel [OF _ S(1)]) (use S(2) in \<open>fastforce simp: vma_compare_search_def\<close>)
  then show ?thesis
    using tree_search [of "vma_tree s" "vma_mem s" "vma_list s" ?f p] links
    by (auto simp: links_inv_def tree_inv_def vma_search_def avlfindex_def zero split: option.splits)
qed

lemma vma_closest_ok:
  assumes links: "links_inv s" and l: "vma_list s = xs @ ys" and p: "0 < p"
    and xs: "\<forall>a \<in> set xs. vm_end (vmas s a) < p" and ys: "ys \<noteq> [] \<Longrightarrow> p \<le> vm_end (vmas s (hd ys))"
  shows "vma_closest p s = head_opt ys"
proof -
  let ?f = "vma_compare_closest s p"
  have fx: "?f a = 1" if "a \<in> set xs" for a using xs that by (simp add: vma_compare_closest_def)
  have prev: "prev_of (vma_list s) (Some a) = (if us = [] then None else Some (last us))" if "vma_list s = us @ a # vs" for us a vs
    using links that prev_of_simps [of a vs us] by (auto simp: links_inv_def)
  have fy: "?f y = 0" "\<forall>a \<in> set zs. ?f a = - 1" if y: "ys = y # zs" for y zs
  proof -
    have "vm_end (vma_at s (prev_of (vma_list s) (Some y))) < p"
      using prev [of xs y zs] l y xs p by (auto simp: vma_at_def)
    then show "?f y = 0" using ys y by (auto simp: vma_compare_closest_def)
    show "\<forall>a \<in> set zs. ?f a = - 1"
    proof
      fix a
      assume "a \<in> set zs"
      then obtain us vs where zs: "zs = us @ a # vs" by (metis split_list)
      let ?q = "last (y # us)"
      have la: "vma_list s = (xs @ y # us) @ a # vs" using l y zs by simp
      have "?q \<in> set (xs @ y # us)" by (cases us rule: rev_cases) auto
      then have q: "vm_end (vmas s ?q) < vm_start (vmas s a)" using links_order(1) [OF links la] by blast
      have "vm_end (vmas s y) \<le> vm_end (vmas s ?q)"
      proof (cases us rule: rev_cases)
        case (snoc ws q)
        then have "vma_list s = xs @ y # (ws @ q # a # vs)" using la by simp
        then have "vm_end (vmas s y) < vm_start (vmas s q)" using links_order(2) [OF links, of xs y _ q] by simp
        moreover have "vm_start (vmas s q) \<le> vm_end (vmas s q)" using links snoc la by (auto simp: links_inv_def)
        ultimately show ?thesis using snoc by simp
      qed simp
      moreover have "p \<le> vm_end (vmas s y)" using ys y by simp
      moreover have "vm_start (vmas s a) \<le> vm_end (vmas s a)" using links_order(3) [OF links la] .
      moreover have "vma_at s (prev_of (vma_list s) (Some a)) = vmas s ?q"
        using prev [OF la] by (simp add: vma_at_def)
      ultimately show "?f a = - 1" using q by (simp add: vma_compare_closest_def)
    qed
  qed
  have const: "sorted_wrt (\<lambda>a b. sgn (?f b) \<le> sgn (?f a)) us" if "\<forall>a \<in> set us. ?f a = c" for us c
    using that by (induction us) auto
  have "sorted_wrt (\<lambda>a b. sgn (?f b) \<le> sgn (?f a)) (vma_list s)"
    using const [of xs 1] const [of "tl ys" "- 1"] fx fy by (cases ys) (auto simp: l sorted_wrt_append)
  then have "case vma_closest p s of Some v \<Rightarrow> v \<in> set (vma_list s) \<and> ?f v = 0 | None \<Rightarrow> \<forall>v \<in> set (vma_list s). ?f v \<noteq> 0"
    using tree_search [of "vma_tree s" "vma_mem s" "vma_list s" ?f p] links
    by (auto simp: links_inv_def tree_inv_def vma_closest_def avlfindex_def split: option.splits)
  then show ?thesis using fx fy by (cases ys) (auto simp: l head_opt_def split: option.splits)
qed

section \<open>Insertion and lookup\<close>

lemma dreg_insert_ok:
  assumes links: "links_inv s" and lists: "lists_inv cov s" and r: "\<And>p. r \<notin> cov p"
    and range: "0 < DREG_BEGIN (dregs s r)" "DREG_BEGIN (dregs s r) \<le> DREG_END (dregs s r)" "DREG_END (dregs s r) < 2 ^ 52"
  shows "insert_done cov r (DREG_BEGIN (dregs s r)) (DREG_END (dregs s r)) (2 * length (vma_list s) + 4) s (dreg_insert r s)"
proof -
  let ?b = "DREG_BEGIN (dregs s r)" and ?e = "DREG_END (dregs s r)"
  define xs ys where "xs = takeWhile (\<lambda>a. vm_end (vmas s a) < ?b) (vma_list s)" and "ys = dropWhile (\<lambda>a. vm_end (vmas s a) < ?b) (vma_list s)"
  have l: "vma_list s = xs @ ys" and xs: "\<forall>a \<in> set xs. vm_end (vmas s a) < ?b"
    using set_takeWhileD by (fastforce simp: xs_def ys_def)+
  have ys: "?b \<le> vm_end (vmas s (hd ys))" if "ys \<noteq> []"
    using hd_dropWhile [of "\<lambda>a. vm_end (vmas s a) < ?b" "vma_list s"] that by (simp add: ys_def)
  have "upto_page cov r ?b ?b = cov" by (auto simp: upto_page_def fun_eq_iff)
  moreover have "loop_weight s ys ?b < 2 * length (vma_list s) + 4" by (simp add: loop_weight_def l)
  ultimately have "loop_pre cov r ?b ?b ?e (2 * length (vma_list s) + 4) xs ys s"
    unfolding loop_pre_def using links lists l xs ys range by simp
  from insert_loop_ok [OF r this] show ?thesis
    using vma_closest_ok [OF links l range(1) xs ys] by (simp add: dreg_insert_def)
qed

lemma dreg_lookup_ok:
  assumes links: "links_inv s" and lists: "lists_inv cov s"
  shows "case dreg_lookup begin stop s of
      Some d \<Rightarrow> d \<in> cov begin \<and> stop \<le> DREG_END (dregs s d) \<and> (\<forall>e \<in> cov begin. DREG_END (dregs s e) \<le> DREG_END (dregs s d))
    | None \<Rightarrow> \<forall>d \<in> cov begin. DREG_END (dregs s d) < stop"
proof (cases "vma_search begin s")
  case None
  then have "\<forall>v \<in> set (vma_list s). begin \<notin> pages (vmas s v)" using vma_search_ok [OF links, of "begin"] by simp
  then have "cov begin = {}" using lists by (auto simp: lists_inv_def)
  then show ?thesis using None by (simp add: dreg_lookup_def)
next
  case (Some v)
  then have v: "v \<in> set (vma_list s)" "begin \<in> pages (vmas s v)" using vma_search_ok [OF links, of "begin"] by auto
  then have ok: "ordered (dregs s) (vm_list (vmas s v))" "set (vm_list (vmas s v)) = cov begin"
    using lists by (auto simp: lists_inv_def area_ok_def)
  show ?thesis
  proof (cases "vm_list (vmas s v)")
    case Nil
    then show ?thesis using Some ok(2) by (simp add: dreg_lookup_def)
  next
    case (Cons d ds)
    then have "\<forall>e \<in> cov begin. DREG_END (dregs s e) \<le> DREG_END (dregs s d)" using ok ordered_head [of "dregs s" d ds] by metis
    then show ?thesis using Some ok(2) Cons by (auto simp: dreg_lookup_def intro: le_less_trans)
  qed
qed

section \<open>Removal\<close>

lemma remove_entry_ok:
  assumes links: "links_inv s" and lists: "lists_inv cov s" and a: "a \<in> set (vma_list s)"
  shows "links_inv (remove_entry a r s)"
    and "lists_inv (\<lambda>p. if p \<in> pages (vmas s a) then cov p - {r} else cov p) (remove_entry a r s)"
    and "r \<notin> set (vm_list (vmas (remove_entry a r s) a))"
proof -
  let ?h = "vmas (remove_entry a r s)" and ?cov = "\<lambda>p. if p \<in> pages (vmas s a) then cov p - {r} else cov p"
  have se: "vm_start (?h b) = vm_start (vmas s b)" "vm_end (?h b) = vm_end (vmas s b)" "pages (?h b) = pages (vmas s b)" for b
    by (auto simp: remove_entry_def upd_vma_def pages_def)
  have o: "vma_list (remove_entry a r s) = vma_list s" "vma_tree (remove_entry a r s) = vma_tree s" "vma_mem (remove_entry a r s) = vma_mem s"
      "vma_free_list (remove_entry a r s) = vma_free_list s" "vma_brk (remove_entry a r s) = vma_brk s" "dregs (remove_entry a r s) = dregs s"
    by (auto simp: remove_entry_def upd_vma_def)
  show "links_inv (remove_entry a r s)"
    using links tree_inv_cong [of "vma_list s" ?h "vmas s"] se unfolding links_inv_def o by simp
  have ok: "area_ok (dregs s) cov (vmas s a)" using lists a by (auto simp: lists_inv_def)
  then have d: "distinct (vm_list (vmas s a))" by (auto simp: area_ok_def intro: ordered_distinct)
  then show "r \<notin> set (vm_list (?h a))" by (auto simp: remove_entry_def upd_vma_def)
  have "area_ok (dregs s) ?cov (?h b)" if b: "b \<in> set (vma_list s)" for b
  proof (cases "b = a")
    case True
    have "?h a = (vmas s a)\<lparr>vm_list := remove1 r (vm_list (vmas s a)), vm_count := length (remove1 r (vm_list (vmas s a)))\<rparr>"
      using ok by (auto simp: remove_entry_def upd_vma_def area_ok_def length_remove1 remove1_idem intro!: vma.equality)
    then show ?thesis using ok True d by (auto simp: area_ok_def pages_def ordered_remove1)
  next
    case False
    then have "?h b = vmas s b" by (simp add: remove_entry_def upd_vma_def)
    moreover have "p \<notin> pages (vmas s a)" if "p \<in> pages (vmas s b)" for p using areas_apart [OF links a b] that False by blast
    ultimately show ?thesis using lists b by (auto simp: lists_inv_def area_ok_def)
  qed
  then show "lists_inv ?cov (remove_entry a r s)" using lists unfolding lists_inv_def o by (auto simp: se)
qed

lemma vma_destroy_parts [simp]:
  "vmas (vma_destroy v s) = vmas s" "vma_list (vma_destroy v s) = vma_list s" "dregs (vma_destroy v s) = dregs s"
  "vma_mem (vma_destroy v s) = vma_mem s" "vma_tree (vma_destroy v s) = vma_tree s" "vma_brk (vma_destroy v s) = vma_brk s"
  "set (vma_free_list (vma_destroy v s)) \<subseteq> insert v (set (vma_free_list s))"
  by (auto simp: vma_destroy_def)

lemma vma_destroy_fresh:
  "distinct (v # xs @ vma_free_list s) \<Longrightarrow> distinct (xs @ vma_free_list (vma_destroy v s))"
  by (auto simp: vma_destroy_def)

text \<open>An area without entries disappears.\<close>

lemma drop_area_ok:
  assumes links: "links_inv s" and lists: "lists_inv cov s" and l: "vma_list s = xs @ a # ys" and e: "vm_list (vmas s a) = []"
  shows "\<exists>s1 s'. vma_remove a s = Inr s1 \<and> s' = vma_destroy a (s1\<lparr>vma_list := remove1 a (vma_list s1)\<rparr>) \<and> links_inv s' \<and> lists_inv cov s'
    \<and> vma_list s' = xs @ ys \<and> vmas s' = vmas s \<and> dregs s' = dregs s \<and> avl_left_over (vma_mem s') = avl_left_over (vma_mem s)"
proof -
  have L: "tree_inv (vmas s) (vma_tree s) (vma_mem s) (xs @ a # ys)"
    using links by (simp add: links_inv_def l)
  obtain s1 where s1: "vma_remove a s = Inr s1" "tree_inv (vmas s1) (vma_tree s1) (vma_mem s1) (xs @ ys)"
      "avl_left_over (vma_mem s1) = avl_left_over (vma_mem s)"
      "s1 = s\<lparr>vma_tree := vma_tree s1, vma_mem := vma_mem s1, pinned_pages_count := pinned_pages_count s1\<rparr>"
    using vma_remove_ok [OF L] by blast
  have p: "vmas s1 = vmas s" "vma_list s1 = vma_list s" "dregs s1 = dregs s" "vma_free_list s1 = vma_free_list s" "vma_brk s1 = vma_brk s"
    by (subst s1(4), simp)+
  define s' where "s' = vma_destroy a (s1\<lparr>vma_list := remove1 a (vma_list s1)\<rparr>)"
  have "a \<notin> set xs" using links_order(5) [OF links l] .
  then have l': "vma_list s' = xs @ ys" by (simp add: s'_def p l remove1_append)
  have "distinct (a # (xs @ ys) @ vma_free_list s)" using links by (auto simp: links_inv_def l)
  then have "distinct ((xs @ ys) @ vma_free_list s')"
    unfolding s'_def by (intro vma_destroy_fresh) (simp add: p)
  moreover have "\<forall>b \<in> set ((xs @ ys) @ vma_free_list s'). b < vma_brk s'"
    using links vma_destroy_parts(7) [of a "s1\<lparr>vma_list := remove1 a (vma_list s1)\<rparr>"]
    by (auto simp: links_inv_def l p s'_def)
  ultimately have "links_inv s'"
    using links s1(2) unfolding links_inv_def l' by (auto simp: s'_def p l sorted_wrt_append)
  moreover have "lists_inv cov s'"
  proof -
    have "cov p = {}" if "p \<in> pages (vmas s a)" for p using lists that e by (auto simp: lists_inv_def area_ok_def l)
    then show ?thesis using lists unfolding lists_inv_def l' by (auto simp: s'_def p l)
  qed
  ultimately show ?thesis using s1(1,3) l' by (auto simp: s'_def p)
qed

lemma same_entries_eq: "length ds = length es \<Longrightarrow> same_entries ds es \<longleftrightarrow> ds = es"
  by (induction ds es rule: same_entries.induct) auto

lemma compare_lists_eq:
  assumes "area_ok D cov a" "area_ok D cov b"
  shows "compare_lists a b \<longleftrightarrow> vm_list a = vm_list b"
  using assms same_entries_eq [of "vm_list a" "vm_list b"] by (auto simp: compare_lists_def area_ok_def)

text \<open>Two adjacent areas with the same entries become one.\<close>

lemma merge_ok:
  assumes links: "links_inv s" and lists: "lists_inv cov s" and l: "vma_list s = xs @ p # t # ys"
    and adj: "vm_end (vmas s p) + 1 = vm_start (vmas s t)" and eq: "vm_list (vmas s p) = vm_list (vmas s t)"
  shows "\<exists>s'. merge_with_prev p t s = Inr s' \<and> links_inv s' \<and> lists_inv cov s' \<and> vma_list s' = xs @ p # ys
    \<and> (\<forall>a. vm_list (vmas s' a) = vm_list (vmas s a)) \<and> (\<forall>a. vm_start (vmas s' a) = vm_start (vmas s a)) \<and> dregs s' = dregs s
    \<and> avl_left_over (vma_mem s') = avl_left_over (vma_mem s)"
proof -
  define s0 where "s0 = (upd_vma p (\<lambda>a. a\<lparr>vm_end := vm_end (vmas s t)\<rparr>) s)\<lparr>vma_list := remove1 t (vma_list s)\<rparr>"
  have s0: "vmas s0 = (vmas s)(p := (vmas s p)\<lparr>vm_end := vm_end (vmas s t)\<rparr>)" "vma_tree s0 = vma_tree s" "vma_mem s0 = vma_mem s"
      "vma_free_list s0 = vma_free_list s" "vma_brk s0 = vma_brk s" "dregs s0 = dregs s"
    by (simp_all add: s0_def upd_vma_def)
  have ne: "p \<noteq> t" "t \<notin> set xs" "p \<notin> set xs" "p \<notin> set ys" "t \<notin> set ys" using links by (auto simp: links_inv_def l)
  then have l0: "vma_list s0 = xs @ p # ys" by (simp add: s0_def l remove1_append)
  have st: "vm_start (vmas s0 a) = vm_start (vmas s a)" "vm_list (vmas s0 a) = vm_list (vmas s a)" for a by (simp_all add: s0)
  have "tree_inv (vmas s) (vma_tree s) (vma_mem s) ((xs @ [p]) @ t # ys)" using links by (simp add: links_inv_def l)
  then have T: "tree_inv (vmas s0) (vma_tree s0) (vma_mem s0) ((xs @ [p]) @ t # ys)"
    using tree_inv_cong [of "(xs @ [p]) @ t # ys" "vmas s0" "vmas s"] st(1) by (simp add: s0(2,3))
  obtain s1 where s1: "vma_remove t s0 = Inr s1" "tree_inv (vmas s1) (vma_tree s1) (vma_mem s1) ((xs @ [p]) @ ys)"
      "avl_left_over (vma_mem s1) = avl_left_over (vma_mem s0)"
      "s1 = s0\<lparr>vma_tree := vma_tree s1, vma_mem := vma_mem s1, pinned_pages_count := pinned_pages_count s1\<rparr>"
    using vma_remove_ok [OF T] by blast
  have e: "vmas s1 = vmas s0" "vma_list s1 = vma_list s0" "dregs s1 = dregs s" "vma_free_list s1 = vma_free_list s" "vma_brk s1 = vma_brk s"
    by (subst s1(4), simp add: s0)+
  define s' where "s' = vma_destroy t s1"
  have l': "vma_list s' = xs @ p # ys" by (simp add: s'_def e l0)
  have h: "vmas s' b = vmas s b" if "b \<in> set (xs @ ys)" for b using that ne by (auto simp: s'_def e s0)
  have hp: "vmas s' p = (vmas s p)\<lparr>vm_end := vm_end (vmas s t)\<rparr>" by (simp add: s'_def e s0)
  have "distinct (t # (xs @ p # ys) @ vma_free_list s)" using links by (auto simp: links_inv_def l)
  then have "distinct ((xs @ p # ys) @ vma_free_list s')" unfolding s'_def by (intro vma_destroy_fresh) (simp add: e)
  moreover have "\<forall>b \<in> set ((xs @ p # ys) @ vma_free_list s'). b < vma_brk s'"
    using links vma_destroy_parts(7) [of t s1] by (auto simp: links_inv_def l e s'_def)
  moreover have "sorted_wrt (\<lambda>a b. vm_end (vmas s' a) < vm_start (vmas s' b)) (xs @ p # ys)"
    using links h hp sorted_areas_cong [of xs "vmas s'" "vmas s"] sorted_areas_cong [of ys "vmas s'" "vmas s"]
    by (auto simp: links_inv_def l sorted_wrt_append)
  moreover have "\<forall>a \<in> set (xs @ p # ys). vm_start (vmas s' a) \<le> vm_end (vmas s' a) \<and> vm_end (vmas s' a) < 2 ^ 52"
    using links h hp adj by (fastforce simp: links_inv_def l)
  moreover have "tree_inv (vmas s') (vma_tree s') (vma_mem s') (xs @ p # ys)" using s1(2) by (simp add: s'_def)
  ultimately have "links_inv s'" unfolding links_inv_def l' by blast
  moreover have "lists_inv cov s'"
  proof -
    have pg: "pages (vmas s' p) = pages (vmas s p) \<union> pages (vmas s t)"
      using adj links hp by (auto simp: pages_def links_inv_def l)
    have "area_ok (dregs s) cov (vmas s p)" "area_ok (dregs s) cov (vmas s t)" using lists by (auto simp: lists_inv_def l)
    then have "area_ok (dregs s) cov (vmas s' p)" unfolding area_ok_def pg using eq hp by auto
    then show ?thesis using lists h pg unfolding lists_inv_def l' by (auto simp: l s'_def e)
  qed
  moreover have "merge_with_prev p t s = Inr s'" using s1(1) by (simp add: merge_with_prev_def s0_def [symmetric] s'_def)
  ultimately show ?thesis using l' s1(3) by (intro exI [of _ s']) (simp add: s'_def e s0)
qed

text \<open>
  The loop position: \<open>v\<close> stands between \<open>xs\<close> and \<open>ys\<close>, and neither \<open>v\<close> nor the areas before it
  have the entry \<open>r\<close> any more.
\<close>

definition cleared :: "(nat \<Rightarrow> nat set) \<Rightarrow> nat \<Rightarrow> nat list \<Rightarrow> nat list \<Rightarrow> dreg_state \<Rightarrow> bool" where
  "cleared cov r xs ys s \<longleftrightarrow> links_inv s \<and> lists_inv cov s \<and> vma_list s = xs @ ys \<and> (\<forall>a \<in> set xs. r \<notin> set (vm_list (vmas s a)))"

lemma cleared_merge:
  assumes c: "cleared cov r (xs @ [p]) (t # ys) s \<or> cleared cov r (xs @ [p, t]) ys s"
    and adj: "vm_end (vmas s p) + 1 = vm_start (vmas s t)" and eq: "vm_list (vmas s p) = vm_list (vmas s t)"
  shows "\<exists>s'. merge_with_prev p t s = Inr s' \<and> cleared cov r (xs @ [p]) ys s' \<and> vm_list (vmas s' p) = vm_list (vmas s p)
    \<and> dregs s' = dregs s \<and> avl_left_over (vma_mem s') = avl_left_over (vma_mem s)"
proof -
  have C: "links_inv s" "lists_inv cov s" "vma_list s = xs @ p # t # ys" "\<forall>a \<in> set (xs @ [p]). r \<notin> set (vm_list (vmas s a))"
    using c by (auto simp: cleared_def)
  from merge_ok [OF C(1-3) adj eq] show ?thesis unfolding cleared_def using C(4) by auto
qed

lemma cleared_area: "cleared cov r xs ys s \<Longrightarrow> a \<in> set (xs @ ys) \<Longrightarrow> area_ok (dregs s) cov (vmas s a)"
  by (auto simp: cleared_def lists_inv_def)

lemma merge_prev_ok:
  assumes c: "cleared cov r (xs @ [v]) ys s" and ne: "vm_list (vmas s v) \<noteq> []"
  shows "\<exists>m v' s' xs'. merge_prev v s = Inr (m, v', s') \<and> cleared cov r (xs' @ [v']) ys s' \<and> vm_list (vmas s' v') \<noteq> []
    \<and> length (vma_list s') + (if m then 1 else 0) = length (vma_list s)
    \<and> dregs s' = dregs s \<and> avl_left_over (vma_mem s') = avl_left_over (vma_mem s)"
proof -
  have C: "links_inv s" "vma_list s = xs @ v # ys" using c by (auto simp: cleared_def)
  define p where "p = prev_of (vma_list s) (Some v)"
  have p: "p = (if xs = [] then None else Some (last xs))"
    using prev_of_simps [of v ys xs] links_order(6) [OF C] by (simp add: p_def C(2))
  show ?thesis
  proof (cases "vm_start (vmas s v) = vm_end (vma_at s p) + 1 \<and> compare_lists (vmas s v) (vma_at s p)")
    case True
    have "vm_count (vmas s v) \<noteq> 0" using cleared_area [OF c, of v] ne by (auto simp: area_ok_def)
    then have "p \<noteq> None" using True by (cases p) (auto simp: vma_at_def compare_lists_def)
    then obtain us q where q: "xs = us @ [q]" "p = Some q" using p by (cases xs rule: rev_cases) auto
    have m: "vm_end (vmas s q) + 1 = vm_start (vmas s v)" "vm_list (vmas s q) = vm_list (vmas s v)"
      using True q compare_lists_eq [OF cleared_area [OF c] cleared_area [OF c], of v q] by (auto simp: vma_at_def)
    have c2: "cleared cov r (us @ [q]) (v # ys) s \<or> cleared cov r (us @ [q, v]) ys s" using c q by simp
    obtain s1 where "merge_with_prev q v s = Inr s1" "cleared cov r (us @ [q]) ys s1" "vm_list (vmas s1 q) = vm_list (vmas s q)"
        "dregs s1 = dregs s" "avl_left_over (vma_mem s1) = avl_left_over (vma_mem s)"
      using cleared_merge [OF c2 m] by blast
    moreover from this have "merge_prev v s = Inr (True, q, s1)" using True q by (simp add: merge_prev_def Let_def p_def [symmetric])
    ultimately show ?thesis using q m ne C(2)
      by (intro exI [of _ True] exI [of _ q] exI [of _ s1] exI [of _ us]) (simp add: cleared_def)
  next
    case False
    then show ?thesis using c ne by (auto simp: merge_prev_def Let_def p_def [symmetric])
  qed
qed

lemma merge_next_ok:
  assumes c: "cleared cov r (xs @ [v]) ys s" and ne: "vm_list (vmas s v) \<noteq> []"
  shows "\<exists>m s' ys'. merge_next v s = Inr (m, s') \<and> cleared cov r (xs @ [v]) ys' s' \<and> vm_list (vmas s' v) \<noteq> []
    \<and> length (vma_list s') + (if m then 1 else 0) = length (vma_list s) \<and> length ys' \<le> length ys
    \<and> dregs s' = dregs s \<and> avl_left_over (vma_mem s') = avl_left_over (vma_mem s)"
proof -
  have C: "links_inv s" "vma_list s = xs @ v # ys" using c by (auto simp: cleared_def)
  define n where "n = next_of (vma_list s) (Some v)"
  have n: "n = head_opt ys" using next_of_simps(3) [of v xs ys] links_order(5) [OF C] by (simp add: n_def C(2) head_opt_def)
  show ?thesis
  proof (cases "vm_end (vmas s v) + 1 = vm_start (vma_at s n) \<and> compare_lists (vmas s v) (vma_at s n)")
    case True
    have "n \<noteq> None" using True by (cases n) (auto simp: vma_at_def)
    then obtain q zs where q: "ys = q # zs" "n = Some q" using n by (cases ys) (auto simp: head_opt_def)
    have m: "vm_end (vmas s v) + 1 = vm_start (vmas s q)" "vm_list (vmas s v) = vm_list (vmas s q)"
      using True q compare_lists_eq [OF cleared_area [OF c] cleared_area [OF c], of v q] by (auto simp: vma_at_def)
    have c2: "cleared cov r (xs @ [v]) (q # zs) s \<or> cleared cov r (xs @ [v, q]) zs s" using c q by simp
    obtain s1 where "merge_with_prev v q s = Inr s1" "cleared cov r (xs @ [v]) zs s1" "vm_list (vmas s1 v) = vm_list (vmas s v)"
        "dregs s1 = dregs s" "avl_left_over (vma_mem s1) = avl_left_over (vma_mem s)"
      using cleared_merge [OF c2 m] by blast
    moreover from this have "merge_next v s = Inr (True, s1)" using True q by (simp add: merge_next_def Let_def n_def [symmetric])
    ultimately show ?thesis using q ne C(2)
      by (intro exI [of _ True] exI [of _ s1] exI [of _ zs]) (simp add: cleared_def)
  next
    case False
    then show ?thesis using c ne by (auto simp: merge_next_def Let_def n_def [symmetric])
  qed
qed

lemma merge_loop_ok:
  "cleared cov r (xs @ [v]) ys s \<Longrightarrow> vm_list (vmas s v) \<noteq> [] \<Longrightarrow> length (vma_list s) < fuel \<Longrightarrow>
   \<exists>v' s' xs' ys'. merge_loop fuel v s = Inr (v', s') \<and> cleared cov r (xs' @ [v']) ys' s' \<and> length ys' \<le> length ys
     \<and> dregs s' = dregs s \<and> avl_left_over (vma_mem s') = avl_left_over (vma_mem s)"
proof (induction fuel arbitrary: xs v ys s)
  case (Suc fuel)
  obtain m1 v1 s1 xs1 where one: "merge_prev v s = Inr (m1, v1, s1)" "cleared cov r (xs1 @ [v1]) ys s1" "vm_list (vmas s1 v1) \<noteq> []"
      "length (vma_list s1) + (if m1 then 1 else 0) = length (vma_list s)" "dregs s1 = dregs s" "avl_left_over (vma_mem s1) = avl_left_over (vma_mem s)"
    using merge_prev_ok [OF Suc.prems(1,2)] by blast
  obtain m2 s2 ys2 where two: "merge_next v1 s1 = Inr (m2, s2)" "cleared cov r (xs1 @ [v1]) ys2 s2" "vm_list (vmas s2 v1) \<noteq> []"
      "length (vma_list s2) + (if m2 then 1 else 0) = length (vma_list s1)" "length ys2 \<le> length ys"
      "dregs s2 = dregs s1" "avl_left_over (vma_mem s2) = avl_left_over (vma_mem s1)"
    using merge_next_ok [OF one(2,3)] by blast
  have step: "merge_loop (Suc fuel) v s = (if m1 \<or> m2 then merge_loop fuel v1 s2 else Inr (v1, s2))"
    using one(1) two(1) by simp
  show ?case
  proof (cases "m1 \<or> m2")
    case True
    then have "length (vma_list s2) < fuel" using one(4) two(4) Suc.prems(3) by (auto split: if_splits)
    from Suc.IH [OF two(2,3) this] True one(5,6) two(5-7) show ?thesis unfolding step by simp (metis le_trans)
  next
    case False
    then show ?thesis unfolding step using one(5,6) two by auto
  qed
qed simp

text \<open>
  The whole loop. The coverage is \<open>cov\<close> for some pages and \<open>cov\<close> without \<open>r\<close> for the others; at
  the end \<open>r\<close> is nowhere.
\<close>

definition partly :: "(nat \<Rightarrow> nat set) \<Rightarrow> nat \<Rightarrow> (nat \<Rightarrow> nat set) \<Rightarrow> bool" where
  "partly cov r c \<longleftrightarrow> (\<forall>p. c p = cov p \<or> c p = cov p - {r})"

lemma cleared_all:
  assumes c: "cleared c r xs ys s" "partly cov r c" and beyond: "\<forall>a \<in> set ys. stop < vm_start (vmas s a)"
    and r: "\<And>p. r \<in> cov p \<Longrightarrow> p \<le> stop"
  shows "lists_inv (\<lambda>p. cov p - {r}) s"
proof -
  have l: "lists_inv c s" "vma_list s = xs @ ys" "links_inv s" using c(1) by (auto simp: cleared_def)
  have "c p = cov p - {r}" for p
  proof (cases "r \<in> c p")
    case True
    then obtain a where a: "a \<in> set (xs @ ys)" "p \<in> pages (vmas s a)"
      using l(1,2) unfolding lists_inv_def by (metis empty_iff)
    then have "set (vm_list (vmas s a)) = c p" using l(1,2) by (auto simp: lists_inv_def area_ok_def)
    then have "a \<in> set ys" using c(1) True a(1) by (auto simp: cleared_def)
    then have "stop < p" using a(2) beyond by (auto simp: pages_def)
    then have False using r [of p] True c(2) unfolding partly_def by (metis Diff_iff leD)
    then show ?thesis ..
  next
    case False
    then show ?thesis using c(2) unfolding partly_def by auto
  qed
  then show ?thesis using l(1) by presburger
qed

lemma remove_loop_ok:
  assumes r: "\<And>p. r \<in> cov p \<Longrightarrow> p \<le> DREG_END (dregs s r)"
  shows "cleared c r xs ys s \<Longrightarrow> partly cov r c \<Longrightarrow> length ys < fuel \<Longrightarrow> \<exists>s'. dreg_remove_loop fuel r (head_opt ys) s = Inr s'
    \<and> links_inv s' \<and> lists_inv (\<lambda>p. cov p - {r}) s' \<and> dregs s' = dregs s \<and> avl_left_over (vma_mem s') = avl_left_over (vma_mem s)"
  using r
proof (induction fuel arbitrary: c xs ys s)
  case (Suc fuel)
  have C: "links_inv s" "lists_inv c s" "vma_list s = xs @ ys" using Suc.prems(1) by (auto simp: cleared_def)
  show ?case
  proof (cases "ys = [] \<or> DREG_END (dregs s r) < vm_start (vmas s (hd ys))")
    case True
    have "\<forall>a \<in> set ys. DREG_END (dregs s r) < vm_start (vmas s a)"
    proof (cases ys)
      case (Cons y zs)
      then show ?thesis using True links_order(2,3) [OF C(1), of xs y zs] C(3) by fastforce
    qed simp
    then show ?thesis using cleared_all [OF Suc.prems(1,2), of "DREG_END (dregs s r)"] Suc.prems(4) C True
      by (cases ys) (auto simp: head_opt_def)
  next
    case False
    then obtain v zs where ys: "ys = v # zs" "vm_start (vmas s v) \<le> DREG_END (dregs s r)" by (cases ys) auto
    have v: "v \<in> set (vma_list s)" "v \<notin> set xs" using C(3) ys links_order(5) [OF C(1)] by auto
    define s1 c1 where "s1 = remove_entry v r s" and "c1 = (\<lambda>p. if p \<in> pages (vmas s v) then c p - {r} else c p)"
    have s1: "vma_list s1 = xs @ v # zs" "dregs s1 = dregs s" "vma_mem s1 = vma_mem s" "\<forall>a \<in> set xs. vmas s1 a = vmas s a"
      using C(3) ys v(2) by (auto simp: s1_def remove_entry_def upd_vma_def)
    have c1: "partly cov r c1" using Suc.prems(2) by (auto simp: partly_def c1_def)
    have R: "links_inv s1" "lists_inv c1 s1" "r \<notin> set (vm_list (vmas s1 v))"
      using remove_entry_ok [OF C(1,2) v(1), of r] by (simp_all add: s1_def c1_def)
    have cl: "cleared c1 r (xs @ [v]) zs s1" using R s1 Suc.prems(1) by (auto simp: cleared_def)
    have len: "length zs < fuel" using Suc.prems(3) ys by simp
    show ?thesis
    proof (cases "vm_list (vmas s1 v) = []")
      case True
      obtain s2 s' where s': "vma_remove v s1 = Inr s2" "s' = vma_destroy v (s2\<lparr>vma_list := remove1 v (vma_list s2)\<rparr>)" "links_inv s'" "lists_inv c1 s'"
          "vma_list s' = xs @ zs" "vmas s' = vmas s1" "dregs s' = dregs s" "avl_left_over (vma_mem s') = avl_left_over (vma_mem s)"
        using drop_area_ok [OF R(1,2) s1(1) True] s1(2,3) by auto
      have cl': "cleared c1 r xs zs s'" using s' cl by (auto simp: cleared_def)
      have nx: "next_of (vma_list s1) (Some v) = head_opt zs" using next_of_simps(3) [of v xs zs] v(2) by (simp add: s1(1) head_opt_def)
      have "dreg_remove_loop (Suc fuel) r (head_opt ys) s = dreg_remove_loop fuel r (head_opt zs) s'"
        using ys s'(1,2) True nx by (simp add: head_opt_def s1_def [symmetric] Let_def)
      then show ?thesis using Suc.IH [OF cl' c1 len] Suc.prems(4) s'(7,8) by simp
    next
      case False
      obtain v' s' xs' ys' where m: "merge_loop (Suc (length (vma_list s1))) v s1 = Inr (v', s')" "cleared c1 r (xs' @ [v']) ys' s'"
          "length ys' \<le> length zs" "dregs s' = dregs s" "avl_left_over (vma_mem s') = avl_left_over (vma_mem s)"
        using merge_loop_ok [OF cl False, of "Suc (length (vma_list s1))"] s1(2,3) by auto
      have "vma_list s' = xs' @ v' # ys'" "v' \<notin> set xs'" using m(2) links_order(5) [of s' xs' v' ys'] by (auto simp: cleared_def)
      then have nx: "next_of (vma_list s') (Some v') = head_opt ys'" using next_of_simps(3) [of v' xs' ys'] by (simp add: head_opt_def)
      have "dreg_remove_loop (Suc fuel) r (head_opt ys) s = dreg_remove_loop fuel r (head_opt ys') s'"
        using ys m(1) False nx by (simp add: head_opt_def s1_def [symmetric] Let_def del: merge_loop.simps)
      moreover have "length ys' < fuel" using len m(3) by simp
      ultimately show ?thesis using Suc.IH [OF m(2) c1] Suc.prems(4) m(4,5) by simp
    qed
  qed
qed simp

lemma dreg_remove_ok:
  assumes links: "links_inv s" and lists: "lists_inv cov s"
    and r: "\<And>p. r \<in> cov p \<Longrightarrow> DREG_BEGIN (dregs s r) \<le> p \<and> p \<le> DREG_END (dregs s r) \<and> r \<in> cov (DREG_BEGIN (dregs s r))"
  shows "\<exists>rc s'. dreg_remove r s = Inr (rc, s') \<and> (rc = 0 \<or> rc = - 1 \<and> cov (DREG_BEGIN (dregs s r)) = {}) \<and> links_inv s'
    \<and> lists_inv (\<lambda>p. cov p - {r}) s' \<and> dregs s' = dregs s \<and> avl_left_over (vma_mem s') = avl_left_over (vma_mem s)"
proof (cases "vma_search (DREG_BEGIN (dregs s r)) s")
  case None
  then have "\<forall>v \<in> set (vma_list s). DREG_BEGIN (dregs s r) \<notin> pages (vmas s v)"
    using vma_search_ok [OF links, of "DREG_BEGIN (dregs s r)"] by simp
  then have "cov (DREG_BEGIN (dregs s r)) = {}" using lists by (auto simp: lists_inv_def)
  moreover from this have "cov p - {r} = cov p" for p using r by blast
  ultimately show ?thesis using None links lists by (auto simp: dreg_remove_def)
next
  case (Some v)
  then have v: "v \<in> set (vma_list s)" "DREG_BEGIN (dregs s r) \<in> pages (vmas s v)"
    using vma_search_ok [OF links, of "DREG_BEGIN (dregs s r)"] by auto
  obtain xs ys where l: "vma_list s = xs @ v # ys" using v(1) by (metis split_list)
  have "r \<notin> set (vm_list (vmas s a))" if a: "a \<in> set xs" for a
  proof -
    have "vm_start (vmas s a) < DREG_BEGIN (dregs s r)" using links_order(1) [OF links l a] v(2) by (auto simp: pages_def)
    moreover have "set (vm_list (vmas s a)) = cov (vm_start (vmas s a))"
      using lists start_in_pages [OF links, of a] a by (auto simp: lists_inv_def area_ok_def l)
    ultimately show ?thesis using r by fastforce
  qed
  then have c: "cleared cov r xs (v # ys) s" using links lists l by (simp add: cleared_def)
  have "partly cov r cov" by (simp add: partly_def)
  then show ?thesis
    using remove_loop_ok [OF _ c, of cov "Suc (length (vma_list s))"] r Some by (auto simp: dreg_remove_def l head_opt_def)
qed

end
