(* ===== verification/LC_Dreg_Cache.thy ===== *)
theory LC_Dreg_Cache
  imports LC_Dreg_Db
begin

text \<open>
  The cache of registrations of \<open>src/dreg/dreg.c\<close> above the database of areas: the entries come
  from a free list, carry a reference count, and wait on the unused list, linked in both
  directions, when the count is zero, until \<open>dreg_evict\<close> takes the oldest one.

  The network's registration, \<open>ibv_reg_mr\<close> behind \<open>get_dma_mem\<close>, is the parameter \<open>reg\<close>: from the
  calls so far, the address and the size, the handle it returns, 0 for failure.
\<close>

section \<open>The unused list and the free list\<close>

definition DREG_REMOVE_FROM_UNUSED_LIST :: "nat \<Rightarrow> dreg_state \<Rightarrow> dreg_state" where
  "DREG_REMOVE_FROM_UNUSED_LIST d s =
     (let prev = prev_unused (dregs s d);
          nxt = next_unused (dregs s d);
          s = upd_dreg d (\<lambda>e. e\<lparr>next_unused := None, prev_unused := None\<rparr>) s;
          s = (case prev of None \<Rightarrow> s | Some p \<Rightarrow> upd_dreg p (\<lambda>e. e\<lparr>next_unused := nxt\<rparr>) s);
          s = (case nxt of None \<Rightarrow> s | Some n \<Rightarrow> upd_dreg n (\<lambda>e. e\<lparr>prev_unused := prev\<rparr>) s);
          s = (if dreg_unused_list s = Some d then s\<lparr>dreg_unused_list := nxt\<rparr> else s)
      in if dreg_unused_tail s = Some d then s\<lparr>dreg_unused_tail := prev\<rparr> else s)"

definition DREG_ADD_TO_UNUSED_LIST :: "nat \<Rightarrow> dreg_state \<Rightarrow> dreg_state" where
  "DREG_ADD_TO_UNUSED_LIST d s =
     (let s = upd_dreg d (\<lambda>e. e\<lparr>next_unused := dreg_unused_list s, prev_unused := None\<rparr>) s;
          s = (case dreg_unused_list s of None \<Rightarrow> s | Some h \<Rightarrow> upd_dreg h (\<lambda>e. e\<lparr>prev_unused := Some d\<rparr>) s);
          s = s\<lparr>dreg_unused_list := Some d\<rparr>
      in if dreg_unused_tail s = None then s\<lparr>dreg_unused_tail := Some d\<rparr> else s)"

definition DREG_GET_FROM_FREE_LIST :: "dreg_state \<Rightarrow> nat option \<times> dreg_state" where
  "DREG_GET_FROM_FREE_LIST s =
     (case dreg_free_list s of
        [] \<Rightarrow> (None, s)
      | d # ds \<Rightarrow> (Some d, s\<lparr>dreg_free_list := ds, dreg_inuse_count := dreg_inuse_count s + 1,
            dreg_max_use_count := max (dreg_max_use_count s) (dreg_inuse_count s + 1)\<rparr>))"

definition DREG_ADD_TO_FREE_LIST :: "nat \<Rightarrow> dreg_state \<Rightarrow> dreg_state" where
  "DREG_ADD_TO_FREE_LIST d s = s\<lparr>dreg_free_list := d # dreg_free_list s, dreg_inuse_count := dreg_inuse_count s - 1\<rparr>"

section \<open>Initialisation\<close>

definition vma_db_init :: "dreg_state \<Rightarrow> dreg_state res" where
  "vma_db_init s = bind_res (avlinit (vma_mem s)) (\<lambda>(t, m). Inr (s\<lparr>vma_tree := t, vma_mem := m, vma_list := []\<rparr>))"

text \<open>The arguments say which of the three calls of \<open>malloc\<close> succeed.\<close>

definition dreg_init :: "bool \<Rightarrow> bool \<Rightarrow> bool \<Rightarrow> dreg_state \<Rightarrow> (int \<times> dreg_state) res" where
  "dreg_init entries delayed pending s =
     bind_res (vma_db_init (s\<lparr>pinned_pages_count := 0\<rparr>)) (\<lambda>s.
       if \<not> entries then Inl Exit_failure
       else
         let s = s\<lparr>dregs := (\<lambda>_. \<lparr>pagenum = 0, npages = 0, refcount = 0, memhandle = 0, next_unused = None, prev_unused = None,
                     is_valid = False\<rparr>),
                   dreg_free_list := [0..<rdma_ndreg_entries], dreg_unused_list := None, dreg_unused_tail := None,
                   is_dreg_initialized := True, delayed_buf_region := None\<rparr>
         in if \<not> delayed then Inr (0, s)
            else
              let s = s\<lparr>delayed_buf_region := Some [], deregister_mr_array := None\<rparr>
              in if \<not> pending then Inr (0, s)
                 else Inr (0, s\<lparr>deregister_mr_array := Some [], vma_free_list := []\<rparr>))"

section \<open>Entries\<close>

definition dreg_get :: "dreg_state \<Rightarrow> nat option \<times> dreg_state" where
  "dreg_get s =
     (let (d, s) = DREG_GET_FROM_FREE_LIST s
      in case d of None \<Rightarrow> (None, s)
         | Some d \<Rightarrow> (Some d, upd_dreg d (\<lambda>e. e\<lparr>refcount := 0, next_unused := None, prev_unused := None\<rparr>) s))"

definition dreg_release :: "nat \<Rightarrow> dreg_state \<Rightarrow> dreg_state" where
  "dreg_release d s = s\<lparr>dreg_free_list := d # dreg_free_list s\<rparr>"

definition dreg_decr_refcount :: "nat \<Rightarrow> dreg_state \<Rightarrow> dreg_state res" where
  "dreg_decr_refcount d s =
     (if \<not> 0 < refcount (dregs s d) then Inl Assert_failed
      else let s = upd_dreg d (\<lambda>e. e\<lparr>refcount := refcount e - 1\<rparr>) s
           in Inr (if refcount (dregs s d) = 0 then DREG_ADD_TO_UNUSED_LIST d s else s))"

definition dreg_incr_refcount :: "nat \<Rightarrow> dreg_state \<Rightarrow> dreg_state" where
  "dreg_incr_refcount d s =
     (let s = (if refcount (dregs s d) = 0 then DREG_REMOVE_FROM_UNUSED_LIST d s else s)
      in upd_dreg d (\<lambda>e. e\<lparr>refcount := refcount e + 1\<rparr>) s)"

definition get_dma_mem :: "(mr_event list \<Rightarrow> u64 \<Rightarrow> nat \<Rightarrow> u64) \<Rightarrow> u64 \<Rightarrow> nat \<Rightarrow> dreg_state \<Rightarrow> u64 \<times> dreg_state" where
  "get_dma_mem reg buf n s =
     (let h = reg (mr_log s) buf n in (h, s\<lparr>mr_log := mr_log s @ [Get_dma_mem buf n h]\<rparr>))"

definition free_dma_mem :: "u64 \<Rightarrow> dreg_state \<Rightarrow> int \<times> dreg_state" where
  "free_dma_mem h s = (1, s\<lparr>mr_log := mr_log s @ [Free_dma_mem h]\<rparr>)"

definition dreg_evict :: "dreg_state \<Rightarrow> (int \<times> dreg_state) res" where
  "dreg_evict s =
     (case dreg_unused_tail s of
        None \<Rightarrow> Inr (0, s)
      | Some d \<Rightarrow>
          let s = DREG_REMOVE_FROM_UNUSED_LIST d s
          in if refcount (dregs s d) \<noteq> 0 then Inl Assert_failed
             else let s = (if memhandle (dregs s d) \<noteq> 0
                           then snd (free_dma_mem (memhandle (dregs s d)) (upd_dreg d (\<lambda>e. e\<lparr>is_valid := False\<rparr>) s))
                           else s)
                  in bind_res (dreg_remove d s) (\<lambda>(_, s). Inr (1, DREG_ADD_TO_FREE_LIST d s)))"

text \<open>The pages of a buffer, computed in 64 bits.\<close>

definition DREG_PAGEMASK :: u64 where "DREG_PAGEMASK = 4095"

definition pagebase_low_a :: "u64 \<Rightarrow> u64" where
  "pagebase_low_a buf = and buf (not DREG_PAGEMASK)"

definition pagenum_low :: "u64 \<Rightarrow> u64" where
  "pagenum_low buf = drop_bit DREG_PAGEBITS (pagebase_low_a buf)"

definition pagenum_high :: "u64 \<Rightarrow> u64 \<Rightarrow> u64" where
  "pagenum_high buf len = drop_bit DREG_PAGEBITS (and (buf + len - 1) (not DREG_PAGEMASK))"

definition npages_of :: "u64 \<Rightarrow> u64 \<Rightarrow> u64" where
  "npages_of buf len = 1 + (pagenum_high buf len - pagenum_low buf)"

definition dreg_new_entry :: "(mr_event list \<Rightarrow> u64 \<Rightarrow> nat \<Rightarrow> u64) \<Rightarrow> u64 \<Rightarrow> u64 \<Rightarrow> dreg_state \<Rightarrow> (nat option \<times> dreg_state) res" where
  "dreg_new_entry reg buf len s =
     (case dreg_get s of
        (None, s) \<Rightarrow> Inr (None, s)
      | (Some d, s) \<Rightarrow>
          if rdma_dreg_cache_limit \<noteq> 0 then Inr (None, s)
          else
            let n = npages_of buf len;
                s = upd_dreg d (\<lambda>e. e\<lparr>pagenum := unat (pagenum_low buf), npages := unat n\<rparr>) s
            in bind_res (dreg_insert d s) (\<lambda>(rc, s).
                 if rc < 0 then Inr (None, dreg_release d s)
                 else
                   let (h, s) = get_dma_mem reg (pagebase_low_a buf) (unat (n * word_of_nat DREG_PAGESIZE)) s;
                       s = upd_dreg d (\<lambda>e. e\<lparr>memhandle := h\<rparr>) s
                   in if h = 0 then bind_res (dreg_remove d s) (\<lambda>(_, s). Inr (None, dreg_release d s))
                      else Inr (Some d, upd_dreg d (\<lambda>e. e\<lparr>is_valid := True\<rparr>) s)))"

section \<open>Registration\<close>

definition dreg_find :: "u64 \<Rightarrow> u64 \<Rightarrow> dreg_state \<Rightarrow> nat option" where
  "dreg_find buf len s =
     (if is_dreg_initialized s
      then dreg_lookup (unat (drop_bit DREG_PAGEBITS buf)) (unat (drop_bit DREG_PAGEBITS (buf + len - 1))) s
      else None)"

fun register_loop :: "nat \<Rightarrow> (mr_event list \<Rightarrow> u64 \<Rightarrow> nat \<Rightarrow> u64) \<Rightarrow> u64 \<Rightarrow> u64 \<Rightarrow> dreg_state \<Rightarrow> (nat option \<times> dreg_state) res" where
  "register_loop 0 reg buf len s = Inl Out_of_fuel"
| "register_loop (Suc fuel) reg buf len s =
     bind_res (dreg_new_entry reg buf len s) (\<lambda>(d, s).
       if d \<noteq> None then Inr (d, s)
       else bind_res (dreg_evict s) (\<lambda>(rc, s). if rc = 0 then Inr (None, s) else register_loop fuel reg buf len s))"

definition dreg_register :: "(mr_event list \<Rightarrow> u64 \<Rightarrow> nat \<Rightarrow> u64) \<Rightarrow> u64 \<Rightarrow> u64 \<Rightarrow> dreg_state \<Rightarrow> (nat option \<times> dreg_state) res" where
  "dreg_register reg buf len s =
     (case dreg_find buf len s of
        Some d \<Rightarrow> Inr (Some d, dreg_incr_refcount d s)
      | None \<Rightarrow> bind_res (register_loop (Suc rdma_ndreg_entries) reg buf len s) (\<lambda>(d, s).
          Inr (d, case d of None \<Rightarrow> s | Some d \<Rightarrow> dreg_incr_refcount d s)))"

definition dreg_unregister :: "nat \<Rightarrow> dreg_state \<Rightarrow> dreg_state res" where
  "dreg_unregister d s = dreg_decr_refcount d s"

section \<open>Memory that is returned to the system\<close>

fun withdraw_loop :: "nat \<Rightarrow> nat \<Rightarrow> nat \<Rightarrow> dreg_state \<Rightarrow> dreg_state res" where
  "withdraw_loop 0 begin stop s = Inl Out_of_fuel"
| "withdraw_loop (Suc fuel) begin stop s =
     (case dreg_lookup begin stop s of
        None \<Rightarrow> Inr s
      | Some d \<Rightarrow>
          if refcount (dregs s d) \<noteq> 0 \<or> \<not> is_valid (dregs s d) then Inr s
          else (case deregister_mr_array s of
              None \<Rightarrow> Inl Null_deref
            | Some ds \<Rightarrow>
                if rdma_ndreg_entries \<le> length ds then Inl Out_of_bounds
                else bind_res (dreg_remove d (upd_dreg d (\<lambda>e. e\<lparr>is_valid := False\<rparr>) s)) (\<lambda>(_, s).
                       withdraw_loop fuel begin stop (s\<lparr>deregister_mr_array := Some (ds @ [d])\<rparr>))))"

fun withdraw_pages :: "u64 \<Rightarrow> nat list \<Rightarrow> dreg_state \<Rightarrow> dreg_state res" where
  "withdraw_pages base [] s = Inr s"
| "withdraw_pages base (i # is) s =
     (let addr = base + word_of_nat (i * DREG_PAGESIZE)
      in bind_res (withdraw_loop (Suc rdma_ndreg_entries) (unat (drop_bit DREG_PAGEBITS addr))
             (unat (drop_bit DREG_PAGEBITS (addr + word_of_nat DREG_PAGESIZE - 1))) s)
           (withdraw_pages base is))"

text \<open>The counter \<open>i\<close> has 32 bits, so with more pages the loop does not end.\<close>

definition withdraw_region :: "u64 \<Rightarrow> u64 \<Rightarrow> dreg_state \<Rightarrow> dreg_state res" where
  "withdraw_region buf len s =
     (let n = unat (npages_of buf len)
      in if 2 ^ 32 \<le> n then Inl Out_of_fuel else withdraw_pages (pagebase_low_a buf) [0..<n] s)"

fun withdraw_regions :: "(u64 \<times> u64) list \<Rightarrow> dreg_state \<Rightarrow> dreg_state res" where
  "withdraw_regions [] s = Inr s"
| "withdraw_regions ((buf, len) # rs) s = bind_res (withdraw_region buf len s) (withdraw_regions rs)"

text \<open>\<open>have\<close>: the thread holds one of the locks already; \<open>locked\<close>: the result of \<open>try_lock_dreg\<close>.\<close>

definition find_and_free_dregs_inside :: "bool \<Rightarrow> bool \<Rightarrow> u64 \<Rightarrow> u64 \<Rightarrow> dreg_state \<Rightarrow> dreg_state res" where
  "find_and_free_dregs_inside have_lock locked buf len s =
     (if \<not> is_dreg_initialized s \<or> have_lock then Inr s
      else if \<not> locked then
        (case delayed_buf_region s of
           None \<Rightarrow> Inl Null_deref
         | Some rs \<Rightarrow> if rdma_ndreg_entries \<le> length rs then Inl Out_of_bounds
                      else Inr (s\<lparr>delayed_buf_region := Some (rs @ [(buf, len)])\<rparr>))
      else
        let rs = (case delayed_buf_region s of None \<Rightarrow> [] | Some rs \<Rightarrow> rs)
        in bind_res (withdraw_regions ((buf, len) # rs) s) (\<lambda>s.
             Inr (s\<lparr>delayed_buf_region := map_option (\<lambda>_. []) (delayed_buf_region s)\<rparr>)))"

section \<open>Finalisation\<close>

text \<open>The loop of \<open>dreg_finalize\<close> that empties the unused list.\<close>

fun evict_all :: "nat \<Rightarrow> dreg_state \<Rightarrow> dreg_state res" where
  "evict_all 0 s = Inl Out_of_fuel"
| "evict_all (Suc fuel) s = bind_res (dreg_evict s) (\<lambda>(rc, s). if rc = 0 then Inr s else evict_all fuel s)"

definition finalize_evict :: "dreg_state \<Rightarrow> dreg_state res" where
  "finalize_evict s = evict_all (Suc rdma_ndreg_entries) (s\<lparr>vma_mem := (vma_mem s)\<lparr>is_finalize := True\<rparr>\<rparr>)"

section \<open>What the database leaves alone\<close>

definition cache_part :: "dreg_state \<Rightarrow> _" where
  "cache_part s = (dregs s, dreg_free_list s, dreg_unused_list s, dreg_unused_tail s, dreg_inuse_count s, dreg_max_use_count s,
     is_dreg_initialized s, deregister_mr_array s, delayed_buf_region s, mr_log s)"

definition db_part :: "dreg_state \<Rightarrow> _" where
  "db_part s = (vmas s, vma_list s, vma_tree s, vma_mem s, vma_free_list s, vma_brk s)"

lemma cache_part_simps [simp]:
  "cache_part (upd_vma v f s) = cache_part s" "cache_part (s\<lparr>vma_list := l\<rparr>) = cache_part s" "cache_part (add_entry v r s) = cache_part s"
  "cache_part (remove_entry v r s) = cache_part s" "cache_part (copy_list v w s) = cache_part s" "cache_part (vma_destroy v s) = cache_part s"
  by (simp_all add: cache_part_def upd_vma_def add_entry_def remove_entry_def copy_list_def vma_destroy_def)

lemma vma_new_frame: "vma_new a b s = Inr (v, s') \<Longrightarrow> cache_part s' = cache_part s"
  by (auto simp: vma_new_def cache_part_def upd_vma_def Let_def split: if_splits list.splits)

lemma vma_remove_frame: "vma_remove v s = Inr s' \<Longrightarrow> cache_part s' = cache_part s"
  by (auto simp: vma_remove_def cache_part_def)

lemma split_at_frame: "split_at i mid s = Inr (v, s') \<Longrightarrow> cache_part s' = cache_part s"
  by (auto simp: split_at_def Let_def dest!: vma_new_frame split: option.splits)

lemma merge_with_prev_frame: "merge_with_prev p t s = Inr s' \<Longrightarrow> cache_part s' = cache_part s"
  by (auto simp: merge_with_prev_def dest!: vma_remove_frame)

lemma merge_frame:
  "merge_prev v s = Inr (m, v', s') \<Longrightarrow> cache_part s' = cache_part s"
  "merge_next v s = Inr (m, s') \<Longrightarrow> cache_part s' = cache_part s"
  by (auto simp: merge_prev_def merge_next_def Let_def dest!: merge_with_prev_frame split: if_splits option.splits)

declare merge_loop.simps [simp del] dreg_insert_loop.simps [simp del] dreg_remove_loop.simps [simp del]

text \<open>The same as a statement about a result, with a rule for sequences.\<close>

definition framed :: "dreg_state \<Rightarrow> ('a \<Rightarrow> dreg_state) \<Rightarrow> 'a res \<Rightarrow> bool" where
  "framed s st res \<longleftrightarrow> (\<forall>x. res = Inr x \<longrightarrow> cache_part (st x) = cache_part s)"

lemma framed_bind:
  assumes "framed s st m" "\<And>x. cache_part (st x) = cache_part s \<Longrightarrow> framed (st x) st' (f x)"
  shows "framed s st' (bind_res m f)"
  using assms by (auto simp: framed_def)

lemma framed_eq: "cache_part s' = cache_part s \<Longrightarrow> framed s' st res \<Longrightarrow> framed s st res"
  by (simp add: framed_def)

lemma framed_done [simp]: "framed s st (Inr x) \<longleftrightarrow> cache_part (st x) = cache_part s" "framed s st (Inl e)"
  by (auto simp: framed_def)

lemma framed_steps:
  "framed s snd (vma_new a b s)" "framed s (\<lambda>s. s) (vma_remove v s)" "framed s snd (split_at i mid s)"
  "framed s (snd \<circ> snd) (merge_prev v s)" "framed s snd (merge_next v s)"
  by (auto simp: framed_def dest: vma_new_frame vma_remove_frame split_at_frame merge_frame)

lemma merge_loop_frame: "framed s snd (merge_loop fuel v s)"
proof (induction fuel arbitrary: v s)
  case (Suc fuel)
  show ?case unfolding merge_loop.simps
    by (rule framed_bind [OF framed_steps(4)], clarsimp, rule framed_bind [OF framed_steps(5)]) (auto simp: Suc)
qed (simp add: merge_loop.simps)

lemma remove_loop_frame: "framed s (\<lambda>s. s) (dreg_remove_loop fuel r i s)"
proof (induction fuel arbitrary: i s)
  case (Suc fuel)
  have one: "framed s (\<lambda>s. s) (bind_res (vma_remove v (remove_entry v r s)) (\<lambda>s. dreg_remove_loop fuel r n (vma_destroy v (s\<lparr>vma_list := remove1 v (vma_list s)\<rparr>))))"
    and two: "framed s (\<lambda>s. s) (bind_res (merge_loop k v (remove_entry v r s)) (\<lambda>(v, s). dreg_remove_loop fuel r (next_of (vma_list s) (Some v)) s))" for v n k
    by (rule framed_eq [OF _ framed_bind [OF framed_steps(2)]], simp, rule framed_eq [OF _ Suc], simp)
      (rule framed_eq [OF _ framed_bind [OF merge_loop_frame]], simp, auto simp: Suc)
  show ?case by (cases i) (auto simp: dreg_remove_loop.simps Let_def intro!: one two)
qed (simp add: dreg_remove_loop.simps)

lemma dreg_remove_frame: "framed s snd (dreg_remove r s)"
  by (cases "vma_search (DREG_BEGIN (dregs s r)) s")
    (auto simp: dreg_remove_def intro!: framed_bind [OF remove_loop_frame])

lemma insert_loop_frame: "framed s snd (dreg_insert_loop fuel r i b stop s)"
proof (induction fuel arbitrary: i b s)
  case (Suc fuel)
  have rm: "framed s' snd (bind_res (dreg_remove r s') (\<lambda>(_, s). Inr (- 1, s)))" for s'
    by (rule framed_bind [OF dreg_remove_frame]) auto
  show ?case
    by (cases i) (auto simp: dreg_insert_loop.simps Let_def rm intro!: framed_bind [OF framed_steps(1)] framed_bind [OF framed_steps(3)]
        framed_eq [OF _ Suc] split: option.splits)
qed (simp add: dreg_insert_loop.simps)

lemma dreg_insert_frame: "framed s snd (dreg_insert r s)"
  by (simp add: dreg_insert_def insert_loop_frame)

end
