(* ===== verification/LC_Dreg_Inv.thy ===== *)
theory LC_Dreg_Inv
  imports LC_Dreg_Cache "HOL-Library.Multiset"
begin

text \<open>
  The invariant of the registration cache and what it gives for every operation of
  \<open>src/dreg/dreg.c\<close>: an entry in use keeps its registration, the unused list holds exactly the
  entries with reference count zero, memory is registered and deregistered in pairs, and what
  \<open>dreg_register\<close> returns covers the buffer.
\<close>

section \<open>The unused list\<close>

fun dll :: "(nat \<Rightarrow> dreg_entry) \<Rightarrow> nat option \<Rightarrow> nat list \<Rightarrow> bool" where
  "dll D p [] \<longleftrightarrow> True"
| "dll D p (x # xs) \<longleftrightarrow> prev_unused (D x) = p \<and> next_unused (D x) = head_opt xs \<and> dll D (Some x) xs"

definition last_opt :: "nat list \<Rightarrow> nat option" where
  "last_opt xs = (if xs = [] then None else Some (last xs))"

definition unused_is :: "nat list \<Rightarrow> dreg_state \<Rightarrow> bool" where
  "unused_is us s \<longleftrightarrow> dreg_unused_list s = head_opt us \<and> dreg_unused_tail s = last_opt us \<and> distinct us \<and> dll (dregs s) None us"

text \<open>An entry without its links, and a state without the entries and the unused list.\<close>

definition data :: "dreg_entry \<Rightarrow> dreg_entry" where
  "data e = e\<lparr>next_unused := None, prev_unused := None\<rparr>"

definition rest :: "dreg_state \<Rightarrow> _" where
  "rest s = (db_part s, dreg_free_list s, dreg_inuse_count s, dreg_max_use_count s, is_dreg_initialized s,
     deregister_mr_array s, delayed_buf_region s, mr_log s)"

lemma data_eq:
  "data e = data f \<longleftrightarrow> pagenum e = pagenum f \<and> npages e = npages f \<and> refcount e = refcount f \<and> memhandle e = memhandle f \<and> is_valid e = is_valid f"
  by (cases e; cases f) (auto simp: data_def)

lemma head_opt_simps [simp]: "head_opt [] = None" "head_opt (x # xs) = Some x" "head_opt (xs @ ys) = (if xs = [] then head_opt ys else head_opt xs)"
  by (auto simp: head_opt_def split: list.splits)

lemma last_opt_simps [simp]: "last_opt [] = None" "last_opt (xs @ [x]) = Some x" "last_opt (x # xs) = (if xs = [] then Some x else last_opt xs)"
    "last_opt (xs @ ys) = (if ys = [] then last_opt xs else last_opt ys)"
  by (auto simp: last_opt_def)

lemma head_last_opt_iff [simp]: "head_opt xs = None \<longleftrightarrow> xs = []" "last_opt xs = None \<longleftrightarrow> xs = []"
  by (auto simp: head_opt_def last_opt_def split: list.splits)

lemma head_opt_mem: "head_opt xs = Some x \<Longrightarrow> x \<in> set xs" "last_opt xs = Some x \<Longrightarrow> x \<in> set xs"
  by (auto simp: head_opt_def last_opt_def split: list.splits if_splits)

lemma dll_cong:
  "(\<And>x. x \<in> set xs \<Longrightarrow> prev_unused (D' x) = prev_unused (D x) \<and> next_unused (D' x) = next_unused (D x)) \<Longrightarrow> dll D' p xs = dll D p xs"
  by (induction xs arbitrary: p) auto

lemma dll_links:
  "dll D p (xs @ d # ys) \<Longrightarrow> prev_unused (D d) = (if xs = [] then p else last_opt xs) \<and> next_unused (D d) = head_opt ys"
  by (induction xs arbitrary: p) auto

text \<open>The list with \<open>d\<close> taken out, whatever has become of \<open>d\<close> itself.\<close>

lemma dll_out:
  assumes "dll D p (xs @ d # ys)"
    and "\<And>x. x \<in> set xs \<Longrightarrow> prev_unused (D' x) = prev_unused (D x) \<and> next_unused (D' x) = (if Some x = last_opt xs then head_opt ys else next_unused (D x))"
    and "\<And>y. y \<in> set ys \<Longrightarrow> next_unused (D' y) = next_unused (D y)
           \<and> prev_unused (D' y) = (if Some y = head_opt ys then if xs = [] then p else last_opt xs else prev_unused (D y))"
    and "distinct (xs @ d # ys)"
  shows "dll D' p (xs @ ys)"
  using assms
proof (induction xs arbitrary: p)
  case Nil
  show ?case
  proof (cases ys)
    case (Cons y zs)
    then have "dll D' (Some y) zs = dll D (Some y) zs" using Nil by (intro dll_cong) auto
    then show ?thesis using Nil Cons by simp
  qed simp
next
  case (Cons x xs)
  have "dll D' (Some x) (xs @ ys)"
  proof (rule Cons.IH)
    show "dll D (Some x) (xs @ d # ys)" "distinct (xs @ d # ys)" using Cons.prems by auto
    show "prev_unused (D' z) = prev_unused (D z) \<and> next_unused (D' z) = (if Some z = last_opt xs then head_opt ys else next_unused (D z))"
      if "z \<in> set xs" for z
      using Cons.prems(2) [of z] that by (auto split: if_splits)
    show "next_unused (D' y) = next_unused (D y)
        \<and> prev_unused (D' y) = (if Some y = head_opt ys then if xs = [] then Some x else last_opt xs else prev_unused (D y))" if "y \<in> set ys" for y
      using Cons.prems(3) [of y] that by (auto split: if_splits)
  qed
  moreover have "next_unused (D' x) = head_opt (xs @ ys)"
    using Cons.prems(1,4) Cons.prems(2) [of x] head_opt_mem(2) [of xs x] by (cases xs) auto
  ultimately show ?case using Cons.prems by simp
qed

lemma remove_unused_ok:
  assumes "unused_is (xs @ d # ys) s"
  defines "s' \<equiv> DREG_REMOVE_FROM_UNUSED_LIST d s"
  shows "unused_is (xs @ ys) s'" "data (dregs s' x) = data (dregs s x)" "rest s' = rest s" "next_unused (dregs s' d) = None" "prev_unused (dregs s' d) = None"
proof -
  have u: "dll (dregs s) None (xs @ d # ys)" "distinct (xs @ d # ys)" "dreg_unused_list s = head_opt (xs @ d # ys)" "dreg_unused_tail s = last_opt (xs @ d # ys)"
    using assms by (auto simp: unused_is_def)
  have l: "prev_unused (dregs s d) = last_opt xs" "next_unused (dregs s d) = head_opt ys" using dll_links [OF u(1)] by auto
  show "data (dregs s' x) = data (dregs s x)" "rest s' = rest s"
    by (auto simp: s'_def DREG_REMOVE_FROM_UNUSED_LIST_def Let_def upd_dreg_def data_eq rest_def db_part_def split: option.splits)
  have m: "last_opt xs \<noteq> Some d" "head_opt ys \<noteq> Some d" using u(2) head_opt_mem by fastforce+
  then show "next_unused (dregs s' d) = None" "prev_unused (dregs s' d) = None"
    by (auto simp: s'_def DREG_REMOVE_FROM_UNUSED_LIST_def Let_def upd_dreg_def l split: option.splits)
  have D: "dregs s' = (let D = (dregs s)(d := (dregs s d)\<lparr>next_unused := None, prev_unused := None\<rparr>);
      D = (case last_opt xs of None \<Rightarrow> D | Some p \<Rightarrow> D(p := (D p)\<lparr>next_unused := head_opt ys\<rparr>))
      in case head_opt ys of None \<Rightarrow> D | Some n \<Rightarrow> D(n := (D n)\<lparr>prev_unused := last_opt xs\<rparr>))"
    by (auto simp: s'_def DREG_REMOVE_FROM_UNUSED_LIST_def Let_def upd_dreg_def l split: option.splits)
  have apart: "last_opt xs = Some x \<Longrightarrow> head_opt ys \<noteq> Some x" for x using u(2) head_opt_mem by fastforce
  have "dll (dregs s') None (xs @ ys)"
  proof (rule dll_out [OF u(1) _ _ u(2)])
    show "prev_unused (dregs s' x) = prev_unused (dregs s x) \<and> next_unused (dregs s' x) = (if Some x = last_opt xs then head_opt ys else next_unused (dregs s x))"
      if "x \<in> set xs" for x
      using that u(2) head_opt_mem(1) [of ys x] by (auto simp: D Let_def split: option.splits)
    show "next_unused (dregs s' y) = next_unused (dregs s y)
        \<and> prev_unused (dregs s' y) = (if Some y = head_opt ys then if xs = [] then None else last_opt xs else prev_unused (dregs s y))" if "y \<in> set ys" for y
      using that u(2) head_opt_mem(2) [of xs y] by (auto simp: D Let_def split: option.splits)
  qed
  moreover have "dreg_unused_list s' = head_opt (xs @ ys)"
    using u(2,3) m head_opt_mem(1) [of xs d]
    by (auto simp: s'_def DREG_REMOVE_FROM_UNUSED_LIST_def Let_def upd_dreg_def l split: option.splits)
  moreover have "dreg_unused_tail s' = last_opt (xs @ ys)"
    using u(2,4) m head_opt_mem(2) [of ys d]
    by (auto simp: s'_def DREG_REMOVE_FROM_UNUSED_LIST_def Let_def upd_dreg_def l split: option.splits)
  ultimately show "unused_is (xs @ ys) s'" using u(2) by (auto simp: unused_is_def)
qed

lemma add_unused_ok:
  assumes "unused_is us s" "d \<notin> set us"
  defines "s' \<equiv> DREG_ADD_TO_UNUSED_LIST d s"
  shows "unused_is (d # us) s'" "data (dregs s' x) = data (dregs s x)" "rest s' = rest s"
proof -
  show "data (dregs s' x) = data (dregs s x)" "rest s' = rest s"
    by (auto simp: s'_def DREG_ADD_TO_UNUSED_LIST_def Let_def upd_dreg_def data_eq rest_def db_part_def split: option.splits)
  have u: "dll (dregs s) None us" "distinct us" "dreg_unused_list s = head_opt us" "dreg_unused_tail s = last_opt us"
    using assms by (auto simp: unused_is_def)
  show "unused_is (d # us) s'"
  proof (cases us)
    case Nil
    then show ?thesis using u by (auto simp: unused_is_def s'_def DREG_ADD_TO_UNUSED_LIST_def Let_def upd_dreg_def)
  next
    case (Cons h hs)
    then have "dll (dregs s') (Some h) hs = dll (dregs s) (Some h) hs" using u assms(2)
      by (intro dll_cong) (auto simp: s'_def DREG_ADD_TO_UNUSED_LIST_def Let_def upd_dreg_def)
    then show ?thesis using u assms(2) Cons by (auto simp: unused_is_def s'_def DREG_ADD_TO_UNUSED_LIST_def Let_def upd_dreg_def)
  qed
qed

lemma remove_unused_absent:
  assumes "unused_is us s" "d \<notin> set us" "next_unused (dregs s d) = None" "prev_unused (dregs s d) = None"
  shows "DREG_REMOVE_FROM_UNUSED_LIST d s = s"
proof -
  have "(dregs s d)\<lparr>next_unused := None, prev_unused := None\<rparr> = dregs s d" using assms by (cases "dregs s d") simp
  then have "(dregs s)(d := (dregs s d)\<lparr>next_unused := None, prev_unused := None\<rparr>) = dregs s" by (simp add: fun_upd_idem)
  moreover have "head_opt us \<noteq> Some d" "last_opt us \<noteq> Some d" using assms(2) head_opt_mem by blast+
  ultimately show ?thesis using assms by (simp add: DREG_REMOVE_FROM_UNUSED_LIST_def Let_def upd_dreg_def unused_is_def)
qed

section \<open>The invariant\<close>

definition entry_pages :: "dreg_entry \<Rightarrow> nat set" where
  "entry_pages e = {DREG_BEGIN e..DREG_END e}"

definition cover :: "(nat \<Rightarrow> dreg_entry) \<Rightarrow> nat set \<Rightarrow> nat \<Rightarrow> nat set" where
  "cover D A p = {d \<in> A. p \<in> entry_pages (D d)}"

definition entry_ok :: "dreg_entry \<Rightarrow> bool" where
  "entry_ok e \<longleftrightarrow> 0 \<le> refcount e \<and> memhandle e \<noteq> 0 \<and> (\<not> is_valid e \<longrightarrow> refcount e = 0)
     \<and> (is_valid e \<longrightarrow> 0 < DREG_BEGIN e \<and> DREG_BEGIN e \<le> DREG_END e \<and> DREG_END e < 2 ^ 52)"

text \<open>The handles that are registered after the calls of a log; \<open>None\<close> once a handle is freed that is not registered.\<close>

fun mr_step :: "mr_event \<Rightarrow> u64 multiset option \<Rightarrow> u64 multiset option" where
  "mr_step e None = None"
| "mr_step (Get_dma_mem a n h) (Some M) = Some (if h = 0 then M else add_mset h M)"
| "mr_step (Free_dma_mem h) (Some M) = (if h \<in># M then Some (M - {#h#}) else None)"

definition mr_balance :: "mr_event list \<Rightarrow> u64 multiset option" where
  "mr_balance l = fold mr_step l (Some {#})"

definition handles :: "nat set \<Rightarrow> dreg_state \<Rightarrow> u64 multiset" where
  "handles A s = image_mset (\<lambda>d. memhandle (dregs s d)) (mset_set A)"

definition valid_of :: "nat set \<Rightarrow> dreg_state \<Rightarrow> nat set" where
  "valid_of A s = {d \<in> A. is_valid (dregs s d)}"

text \<open>\<open>A\<close> are the entries that hold a registration, \<open>us\<close> the unused list.\<close>

definition cache_core :: "nat set \<Rightarrow> nat list \<Rightarrow> dreg_state \<Rightarrow> bool" where
  "cache_core A us s \<longleftrightarrow> finite A \<and> links_inv s \<and> lists_inv (cover (dregs s) (valid_of A s)) s \<and> unused_is us s
     \<and> set us = {d \<in> A. refcount (dregs s d) = 0} \<and> (\<forall>d \<in> A. entry_ok (dregs s d))
     \<and> mr_balance (mr_log s) = Some (handles A s)"

definition allocated :: "dreg_state \<Rightarrow> nat set" where
  "allocated s = {..<rdma_ndreg_entries} - set (dreg_free_list s)"

definition cache_inv :: "dreg_state \<Rightarrow> bool" where
  "cache_inv s \<longleftrightarrow> distinct (dreg_free_list s) \<and> set (dreg_free_list s) \<subseteq> {..<rdma_ndreg_entries} \<and> (\<exists>us. cache_core (allocated s) us s)"

lemma mr_balance_snoc [simp]: "mr_balance (l @ [e]) = mr_step e (mr_balance l)"
  by (simp add: mr_balance_def)

lemma links_inv_cong: "db_part s' = db_part s \<Longrightarrow> links_inv s' = links_inv s"
  by (simp add: links_inv_def db_part_def)

lemma lists_inv_cong:
  assumes "lists_inv cov s" "links_inv s" "db_part s' = db_part s" "\<And>p d. d \<in> cov p \<Longrightarrow> DREG_END (dregs s' d) = DREG_END (dregs s d)"
  shows "lists_inv cov s'"
proof -
  have e: "vmas s' = vmas s" "vma_list s' = vma_list s" using assms(3) by (auto simp: db_part_def)
  have "area_ok (dregs s') cov (vmas s a)" if a: "a \<in> set (vma_list s)" for a
  proof -
    have ok: "area_ok (dregs s) cov (vmas s a)" using assms(1) a by (simp add: lists_inv_def)
    then have m: "DREG_END (dregs s' d) = DREG_END (dregs s d)" if "d \<in> set (vm_list (vmas s a))" for d
      using assms(4) start_in_pages [OF assms(2) a] that by (auto simp: area_ok_def)
    have "sorted_wrt (\<lambda>x y. compare_dregs (dregs s') x y > 0) (vm_list (vmas s a))"
      by (rule sorted_wrt_mono_rel [of _ "\<lambda>x y. compare_dregs (dregs s) x y > 0"])
        (use ok m in \<open>auto simp: area_ok_def ordered_def compare_dregs_def\<close>)
    then show ?thesis using ok m by (auto simp: area_ok_def ordered_def)
  qed
  then show ?thesis using assms(1) by (auto simp: lists_inv_def e)
qed

lemma data_parts:
  assumes "data e = data f"
  shows "DREG_BEGIN e = DREG_BEGIN f" "DREG_END e = DREG_END f" "entry_pages e = entry_pages f" "entry_ok e = entry_ok f"
    "is_valid e = is_valid f" "refcount e = refcount f" "memhandle e = memhandle f"
  using assms by (auto simp: data_eq DREG_BEGIN_def DREG_END_def entry_pages_def entry_ok_def)

lemma cover_cong: "(\<And>d. d \<in> A \<Longrightarrow> entry_pages (D' d) = entry_pages (D d)) \<Longrightarrow> cover D' A = cover D A"
  by (auto simp: cover_def fun_eq_iff)

lemma core_lists: "cache_core A us s \<Longrightarrow> lists_inv (cover (dregs s) (valid_of A s)) s" "cache_core A us s \<Longrightarrow> links_inv s"
  by (simp_all add: cache_core_def)

text \<open>The invariant looks at the entries of \<open>A\<close> only, apart from the links.\<close>

lemma core_cong:
  assumes core: "cache_core A us s" and "db_part s' = db_part s" "\<And>d. d \<in> A \<Longrightarrow> data (dregs s' d) = data (dregs s d)"
    "unused_is us s'" "mr_log s' = mr_log s"
  shows "cache_core A us s'"
proof -
  note d = data_parts [OF assms(3)]
  have v: "valid_of A s' = valid_of A s" using d(5) by (auto simp: valid_of_def)
  then have "cover (dregs s') (valid_of A s') = cover (dregs s) (valid_of A s)" using d(3) by (auto simp: valid_of_def intro!: cover_cong)
  moreover have "lists_inv (cover (dregs s) (valid_of A s)) s'"
    by (rule lists_inv_cong [OF core_lists [OF core] assms(2)]) (auto simp: cover_def valid_of_def d(2))
  moreover have "handles A s' = handles A s" using d(7) core by (auto simp: handles_def cache_core_def intro!: image_mset_cong)
  moreover have "{d \<in> A. refcount (dregs s' d) = 0} = {d \<in> A. refcount (dregs s d) = 0}" "\<forall>d \<in> A. entry_ok (dregs s' d)"
    using d(4,6) core by (auto simp: cache_core_def)
  ultimately show ?thesis using core assms(4,5) links_inv_cong [OF assms(2)] unfolding cache_core_def by metis
qed

lemma rest_parts: "rest s' = rest s \<Longrightarrow> db_part s' = db_part s \<and> dreg_free_list s' = dreg_free_list s \<and> mr_log s' = mr_log s
    \<and> is_dreg_initialized s' = is_dreg_initialized s \<and> deregister_mr_array s' = deregister_mr_array s \<and> delayed_buf_region s' = delayed_buf_region s"
  by (simp add: rest_def)

section \<open>Reference counts\<close>

lemma unused_upd:
  "unused_is us (upd_dreg d f s) = unused_is us s" if "\<And>e. next_unused (f e) = next_unused e" "\<And>e. prev_unused (f e) = prev_unused e"
  using that dll_cong [of us "dregs (upd_dreg d f s)" "dregs s"] by (auto simp: unused_is_def upd_dreg_def)

text \<open>A new reference count for an entry, with the unused list brought in line already.\<close>

lemma core_refcount:
  assumes core: "cache_core A us s" and d: "d \<in> A" "is_valid (dregs s d)" "0 \<le> n"
    and s': "db_part s' = db_part s" "mr_log s' = mr_log s" "unused_is us' s'"
    and data: "\<And>x. data (dregs s' x) = (if x = d then data ((dregs s d)\<lparr>refcount := n\<rparr>) else data (dregs s x))"
    and us': "set us' = (if n = 0 then insert d (set us) else set us - {d})"
  shows "cache_core A us' s'"
proof -
  have same: "pagenum (dregs s' x) = pagenum (dregs s x)" "npages (dregs s' x) = npages (dregs s x)" "memhandle (dregs s' x) = memhandle (dregs s x)"
      "is_valid (dregs s' x) = is_valid (dregs s x)" "refcount (dregs s' x) = (if x = d then n else refcount (dregs s x))" for x
    using data [of x] by (auto simp: data_eq split: if_splits)
  then have pg: "DREG_BEGIN (dregs s' x) = DREG_BEGIN (dregs s x)" "DREG_END (dregs s' x) = DREG_END (dregs s x)"
      "entry_pages (dregs s' x) = entry_pages (dregs s x)" for x
    by (simp_all add: DREG_BEGIN_def DREG_END_def entry_pages_def)
  have "valid_of A s' = valid_of A s" "cover (dregs s') = cover (dregs s)" by (auto simp: valid_of_def same cover_def fun_eq_iff pg)
  moreover have "lists_inv (cover (dregs s) (valid_of A s)) s'"
    by (rule lists_inv_cong [OF core_lists [OF core] s'(1)]) (rule pg)
  moreover have "handles A s' = handles A s" by (simp add: handles_def same)
  moreover have "set us' = {x \<in> A. refcount (dregs s' x) = 0}"
    using core d us' by (auto simp: cache_core_def same split: if_splits)
  moreover have "\<forall>x \<in> A. entry_ok (dregs s' x)" using core d by (auto simp: cache_core_def entry_ok_def same pg)
  ultimately show ?thesis using core s' links_inv_cong [OF s'(1)] by (simp add: cache_core_def)
qed

lemma upd_dreg_parts [simp]:
  "rest (upd_dreg d f s) = rest s" "dregs (upd_dreg d f s) = (dregs s)(d := f (dregs s d))"
  "dreg_unused_list (upd_dreg d f s) = dreg_unused_list s" "dreg_unused_tail (upd_dreg d f s) = dreg_unused_tail s"
  "db_part (upd_dreg d f s) = db_part s" "mr_log (upd_dreg d f s) = mr_log s" "dreg_free_list (upd_dreg d f s) = dreg_free_list s"
  by (simp_all add: upd_dreg_def rest_def db_part_def)

lemma incr_ok:
  assumes core: "cache_core A us s" and d: "d \<in> A" "is_valid (dregs s d)"
  defines "s' \<equiv> dreg_incr_refcount d s"
  shows "\<exists>us'. cache_core A us' s' \<and> set us' = set us - {d}" "rest s' = rest s"
    "data (dregs s' x) = (if x = d then data ((dregs s d)\<lparr>refcount := refcount (dregs s d) + 1\<rparr>) else data (dregs s x))"
proof -
  define s1 where "s1 = (if refcount (dregs s d) = 0 then DREG_REMOVE_FROM_UNUSED_LIST d s else s)"
  have s': "s' = upd_dreg d (\<lambda>e. e\<lparr>refcount := refcount e + 1\<rparr>) s1" by (simp add: s'_def s1_def dreg_incr_refcount_def Let_def)
  have u: "unused_is us s" "set us = {x \<in> A. refcount (dregs s x) = 0}" "0 \<le> refcount (dregs s d)" "distinct us"
    using core d by (auto simp: cache_core_def entry_ok_def unused_is_def)
  obtain us' where us': "unused_is us' s1" "set us' = set us - {d}" "rest s1 = rest s" "\<And>x. data (dregs s1 x) = data (dregs s x)"
  proof (cases "refcount (dregs s d) = 0")
    case True
    then obtain xs ys where us: "us = xs @ d # ys" using u(2) d(1) by (metis (mono_tags, lifting) mem_Collect_eq split_list)
    show ?thesis using that [of "xs @ ys"] remove_unused_ok [of xs d ys s] u(1,4) us True by (auto simp: s1_def)
  next
    case False
    then show ?thesis using that [of us] u(1,2) by (auto simp: s1_def)
  qed
  have D: "data (dregs s' x) = (if x = d then data ((dregs s d)\<lparr>refcount := refcount (dregs s d) + 1\<rparr>) else data (dregs s x))" for x
    using us'(4) [of x] by (auto simp: s' data_eq)
  then show "data (dregs s' x) = (if x = d then data ((dregs s d)\<lparr>refcount := refcount (dregs s d) + 1\<rparr>) else data (dregs s x))" .
  show r: "rest s' = rest s" using us'(3) by (simp add: s')
  have "cache_core A us' s'"
    using rest_parts [OF r] us' u(3) by (intro core_refcount [OF core d _ _ _ _ D]) (auto simp: s' unused_upd)
  then show "\<exists>us'. cache_core A us' s' \<and> set us' = set us - {d}" using us'(2) by blast
qed

lemma decr_ok:
  assumes core: "cache_core A us s" and d: "d \<in> A" "0 < refcount (dregs s d)"
  shows "\<exists>us' s'. dreg_decr_refcount d s = Inr s' \<and> cache_core A us' s' \<and> rest s' = rest s
    \<and> (\<forall>x. data (dregs s' x) = (if x = d then data ((dregs s d)\<lparr>refcount := refcount (dregs s d) - 1\<rparr>) else data (dregs s x)))
    \<and> us' = (if refcount (dregs s d) = 1 then d # us else us)"
proof -
  define s1 s' us' where "s1 = upd_dreg d (\<lambda>e. e\<lparr>refcount := refcount e - 1\<rparr>) s"
    and "s' = (if refcount (dregs s d) = 1 then DREG_ADD_TO_UNUSED_LIST d s1 else s1)"
    and "us' = (if refcount (dregs s d) = 1 then d # us else us)"
  have u: "unused_is us s" "set us = {x \<in> A. refcount (dregs s x) = 0}" "is_valid (dregs s d)"
    using core d by (auto simp: cache_core_def entry_ok_def)
  have dn: "d \<notin> set us" using u(2) d(2) by simp
  have u1: "unused_is us s1" using u(1) by (simp add: s1_def unused_upd)
  note add = add_unused_ok [OF u1 dn]
  have D1: "data (dregs s1 x) = (if x = d then data ((dregs s d)\<lparr>refcount := refcount (dregs s d) - 1\<rparr>) else data (dregs s x))" for x
    by (simp add: s1_def)
  then have D: "data (dregs s' x) = (if x = d then data ((dregs s d)\<lparr>refcount := refcount (dregs s d) - 1\<rparr>) else data (dregs s x))" for x
    using add(2) by (simp add: s'_def)
  have r: "rest s' = rest s" using add(3) by (simp add: s'_def s1_def)
  have "cache_core A us' s'"
    using rest_parts [OF r] d u add(1) u1 dn by (intro core_refcount [OF core d(1) u(3) _ _ _ _ D]) (auto simp: s'_def us'_def)
  moreover have "dreg_decr_refcount d s = Inr s'" using d(2) by (simp add: dreg_decr_refcount_def Let_def s'_def s1_def)
  ultimately show ?thesis using D r by (auto simp: us'_def)
qed

section \<open>Eviction\<close>

lemma cache_part_eq:
  "cache_part s' = cache_part s \<Longrightarrow> dregs s' = dregs s \<and> dreg_free_list s' = dreg_free_list s \<and> dreg_unused_list s' = dreg_unused_list s
    \<and> dreg_unused_tail s' = dreg_unused_tail s \<and> is_dreg_initialized s' = is_dreg_initialized s \<and> deregister_mr_array s' = deregister_mr_array s
    \<and> delayed_buf_region s' = delayed_buf_region s \<and> mr_log s' = mr_log s"
  by (simp add: cache_part_def)

lemma unused_cong:
  "unused_is us s \<Longrightarrow> dreg_unused_list s' = dreg_unused_list s \<Longrightarrow> dreg_unused_tail s' = dreg_unused_tail s
    \<Longrightarrow> (\<And>x. x \<in> set us \<Longrightarrow> dregs s' x = dregs s x) \<Longrightarrow> unused_is us s'"
  using dll_cong [of us "dregs s'" "dregs s"] by (auto simp: unused_is_def)

lemma Collect_but:
  assumes "\<And>x. x \<noteq> d \<Longrightarrow> P x = Q x"
  shows "{x \<in> A - {d}. P x} = {x \<in> A. Q x} - {d}"
proof (rule set_eqI)
  show "x \<in> {x \<in> A - {d}. P x} \<longleftrightarrow> x \<in> {x \<in> A. Q x} - {d}" for x using assms [of x] by (cases "x = d") simp_all
qed

text \<open>Taking an entry out of the database after it has been marked as not valid.\<close>

lemma dreg_remove_gone:
  assumes core: "cache_core A us s" and d: "d \<in> A" and db: "db_part s1 = db_part s"
    and others: "\<And>x. x \<noteq> d \<Longrightarrow> data (dregs s1 x) = data (dregs s x)"
    and gone: "pagenum (dregs s1 d) = pagenum (dregs s d)" "npages (dregs s1 d) = npages (dregs s d)" "\<not> is_valid (dregs s1 d)"
  shows "\<exists>rc s'. dreg_remove d s1 = Inr (rc, s') \<and> links_inv s' \<and> lists_inv (cover (dregs s') (valid_of A s')) s' \<and> cache_part s' = cache_part s1"
proof -
  let ?cov = "cover (dregs s) (valid_of A s)"
  have pg: "DREG_BEGIN (dregs s1 x) = DREG_BEGIN (dregs s x)" "DREG_END (dregs s1 x) = DREG_END (dregs s x)"
      "entry_pages (dregs s1 x) = entry_pages (dregs s x)" for x
    using data_parts [OF others, of x] gone(1,2) by (cases "x = d", simp_all add: DREG_BEGIN_def DREG_END_def entry_pages_def)+
  have l: "lists_inv ?cov s1" by (rule lists_inv_cong [OF core_lists [OF core] db]) (rule pg)
  have r: "DREG_BEGIN (dregs s1 d) \<le> p \<and> p \<le> DREG_END (dregs s1 d) \<and> d \<in> ?cov (DREG_BEGIN (dregs s1 d))" if "d \<in> ?cov p" for p
    using that by (auto simp: cover_def pg entry_pages_def)
  obtain rc s' where s': "dreg_remove d s1 = Inr (rc, s')" "links_inv s'" "lists_inv (\<lambda>p. ?cov p - {d}) s'"
    using dreg_remove_ok [OF _ l r] core_lists(2) [OF core] links_inv_cong [OF db] by auto
  have f: "cache_part s' = cache_part s1" using dreg_remove_frame [of s1 d] s'(1) by (simp add: framed_def)
  then have D: "dregs s' = dregs s1" using cache_part_eq by blast
  have "valid_of A s' = valid_of A s - {d}"
  proof -
    have "valid_of A s' = {x \<in> A - {d}. is_valid (dregs s1 x)}" using gone(3) by (auto simp: valid_of_def D)
    also have "\<dots> = valid_of A s - {d}" unfolding valid_of_def by (rule Collect_but) (rule data_parts(5) [OF others])
    finally show ?thesis .
  qed
  then have "cover (dregs s') (valid_of A s') = (\<lambda>p. ?cov p - {d})" by (auto simp: cover_def D pg fun_eq_iff)
  then show ?thesis using s' f by auto
qed

lemma handles_remove:
  assumes "finite A" "d \<in> A" "\<And>x. x \<in> A \<Longrightarrow> memhandle (dregs s' x) = memhandle (dregs s x)"
  shows "handles A s = add_mset (memhandle (dregs s d)) (handles (A - {d}) s')"
proof -
  have "handles (A - {d}) s' = handles (A - {d}) s" using assms by (auto simp: handles_def intro!: image_mset_cong)
  then show ?thesis using assms by (simp add: handles_def mset_set.remove)
qed

lemma evict_ok:
  assumes core: "cache_core A us s"
  shows "if us = [] then dreg_evict s = Inr (0, s)
    else \<exists>s'. dreg_evict s = Inr (1, s') \<and> cache_core (A - {last us}) (butlast us) s' \<and> dreg_free_list s' = last us # dreg_free_list s
      \<and> (\<forall>x. x \<noteq> last us \<longrightarrow> data (dregs s' x) = data (dregs s x)) \<and> is_dreg_initialized s' = is_dreg_initialized s
      \<and> deregister_mr_array s' = deregister_mr_array s \<and> delayed_buf_region s' = delayed_buf_region s
      \<and> mr_log s' = mr_log s @ [Free_dma_mem (memhandle (dregs s (last us)))]"
proof (cases us rule: rev_cases)
  case Nil
  then show ?thesis using core by (simp add: cache_core_def unused_is_def dreg_evict_def)
next
  case (snoc xs d)
  have C: "unused_is (xs @ d # []) s" "set (xs @ [d]) = {x \<in> A. refcount (dregs s x) = 0}" "\<forall>x \<in> A. entry_ok (dregs s x)"
      "mr_balance (mr_log s) = Some (handles A s)" "finite A" using core snoc by (simp_all add: cache_core_def)
  then have d: "d \<in> A" "refcount (dregs s d) = 0" "memhandle (dregs s d) \<noteq> 0" by (auto simp: entry_ok_def)
  define s1 where "s1 = DREG_REMOVE_FROM_UNUSED_LIST d s"
  note R = remove_unused_ok [OF C(1), folded s1_def]
  note R1 = data_parts [OF R(2)]
  define s2 where "s2 = snd (free_dma_mem (memhandle (dregs s d)) (upd_dreg d (\<lambda>e. e\<lparr>is_valid := False\<rparr>) s1))"
  have s2: "dregs s2 = (dregs s1)(d := (dregs s1 d)\<lparr>is_valid := False\<rparr>)" "db_part s2 = db_part s" "dreg_unused_list s2 = dreg_unused_list s1"
      "dreg_unused_tail s2 = dreg_unused_tail s1" "mr_log s2 = mr_log s @ [Free_dma_mem (memhandle (dregs s d))]"
      "dreg_free_list s2 = dreg_free_list s" "is_dreg_initialized s2 = is_dreg_initialized s"
      "deregister_mr_array s2 = deregister_mr_array s" "delayed_buf_region s2 = delayed_buf_region s"
    using rest_parts [OF R(3)] R1(7) by (simp_all add: s2_def free_dma_mem_def upd_dreg_def db_part_def)
  have dat: "data (dregs s2 x) = data (dregs s x)" if "x \<noteq> d" for x using R(2) that by (simp add: s2)
  have pg: "pagenum (dregs s2 d) = pagenum (dregs s d)" "npages (dregs s2 d) = npages (dregs s d)" "\<not> is_valid (dregs s2 d)"
    "memhandle (dregs s2 x) = memhandle (dregs s x)" for x
    using R(2) [of d] R1(7) by (auto simp: s2 data_eq)
  obtain rc s3 where s3: "dreg_remove d s2 = Inr (rc, s3)" "links_inv s3" "lists_inv (cover (dregs s3) (valid_of A s3)) s3" "cache_part s3 = cache_part s2"
    using dreg_remove_gone [OF core d(1) s2(2) dat pg(1-3)] by blast
  note e3 = cache_part_eq [OF s3(4)]
  define s' where "s' = DREG_ADD_TO_FREE_LIST d s3"
  have s': "db_part s' = db_part s3" "dregs s' = dregs s2" "dreg_free_list s' = d # dreg_free_list s" "mr_log s' = mr_log s2"
      "dreg_unused_list s' = dreg_unused_list s1" "dreg_unused_tail s' = dreg_unused_tail s1" "is_dreg_initialized s' = is_dreg_initialized s"
      "deregister_mr_array s' = deregister_mr_array s" "delayed_buf_region s' = delayed_buf_region s"
    using e3 s2 by (simp_all add: s'_def DREG_ADD_TO_FREE_LIST_def db_part_def)
  have "unused_is xs s'"
  proof (rule unused_cong [of xs s1])
    show "unused_is xs s1" using R(1) by simp
    show "dregs s' x = dregs s1 x" if "x \<in> set xs" for x using that C(1) by (auto simp: s' s2 unused_is_def)
  qed (simp_all add: s')
  moreover have "valid_of (A - {d}) s' = valid_of A s3" using pg(3) e3 by (auto simp: valid_of_def s')
  then have "lists_inv (cover (dregs s') (valid_of (A - {d}) s')) s'"
    using lists_inv_cong [OF s3(3,2) s'(1)] e3 s'(2) by simp
  moreover have "set xs = {x \<in> A - {d}. refcount (dregs s' x) = 0}"
  proof -
    have "d \<notin> set xs" using C(1) by (simp add: unused_is_def)
    then have "set xs = {x \<in> A. refcount (dregs s x) = 0} - {d}" using C(2) by auto
    also have "\<dots> = {x \<in> A - {d}. refcount (dregs s' x) = 0}"
      by (rule Collect_but [symmetric]) (simp add: s'(2) data_parts(6) [OF dat])
    finally show ?thesis .
  qed
  moreover have "\<forall>x \<in> A - {d}. entry_ok (dregs s' x)" using C(3) data_parts(4) [OF dat] by (auto simp: s'(2))
  moreover have "handles A s = add_mset (memhandle (dregs s d)) (handles (A - {d}) s')"
    using pg(4) by (intro handles_remove [OF C(5) d(1)]) (simp add: s'(2))
  moreover have "dreg_evict s = Inr (1, s')"
    using C(1) d(2,3) s3(1) by (simp add: dreg_evict_def unused_is_def Let_def s1_def [symmetric] R1(6,7) s2_def [symmetric] s'_def)
  ultimately show ?thesis
    using snoc C s3(2) links_inv_cong [OF s'(1)] s' s2 dat by (simp add: cache_core_def)
qed

section \<open>A new registration\<close>

definition buffer_ok :: "u64 \<Rightarrow> u64 \<Rightarrow> bool" where
  "buffer_ok buf len \<longleftrightarrow> 2 ^ 12 \<le> unat buf \<and> 0 < unat len \<and> unat buf + unat len \<le> 2 ^ 64"

definition first_page :: "u64 \<Rightarrow> nat" where
  "first_page buf = unat buf div 2 ^ 12"

definition last_page :: "u64 \<Rightarrow> u64 \<Rightarrow> nat" where
  "last_page buf len = (unat buf + unat len - 1) div 2 ^ 12"

lemma pagemask_eq: "DREG_PAGEMASK = mask DREG_PAGEBITS"
  by (simp add: DREG_PAGEMASK_def DREG_PAGEBITS_def mask_eq_exp_minus_1)

lemma drop_page: "drop_bit DREG_PAGEBITS (and x (not DREG_PAGEMASK)) = drop_bit DREG_PAGEBITS x" for x :: u64
  unfolding pagemask_eq by (intro bit_word_eqI) (auto simp: bit_simps dest: bit_imp_le_length)

lemma unat_drop_page: "unat (drop_bit DREG_PAGEBITS x) = unat x div 2 ^ 12" for x :: u64
  unfolding DREG_PAGEBITS_def unat_drop_bit_eq by (simp add: drop_bit_eq_div)

lemma last_byte:
  assumes "buffer_ok buf len"
  shows "unat (buf + len - 1) = unat buf + unat len - 1"
proof -
  define n where "n = unat buf + unat len - 1"
  have n: "unat buf + unat len = Suc n" "n < 2 ^ 64" using assms by (auto simp: n_def buffer_ok_def)
  have "buf + len = (word_of_nat (unat buf + unat len) :: u64)" by simp
  also have "\<dots> = word_of_nat n + 1" unfolding n(1) by simp
  finally have "buf + len - 1 = (word_of_nat n :: u64)" by simp
  then show ?thesis using n by (simp add: unsigned_of_nat take_bit_nat_eq_self)
qed

lemma page_bounds:
  assumes "buffer_ok buf len"
  shows "0 < first_page buf" "first_page buf \<le> last_page buf len" "last_page buf len < 2 ^ 52"
proof -
  have "(2 :: nat) ^ 12 div 2 ^ 12 \<le> unat buf div 2 ^ 12" using assms by (intro div_le_mono) (simp add: buffer_ok_def)
  then show "0 < first_page buf" by (simp add: first_page_def)
  show "first_page buf \<le> last_page buf len" using assms by (auto simp: first_page_def last_page_def buffer_ok_def intro!: div_le_mono)
  show "last_page buf len < 2 ^ 52" using assms by (auto simp: last_page_def buffer_ok_def less_mult_imp_div_less)
qed

lemma entry_range:
  assumes "buffer_ok buf len" "pagenum e = unat (pagenum_low buf)" "npages e = unat (npages_of buf len)"
  shows "DREG_BEGIN e = first_page buf" "DREG_END e = last_page buf len"
proof -
  have lo: "unat (pagenum_low buf) = first_page buf"
    unfolding pagenum_low_def pagebase_low_a_def drop_page unat_drop_page first_page_def ..
  have hi: "unat (pagenum_high buf len) = last_page buf len"
    unfolding pagenum_high_def drop_page unat_drop_page last_page_def last_byte [OF assms(1)] ..
  define k where "k = last_page buf len - first_page buf"
  have k: "last_page buf len = first_page buf + k" "k < 2 ^ 52" using page_bounds [OF assms(1)] by (auto simp: k_def)
  have "pagenum_high buf len = word_of_nat (unat (pagenum_high buf len))" by simp
  also have "\<dots> = pagenum_low buf + word_of_nat k" unfolding hi k(1) lo [symmetric] by simp
  finally have "pagenum_high buf len = pagenum_low buf + word_of_nat k" .
  then have "npages_of buf len = word_of_nat (Suc k)" by (simp add: npages_of_def)
  then have n: "unat (npages_of buf len) = 1 + (last_page buf len - first_page buf)"
    using k by (simp only: unsigned_of_nat) (simp add: take_bit_nat_eq_self k_def [symmetric])
  show "DREG_BEGIN e = first_page buf" using assms(2) lo by (simp add: DREG_BEGIN_def)
  show "DREG_END e = last_page buf len" using assms(2,3) lo n page_bounds [OF assms(1)] by (simp add: DREG_END_def)
qed

lemma upto_page_cover:
  assumes "entry_pages (D d) = {b..e}" "d \<notin> V"
  shows "upto_page (cover D V) d b (e + 1) = cover D (insert d V)"
proof (rule ext)
  fix p
  have "p \<in> entry_pages (D d) \<longleftrightarrow> b \<le> p \<and> p < e + 1" unfolding assms(1) by auto
  then show "upto_page (cover D V) d b (e + 1) p = cover D (insert d V) p"
    using assms(2) by (cases "b \<le> p \<and> p < e + 1") (auto simp: upto_page_def cover_def)
qed

definition new_data :: "u64 \<Rightarrow> u64 \<Rightarrow> dreg_entry \<Rightarrow> dreg_entry" where
  "new_data buf len e = e\<lparr>refcount := 0, next_unused := None, prev_unused := None,
     pagenum := unat (pagenum_low buf), npages := unat (npages_of buf len)\<rparr>"

text \<open>
  The entry \<open>d\<close> from the free list after it has been entered for the pages of the buffer; the
  entries of \<open>A\<close> are as before.
\<close>

lemma new_insert_ok:
  assumes core: "cache_core A us s" and free: "dreg_free_list s = d # ds" "d \<notin> A" and buf: "buffer_ok buf len"
  defines "s1 \<equiv> upd_dreg d (\<lambda>e. e\<lparr>pagenum := unat (pagenum_low buf), npages := unat (npages_of buf len)\<rparr>) (snd (dreg_get s))"
  shows "fst (dreg_get s) = Some d" "dreg_insert d s1 = Inl Exit_failure \<or> (\<exists>s2. dreg_insert d s1 = Inr (0, s2) \<and> links_inv s2
    \<and> lists_inv (cover (dregs s2) (insert d (valid_of A s))) s2 \<and> unused_is us s2 \<and> (\<forall>x \<in> A. dregs s2 x = dregs s x)
    \<and> dregs s2 d = new_data buf len (dregs s d)
    \<and> dreg_free_list s2 = ds \<and> mr_log s2 = mr_log s \<and> is_dreg_initialized s2 = is_dreg_initialized s
    \<and> deregister_mr_array s2 = deregister_mr_array s \<and> delayed_buf_region s2 = delayed_buf_region s)"
proof -
  show "fst (dreg_get s) = Some d" using free by (simp add: dreg_get_def DREG_GET_FROM_FREE_LIST_def)
  define e where "e = new_data buf len (dregs s d)"
  have s1: "dregs s1 = (dregs s)(d := e)" "db_part s1 = db_part s" "dreg_free_list s1 = ds" "mr_log s1 = mr_log s"
      "dreg_unused_list s1 = dreg_unused_list s" "dreg_unused_tail s1 = dreg_unused_tail s" "is_dreg_initialized s1 = is_dreg_initialized s"
      "deregister_mr_array s1 = deregister_mr_array s" "delayed_buf_region s1 = delayed_buf_region s"
    using free by (simp_all add: s1_def e_def new_data_def dreg_get_def DREG_GET_FROM_FREE_LIST_def upd_dreg_def db_part_def)
  have du: "d \<notin> set us" "unused_is us s" using core free(2) by (simp_all add: cache_core_def)
  have u: "unused_is us s1" by (rule unused_cong [OF du(2) s1(5,6)]) (use du(1) in \<open>auto simp: s1(1)\<close>)
  have c1: "cache_core A us s1" by (rule core_cong [OF core s1(2) _ u s1(4)]) (use free(2) in \<open>auto simp: s1(1)\<close>)
  have er: "DREG_BEGIN e = first_page buf" "DREG_END e = last_page buf len" by (rule entry_range [OF buf], simp_all add: e_def new_data_def)+
  have v: "valid_of A s1 = valid_of A s" using free(2) by (auto simp: valid_of_def s1)
  let ?cov = "cover (dregs s1) (valid_of A s)"
  have new: "d \<notin> ?cov p" for p using free(2) by (auto simp: cover_def valid_of_def)
  have "insert_done ?cov d (DREG_BEGIN (dregs s1 d)) (DREG_END (dregs s1 d)) (2 * length (vma_list s1) + 4) s1 (dreg_insert d s1)"
    using core_lists [OF c1] page_bounds [OF buf] by (intro dreg_insert_ok [OF _ _ new]) (auto simp: v s1(1) er)
  then consider "dreg_insert d s1 = Inl Exit_failure"
    | s2 where "dreg_insert d s1 = Inr (0, s2)" "links_inv s2" "lists_inv (upto_page ?cov d (first_page buf) (last_page buf len + 1)) s2"
    unfolding insert_done_def by (auto simp: s1(1) er)
  then show "dreg_insert d s1 = Inl Exit_failure \<or> (\<exists>s2. dreg_insert d s1 = Inr (0, s2) \<and> links_inv s2
    \<and> lists_inv (cover (dregs s2) (insert d (valid_of A s))) s2 \<and> unused_is us s2 \<and> (\<forall>x \<in> A. dregs s2 x = dregs s x)
    \<and> dregs s2 d = new_data buf len (dregs s d)
    \<and> dreg_free_list s2 = ds \<and> mr_log s2 = mr_log s \<and> is_dreg_initialized s2 = is_dreg_initialized s
    \<and> deregister_mr_array s2 = deregister_mr_array s \<and> delayed_buf_region s2 = delayed_buf_region s)"
  proof cases
    case 2
    have "cache_part s2 = cache_part s1" using dreg_insert_frame [of s1 d] 2(1) by (simp add: framed_def)
    note f = cache_part_eq [OF this]
    have "upto_page ?cov d (first_page buf) (last_page buf len + 1) = cover (dregs s2) (insert d (valid_of A s))"
      using f free(2) by (subst upto_page_cover) (auto simp: s1(1) entry_pages_def er valid_of_def)
    then show ?thesis using 2 f s1 free(2) unused_cong [OF u, of s2] by (auto simp: e_def)
  qed simp
qed

end
