(* ===== verification/LC_Dreg_Register.thy ===== *)
theory LC_Dreg_Register
  imports LC_Dreg_Inv
begin

text \<open>
  The public operations of the registration cache of \<open>src/dreg/dreg.c\<close> against the invariant:
  \<open>dreg_init\<close>, \<open>dreg_register\<close>, \<open>dreg_unregister\<close>, \<open>find_and_free_dregs_inside\<close> and the loop of
  \<open>dreg_finalize\<close>.
\<close>

section \<open>New entries\<close>

definition settings :: "dreg_state \<Rightarrow> _" where
  "settings s = (is_dreg_initialized s, deregister_mr_array s, delayed_buf_region s)"

text \<open>A registration that succeeded, with its first reference.\<close>

lemma core_insert:
  assumes core: "cache_core A us s" and d: "d \<notin> A" and links: "links_inv s2" and lists: "lists_inv (cover (dregs s2) (insert d (valid_of A s))) s2"
    and unused: "unused_is us s'" and same: "\<forall>x \<in> A. dregs s2 x = dregs s x" and buf: "buffer_ok buf len"
    and s': "db_part s' = db_part s2" "dregs s' = (dregs s2)(d := (new_data buf len e)\<lparr>memhandle := h, is_valid := True\<rparr>)" "h \<noteq> 0"
      "dregs s2 d = new_data buf len e" "mr_log s' = mr_log s @ [Get_dma_mem a n h]"
  shows "cache_core (insert d A) us (dreg_incr_refcount d s')"
proof -
  define s3 where "s3 = dreg_incr_refcount d s'"
  have C: "set us = {x \<in> A. refcount (dregs s x) = 0}" "\<forall>x \<in> A. entry_ok (dregs s x)" "mr_balance (mr_log s) = Some (handles A s)" "finite A"
    using core by (simp_all add: cache_core_def)
  have du: "d \<notin> set us" using C(1) d by simp
  have e: "next_unused (dregs s' d) = None" "prev_unused (dregs s' d) = None" "refcount (dregs s' d) = 0" by (simp_all add: s'(2) new_data_def)
  have s3: "s3 = upd_dreg d (\<lambda>e. e\<lparr>refcount := refcount e + 1\<rparr>) s'"
    using remove_unused_absent [OF unused du e(1,2)] e(3) by (simp add: s3_def dreg_incr_refcount_def Let_def)
  have D: "dregs s3 d = (new_data buf len e)\<lparr>memhandle := h, is_valid := True, refcount := 1\<rparr>" "\<And>x. x \<in> A \<Longrightarrow> dregs s3 x = dregs s x"
      "\<And>x. x \<noteq> d \<Longrightarrow> dregs s3 x = dregs s2 x"
    using d same by (auto simp: s3 s'(2) new_data_def)
  have pg: "DREG_BEGIN (dregs s3 d) = first_page buf" "DREG_END (dregs s3 d) = last_page buf len"
      "DREG_BEGIN (dregs s2 d) = first_page buf" "DREG_END (dregs s2 d) = last_page buf len"
    by (rule entry_range [OF buf], simp_all add: D(1) s'(4) new_data_def)+
  have ep: "entry_pages (dregs s3 x) = entry_pages (dregs s2 x)" "DREG_END (dregs s3 x) = DREG_END (dregs s2 x)" for x
    using pg D(3) [of x] by (cases "x = d", simp_all add: entry_pages_def)+
  have "valid_of (insert d A) s3 = insert d (valid_of A s)" using d D(1,2) by (auto simp: valid_of_def)
  moreover have "cover (dregs s3) V = cover (dregs s2) V" for V using ep(1) by (intro cover_cong)
  moreover have db: "db_part s3 = db_part s2" using s'(1) by (simp add: s3)
  ultimately have "lists_inv (cover (dregs s3) (valid_of (insert d A) s3)) s3"
    using lists_inv_cong [OF lists links db ep(2)] by simp
  moreover have "unused_is us s3" using unused unfolding s3 by (subst unused_upd) auto
  moreover have "set us = {x \<in> insert d A. refcount (dregs s3 x) = 0}" using C(1) D(1,2) by auto
  moreover have "\<forall>x \<in> insert d A. entry_ok (dregs s3 x)"
    using C(2) D(2) page_bounds [OF buf] s'(3) by (auto simp: entry_ok_def pg) (auto simp: D(1) new_data_def)
  moreover have "handles (insert d A) s3 = add_mset h (handles A s)"
  proof -
    have "handles A s3 = handles A s" using D(2) C(4) by (auto simp: handles_def intro!: image_mset_cong)
    then show ?thesis using d C(4) by (simp add: handles_def D(1))
  qed
  ultimately show ?thesis
    using C s'(3,5) links links_inv_cong [OF db] unfolding s3_def [symmetric] by (simp add: cache_core_def s3)
qed

text \<open>A registration that failed: the entry is taken out of the database again and released.\<close>

lemma core_failed:
  assumes core: "cache_core A us s" and d: "d \<notin> A" and buf: "buffer_ok buf len"
    and lists: "lists_inv (cover (dregs s1) (insert d (valid_of A s))) s1" and links: "links_inv s1" and unused: "unused_is us s1"
    and same: "\<forall>x \<in> A. dregs s1 x = dregs s x"
    and range: "pagenum (dregs s1 d) = unat (pagenum_low buf)" "npages (dregs s1 d) = unat (npages_of buf len)"
    and log: "mr_balance (mr_log s1) = mr_balance (mr_log s)"
  shows "\<exists>rc s'. dreg_remove d s1 = Inr (rc, s') \<and> cache_core A us (dreg_release d s') \<and> cache_part s' = cache_part s1"
proof -
  let ?cov = "cover (dregs s1) (insert d (valid_of A s))"
  note e = entry_range [OF buf range]
  have r: "DREG_BEGIN (dregs s1 d) \<le> p \<and> p \<le> DREG_END (dregs s1 d) \<and> d \<in> ?cov (DREG_BEGIN (dregs s1 d))" if "d \<in> ?cov p" for p
    using that page_bounds(2) [OF buf] by (simp add: cover_def entry_pages_def e)
  obtain rc s4 where s4: "dreg_remove d s1 = Inr (rc, s4)" "links_inv s4" "lists_inv (\<lambda>p. ?cov p - {d}) s4"
    using dreg_remove_ok [OF links lists r] by auto
  have fr: "cache_part s4 = cache_part s1" using dreg_remove_frame [of s1 d] s4(1) by (simp add: framed_def)
  note f = cache_part_eq [OF fr]
  define s5 where "s5 = dreg_release d s4"
  have s5: "db_part s5 = db_part s4" "dregs s5 = dregs s1" "mr_log s5 = mr_log s1" "dreg_unused_list s5 = dreg_unused_list s1" "dreg_unused_tail s5 = dreg_unused_tail s1"
    using f by (simp_all add: s5_def dreg_release_def db_part_def)
  have A: "dregs s5 x = dregs s x" if "x \<in> A" for x using that same by (simp add: s5(2))
  have V: "valid_of A s5 = valid_of A s" using A by (auto simp: valid_of_def)
  have ceq: "cover (dregs s5) (valid_of A s5) = (\<lambda>p. ?cov p - {d})"
    unfolding V s5(2) using d by (auto simp: cover_def valid_of_def)
  have "lists_inv (cover (dregs s5) (valid_of A s5)) s5"
    unfolding ceq by (rule lists_inv_cong [OF s4(3,2) s5(1)]) (use f s5(2) in simp)
  moreover have "unused_is us s5" by (rule unused_cong [OF unused s5(4,5)]) (simp add: s5(2))
  moreover have "{x \<in> A. refcount (dregs s5 x) = 0} = {x \<in> A. refcount (dregs s x) = 0}" "handles A s5 = handles A s"
    using A core by (auto simp: handles_def cache_core_def intro!: image_mset_cong)
  ultimately have "cache_core A us s5" using core s4(2) log s5(3) links_inv_cong [OF s5(1)] A by (simp add: cache_core_def)
  then show ?thesis using s4(1) fr by (auto simp: s5_def)
qed

lemma new_entry_ok:
  assumes core: "cache_core A us s" and free: "dreg_free_list s = d # ds" "d \<notin> A" and buf: "buffer_ok buf len"
  shows "dreg_new_entry reg buf len s = Inl Exit_failure
    \<or> (\<exists>s'. dreg_new_entry reg buf len s = Inr (None, s') \<and> cache_core A us s' \<and> dreg_free_list s' = dreg_free_list s
         \<and> (\<forall>x \<in> A. dregs s' x = dregs s x) \<and> settings s' = settings s)
    \<or> (\<exists>s'. dreg_new_entry reg buf len s = Inr (Some d, s') \<and> cache_core (insert d A) us (dreg_incr_refcount d s') \<and> dreg_free_list s' = ds
         \<and> (\<forall>x \<in> A. dregs s' x = dregs s x) \<and> settings s' = settings s \<and> refcount (dregs s' d) = 0 \<and> is_valid (dregs s' d)
         \<and> DREG_BEGIN (dregs s' d) = first_page buf \<and> DREG_END (dregs s' d) = last_page buf len)"
proof -
  obtain s0 where g: "dreg_get s = (Some d, s0)" using new_insert_ok(1) [OF assms] by (cases "dreg_get s") simp
  define s1 where "s1 = upd_dreg d (\<lambda>e. e\<lparr>pagenum := unat (pagenum_low buf), npages := unat (npages_of buf len)\<rparr>) s0"
  consider (exit) "dreg_insert d s1 = Inl Exit_failure"
    | (ok) s2 where "dreg_insert d s1 = Inr (0, s2)" "links_inv s2" "lists_inv (cover (dregs s2) (insert d (valid_of A s))) s2" "unused_is us s2"
      "\<forall>x \<in> A. dregs s2 x = dregs s x" "dregs s2 d = new_data buf len (dregs s d)" "dreg_free_list s2 = ds" "mr_log s2 = mr_log s" "settings s2 = settings s"
    using new_insert_ok(2) [OF assms] unfolding g s1_def [symmetric] settings_def by (auto simp: s1_def)
  then show ?thesis
  proof cases
    case exit
    then have "dreg_new_entry reg buf len s = Inl Exit_failure"
      by (simp add: dreg_new_entry_def g rdma_dreg_cache_limit_def Let_def s1_def [symmetric])
    then show ?thesis ..
  next
    case ok
    define n h where "n = unat (npages_of buf len * word_of_nat DREG_PAGESIZE)" and "h = reg (mr_log s2) (pagebase_low_a buf) n"
    define s3 where "s3 = upd_dreg d (\<lambda>e. e\<lparr>memhandle := h\<rparr>) (s2\<lparr>mr_log := mr_log s2 @ [Get_dma_mem (pagebase_low_a buf) n h]\<rparr>)"
    have step: "dreg_new_entry reg buf len s = (if h = 0 then bind_res (dreg_remove d s3) (\<lambda>(_, s). Inr (None, dreg_release d s))
        else Inr (Some d, upd_dreg d (\<lambda>e. e\<lparr>is_valid := True\<rparr>) s3))"
      using ok(1) by (cases "h = 0") (simp_all add: dreg_new_entry_def g rdma_dreg_cache_limit_def Let_def s1_def [symmetric] get_dma_mem_def
          n_def [symmetric] h_def [symmetric] s3_def)
    have s3: "db_part s3 = db_part s2" "dregs s3 = (dregs s2)(d := (dregs s2 d)\<lparr>memhandle := h\<rparr>)" "dreg_free_list s3 = ds"
        "mr_log s3 = mr_log s @ [Get_dma_mem (pagebase_low_a buf) n h]" "settings s3 = settings s"
        "dreg_unused_list s3 = dreg_unused_list s2" "dreg_unused_tail s3 = dreg_unused_tail s2"
      using ok(7,8,9) by (simp_all add: s3_def upd_dreg_def db_part_def settings_def)
    have du: "d \<notin> set us" using core free(2) by (simp add: cache_core_def)
    have u3: "unused_is us s3" by (rule unused_cong [OF ok(4) s3(6,7)]) (use du in \<open>auto simp: s3(2)\<close>)
    show ?thesis
    proof (cases "h = 0")
      case False
      define s4 where "s4 = upd_dreg d (\<lambda>e. e\<lparr>is_valid := True\<rparr>) s3"
      have s4: "db_part s4 = db_part s2" "dregs s4 = (dregs s2)(d := (new_data buf len (dregs s d))\<lparr>memhandle := h, is_valid := True\<rparr>)"
          "mr_log s4 = mr_log s @ [Get_dma_mem (pagebase_low_a buf) n h]" "dreg_free_list s4 = ds" "settings s4 = settings s"
        using s3 ok(6) by (simp_all add: s4_def settings_def) (simp_all add: upd_dreg_def)
      have u4: "unused_is us s4" using u3 unfolding s4_def by (subst unused_upd) auto
      have "cache_core (insert d A) us (dreg_incr_refcount d s4)"
        by (rule core_insert [OF core free(2) ok(2,3) u4 ok(5) buf s4(1,2) False ok(6) s4(3)])
      moreover have "DREG_BEGIN (dregs s4 d) = first_page buf" "DREG_END (dregs s4 d) = last_page buf len"
        by (rule entry_range [OF buf], simp_all add: s4(2) new_data_def)+
      moreover have "refcount (dregs s4 d) = 0" "is_valid (dregs s4 d)" "\<forall>x \<in> A. dregs s4 x = dregs s x"
        using ok(5) free(2) by (auto simp: s4(2) new_data_def)
      moreover have "dreg_new_entry reg buf len s = Inr (Some d, s4)" using step False by (simp add: s4_def)
      ultimately show ?thesis using s4(4,5) by blast
    next
      case True
      have pg: "DREG_END (dregs s3 x) = DREG_END (dregs s2 x)" "entry_pages (dregs s3 x) = entry_pages (dregs s2 x)" for x
        by (simp_all add: s3(2) entry_pages_def DREG_BEGIN_def DREG_END_def)
      have "cover (dregs s3) V = cover (dregs s2) V" for V using pg(2) by (rule cover_cong)
      then have l3: "lists_inv (cover (dregs s3) (insert d (valid_of A s))) s3" "links_inv s3"
        using lists_inv_cong [OF ok(3,2) s3(1) pg(1)] ok(2) links_inv_cong [OF s3(1)] by simp_all
      have A3: "\<forall>x \<in> A. dregs s3 x = dregs s x" using ok(5) free(2) by (auto simp: s3(2))
      have log: "mr_balance (mr_log s3) = mr_balance (mr_log s)" using core True by (simp add: s3(4) cache_core_def)
      obtain rc s4 where s4: "dreg_remove d s3 = Inr (rc, s4)" "cache_core A us (dreg_release d s4)" "cache_part s4 = cache_part s3"
        using core_failed [OF core free(2) buf l3 u3 A3 _ _ log] by (auto simp: s3(2) ok(6) new_data_def)
      define s5 where "s5 = dreg_release d s4"
      have s5: "dreg_free_list s5 = d # ds" "settings s5 = settings s" "dregs s5 = dregs s3"
        using cache_part_eq [OF s4(3)] s3(3,5) by (simp_all add: s5_def dreg_release_def settings_def)
      have "dreg_new_entry reg buf len s = Inr (None, s5)" using step True s4(1) by (simp add: s5_def)
      then show ?thesis using s4(2) s5 A3 free(1) by (simp add: s5_def)
    qed
  qed
qed

section \<open>Registration\<close>

text \<open>The references to an entry; entries on the free list have none.\<close>

definition refs :: "dreg_state \<Rightarrow> nat \<Rightarrow> int" where
  "refs s d = (if d \<in> allocated s then refcount (dregs s d) else 0)"

text \<open>Entries with references stay as they are, in every respect but the links.\<close>

definition in_use_kept :: "dreg_state \<Rightarrow> dreg_state \<Rightarrow> bool" where
  "in_use_kept s s' \<longleftrightarrow> (\<forall>x \<in> allocated s. 0 < refcount (dregs s x) \<longrightarrow> x \<in> allocated s' \<and> data (dregs s' x) = data (dregs s x))
     \<and> (\<forall>x. refs s' x = refs s x)"

lemma evict_inv:
  assumes inv: "cache_inv s" and us: "cache_core (allocated s) us s" "us \<noteq> []"
  shows "\<exists>s'. dreg_evict s = Inr (1, s') \<and> cache_inv s' \<and> cache_core (allocated s') (butlast us) s' \<and> in_use_kept s s' \<and> settings s' = settings s
    \<and> allocated s' = allocated s - {last us} \<and> (\<forall>x. x \<noteq> last us \<longrightarrow> data (dregs s' x) = data (dregs s x))"
proof -
  obtain s' where s': "dreg_evict s = Inr (1, s')" "cache_core (allocated s - {last us}) (butlast us) s'" "dreg_free_list s' = last us # dreg_free_list s"
      "\<forall>x. x \<noteq> last us \<longrightarrow> data (dregs s' x) = data (dregs s x)" "settings s' = settings s"
    using evict_ok [OF us(1)] us(2) by (auto simp: settings_def)
  have l: "last us \<in> allocated s" "refcount (dregs s (last us)) = 0"
    using us last_in_set [OF us(2)] by (auto simp: cache_core_def)
  have al: "allocated s' = allocated s - {last us}" by (auto simp: allocated_def s'(3))
  have "cache_inv s'" using inv l(1) s'(2,3) al by (auto simp: cache_inv_def allocated_def)
  moreover have "refs s' x = refs s x" for x
    using l s'(4) data_parts(6) [of "dregs s' x" "dregs s x"] by (cases "x = last us") (auto simp: refs_def al)
  then have "in_use_kept s s'" unfolding in_use_kept_def al using s'(4) l(2) by (metis Diff_iff order_less_irrefl singletonD)
  ultimately show ?thesis using s' al by auto
qed

lemma core_bound:
  assumes "cache_core (allocated s) us s"
  shows "length us \<le> rdma_ndreg_entries"
proof -
  have "distinct us" "set us \<subseteq> {..<rdma_ndreg_entries}" using assms by (auto simp: cache_core_def unused_is_def allocated_def)
  then have "card (set us) \<le> rdma_ndreg_entries" "card (set us) = length us"
    using card_mono [of "{..<rdma_ndreg_entries}" "set us"] by (auto simp: distinct_card)
  then show ?thesis by simp
qed

definition registered :: "u64 \<Rightarrow> u64 \<Rightarrow> nat \<Rightarrow> dreg_state \<Rightarrow> bool" where
  "registered buf len d s \<longleftrightarrow> is_valid (dregs s d) \<and> DREG_BEGIN (dregs s d) \<le> first_page buf \<and> last_page buf len \<le> DREG_END (dregs s d)"

lemma in_use_kept_trans: "in_use_kept s s' \<Longrightarrow> in_use_kept s' s'' \<Longrightarrow> in_use_kept s s''"
  unfolding in_use_kept_def by (metis data_parts(6))

text \<open>The result of the loop, before the first reference is taken.\<close>

definition loop_done :: "u64 \<Rightarrow> u64 \<Rightarrow> dreg_state \<Rightarrow> (nat option \<times> dreg_state) res \<Rightarrow> bool" where
  "loop_done buf len s res \<longleftrightarrow> res = Inl Exit_failure
     \<or> (\<exists>s'. res = Inr (None, s') \<and> cache_inv s' \<and> in_use_kept s s' \<and> settings s' = settings s \<and> dreg_unused_list s' = None)
     \<or> (\<exists>d s'. res = Inr (Some d, s') \<and> cache_inv (dreg_incr_refcount d s') \<and> in_use_kept s s' \<and> settings s' = settings s
          \<and> (d \<in> allocated s \<longrightarrow> refcount (dregs s d) = 0) \<and> d \<in> allocated s' \<and> refcount (dregs s' d) = 0 \<and> registered buf len d s')"

lemma incr_rest: "rest (dreg_incr_refcount d s) = rest s"
  by (auto simp: dreg_incr_refcount_def Let_def DREG_REMOVE_FROM_UNUSED_LIST_def rest_def db_part_def upd_dreg_def split: option.splits)

lemma allocated_incr [simp]: "allocated (dreg_incr_refcount d s) = allocated s" "settings (dreg_incr_refcount d s) = settings s"
  "dreg_free_list (dreg_incr_refcount d s) = dreg_free_list s"
  using rest_parts [OF incr_rest [of d s]] by (simp_all add: allocated_def settings_def)

lemma new_entry_cases:
  assumes inv: "cache_inv s" and us: "cache_core (allocated s) us s" and buf: "buffer_ok buf len"
  shows "dreg_new_entry reg buf len s = Inl Exit_failure
    \<or> (\<exists>s'. dreg_new_entry reg buf len s = Inr (None, s') \<and> cache_inv s' \<and> cache_core (allocated s') us s' \<and> in_use_kept s s'
         \<and> settings s' = settings s \<and> allocated s' = allocated s \<and> (\<forall>x \<in> allocated s. dregs s' x = dregs s x))
    \<or> (\<exists>d s'. dreg_new_entry reg buf len s = Inr (Some d, s') \<and> loop_done buf len s (Inr (Some d, s')))"
proof (cases "dreg_free_list s")
  case Nil
  then have "dreg_new_entry reg buf len s = Inr (None, s)" by (simp add: dreg_new_entry_def dreg_get_def DREG_GET_FROM_FREE_LIST_def)
  then show ?thesis using inv us by (auto simp: in_use_kept_def)
next
  case (Cons d ds)
  have F: "distinct (d # ds)" "set (d # ds) \<subseteq> {..<rdma_ndreg_entries}" "d \<notin> allocated s" using inv Cons by (auto simp: cache_inv_def allocated_def)
  consider (exit) "dreg_new_entry reg buf len s = Inl Exit_failure"
    | (no) s' where "dreg_new_entry reg buf len s = Inr (None, s')" "cache_core (allocated s) us s'" "dreg_free_list s' = dreg_free_list s"
        "\<forall>x \<in> allocated s. dregs s' x = dregs s x" "settings s' = settings s"
    | (yes) s' where "dreg_new_entry reg buf len s = Inr (Some d, s')" "cache_core (insert d (allocated s)) us (dreg_incr_refcount d s')"
        "dreg_free_list s' = ds" "\<forall>x \<in> allocated s. dregs s' x = dregs s x" "settings s' = settings s" "refcount (dregs s' d) = 0"
        "is_valid (dregs s' d)" "DREG_BEGIN (dregs s' d) = first_page buf" "DREG_END (dregs s' d) = last_page buf len"
    using new_entry_ok [OF us Cons F(3) buf, of reg] by blast
  then show ?thesis
  proof cases
    case no
    have "allocated s' = allocated s" by (simp add: allocated_def no(3))
    then show ?thesis using no inv by (auto simp: cache_inv_def in_use_kept_def refs_def)
  next
    case yes
    have al: "allocated s' = insert d (allocated s)" using F Cons by (auto simp: allocated_def yes(3))
    then have "cache_inv (dreg_incr_refcount d s')" using yes(2,3) F by (auto simp: cache_inv_def)
    moreover have "in_use_kept s s'" using yes(4,6) F(3) by (auto simp: in_use_kept_def al refs_def)
    ultimately have "loop_done buf len s (Inr (Some d, s'))" using yes F(3) al by (auto simp: loop_done_def registered_def)
    then show ?thesis using yes(1) by blast
  qed simp
qed

lemma loop_done_step:
  assumes kept: "in_use_kept s s1" "settings s1 = settings s" and al: "allocated s1 \<subseteq> allocated s"
    and same: "\<And>x. x \<in> allocated s \<Longrightarrow> 0 < refcount (dregs s x) \<Longrightarrow> x \<in> allocated s1 \<and> 0 < refcount (dregs s1 x)"
    and pos: "\<And>x. x \<in> allocated s \<Longrightarrow> 0 \<le> refcount (dregs s x)" and done_: "loop_done buf len s1 res"
  shows "loop_done buf len s res"
proof -
  have "refcount (dregs s d) = 0" if "d \<in> allocated s1 \<longrightarrow> refcount (dregs s1 d) = 0" "d \<in> allocated s" for d
    using same [of d] pos [of d] that by force
  then show ?thesis using done_ kept in_use_kept_trans [OF kept(1)] unfolding loop_done_def by metis
qed

lemma register_loop_ok:
  "cache_inv s \<Longrightarrow> cache_core (allocated s) us s \<Longrightarrow> buffer_ok buf len \<Longrightarrow> length us < fuel \<Longrightarrow> loop_done buf len s (register_loop fuel reg buf len s)"
proof (induction fuel arbitrary: us s)
  case (Suc fuel)
  have ok: "0 \<le> refcount (dregs s x)" if "x \<in> allocated s" for x using Suc.prems(2) that by (simp add: cache_core_def entry_ok_def)
  consider (exit) "dreg_new_entry reg buf len s = Inl Exit_failure"
    | (no) s1 where "dreg_new_entry reg buf len s = Inr (None, s1)" "cache_inv s1" "cache_core (allocated s1) us s1" "in_use_kept s s1"
        "settings s1 = settings s" "allocated s1 = allocated s" "\<forall>x \<in> allocated s. dregs s1 x = dregs s x"
    | (yes) d s' where "dreg_new_entry reg buf len s = Inr (Some d, s')" "loop_done buf len s (Inr (Some d, s'))"
    using new_entry_cases [OF Suc.prems(1-3), of reg] by blast
  then show ?case
  proof cases
    case exit
    then show ?thesis by (simp add: loop_done_def)
  next
    case no
    show ?thesis
    proof (cases "us = []")
      case True
      then have "dreg_evict s1 = Inr (0, s1)" using evict_ok [OF no(3)] by simp
      moreover have "dreg_unused_list s1 = None" using no(3) True by (simp add: cache_core_def unused_is_def)
      ultimately show ?thesis using no by (auto simp: loop_done_def)
    next
      case False
      obtain s2 where s2: "dreg_evict s1 = Inr (1, s2)" "cache_inv s2" "cache_core (allocated s2) (butlast us) s2" "in_use_kept s1 s2"
          "settings s2 = settings s1" "allocated s2 = allocated s1 - {last us}"
        using evict_inv [OF no(2,3) False] by blast
      have IH: "loop_done buf len s2 (register_loop fuel reg buf len s2)"
        using False Suc.prems(4) by (intro Suc.IH [OF s2(2,3) Suc.prems(3)]) (cases us, auto)
      have kept: "in_use_kept s s2" by (rule in_use_kept_trans [OF no(4) s2(4)])
      have "loop_done buf len s (register_loop fuel reg buf len s2)"
      proof (rule loop_done_step [OF kept _ _ _ ok IH])
        show "x \<in> allocated s2 \<and> 0 < refcount (dregs s2 x)" if "x \<in> allocated s" "0 < refcount (dregs s x)" for x
          using kept that data_parts(6) unfolding in_use_kept_def by metis
      qed (use s2(5,6) no(5,6) in auto)
      then show ?thesis using no(1) s2(1) by simp
    qed
  next
    case yes
    then show ?thesis by simp
  qed
qed simp

lemma find_pages:
  assumes "buffer_ok buf len"
  shows "unat (drop_bit DREG_PAGEBITS buf) = first_page buf" "unat (drop_bit DREG_PAGEBITS (buf + len - 1)) = last_page buf len"
  by (simp_all only: unat_drop_page first_page_def last_page_def last_byte [OF assms])

lemma find_cases:
  assumes core: "cache_core (allocated s) us s" and init: "is_dreg_initialized s" and buf: "buffer_ok buf len"
  shows "case dreg_find buf len s of
      Some d \<Rightarrow> d \<in> allocated s \<and> registered buf len d s
    | None \<Rightarrow> \<forall>d \<in> allocated s. \<not> registered buf len d s"
proof -
  let ?cov = "cover (dregs s) (valid_of (allocated s) s)"
  have mem: "d \<in> ?cov (first_page buf) \<longleftrightarrow> d \<in> allocated s \<and> is_valid (dregs s d) \<and> DREG_BEGIN (dregs s d) \<le> first_page buf \<and> first_page buf \<le> DREG_END (dregs s d)" for d
    by (auto simp: cover_def valid_of_def entry_pages_def)
  have f: "dreg_find buf len s = dreg_lookup (first_page buf) (last_page buf len) s"
    using init unfolding dreg_find_def find_pages [OF buf] by simp
  show ?thesis
    using dreg_lookup_ok [OF core_lists(2) [OF core] core_lists(1) [OF core], of "first_page buf" "last_page buf len"] page_bounds(2) [OF buf]
    unfolding f by (auto simp: Ball_def mem registered_def split: option.splits)
qed

lemma register_ok:
  assumes "cache_inv s" "is_dreg_initialized s" "buffer_ok buf len"
  shows "dreg_register reg buf len s = Inl Exit_failure \<or> (\<exists>res s'. dreg_register reg buf len s = Inr (res, s') \<and> cache_inv s'
    \<and> (case res of
        None \<Rightarrow> dreg_unused_list s' = None \<and> in_use_kept s s'
      | Some d \<Rightarrow> d \<in> allocated s' \<and> registered buf len d s'
          \<and> refcount (dregs s' d) = refs s d + 1 \<and> (\<forall>x. x \<noteq> d \<longrightarrow> refs s' x = refs s x)
          \<and> (\<forall>x \<in> allocated s. 0 < refcount (dregs s x) \<and> x \<noteq> d \<longrightarrow> x \<in> allocated s' \<and> data (dregs s' x) = data (dregs s x))))"
proof -
  obtain us where us: "cache_core (allocated s) us s" using assms(1) by (auto simp: cache_inv_def)
  show ?thesis
  proof (cases "dreg_find buf len s")
    case (Some d)
    then have d: "d \<in> allocated s" "registered buf len d s" using find_cases [OF us assms(2,3)] by auto
    then have v: "is_valid (dregs s d)" by (simp add: registered_def)
    note I = incr_ok [OF us d(1) v]
    let ?s = "dreg_incr_refcount d s"
    have "cache_inv ?s" using I(1) assms(1) by (auto simp: cache_inv_def)
    moreover have "registered buf len d ?s" "refcount (dregs ?s d) = refcount (dregs s d) + 1"
      using I(3) [of d] d(2) by (simp_all add: registered_def data_eq DREG_BEGIN_def DREG_END_def)
    moreover have "refs ?s x = refs s x" if "x \<noteq> d" for x using I(3) [of x] that by (simp add: refs_def data_eq)
    ultimately show ?thesis using I(3) d(1) Some by (auto simp: dreg_register_def refs_def [of s d])
  next
    case None
    have "loop_done buf len s (register_loop (Suc rdma_ndreg_entries) reg buf len s)"
      using core_bound [OF us] by (intro register_loop_ok [OF assms(1) us assms(3)]) simp
    then consider (exit) "register_loop (Suc rdma_ndreg_entries) reg buf len s = Inl Exit_failure"
      | (no) s' where "register_loop (Suc rdma_ndreg_entries) reg buf len s = Inr (None, s')" "cache_inv s'" "in_use_kept s s'" "dreg_unused_list s' = None"
      | (yes) d s' where "register_loop (Suc rdma_ndreg_entries) reg buf len s = Inr (Some d, s')" "cache_inv (dreg_incr_refcount d s')"
          "in_use_kept s s'" "d \<in> allocated s \<longrightarrow> refcount (dregs s d) = 0" "d \<in> allocated s'" "refcount (dregs s' d) = 0" "registered buf len d s'"
      unfolding loop_done_def by blast
    then show ?thesis
    proof cases
      case exit
      then have "dreg_register reg buf len s = Inl Exit_failure" using None by (simp add: dreg_register_def del: register_loop.simps)
      then show ?thesis ..
    next
      case no
      then have "dreg_register reg buf len s = Inr (None, s')" using None by (simp add: dreg_register_def del: register_loop.simps)
      then show ?thesis using no by auto
    next
      case yes
      let ?s = "dreg_incr_refcount d s'"
      have e: "dreg_register reg buf len s = Inr (Some d, ?s)" using None yes(1) by (simp add: dreg_register_def del: register_loop.simps)
      have I: "data (dregs ?s x) = (if x = d then data ((dregs s' d)\<lparr>refcount := 1\<rparr>) else data (dregs s' x))" for x
        using yes(6) by (auto simp: dreg_incr_refcount_def Let_def DREG_REMOVE_FROM_UNUSED_LIST_def data_eq upd_dreg_def split: option.splits)
      have "registered buf len d ?s" "refcount (dregs ?s d) = 1"
        using I [of d] yes(7) by (simp_all add: registered_def data_eq DREG_BEGIN_def DREG_END_def)
      moreover have "x \<in> allocated ?s \<and> data (dregs ?s x) = data (dregs s x)" if "x \<in> allocated s" "0 < refcount (dregs s x)" "x \<noteq> d" for x
        using yes(3) I [of x] that by (simp add: in_use_kept_def)
      moreover have "refs ?s x = refs s x" if "x \<noteq> d" for x
      proof -
        have "refs ?s x = refs s' x" using I [of x] that by (simp add: refs_def data_eq)
        then show ?thesis using yes(3) by (simp add: in_use_kept_def)
      qed
      moreover have "refs s d = 0" using yes(4) by (simp add: refs_def)
      ultimately show ?thesis using e yes(2,5) by auto
    qed
  qed
qed

end
