(* ===== verification/LC_Dreg_Runs.thy ===== *)
theory LC_Dreg_Runs
  imports LC_Dreg_Register
begin

text \<open>
  The life of the registration cache of \<open>src/dreg/dreg.c\<close>: initialisation, sequences of calls by
  the library and by the memory hooks, and the eviction of everything at the end.
\<close>

section \<open>Initialisation\<close>

lemma init_ok:
  assumes "0 < avl_left_over (vma_mem s)" "mr_balance (mr_log s) = Some {#}"
  shows "\<exists>s'. dreg_init True True True s = Inr (0, s') \<and> cache_inv s' \<and> cache_core {} [] s' \<and> settings s' = (True, Some [], Some [])
    \<and> dreg_free_list s' = [0..<rdma_ndreg_entries]"
proof -
  define m s' where "m = (vma_mem s)\<lparr>avl_free_list := [], avl_brk := avl_brk (vma_mem s) + 1, avl_left_over := avl_left_over (vma_mem s) - 1\<rparr>"
    and "s' = s\<lparr>pinned_pages_count := 0, vma_tree := \<lparr>avl_root = NULL_TREE, avl_count = 0\<rparr>, vma_mem := m, vma_list := [],
      dregs := (\<lambda>_. \<lparr>pagenum = 0, npages = 0, refcount = 0, memhandle = 0, next_unused = None, prev_unused = None, is_valid = False\<rparr>),
      dreg_free_list := [0..<rdma_ndreg_entries], dreg_unused_list := None, dreg_unused_tail := None, is_dreg_initialized := True,
      delayed_buf_region := Some [], deregister_mr_array := Some [], vma_free_list := []\<rparr>"
  have e: "dreg_init True True True s = Inr (0, s')"
    using assms(1) by (simp add: dreg_init_def vma_db_init_def avlinit_def ckalloc_def Let_def s'_def m_def)
  have "links_inv s'"
    by (simp add: links_inv_def tree_inv_def avl_inv_def mem_ok_def by_key_def avl_items_def s'_def m_def)
  then have "cache_core {} [] s'" using assms(2)
    by (simp add: cache_core_def lists_inv_def cover_def valid_of_def unused_is_def handles_def s'_def)
  moreover have "allocated s' = {}" "dreg_free_list s' = [0..<rdma_ndreg_entries]" by (auto simp: allocated_def s'_def)
  ultimately have "cache_inv s'" "cache_core {} [] s'" by (auto simp: cache_inv_def)
  then show ?thesis using e by (simp add: settings_def s'_def)
qed

section \<open>Releasing and evicting\<close>

lemma unregister_ok:
  assumes "cache_inv s" "d \<in> allocated s" "0 < refcount (dregs s d)"
  shows "\<exists>s'. dreg_unregister d s = Inr s' \<and> cache_inv s' \<and> allocated s' = allocated s \<and> settings s' = settings s
    \<and> (\<forall>x. data (dregs s' x) = (if x = d then data ((dregs s d)\<lparr>refcount := refcount (dregs s d) - 1\<rparr>) else data (dregs s x)))
    \<and> (refcount (dregs s d) = 1 \<longrightarrow> dreg_unused_list s' = Some d)"
proof -
  obtain us where us: "cache_core (allocated s) us s" using assms(1) by (auto simp: cache_inv_def)
  obtain us' s' where s': "dreg_decr_refcount d s = Inr s'" "cache_core (allocated s) us' s'" "rest s' = rest s"
      "\<forall>x. data (dregs s' x) = (if x = d then data ((dregs s d)\<lparr>refcount := refcount (dregs s d) - 1\<rparr>) else data (dregs s x))"
      "us' = (if refcount (dregs s d) = 1 then d # us else us)"
    using decr_ok [OF us assms(2,3)] by blast
  have r: "allocated s' = allocated s" "settings s' = settings s" "dreg_free_list s' = dreg_free_list s"
    using rest_parts [OF s'(3)] by (simp_all add: allocated_def settings_def)
  have "cache_inv s'" using assms(1) s'(2) r by (auto simp: cache_inv_def)
  moreover have "dreg_unused_list s' = Some d" if "refcount (dregs s d) = 1" using s'(2,5) that by (simp add: cache_core_def unused_is_def)
  ultimately show ?thesis using s' r by (auto simp: dreg_unregister_def)
qed

lemma evict_all_ok:
  "cache_inv s \<Longrightarrow> cache_core (allocated s) us s \<Longrightarrow> length us < fuel \<Longrightarrow> \<exists>s'. evict_all fuel s = Inr s' \<and> cache_inv s'
    \<and> cache_core (allocated s') [] s' \<and> in_use_kept s s' \<and> allocated s' = allocated s - set us"
proof (induction fuel arbitrary: us s)
  case (Suc fuel)
  show ?case
  proof (cases "us = []")
    case True
    then have "dreg_evict s = Inr (0, s)" using evict_ok [OF Suc.prems(2)] by simp
    then show ?thesis using Suc.prems True by (auto simp: in_use_kept_def)
  next
    case False
    obtain s1 where s1: "dreg_evict s = Inr (1, s1)" "cache_inv s1" "cache_core (allocated s1) (butlast us) s1" "in_use_kept s s1"
        "allocated s1 = allocated s - {last us}"
      using evict_inv [OF Suc.prems(1,2) False] by blast
    have l: "length (butlast us) < fuel" using Suc.prems(3) False by (cases us) auto
    have "set us = insert (last us) (set (butlast us))" using False by (metis append_butlast_last_id list.set(2) rotate1.simps(2) set_rotate1)
    moreover obtain s' where "evict_all fuel s1 = Inr s'" "cache_inv s'" "cache_core (allocated s') [] s'" "in_use_kept s1 s'"
        "allocated s' = allocated s1 - set (butlast us)"
      using Suc.IH [OF s1(2,3) l] by blast
    ultimately show ?thesis using s1 in_use_kept_trans [OF s1(4)] by auto
  qed
qed simp

lemma finalize_links:
  defines "s' \<equiv> \<lambda>s. s\<lparr>vma_mem := (vma_mem s)\<lparr>is_finalize := True\<rparr>\<rparr>"
  shows "cache_core A us (s' s) = cache_core A us s" "allocated (s' s) = allocated s" "dregs (s' s) = dregs s" "cache_inv (s' s) = cache_inv s"
proof -
  have "links_inv (s' s) = links_inv s" "lists_inv c (s' s) = lists_inv c s" "unused_is us (s' s) = unused_is us s" "valid_of A (s' s) = valid_of A s"
      "handles A (s' s) = handles A s" "dregs (s' s) = dregs s" "mr_log (s' s) = mr_log s" for c A us
    by (simp_all add: s'_def links_inv_def tree_inv_def avl_inv_def mem_ok_def avl_items_def lists_inv_def unused_is_def valid_of_def handles_def)
  then show c: "cache_core A us (s' s) = cache_core A us s" "dregs (s' s) = dregs s" for A us by (simp_all add: cache_core_def)
  show a: "allocated (s' s) = allocated s" by (simp add: s'_def allocated_def)
  show "cache_inv (s' s) = cache_inv s" by (simp add: cache_inv_def c a) (simp add: s'_def)
qed

lemma finalize_ok:
  assumes "cache_inv s"
  shows "\<exists>s'. finalize_evict s = Inr s' \<and> cache_inv s' \<and> dreg_unused_list s' = None
    \<and> allocated s' = {d \<in> allocated s. 0 < refcount (dregs s d)} \<and> in_use_kept s s'
    \<and> mr_balance (mr_log s') = Some (handles {d \<in> allocated s. 0 < refcount (dregs s d)} s)"
proof -
  obtain us where us: "cache_core (allocated s) us s" using assms by (auto simp: cache_inv_def)
  define s0 where "s0 = s\<lparr>vma_mem := (vma_mem s)\<lparr>is_finalize := True\<rparr>\<rparr>"
  note F = finalize_links [where s = s, folded s0_def]
  have c: "cache_core (allocated s0) us s0" "cache_inv s0" using us assms by (simp_all add: F)
  obtain s' where s': "finalize_evict s = Inr s'" "cache_inv s'" "cache_core (allocated s') [] s'" "in_use_kept s0 s'" "allocated s' = allocated s0 - set us"
    using evict_all_ok [OF c(2,1), of "Suc rdma_ndreg_entries"] core_bound [OF us]
    unfolding finalize_evict_def s0_def [symmetric] by (meson le_imp_less_Suc)
  have kept: "in_use_kept s s'" using s'(4) by (simp add: in_use_kept_def refs_def F)
  have al: "allocated s' = {d \<in> allocated s. 0 < refcount (dregs s d)}"
  proof -
    have "set us = {d \<in> allocated s. refcount (dregs s d) = 0}" "\<forall>d \<in> allocated s. 0 \<le> refcount (dregs s d)"
      using us by (simp_all add: cache_core_def entry_ok_def)
    then show ?thesis unfolding s'(5) F by force
  qed
  have "handles (allocated s') s' = handles (allocated s') s"
    unfolding handles_def al
  proof (rule image_mset_cong)
    show "memhandle (dregs s' d) = memhandle (dregs s d)" if "d \<in># mset_set {d \<in> allocated s. 0 < refcount (dregs s d)}" for d
      using that kept data_parts(7) [of "dregs s' d" "dregs s d"] us by (simp add: in_use_kept_def cache_core_def)
  qed
  then show ?thesis using s'(1-3) kept al by (auto simp: cache_core_def unused_is_def)
qed

section \<open>Memory that is returned to the system\<close>

definition idle :: "nat set \<Rightarrow> dreg_state \<Rightarrow> nat set" where
  "idle A s = {d \<in> A. is_valid (dregs s d) \<and> refcount (dregs s d) = 0}"

text \<open>No lookup that starts at the page finds an entry without references.\<close>

definition page_clear :: "nat set \<Rightarrow> nat \<Rightarrow> dreg_state \<Rightarrow> bool" where
  "page_clear A p s \<longleftrightarrow> cover (dregs s) (valid_of A s) p = {}
     \<or> (\<exists>d \<in> cover (dregs s) (valid_of A s) p. refcount (dregs s d) \<noteq> 0
          \<and> (\<forall>e \<in> cover (dregs s) (valid_of A s) p. DREG_END (dregs s e) \<le> DREG_END (dregs s d)))"

text \<open>Only the validity of entries without references changes.\<close>

definition withdrawn :: "dreg_state \<Rightarrow> dreg_state \<Rightarrow> bool" where
  "withdrawn s s' \<longleftrightarrow> dreg_free_list s' = dreg_free_list s \<and> is_dreg_initialized s' = is_dreg_initialized s \<and> delayed_buf_region s' = delayed_buf_region s
     \<and> mr_log s' = mr_log s
     \<and> (\<forall>x. data (dregs s' x) = data (dregs s x) \<or> refcount (dregs s x) = 0 \<and> data (dregs s' x) = data ((dregs s x)\<lparr>is_valid := False\<rparr>))"

lemma withdrawn_trans:
  assumes "withdrawn s s'" "withdrawn s' s''"
  shows "withdrawn s s''"
proof -
  have "data (dregs s'' x) = data (dregs s x) \<or> refcount (dregs s x) = 0 \<and> data (dregs s'' x) = data ((dregs s x)\<lparr>is_valid := False\<rparr>)" for x
  proof -
    have a: "data (dregs s' x) = data (dregs s x) \<or> refcount (dregs s x) = 0 \<and> data (dregs s' x) = data ((dregs s x)\<lparr>is_valid := False\<rparr>)"
      "data (dregs s'' x) = data (dregs s' x) \<or> refcount (dregs s' x) = 0 \<and> data (dregs s'' x) = data ((dregs s' x)\<lparr>is_valid := False\<rparr>)"
      using assms unfolding withdrawn_def by blast+
    then show ?thesis by (auto simp: data_eq)
  qed
  then show ?thesis using assms unfolding withdrawn_def by simp
qed

lemma withdrawn_parts:
  assumes "withdrawn s s'"
  shows "refcount (dregs s' x) = refcount (dregs s x)" "DREG_END (dregs s' x) = DREG_END (dregs s x)" "entry_pages (dregs s' x) = entry_pages (dregs s x)"
    "is_valid (dregs s' x) \<Longrightarrow> is_valid (dregs s x)" "refcount (dregs s x) \<noteq> 0 \<Longrightarrow> data (dregs s' x) = data (dregs s x)"
proof -
  have "data (dregs s' x) = data (dregs s x) \<or> refcount (dregs s x) = 0 \<and> data (dregs s' x) = data ((dregs s x)\<lparr>is_valid := False\<rparr>)"
    using assms unfolding withdrawn_def by blast
  then show "refcount (dregs s' x) = refcount (dregs s x)" "DREG_END (dregs s' x) = DREG_END (dregs s x)" "entry_pages (dregs s' x) = entry_pages (dregs s x)"
    "is_valid (dregs s' x) \<Longrightarrow> is_valid (dregs s x)" "refcount (dregs s x) \<noteq> 0 \<Longrightarrow> data (dregs s' x) = data (dregs s x)"
    by (auto simp: data_eq DREG_END_def DREG_BEGIN_def entry_pages_def)
qed

lemma page_clear_withdrawn:
  assumes "page_clear A p s" "withdrawn s s'"
  shows "page_clear A p s'"
proof -
  note w = withdrawn_parts [OF assms(2)]
  have sub: "cover (dregs s') (valid_of A s') p \<subseteq> cover (dregs s) (valid_of A s) p"
    using w(3,4) by (auto simp: cover_def valid_of_def)
  have stay: "d \<in> cover (dregs s') (valid_of A s') p" if "d \<in> cover (dregs s) (valid_of A s) p" "refcount (dregs s d) \<noteq> 0" for d
    using that w(3) data_parts(5) [OF w(5)] by (auto simp: cover_def valid_of_def)
  show ?thesis using assms(1) sub stay unfolding page_clear_def w(1,2) by blast
qed

lemma withdraw_step:
  assumes core: "cache_core A us s" and d: "d \<in> idle A s"
  shows "\<exists>rc s1. dreg_remove d (upd_dreg d (\<lambda>e. e\<lparr>is_valid := False\<rparr>) s) = Inr (rc, s1) \<and> cache_core A us (s1\<lparr>deregister_mr_array := x\<rparr>)
    \<and> withdrawn s (s1\<lparr>deregister_mr_array := x\<rparr>) \<and> idle A (s1\<lparr>deregister_mr_array := x\<rparr>) = idle A s - {d}"
proof -
  define s0 where "s0 = upd_dreg d (\<lambda>e. e\<lparr>is_valid := False\<rparr>) s"
  have dA: "d \<in> A" "refcount (dregs s d) = 0" using d by (auto simp: idle_def)
  have s0: "dregs s0 = (dregs s)(d := (dregs s d)\<lparr>is_valid := False\<rparr>)" "db_part s0 = db_part s" by (simp_all add: s0_def)
  obtain rc s1 where s1: "dreg_remove d s0 = Inr (rc, s1)" "links_inv s1" "lists_inv (cover (dregs s1) (valid_of A s1)) s1" "cache_part s1 = cache_part s0"
    using dreg_remove_gone [OF core dA(1) s0(2)] by (auto simp: s0(1))
  note f = cache_part_eq [OF s1(4)]
  define s2 where "s2 = s1\<lparr>deregister_mr_array := x\<rparr>"
  have s2: "dregs s2 = (dregs s)(d := (dregs s d)\<lparr>is_valid := False\<rparr>)" "db_part s2 = db_part s1" "mr_log s2 = mr_log s"
      "dreg_unused_list s2 = dreg_unused_list s" "dreg_unused_tail s2 = dreg_unused_tail s"
      "dreg_free_list s2 = dreg_free_list s" "is_dreg_initialized s2 = is_dreg_initialized s" "delayed_buf_region s2 = delayed_buf_region s"
    using f by (simp_all add: s2_def s0(1) db_part_def) (simp_all add: s0_def upd_dreg_def)
  have l2: "lists_inv (cover (dregs s2) (valid_of A s2)) s2"
    using lists_inv_cong [OF s1(3,2) s2(2)] by (simp add: s2_def valid_of_def)
  have u: "unused_is us s2" using core s2 dll_cong [of us "dregs s2" "dregs s"] by (auto simp: cache_core_def unused_is_def)
  have same: "refcount (dregs s2 x) = refcount (dregs s x)" "memhandle (dregs s2 x) = memhandle (dregs s x)" for x by (simp_all add: s2(1))
  have "\<forall>x \<in> A. entry_ok (dregs s2 x)" using core dA(2) by (auto simp: cache_core_def entry_ok_def s2(1))
  then have "cache_core A us s2" using core l2 u s1(2) links_inv_cong [OF s2(2)] s2(3) same by (simp add: cache_core_def handles_def)
  moreover have "withdrawn s s2" using s2 dA(2) by (simp add: withdrawn_def)
  moreover have "idle A s2 = idle A s - {d}" by (auto simp: idle_def s2(1))
  ultimately show ?thesis using s1(1) by (auto simp: s0_def s2_def)
qed

lemma withdrawn_refl: "withdrawn s s"
  by (simp add: withdrawn_def)

lemma withdraw_loop_ok:
  "cache_core A us s \<Longrightarrow> deregister_mr_array s = Some ds \<Longrightarrow> length ds + card (idle A s) \<le> rdma_ndreg_entries \<Longrightarrow> card (idle A s) < fuel \<Longrightarrow>
   \<exists>s' ds'. withdraw_loop fuel p p s = Inr s' \<and> cache_core A us s' \<and> withdrawn s s' \<and> page_clear A p s' \<and> deregister_mr_array s' = Some ds'
     \<and> length ds' + card (idle A s') = length ds + card (idle A s)"
proof (induction fuel arbitrary: s ds)
  case (Suc fuel)
  let ?cov = "cover (dregs s) (valid_of A s)"
  note L = dreg_lookup_ok [OF core_lists(2) [OF Suc.prems(1)] core_lists(1) [OF Suc.prems(1)], of p p]
  have fin: "finite (idle A s)" using Suc.prems(1) by (simp add: idle_def cache_core_def)
  have end_: "p \<le> DREG_END (dregs s e)" if "e \<in> ?cov p" for e using that by (simp add: cover_def entry_pages_def)
  consider (none) "dreg_lookup p p s = None" "?cov p = {}"
    | (busy) d where "dreg_lookup p p s = Some d" "refcount (dregs s d) \<noteq> 0" "d \<in> ?cov p" "\<forall>e \<in> ?cov p. DREG_END (dregs s e) \<le> DREG_END (dregs s d)"
    | (idle) d where "dreg_lookup p p s = Some d" "refcount (dregs s d) = 0" "is_valid (dregs s d)" "d \<in> idle A s"
  proof (cases "dreg_lookup p p s")
    case None
    then show ?thesis using L end_ none by fastforce
  next
    case (Some d)
    then have "d \<in> ?cov p" "\<forall>e \<in> ?cov p. DREG_END (dregs s e) \<le> DREG_END (dregs s d)" using L by auto
    moreover from this have "d \<in> A" "is_valid (dregs s d)" by (auto simp: cover_def valid_of_def)
    ultimately show ?thesis using Some busy [of d] idle [of d] by (cases "refcount (dregs s d) = 0") (auto simp: idle_def)
  qed
  then show ?case
  proof cases
    case none
    then show ?thesis using Suc.prems withdrawn_refl by (auto simp: page_clear_def)
  next
    case busy
    then show ?thesis using Suc.prems withdrawn_refl by (auto simp: page_clear_def)
  next
    case idle
    obtain rc s1 where s1: "dreg_remove d (upd_dreg d (\<lambda>e. e\<lparr>is_valid := False\<rparr>) s) = Inr (rc, s1)"
        "cache_core A us (s1\<lparr>deregister_mr_array := Some (ds @ [d])\<rparr>)" "withdrawn s (s1\<lparr>deregister_mr_array := Some (ds @ [d])\<rparr>)"
        "idle A (s1\<lparr>deregister_mr_array := Some (ds @ [d])\<rparr>) = idle A s - {d}"
      using withdraw_step [OF Suc.prems(1) idle(4)] by blast
    define s2 where "s2 = s1\<lparr>deregister_mr_array := Some (ds @ [d])\<rparr>"
    have c: "card (idle A s2) = card (idle A s) - 1" "0 < card (idle A s)" using s1(4) idle(4) fin by (auto simp: s2_def card_gt_0_iff)
    have len: "length ds < rdma_ndreg_entries" using c(2) Suc.prems(3) by simp
    have "length (ds @ [d]) + card (idle A s2) \<le> rdma_ndreg_entries" "card (idle A s2) < fuel" using c Suc.prems(3,4) by auto
    then obtain s' ds' where s': "withdraw_loop fuel p p s2 = Inr s'" "cache_core A us s'" "withdrawn s2 s'" "page_clear A p s'"
        "deregister_mr_array s' = Some ds'" "length ds' + card (idle A s') = length (ds @ [d]) + card (idle A s2)"
      using Suc.IH [of s2 "ds @ [d]"] s1(2) by (auto simp: s2_def)
    have "withdraw_loop (Suc fuel) p p s = withdraw_loop fuel p p s2"
      using idle(1-3) Suc.prems(2) len s1(1) by (simp add: s2_def)
    then show ?thesis using s' c withdrawn_trans [OF s1(3)] by (auto simp: s2_def)
  qed
qed simp

definition region_ok :: "u64 \<Rightarrow> u64 \<Rightarrow> bool" where
  "region_ok buf len \<longleftrightarrow> buffer_ok buf len \<and> last_page buf len - first_page buf + 1 < 2 ^ 32"

lemma npages_eq:
  assumes "buffer_ok buf len"
  shows "unat (npages_of buf len) = last_page buf len - first_page buf + 1"
proof -
  define e where "e = \<lparr>pagenum = unat (pagenum_low buf), npages = unat (npages_of buf len), refcount = 0, memhandle = 0, next_unused = None, prev_unused = None,
      is_valid = False\<rparr>"
  have "pagenum e = first_page buf" using entry_range(1) [OF assms, of e] by (simp add: e_def DREG_BEGIN_def)
  moreover have "(pagenum e + npages e + (2 ^ 64 - 1)) mod 2 ^ 64 = last_page buf len" using entry_range(2) [OF assms, of e] by (simp add: e_def DREG_END_def)
  moreover have "npages e < 2 ^ 64" using unsigned_less [of "npages_of buf len"] by (simp add: e_def)
  ultimately have "npages e = last_page buf len - first_page buf + 1"
    using page_bounds [OF assms] by (auto simp: mod_if split: if_splits)
  then show ?thesis by (simp add: e_def)
qed

text \<open>The address of the page with number \<open>i\<close> of a buffer.\<close>

lemma page_address:
  assumes "buffer_ok buf len" "i < unat (npages_of buf len)"
  defines "addr \<equiv> pagebase_low_a buf + word_of_nat (i * DREG_PAGESIZE)"
  shows "unat (drop_bit DREG_PAGEBITS addr) = first_page buf + i" "unat (drop_bit DREG_PAGEBITS (addr + word_of_nat DREG_PAGESIZE - 1)) = first_page buf + i"
proof -
  have i: "first_page buf + i < 2 ^ 52" using assms(2) page_bounds [OF assms(1)] by (simp add: npages_eq [OF assms(1)])
  have "drop_bit 12 buf = (word_of_nat (unat (drop_bit 12 buf)) :: u64)" by simp
  then have fp: "drop_bit 12 buf = (word_of_nat (first_page buf) :: u64)"
    using unat_drop_page [of buf] by (simp only: DREG_PAGEBITS_def first_page_def)
  have "pagebase_low_a buf = push_bit 12 (drop_bit 12 buf)"
    by (rule bit_word_eqI) (auto simp: pagebase_low_a_def pagemask_eq DREG_PAGEBITS_def bit_simps)
  then have "pagebase_low_a buf = word_of_nat (first_page buf * 2 ^ 12)" unfolding fp by (simp add: push_bit_eq_mult)
  then have addr: "addr = word_of_nat ((first_page buf + i) * 4096)"
    by (simp add: addr_def DREG_PAGESIZE_def distrib_right)
  then have next_: "addr + word_of_nat DREG_PAGESIZE - 1 = word_of_nat ((first_page buf + i) * 4096 + 4095)"
    by (simp add: DREG_PAGESIZE_def)
  have u: "unat (word_of_nat n :: u64) = n" if "n < 2 ^ 64" for n using that by (simp only: unsigned_of_nat) (simp add: take_bit_nat_eq_self)
  show "unat (drop_bit DREG_PAGEBITS addr) = first_page buf + i"
    unfolding unat_drop_page addr using i by (subst u) simp_all
  show "unat (drop_bit DREG_PAGEBITS (addr + word_of_nat DREG_PAGESIZE - 1)) = first_page buf + i"
    unfolding unat_drop_page next_ using i by (subst u) simp_all
qed

definition clear_all :: "nat set \<Rightarrow> u64 \<Rightarrow> u64 \<Rightarrow> dreg_state \<Rightarrow> bool" where
  "clear_all A buf len s \<longleftrightarrow> (\<forall>p \<in> {first_page buf..last_page buf len}. page_clear A p s)"

lemma card_idle_bound: "card (idle (allocated s) s) < Suc rdma_ndreg_entries"
proof -
  have "idle (allocated s) s \<subseteq> {..<rdma_ndreg_entries}" by (auto simp: idle_def allocated_def)
  from card_mono [OF finite_lessThan this] show ?thesis by simp
qed

lemma withdrawn_allocated: "withdrawn s s' \<Longrightarrow> allocated s' = allocated s"
  by (simp add: withdrawn_def allocated_def)

declare withdraw_loop.simps [simp del]

lemma withdraw_pages_ok:
  "cache_core (allocated s) us s \<Longrightarrow> deregister_mr_array s = Some ds \<Longrightarrow> length ds + card (idle (allocated s) s) \<le> rdma_ndreg_entries \<Longrightarrow>
   buffer_ok buf len \<Longrightarrow> (\<forall>i \<in> set is. i < unat (npages_of buf len)) \<Longrightarrow>
   \<exists>s' ds'. withdraw_pages (pagebase_low_a buf) is s = Inr s' \<and> cache_core (allocated s) us s' \<and> withdrawn s s'
     \<and> (\<forall>i \<in> set is. page_clear (allocated s) (first_page buf + i) s') \<and> deregister_mr_array s' = Some ds'
     \<and> length ds' + card (idle (allocated s) s') = length ds + card (idle (allocated s) s)"
proof (induction "is" arbitrary: s ds)
  case Nil
  then show ?case by (simp add: withdrawn_refl)
next
  case (Cons i js)
  let ?A = "allocated s"
  obtain s1 ds1 where s1: "withdraw_loop (Suc rdma_ndreg_entries) (first_page buf + i) (first_page buf + i) s = Inr s1" "cache_core ?A us s1" "withdrawn s s1"
      "page_clear ?A (first_page buf + i) s1" "deregister_mr_array s1 = Some ds1" "length ds1 + card (idle ?A s1) = length ds + card (idle ?A s)"
    using withdraw_loop_ok [OF Cons.prems(1-3) card_idle_bound, of "first_page buf + i"] by blast
  have A: "allocated s1 = ?A" by (rule withdrawn_allocated [OF s1(3)])
  obtain s' ds' where s': "withdraw_pages (pagebase_low_a buf) js s1 = Inr s'" "cache_core ?A us s'" "withdrawn s1 s'"
      "\<forall>j \<in> set js. page_clear ?A (first_page buf + j) s'" "deregister_mr_array s' = Some ds'" "length ds' + card (idle ?A s') = length ds1 + card (idle ?A s1)"
    using Cons.IH [of s1 ds1] s1(2,5,6) Cons.prems(3-5) by (auto simp: A)
  have "page_clear ?A (first_page buf + i) s'" by (rule page_clear_withdrawn [OF s1(4) s'(3)])
  moreover have "withdraw_pages (pagebase_low_a buf) (i # js) s = Inr s'"
    using s1(1) s'(1) page_address [OF Cons.prems(4), of i] Cons.prems(5) by (simp add: Let_def)
  ultimately show ?case using s' s1(6) withdrawn_trans [OF s1(3) s'(3)] by auto
qed

lemma withdraw_region_ok:
  assumes core: "cache_core (allocated s) us s" and ds: "deregister_mr_array s = Some ds" "length ds + card (idle (allocated s) s) \<le> rdma_ndreg_entries"
    and r: "region_ok buf len"
  shows "\<exists>s' ds'. withdraw_region buf len s = Inr s' \<and> cache_core (allocated s) us s' \<and> withdrawn s s' \<and> clear_all (allocated s) buf len s'
    \<and> deregister_mr_array s' = Some ds' \<and> length ds' + card (idle (allocated s) s') = length ds + card (idle (allocated s) s)"
proof -
  have b: "buffer_ok buf len" using r by (simp add: region_ok_def)
  let ?n = "unat (npages_of buf len)"
  have n: "?n = last_page buf len - first_page buf + 1" "?n < 2 ^ 32" using npages_eq [OF b] r by (simp_all add: region_ok_def)
  obtain s' ds' where s': "withdraw_pages (pagebase_low_a buf) [0..<?n] s = Inr s'" "cache_core (allocated s) us s'" "withdrawn s s'"
      "\<forall>i \<in> set [0..<?n]. page_clear (allocated s) (first_page buf + i) s'" "deregister_mr_array s' = Some ds'"
      "length ds' + card (idle (allocated s) s') = length ds + card (idle (allocated s) s)"
    using withdraw_pages_ok [OF core ds b, of "[0..<?n]"] by auto
  have "page_clear (allocated s) p s'" if p: "p \<in> {first_page buf..last_page buf len}" for p
  proof -
    have "p - first_page buf \<in> set [0..<?n]" "p = first_page buf + (p - first_page buf)" using p n(1) by auto
    then show ?thesis using s'(4) by metis
  qed
  then show ?thesis using s' n(2) by (auto simp: withdraw_region_def Let_def clear_all_def)
qed

lemma withdraw_regions_ok:
  "cache_core (allocated s) us s \<Longrightarrow> deregister_mr_array s = Some ds \<Longrightarrow> length ds + card (idle (allocated s) s) \<le> rdma_ndreg_entries \<Longrightarrow>
   (\<forall>(b, l) \<in> set rs. region_ok b l) \<Longrightarrow>
   \<exists>s'. withdraw_regions rs s = Inr s' \<and> cache_core (allocated s) us s' \<and> withdrawn s s' \<and> (\<forall>(b, l) \<in> set rs. clear_all (allocated s) b l s')"
proof (induction rs arbitrary: s ds)
  case Nil
  then show ?case by (simp add: withdrawn_refl)
next
  case (Cons r rs)
  obtain b l where r: "r = (b, l)" by (cases r)
  let ?A = "allocated s"
  obtain s1 ds1 where s1: "withdraw_region b l s = Inr s1" "cache_core ?A us s1" "withdrawn s s1" "clear_all ?A b l s1"
      "deregister_mr_array s1 = Some ds1" "length ds1 + card (idle ?A s1) = length ds + card (idle ?A s)"
    using withdraw_region_ok [OF Cons.prems(1-3), of b l] Cons.prems(4) r by auto
  have A: "allocated s1 = ?A" by (rule withdrawn_allocated [OF s1(3)])
  obtain s' where s': "withdraw_regions rs s1 = Inr s'" "cache_core ?A us s'" "withdrawn s1 s'" "\<forall>(b, l) \<in> set rs. clear_all ?A b l s'"
    using Cons.IH [of s1 ds1] s1(2,5,6) Cons.prems(3,4) by (auto simp: A)
  have "clear_all ?A b l s'" using s1(4) page_clear_withdrawn [OF _ s'(3)] by (simp add: clear_all_def)
  then show ?case using s1(1) s' withdrawn_trans [OF s1(3) s'(3)] r by auto
qed

lemma find_and_free_ok:
  assumes "cache_inv s" "is_dreg_initialized s" "deregister_mr_array s = Some ds" "length ds + card (idle (allocated s) s) \<le> rdma_ndreg_entries"
    and "delayed_buf_region s = Some rs" "\<forall>(b, l) \<in> set ((buf, len) # rs). region_ok b l"
  shows "\<exists>s'. find_and_free_dregs_inside False True buf len s = Inr s' \<and> cache_inv s' \<and> in_use_kept s s' \<and> mr_log s' = mr_log s \<and> is_dreg_initialized s'
    \<and> delayed_buf_region s' = Some [] \<and> (\<forall>(b, l) \<in> set ((buf, len) # rs). clear_all (allocated s') b l s')"
proof -
  obtain us where us: "cache_core (allocated s) us s" using assms(1) by (auto simp: cache_inv_def)
  obtain s1 where s1: "withdraw_regions ((buf, len) # rs) s = Inr s1" "cache_core (allocated s) us s1" "withdrawn s s1"
      "\<forall>(b, l) \<in> set ((buf, len) # rs). clear_all (allocated s) b l s1"
    using withdraw_regions_ok [OF us assms(3,4,6)] by blast
  define s' where "s' = s1\<lparr>delayed_buf_region := Some []\<rparr>"
  have A: "allocated s' = allocated s" using withdrawn_allocated [OF s1(3)] by (simp add: s'_def allocated_def)
  have w: "dreg_free_list s1 = dreg_free_list s" "delayed_buf_region s1 = Some rs" "mr_log s1 = mr_log s" "is_dreg_initialized s1"
    using s1(3) assms(2,5) by (auto simp: withdrawn_def)
  have e: "find_and_free_dregs_inside False True buf len s = Inr s'"
    using s1(1) assms(2,5) w(2) by (simp add: find_and_free_dregs_inside_def s'_def del: withdraw_regions.simps)
  have "cache_core (allocated s) us s'"
    by (rule core_cong [OF s1(2)]) (use s1(2) in \<open>simp_all add: s'_def db_part_def cache_core_def unused_is_def\<close>)
  then have "cache_inv s'" using assms(1) A w(1) by (auto simp: cache_inv_def s'_def)
  moreover have "in_use_kept s s'" using withdrawn_parts(1,5) [OF s1(3)] by (auto simp: in_use_kept_def refs_def A) (simp_all add: s'_def)
  moreover have "clear_all X b l s' = clear_all X b l s1" for X b l by (simp add: s'_def clear_all_def page_clear_def valid_of_def)
  ultimately show ?thesis using e w(3,4) s1(4) by (simp add: A) (simp add: s'_def)
qed
section \<open>Clients\<close>

text \<open>
  A run of the cache: \<open>H\<close> is the multiset of the entries a client has got from \<open>dreg_register\<close> and
  not given back. Memory hooks may run between the calls, with or without the lock.
\<close>

inductive dreg_run :: "(mr_event list \<Rightarrow> u64 \<Rightarrow> nat \<Rightarrow> u64) \<Rightarrow> dreg_state \<Rightarrow> nat multiset \<Rightarrow> bool" for reg where
  run_init: "dreg_init True True True s0 = Inr (rc, s) \<Longrightarrow> mr_log s0 = [] \<Longrightarrow> dreg_run reg s {#}"
| run_register: "dreg_run reg s H \<Longrightarrow> buffer_ok buf len \<Longrightarrow> dreg_register reg buf len s = Inr (Some d, s') \<Longrightarrow> dreg_run reg s' (add_mset d H)"
| run_full: "dreg_run reg s H \<Longrightarrow> buffer_ok buf len \<Longrightarrow> dreg_register reg buf len s = Inr (None, s') \<Longrightarrow> dreg_run reg s' H"
| run_unregister: "dreg_run reg s H \<Longrightarrow> d \<in># H \<Longrightarrow> dreg_unregister d s = Inr s' \<Longrightarrow> dreg_run reg s' (H - {#d#})"
| run_delay: "dreg_run reg s H \<Longrightarrow> region_ok buf len \<Longrightarrow> find_and_free_dregs_inside False False buf len s = Inr s' \<Longrightarrow> dreg_run reg s' H"
| run_hook: "dreg_run reg s H \<Longrightarrow> region_ok buf len \<Longrightarrow> deregister_mr_array s = Some ds \<Longrightarrow> length ds + card (idle (allocated s) s) \<le> rdma_ndreg_entries
    \<Longrightarrow> find_and_free_dregs_inside False True buf len s = Inr s' \<Longrightarrow> dreg_run reg s' H"

definition run_inv :: "dreg_state \<Rightarrow> nat multiset \<Rightarrow> bool" where
  "run_inv s H \<longleftrightarrow> cache_inv s \<and> is_dreg_initialized s \<and> (\<exists>rs. delayed_buf_region s = Some rs \<and> (\<forall>(b, l) \<in> set rs. region_ok b l))
     \<and> (\<forall>d. int (count H d) = refs s d)"

lemma init_needs_memory: "dreg_init True True True s0 = Inr x \<Longrightarrow> 0 < avl_left_over (vma_mem s0)"
  by (auto simp: dreg_init_def vma_db_init_def avlinit_def ckalloc_def split: if_splits)

lemma register_settings:
  assumes "cache_inv s" "buffer_ok buf len" "dreg_register reg buf len s = Inr (res, s')"
  shows "settings s' = settings s"
proof -
  obtain us where us: "cache_core (allocated s) us s" using assms(1) by (auto simp: cache_inv_def)
  have "loop_done buf len s (register_loop (Suc rdma_ndreg_entries) reg buf len s)"
    using core_bound [OF us] by (intro register_loop_ok [OF assms(1) us assms(2)]) simp
  then show ?thesis using assms(3)
    by (auto simp: dreg_register_def loop_done_def simp del: register_loop.simps split: option.splits)
qed

lemma run_inv_register:
  assumes inv: "run_inv s H" and buf: "buffer_ok buf len" and r: "dreg_register reg buf len s = Inr (res, s')"
  shows "run_inv s' (case res of None \<Rightarrow> H | Some d \<Rightarrow> add_mset d H)"
proof -
  have I: "cache_inv s" "is_dreg_initialized s" "settings s' = settings s"
    using inv register_settings [OF _ buf r] by (auto simp: run_inv_def)
  have C: "cache_inv s'" using register_ok [OF I(1,2) buf, of reg] r by auto
  have rd: "refs s' d = refcount (dregs s' d)" if "d \<in> allocated s'" for d using that by (simp add: refs_def)
  have R: "case res of
        None \<Rightarrow> (\<forall>x. refs s' x = refs s x)
      | Some d \<Rightarrow> refs s' d = refs s d + 1 \<and> (\<forall>x. x \<noteq> d \<longrightarrow> refs s' x = refs s x)"
    using register_ok [OF I(1,2) buf, of reg] r by (cases res) (auto simp: in_use_kept_def rd)
  then show ?thesis using C inv I(3) by (auto simp: run_inv_def settings_def split: option.splits)
qed

lemma run_inv_unregister:
  assumes inv: "run_inv s H" and d: "d \<in># H" and r: "dreg_unregister d s = Inr s'"
  shows "run_inv s' (H - {#d#})"
proof -
  have c: "int (count H x) = refs s x" for x using inv by (simp add: run_inv_def)
  have "0 < refs s d" using d c [of d] by (metis count_greater_zero_iff of_nat_0_less_iff)
  then have al: "d \<in> allocated s" "0 < refcount (dregs s d)" by (auto simp: refs_def split: if_splits)
  obtain s1 where s1: "dreg_unregister d s = Inr s1" "cache_inv s1" "allocated s1 = allocated s" "settings s1 = settings s"
      "\<forall>x. data (dregs s1 x) = (if x = d then data ((dregs s d)\<lparr>refcount := refcount (dregs s d) - 1\<rparr>) else data (dregs s x))"
    using unregister_ok [OF _ al] inv by (auto simp: run_inv_def)
  have "refs s1 x = refs s x - (if x = d then 1 else 0)" for x
    using s1(5) [rule_format, of x] al by (auto simp: refs_def s1(3) data_eq split: if_splits)
  moreover have "int (count (H - {#d#}) x) = int (count H x) - (if x = d then 1 else 0)" for x
    using d by (simp add: of_nat_diff Suc_leI)
  ultimately show ?thesis using inv s1 r c by (simp add: run_inv_def settings_def)
qed

lemma run_inv_delay:
  assumes "run_inv s H" "region_ok buf len" "find_and_free_dregs_inside False False buf len s = Inr s'"
  shows "run_inv s' H"
proof -
  obtain rs where rs: "delayed_buf_region s = Some rs" "\<forall>(b, l) \<in> set rs. region_ok b l" using assms(1) by (auto simp: run_inv_def)
  have s': "s' = s\<lparr>delayed_buf_region := Some (rs @ [(buf, len)])\<rparr>"
    using assms rs(1) by (auto simp: find_and_free_dregs_inside_def run_inv_def split: if_splits)
  obtain us where us: "cache_core (allocated s) us s" using assms(1) by (auto simp: run_inv_def cache_inv_def)
  have "cache_core (allocated s) us s'"
    by (rule core_cong [OF us]) (use us in \<open>simp_all add: s' db_part_def cache_core_def unused_is_def\<close>)
  moreover have "allocated s' = allocated s" by (simp add: s' allocated_def)
  moreover have "dreg_free_list s' = dreg_free_list s" "refs s' d = refs s d" for d by (simp_all add: s' refs_def allocated_def)
  ultimately have "cache_inv s'" "\<forall>d. int (count H d) = refs s' d" using assms(1) by (auto simp: run_inv_def cache_inv_def)
  then show ?thesis using assms(1,2) rs(2) by (auto simp: run_inv_def) (simp_all add: s')
qed

lemma run_inv_hook:
  assumes inv: "run_inv s H" and r: "region_ok buf len" "deregister_mr_array s = Some ds" "length ds + card (idle (allocated s) s) \<le> rdma_ndreg_entries"
    and e: "find_and_free_dregs_inside False True buf len s = Inr s'"
  shows "run_inv s' H"
proof -
  obtain rs where rs: "delayed_buf_region s = Some rs" "\<forall>(b, l) \<in> set ((buf, len) # rs). region_ok b l" using inv r(1) by (auto simp: run_inv_def)
  have "cache_inv s'" "in_use_kept s s'" "delayed_buf_region s' = Some []" "is_dreg_initialized s'"
    using find_and_free_ok [OF _ _ r(2,3) rs] inv e by (auto simp: run_inv_def)
  then show ?thesis using inv by (simp add: run_inv_def in_use_kept_def)
qed

lemma run_inv_always: "dreg_run reg s H \<Longrightarrow> run_inv s H"
proof (induction rule: dreg_run.induct)
  case (run_init s0 rc s)
  have "mr_balance (mr_log s0) = Some {#}" using run_init(2) by (simp add: mr_balance_def)
  from init_ok [OF init_needs_memory [OF run_init(1)] this] run_init(1) show ?case
    by (auto simp: run_inv_def settings_def refs_def allocated_def)
next
  case (run_register s H buf len d s')
  then show ?case using run_inv_register [of s H buf len reg "Some d" s'] by simp
next
  case (run_full s H buf len s')
  then show ?case using run_inv_register [of s H buf len reg None s'] by simp
next
  case (run_unregister s H d s')
  then show ?case using run_inv_unregister by blast
next
  case (run_delay s H buf len s')
  then show ?case using run_inv_delay by blast
next
  case (run_hook s H buf len ds s')
  then show ?case using run_inv_hook by blast
qed

end
