(* ===== verification/LC_Dreg_Spec.thy ===== *)
theory LC_Dreg_Spec
  imports LC_Dreg_Runs
begin

text \<open>
  What the registration cache of \<open>src/dreg/dreg.c\<close> promises to its clients. The example is a
  cache that has just been started, with one registration in it.
\<close>

section \<open>An example\<close>

definition ex_dreg0 :: dreg_state where
  "ex_dreg0 = \<lparr>vmas = (\<lambda>_. \<lparr>vm_start = 0, vm_end = 0, vm_list = [], vm_count = 0\<rparr>), vma_list = [], vma_tree = \<lparr>avl_root = NULL_TREE, avl_count = 0\<rparr>,
     vma_mem = \<lparr>cells = (\<lambda>_. 0), avl_free_list = [], avl_brk = 0, avl_left_over = 100, is_finalize = False\<rparr>, vma_free_list = [], vma_brk = 0,
     pinned_pages_count = 0, dregs = (\<lambda>_. \<lparr>pagenum = 0, npages = 0, refcount = 0, memhandle = 0, next_unused = None, prev_unused = None, is_valid = False\<rparr>),
     dreg_free_list = [], dreg_unused_list = None, dreg_unused_tail = None, dreg_inuse_count = 0, dreg_max_use_count = 0, is_dreg_initialized = False,
     deregister_mr_array = None, delayed_buf_region = None, mr_log = []\<rparr>"

definition ex_dreg :: dreg_state where
  "ex_dreg = ex_dreg0\<lparr>vma_mem := \<lparr>cells = (\<lambda>_. 0), avl_free_list = [], avl_brk = 1, avl_left_over = 99, is_finalize = False\<rparr>,
     dreg_free_list := [0..<rdma_ndreg_entries], is_dreg_initialized := True, deregister_mr_array := Some [], delayed_buf_region := Some []\<rparr>"

definition ex_reg :: "mr_event list \<Rightarrow> u64 \<Rightarrow> nat \<Rightarrow> u64" where
  "ex_reg l a n = 5"

definition ex_dreg1 :: dreg_state where
  "ex_dreg1 = (case dreg_register ex_reg 8192 100 ex_dreg of Inr (_, s) \<Rightarrow> s | Inl _ \<Rightarrow> ex_dreg)"

lemma ex_dreg_init: "dreg_init True True True ex_dreg0 = Inr (0, ex_dreg)"
  by (simp add: dreg_init_def vma_db_init_def avlinit_def ckalloc_def Let_def ex_dreg0_def ex_dreg_def)

lemma ex_buffer: "buffer_ok 8192 100" "first_page 8192 = 2" "last_page 8192 100 = 2"
  by (simp_all add: buffer_ok_def first_page_def last_page_def)

lemma ex_pages: "pagenum_low 8192 = 2" "npages_of 8192 100 = 1" "pagebase_low_a 8192 = 8192"
  by code_simp+

lemma ex_free: "[0..<rdma_ndreg_entries] = 0 # [1..<rdma_ndreg_entries]"
proof -
  have "0 < rdma_ndreg_entries" by (simp add: rdma_ndreg_entries_def)
  from upt_conv_Cons [OF this] show ?thesis by simp
qed

lemma ex_core: "cache_core {} [] ex_dreg" "cache_inv ex_dreg" "is_dreg_initialized ex_dreg"
proof -
  have "0 < avl_left_over (vma_mem ex_dreg0)" "mr_balance (mr_log ex_dreg0) = Some {#}" by (simp_all add: ex_dreg0_def mr_balance_def)
  from init_ok [OF this] show "cache_core {} [] ex_dreg" "cache_inv ex_dreg" "is_dreg_initialized ex_dreg" by (auto simp: ex_dreg_init settings_def)
qed

lemma ex_registers: "dreg_register ex_reg 8192 100 ex_dreg = Inr (Some 0, ex_dreg1)"
proof -
  have "dreg_find 8192 100 ex_dreg = None"
    by (simp add: dreg_find_def dreg_lookup_def vma_search_def avlfindex_def avl_find_def ex_dreg_def ex_dreg0_def)
  moreover obtain s0 where g: "dreg_get ex_dreg = (Some 0, s0)" "db_part s0 = db_part ex_dreg"
    by (simp add: dreg_get_def DREG_GET_FROM_FREE_LIST_def ex_dreg_def ex_free db_part_def upd_dreg_def)
  define s1 where "s1 = upd_dreg 0 (\<lambda>e. e\<lparr>pagenum := 2, npages := 1\<rparr>) s0"
  have db: "db_part s1 = db_part ex_dreg" using g(2) by (simp add: s1_def)
  have v: "vma_list s1 = []" "avl_left_over (vma_mem s1) = 99" using db by (simp_all add: db_part_def ex_dreg_def ex_dreg0_def)
  have e: "DREG_BEGIN (dregs s1 0) = 2" "DREG_END (dregs s1 0) = 2" by (simp_all add: s1_def DREG_BEGIN_def DREG_END_def)
  have "links_inv s1" using ex_core(1) links_inv_cong [OF db] by (simp add: cache_core_def)
  then have "insert_done (\<lambda>_. {}) 0 2 2 4 s1 (dreg_insert 0 s1)"
    using dreg_insert_ok [of s1 "\<lambda>_. {}" 0] by (simp add: e v lists_inv_def)
  then obtain s2 where s2: "dreg_insert 0 s1 = Inr (0, s2)" by (auto simp: insert_done_def v)
  have "\<exists>s'. dreg_new_entry ex_reg 8192 100 ex_dreg = Inr (Some 0, s')"
    using g(1) s2 by (simp add: dreg_new_entry_def rdma_dreg_cache_limit_def ex_pages s1_def get_dma_mem_def ex_reg_def Let_def)
  ultimately have "\<exists>s'. dreg_register ex_reg 8192 100 ex_dreg = Inr (Some 0, s')" by (auto simp: dreg_register_def)
  then show ?thesis by (auto simp: ex_dreg1_def)
qed

lemma ex_refs: "refs ex_dreg 0 = 0"
  by (simp add: refs_def allocated_def ex_dreg_def ex_free)

lemma ex_one: "cache_inv ex_dreg1" "refs ex_dreg1 0 = 1" "0 \<in> allocated ex_dreg1" "settings ex_dreg1 = (True, Some [], Some [])"
proof -
  show "cache_inv ex_dreg1" "refs ex_dreg1 0 = 1" "0 \<in> allocated ex_dreg1"
    using register_ok [OF ex_core(2,3) ex_buffer(1), of ex_reg] by (auto simp: ex_registers ex_refs refs_def [of ex_dreg1])
  show "settings ex_dreg1 = (True, Some [], Some [])"
    using register_settings [OF ex_core(2) ex_buffer(1) ex_registers] by (simp add: settings_def ex_dreg_def)
qed

lemma ex_dreg_run: "dreg_run ex_reg ex_dreg1 {#0#}"
  using run_register [OF run_init [OF ex_dreg_init] ex_buffer(1) ex_registers] by (simp add: ex_dreg0_def)

section \<open>Registration\<close>

text \<open>
  Property C10. A registration covers the buffer and is counted: \<open>dreg_register\<close> either ends the
  process because memory for a tree node is exhausted, or keeps the invariant of the cache; an
  entry it returns holds a valid registration of all pages of the buffer and one reference more
  than before, every other entry in use is left alone, and it fails only when nothing is left
  to evict.
\<close>

theorem dreg_register_covers:
  assumes "cache_inv s" "is_dreg_initialized s" "buffer_ok buf len"
  shows "dreg_register reg buf len s = Inl Exit_failure \<or> (\<exists>res s'. dreg_register reg buf len s = Inr (res, s') \<and> cache_inv s'
    \<and> (case res of
        None \<Rightarrow> dreg_unused_list s' = None \<and> in_use_kept s s'
      | Some d \<Rightarrow> d \<in> allocated s' \<and> registered buf len d s'
          \<and> refcount (dregs s' d) = refs s d + 1 \<and> (\<forall>x. x \<noteq> d \<longrightarrow> refs s' x = refs s x)
          \<and> (\<forall>x \<in> allocated s. 0 < refcount (dregs s x) \<and> x \<noteq> d \<longrightarrow> x \<in> allocated s' \<and> data (dregs s' x) = data (dregs s x))))"
  by (rule register_ok [OF assms])

theorem dreg_register_covers_witness:
  "cache_inv ex_dreg \<and> is_dreg_initialized ex_dreg \<and> buffer_ok 8192 100 \<and> cache_inv ex_dreg1 \<and> registered 8192 100 0 ex_dreg1
    \<and> refcount (dregs ex_dreg1 0) = 1"
  using dreg_register_covers [OF ex_core(2,3) ex_buffer(1), of ex_reg] ex_core ex_buffer(1)
  by (simp add: ex_registers ex_refs)

text \<open>
  Property C27. The cache finds a registration whenever there is one: \<open>dreg_find\<close> returns an entry
  that covers the buffer, and returns nothing only if no entry does.
\<close>

theorem dreg_find_complete:
  assumes "cache_inv s" "is_dreg_initialized s" "buffer_ok buf len"
  shows "case dreg_find buf len s of
      Some d \<Rightarrow> d \<in> allocated s \<and> registered buf len d s
    | None \<Rightarrow> \<not> (\<exists>d \<in> allocated s. registered buf len d s)"
proof -
  obtain us where "cache_core (allocated s) us s" using assms(1) by (auto simp: cache_inv_def)
  from find_cases [OF this assms(2,3)] show ?thesis by (auto split: option.splits)
qed

theorem dreg_find_complete_witness:
  "cache_inv ex_dreg1 \<and> is_dreg_initialized ex_dreg1 \<and> buffer_ok 8192 100 \<and> (\<exists>d. dreg_find 8192 100 ex_dreg1 = Some d \<and> d \<in> allocated ex_dreg1)"
proof -
  have r: "registered 8192 100 0 ex_dreg1"
    using register_ok [OF ex_core(2,3) ex_buffer(1), of ex_reg] by (simp add: ex_registers)
  have i: "is_dreg_initialized ex_dreg1" using ex_one(4) by (simp add: settings_def)
  show ?thesis using dreg_find_complete [OF ex_one(1) i ex_buffer(1)] r i ex_one(1,3) ex_buffer(1) by (auto split: option.splits)
qed

section \<open>Memory hooks and finalisation\<close>



text \<open>
  Property C28. At the end every registration without references is given back: the loop of
  \<open>dreg_finalize\<close> ends, and the handles that are registered afterwards are exactly those of the
  entries still in use; no handle has been freed twice.
\<close>

theorem finalize_frees_unused:
  assumes "cache_inv s"
  shows "\<exists>s'. finalize_evict s = Inr s' \<and> cache_inv s' \<and> dreg_unused_list s' = None
    \<and> allocated s' = {d \<in> allocated s. 0 < refcount (dregs s d)} \<and> in_use_kept s s'
    \<and> mr_balance (mr_log s') = Some (handles {d \<in> allocated s. 0 < refcount (dregs s d)} s)"
  by (rule finalize_ok [OF assms])

theorem finalize_frees_unused_witness:
  "cache_inv ex_dreg1 \<and> (\<exists>s'. finalize_evict ex_dreg1 = Inr s' \<and> cache_inv s' \<and> dreg_unused_list s' = None)"
  using finalize_frees_unused [OF ex_one(1)] ex_one(1) by auto

section \<open>Clients\<close>



end
