(* ===== verification/LC_Pmi_Util.thy ===== *)
theory LC_Pmi_Util
  imports LC_Strings
begin

text \<open>
  The utilities of the process manager client, \<open>src/pmi/simple_pmiutil.c\<close>: bounded string
  copies, buffered reading of lines, writing of lines, and the table of key-value pairs a line
  is parsed into.

  A character buffer is described by its capacity and by the C string it holds, so a
  \<^typ>\<open>string\<close> below never contains the terminating null; a store beyond the capacity ends in
  \<^const>\<open>Out_of_bounds\<close>. The messages of \<open>PMIU_printf\<close> go to a log and are left out.
\<close>

section \<open>Bounded copies\<close>

abbreviation NUL :: char where "NUL \<equiv> CHR 0x00"
abbreviation NL :: char where "NL \<equiv> CHR 0x0A"
abbreviation SP :: char where "SP \<equiv> CHR '' ''"
abbreviation EQS :: char where "EQS \<equiv> CHR ''=''"

definition PMIU_MAXLINE :: nat where "PMIU_MAXLINE = 1024"
definition MAXVALLEN :: nat where "MAXVALLEN = 1024"
definition MAXKEYLEN :: nat where "MAXKEYLEN = 32"
definition MAX_READLINE :: nat where "MAX_READLINE = 1024"
definition KEYVAL_TAB_LEN :: nat where "KEYVAL_TAB_LEN = 64"

text \<open>\<open>(int) n\<close> of a \<open>size_t\<close>.\<close>

definition int_of_size :: "u64 \<Rightarrow> int" where
  "int_of_size n = sint (ucast n :: u32)"

text \<open>
  The copying loop \<open>while (*s_ptr && i-- > 0) *d_ptr++ = *s_ptr++\<close>: \<open>w\<close> is what has been
  stored, the result has the final value of \<open>i\<close>.
\<close>

fun copy_loop :: "nat \<Rightarrow> string \<Rightarrow> int \<Rightarrow> string \<Rightarrow> (string \<times> int) res" where
  "copy_loop cap [] i w = Inr (w, i)"
| "copy_loop cap (c # s) i w =
     (if i > 0 then if length w < cap then copy_loop cap s (i - 1) (w @ [c]) else Inl Out_of_bounds
      else Inr (w, i - 1))"

definition MPIU_Strncpy :: "nat \<Rightarrow> string \<Rightarrow> string \<Rightarrow> u64 \<Rightarrow> (int \<times> string) res" where
  "MPIU_Strncpy cap dest src n =
     (if n = 0 then Inr (0, dest)
      else bind_res (copy_loop cap src (int_of_size n) []) (\<lambda>(w, i).
        if i > 0 then if length w < cap then Inr (0, w) else Inl Out_of_bounds
        else if unat (n - 1) < cap then Inr (1, take (unat (n - 1)) w) else Inl Out_of_bounds))"

text \<open>\<open>while (i-- > 0 && *d_ptr) d_ptr++\<close>: how far the pointer moves, and \<open>i\<close>.\<close>

fun skip_loop :: "string \<Rightarrow> int \<Rightarrow> nat \<Rightarrow> nat \<times> int" where
  "skip_loop [] i k = (k, i - 1)"
| "skip_loop (c # s) i k = (if i > 0 then skip_loop s (i - 1) (Suc k) else (k, i - 1))"

definition MPIU_Strnapp :: "nat \<Rightarrow> string \<Rightarrow> string \<Rightarrow> u64 \<Rightarrow> (int \<times> string) res" where
  "MPIU_Strnapp cap dest src n =
     (let (k, i) = skip_loop dest (int_of_size n) 0
      in if i \<le> 0 then Inr (1, dest)
         else bind_res (copy_loop cap src i dest) (\<lambda>(w, i).
           if i \<ge> 0 then if length w < cap then Inr (0, w) else Inl Out_of_bounds
           else if 0 < length w then Inr (1, butlast w) else Inl Out_of_bounds))"

subsection \<open>What the copies do\<close>

lemma int_of_size_small:
  assumes "m < 2 ^ 31"
  shows "int_of_size (of_nat m) = int m"
proof -
  have "ucast (of_nat m :: u64) = (of_nat m :: u32)"
    by transfer simp
  then have "sint (ucast (of_nat m :: u64) :: u32) = signed_take_bit 31 (int m)"
    by (simp add: signed_of_nat)
  also have "\<dots> = int m" using assms by (intro signed_take_bit_int_eq_self) simp_all
  finally show ?thesis by (simp add: int_of_size_def)
qed

lemma unat_size_minus_1:
  assumes "0 < m" "m < 2 ^ 31"
  shows "unat (of_nat m - 1 :: u64) = m - 1" "(of_nat m :: u64) \<noteq> 0"
proof -
  obtain k where m: "m = Suc k" using assms(1) by (cases m) auto
  then have "k < 2 ^ 64" "m < 2 ^ 64" using assms(2) by simp_all
  then have k: "unat (of_nat k :: u64) = k" "unat (of_nat m :: u64) = m"
    by (simp_all add: unsigned_of_nat take_bit_nat_eq_self_iff)
  show "unat (of_nat m - 1 :: u64) = m - 1" using k(1) by (simp add: m)
  show "(of_nat m :: u64) \<noteq> 0" using k(2) assms(1) by (metis less_irrefl unsigned_0)
qed

lemma copy_loop_fits:
  assumes "int (length s) \<le> i" "length w + length s \<le> cap"
  shows "copy_loop cap s i w = Inr (w @ s, i - int (length s))"
  using assms by (induction s arbitrary: i w) auto

lemma copy_loop_cut:
  assumes "0 \<le> i" "i < int (length s)" "length w + nat i \<le> cap"
  shows "copy_loop cap s i w = Inr (w @ take (nat i) s, - 1)"
  using assms by (induction s arbitrary: i w) (auto simp: nat_diff_distrib take_Cons' not_less)

lemma skip_loop_fits: "int (length s) < i \<Longrightarrow> skip_loop s i k = (k + length s, i - int (length s) - 1)"
  by (induction s arbitrary: i k) auto

text \<open>
  A copy into a buffer that has the room it is told of stays inside it. It succeeds exactly when
  the string and its null fit, and otherwise keeps the first \<open>n - 1\<close> characters.
\<close>

lemma MPIU_Strncpy_ok:
  assumes "0 < m" "m < 2 ^ 31" "m \<le> cap"
  shows "MPIU_Strncpy cap dest src (of_nat m) =
           (if length src < m then Inr (0, src) else Inr (1, take (m - 1) src))"
proof -
  have "copy_loop cap src (int m) [] = Inr (src, int m - int (length src))" if "length src \<le> m"
    using copy_loop_fits [of src "int m" "[]" cap] that assms by simp
  moreover have "copy_loop cap src (int m) [] = Inr (take m src, - 1)" if "m < length src"
    using copy_loop_cut [of "int m" src "[]" cap] that assms by simp
  ultimately show ?thesis
    using assms unat_size_minus_1 [OF assms(1,2)] int_of_size_small [OF assms(2)]
    by (cases "length src < m"; cases "length src = m") (simp_all add: MPIU_Strncpy_def min_def)
qed

text \<open>
  Appending reports success exactly when the result and its null fit, the full buffer apart:
  a destination of \<open>n - 1\<close> characters counts as an error even for the empty string.
\<close>

lemma MPIU_Strnapp_ok:
  assumes "m < 2 ^ 31" "m \<le> cap" "length dest < m"
  shows "MPIU_Strnapp cap dest src (of_nat m) =
    (if length dest = m - 1 then Inr (1, dest)
     else if length dest + length src < m then Inr (0, dest @ src)
     else Inr (1, take (m - 2) (dest @ src)))"
proof -
  let ?i = "int m - int (length dest) - 1"
  have k: "skip_loop dest (int_of_size (of_nat m)) 0 = (length dest, ?i)"
    using assms int_of_size_small [OF assms(1)] by (simp add: skip_loop_fits)
  have fits: "copy_loop cap src ?i dest = Inr (dest @ src, ?i - int (length src))"
    if "length dest + length src < m"
    using that assms by (intro copy_loop_fits) auto
  have cut: "copy_loop cap src ?i dest = Inr (dest @ take (m - length dest - 1) src, - 1)"
    if "\<not> length dest + length src < m"
  proof -
    have e: "nat ?i = m - length dest - 1" by linarith
    show ?thesis using copy_loop_cut [of ?i src dest cap] that assms unfolding e by simp
  qed
  have b: "butlast (dest @ take (m - length dest - 1) src) = take (m - 2) (dest @ src)"
    if "\<not> length dest + length src < m" "length dest \<noteq> m - 1"
  proof -
    have "m = length dest + (m - length dest - 2) + 2" using that(2) assms(3) by linarith
    then obtain r where r: "m = length dest + r + 2" ..
    then show ?thesis using that by (cases src; cases r) (auto simp: butlast_append butlast_take)
  qed
  show ?thesis using assms fits cut b
    by (cases "length dest = m - 1"; cases "length dest + length src < m") (auto simp: MPIU_Strnapp_def k)
qed

section \<open>Lines from and to the process manager\<close>

text \<open>
  The connection. \<open>io_in\<close> is what the next calls of \<open>read\<close> find: data that has arrived (an end
  of file when it is empty), an interruption by a signal, or an error. \<open>io_wr\<close> is what the next
  calls of \<open>write\<close> do, in order; when it is empty, a write takes the whole message. \<open>io_log\<close>
  is everything the process manager has received, from this process and the others; \<open>io_buf\<close>
  stands for the part of \<open>readbuf\<close> between \<open>nextChar\<close> and \<open>lastChar\<close>; \<open>io_open\<close>
  is false once the descriptor has been closed. Calls on a closed or negative descriptor fail.
\<close>

datatype rres = R_data string | R_intr | R_err
datatype wres = W_some nat | W_intr | W_err

record pmi_io =
  io_in :: "rres list"
  io_wr :: "wres list"
  io_log :: "string list"
  io_buf :: string
  io_lastfd :: int
  io_open :: bool

text \<open>
  The process manager itself is a parameter: what it sends after a message, given the messages
  it has received so far.
\<close>

type_synonym pm_server = "string list \<Rightarrow> rres list"

text \<open>\<open>do n = read(fd, readbuf, sizeof(readbuf)-1); while (n == -1 && errno == EINTR)\<close>.\<close>

fun sys_read :: "rres list \<Rightarrow> (string option \<times> rres list) res" where
  "sys_read [] = Inl Blocks"
| "sys_read (R_intr # es) = sys_read es"
| "sys_read (R_err # es) = Inr (None, es)"
| "sys_read (R_data d # es) = Inr (Some (take (MAX_READLINE - 1) d),
     if MAX_READLINE - 1 < length d then R_data (drop (MAX_READLINE - 1) d) # es else es)"

definition fd_ok :: "int \<Rightarrow> pmi_io \<Rightarrow> bool" where
  "fd_ok fd io \<longleftrightarrow> 0 \<le> fd \<and> io_open io"

definition pm_read :: "int \<Rightarrow> pmi_io \<Rightarrow> (string option \<times> rres list) res" where
  "pm_read fd io = (if fd_ok fd io then sys_read (io_in io) else Inr (None, io_in io))"

text \<open>
  The loop of \<open>PMIU_readline\<close> with \<open>room\<close> for \<open>maxlen - curlen\<close> more characters and
  \<open>acc\<close> stored so far: the line, the value returned, and the connection.
\<close>

fun readline_loop :: "nat \<Rightarrow> int \<Rightarrow> string \<Rightarrow> pmi_io \<Rightarrow> (string \<times> int \<times> pmi_io) res" where
  "readline_loop 0 fd acc io = Inr (acc, int (length acc), io)"
| "readline_loop (Suc room) fd acc io =
     (case io_buf io of
        c # cs \<Rightarrow>
          if c = NL then Inr (acc @ [c], int (length acc) + 1, io\<lparr>io_buf := cs\<rparr>)
          else readline_loop room fd (acc @ [c]) (io\<lparr>io_buf := cs\<rparr>)
      | [] \<Rightarrow> bind_res (pm_read fd io) (\<lambda>(r, es).
          case r of
            None \<Rightarrow> Inr (acc, if acc = [] then - 1 else int (length acc), io\<lparr>io_in := es, io_lastfd := fd\<rparr>)
          | Some [] \<Rightarrow> Inr (acc, int (length acc), io\<lparr>io_in := es, io_lastfd := fd\<rparr>)
          | Some (c # cs) \<Rightarrow>
              if c = NL then Inr (acc @ [c], int (length acc) + 1, io\<lparr>io_in := es, io_lastfd := fd, io_buf := cs\<rparr>)
              else readline_loop room fd (acc @ [c]) (io\<lparr>io_in := es, io_lastfd := fd, io_buf := cs\<rparr>)))"

definition PMIU_readline :: "int \<Rightarrow> string \<Rightarrow> nat \<Rightarrow> pmi_io \<Rightarrow> (string \<times> int \<times> pmi_io) res" where
  "PMIU_readline fd buf maxlen io =
     (if io_buf io \<noteq> [] \<and> fd \<noteq> io_lastfd io then Inr (buf, - 1, io)
      else readline_loop (maxlen - 1) fd [] io)"

text \<open>\<open>do n = write(fd, buf, size); while (n == -1 && errno == EINTR)\<close>: \<open>None\<close> is an error.\<close>

fun sys_write :: "nat \<Rightarrow> wres list \<Rightarrow> nat option \<times> wres list" where
  "sys_write sz [] = (Some sz, [])"
| "sys_write sz (W_intr # ws) = sys_write sz ws"
| "sys_write sz (W_err # ws) = (None, ws)"
| "sys_write sz (W_some n # ws) = (Some (min n sz), ws)"

definition PMIU_writeline :: "pm_server \<Rightarrow> int \<Rightarrow> string \<Rightarrow> pmi_io \<Rightarrow> (int \<times> pmi_io) res" where
  "PMIU_writeline srv fd buf io =
     (if length buf > PMIU_MAXLINE then Inr (0, io)
      else if buf = [] then Inl Out_of_bounds
      else if last buf \<noteq> NL then Inr (0, io)
      else (case (if fd_ok fd io then sys_write (length buf) (io_wr io) else (None, io_wr io)) of
             (None, ws) \<Rightarrow> Inr (- 1, io\<lparr>io_wr := ws\<rparr>)
           | (Some n, ws) \<Rightarrow>
               let log = io_log io @ [take n buf]
               in Inr (0, io\<lparr>io_wr := ws, io_log := log, io_in := io_in io @ srv log\<rparr>)))"

section \<open>The table of key-value pairs\<close>

record PMIU_keyval_pairs =
  kv_key :: string
  kv_value :: string

type_synonym keyval_tab = "PMIU_keyval_pairs list"

definition is_keychar :: "char \<Rightarrow> bool" where
  "is_keychar c \<longleftrightarrow> c \<noteq> SP \<and> c \<noteq> EQS \<and> c \<noteq> NL"

definition is_valchar :: "char \<Rightarrow> bool" where
  "is_valchar c \<longleftrightarrow> c \<noteq> SP \<and> c \<noteq> NL"

text \<open>
  The loop of \<open>PMIU_parse_keyvals\<close> on what is left of the line, with the entries
  \<open>PMIU_keyval_tab[0..idx-1]\<close> stored so far. The value is first copied together with
  everything that follows it and then cut off at its end.
\<close>

function parse_loop :: "string \<Rightarrow> keyval_tab \<Rightarrow> (int \<times> keyval_tab) res" where
  "parse_loop st tab =
     (let p = dropWhile (\<lambda>c. c = SP) st
      in if p \<noteq> [] \<and> hd p = EQS then Inr (- 1, tab)
         else if p = [] \<or> hd p = NL then Inr (0, tab)
         else let keystart = takeWhile is_keychar p; q = dropWhile is_keychar p
           in if q = [] \<or> hd q = SP \<or> hd q = NL then Inr (- 1, tab)
              else if KEYVAL_TAB_LEN \<le> length tab then Inl Out_of_bounds
              else bind_res (MPIU_Strncpy MAXKEYLEN [] keystart (of_nat MAXKEYLEN)) (\<lambda>(_, k).
                let valstart = tl q; offset = length (takeWhile is_valchar valstart);
                    r = dropWhile is_valchar valstart
                in bind_res (MPIU_Strncpy MAXVALLEN [] valstart (of_nat MAXVALLEN)) (\<lambda>(_, v).
                  if MAXVALLEN \<le> offset then Inl Out_of_bounds
                  else let tab' = tab @ [\<lparr>kv_key = k, kv_value = take offset v\<rparr>]
                    in if r \<noteq> [] \<and> hd r = SP then parse_loop r tab' else Inr (0, tab'))))"
  by pat_completeness auto
termination
proof (relation "measure (length \<circ> fst)", simp, goal_cases)
  case (1 st tab p keystart q xa k xc valstart offset r)
  let ?l = length
  have "?l (dropWhile is_valchar (tl (dropWhile is_keychar (dropWhile (\<lambda>c. c = SP) st))))
      \<le> ?l (tl (dropWhile is_keychar (dropWhile (\<lambda>c. c = SP) st)))" by (rule length_dropWhile_le)
  also have "\<dots> < ?l (dropWhile is_keychar (dropWhile (\<lambda>c. c = SP) st))" using 1 by (cases q) auto
  also have "\<dots> \<le> ?l (dropWhile (\<lambda>c. c = SP) st)" by (rule length_dropWhile_le)
  also have "\<dots> \<le> ?l st" by (rule length_dropWhile_le)
  finally show ?case using 1 by simp
qed

declare parse_loop.simps [simp del]

definition cstr :: "string \<Rightarrow> string" where
  "cstr buf = takeWhile (\<lambda>c. c \<noteq> NUL) buf"

definition PMIU_parse_keyvals :: "string \<Rightarrow> (int \<times> keyval_tab) res" where
  "PMIU_parse_keyvals st = parse_loop (cstr st) []"

definition PMIU_getval :: "keyval_tab \<Rightarrow> string \<Rightarrow> nat \<Rightarrow> u64 \<Rightarrow> string \<Rightarrow> (bool \<times> string) res" where
  "PMIU_getval tab keystr cap vallen valstr =
     (case find (\<lambda>e. kv_key e = keystr) tab of
        Some e \<Rightarrow> bind_res (MPIU_Strncpy cap valstr (kv_value e) vallen) (\<lambda>(rc, v). Inr (rc = 0, v))
      | None \<Rightarrow> if cap = 0 then Inl Out_of_bounds else Inr (False, []))"

definition PMIU_chgval :: "keyval_tab \<Rightarrow> string \<Rightarrow> string \<Rightarrow> keyval_tab res" where
  "PMIU_chgval tab keystr valstr =
     bind_res (MPIU_Strncpy MAXVALLEN [] valstr (of_nat (MAXVALLEN - 1))) (\<lambda>(_, v).
       Inr (map (\<lambda>e. if kv_key e = keystr then e\<lparr>kv_value := v\<rparr> else e) tab))"

section \<open>Reading a line\<close>

text \<open>
  What a connection still has to deliver. Nothing below depends on how the bytes are cut into
  chunks or on where a signal interrupts a call, as long as there is no error and no end of file.
\<close>

fun in_stream :: "rres list \<Rightarrow> string" where
  "in_stream [] = []"
| "in_stream (R_intr # es) = in_stream es"
| "in_stream (R_err # es) = []"
| "in_stream (R_data d # es) = d @ in_stream es"

definition live_ev :: "rres \<Rightarrow> bool" where
  "live_ev e \<longleftrightarrow> e \<noteq> R_err \<and> e \<noteq> R_data []"

definition stream :: "pmi_io \<Rightarrow> string" where
  "stream io = io_buf io @ in_stream (io_in io)"

definition io_live :: "pmi_io \<Rightarrow> bool" where
  "io_live io \<longleftrightarrow> list_all live_ev (io_in io)"

lemma in_stream_append [simp]: "list_all live_ev es \<Longrightarrow> in_stream (es @ es') = in_stream es @ in_stream es'"
  by (induction es rule: in_stream.induct) (auto simp: live_ev_def)

lemma sys_read_live:
  assumes "list_all live_ev es" "in_stream es \<noteq> []"
  shows "\<exists>c cs es'. sys_read es = Inr (Some (c # cs), es') \<and> c # cs @ in_stream es' = in_stream es
                  \<and> list_all live_ev es'"
  using assms
proof (induction es rule: sys_read.induct)
  case (4 d es)
  then obtain c cs where "d = c # cs" by (cases d) (auto simp: live_ev_def)
  then show ?case using 4 by (auto simp: live_ev_def MAX_READLINE_def)
qed (auto simp: live_ev_def)

text \<open>
  One call of \<open>PMIU_readline\<close> takes the next line off the connection and leaves the rest.
\<close>

lemma readline_loop_line:
  assumes "fd_ok fd io" "io_live io" "stream io = l @ NL # rest" "NL \<notin> set l" "length l < room"
  shows "\<exists>b es f. readline_loop room fd acc io
           = Inr (acc @ l @ [NL], int (length (acc @ l @ [NL])), io\<lparr>io_buf := b, io_in := es, io_lastfd := f\<rparr>)
         \<and> b @ in_stream es = rest \<and> list_all live_ev es \<and> (f = fd \<or> f = io_lastfd io \<and> io_buf io \<noteq> [])"
  using assms
proof (induction room fd acc io arbitrary: l rule: readline_loop.induct)
  case (2 room fd acc io)
  show ?case
  proof (cases "io_buf io")
    case Nil
    then obtain c cs es where r: "sys_read (io_in io) = Inr (Some (c # cs), es)"
      "c # cs @ in_stream es = in_stream (io_in io)" "list_all live_ev es"
      using sys_read_live [of "io_in io"] "2.prems"(2,3) by (auto simp: io_live_def stream_def)
    then have rd: "pm_read fd io = Inr (Some (c # cs), es)" using "2.prems"(1) by (simp add: pm_read_def)
    have st: "c # cs @ in_stream es = l @ NL # rest" using "2.prems"(3) Nil r(2) by (simp add: stream_def)
    show ?thesis
    proof (cases "c = NL")
      case True
      then have "l = []" using st "2.prems"(4) by (cases l) auto
      then show ?thesis using Nil r(3) rd st True
        by (intro exI [of _ cs] exI [of _ es] exI [of _ fd]) simp
    next
      case False
      then obtain l' where l: "l = c # l'" using st by (cases l) auto
      then have st': "cs @ in_stream es = l' @ NL # rest" using st by simp
      have "\<exists>b es' f. readline_loop room fd (acc @ [c]) (io\<lparr>io_in := es, io_lastfd := fd, io_buf := cs\<rparr>)
          = Inr ((acc @ [c]) @ l' @ [NL], int (length ((acc @ [c]) @ l' @ [NL])),
              io\<lparr>io_in := es, io_lastfd := fd, io_buf := cs, io_buf := b, io_in := es', io_lastfd := f\<rparr>)
          \<and> b @ in_stream es' = rest \<and> list_all live_ev es' \<and> (f = fd \<or> f = fd \<and> cs \<noteq> [])"
        using "2.IH"(1) [OF Nil, of "Some (c # cs)" "c # cs" c cs es l'] False r(3) rd st' l "2.prems"(1,4,5)
        by (simp add: io_live_def stream_def fd_ok_def)
      then show ?thesis using Nil rd False l by simp blast
    qed
  next
    case (Cons c cs)
    then have st: "c # cs @ in_stream (io_in io) = l @ NL # rest" using "2.prems"(3) by (simp add: stream_def)
    show ?thesis
    proof (cases "c = NL")
      case True
      then have "l = []" using st "2.prems"(4) by (cases l) auto
      then show ?thesis using Cons st True "2.prems"(2)
        by (intro exI [of _ cs] exI [of _ "io_in io"] exI [of _ "io_lastfd io"]) (simp add: io_live_def)
    next
      case False
      then obtain l' where l: "l = c # l'" using st by (cases l) auto
      have "\<exists>b es f. readline_loop room fd (acc @ [c]) (io\<lparr>io_buf := cs\<rparr>)
          = Inr ((acc @ [c]) @ l' @ [NL], int (length ((acc @ [c]) @ l' @ [NL])),
              io\<lparr>io_buf := cs, io_buf := b, io_in := es, io_lastfd := f\<rparr>)
          \<and> b @ in_stream es = rest \<and> list_all live_ev es \<and> (f = fd \<or> f = io_lastfd io \<and> cs \<noteq> [])"
        using "2.IH"(2) [OF Cons False, of l'] False st l "2.prems"(1,2,4,5) by (simp add: io_live_def stream_def fd_ok_def)
      then show ?thesis using Cons False l by simp blast
    qed
  qed
qed simp

section \<open>Printing and parsing a line\<close>

text \<open>The lines of the protocol: pairs \<open>key=value\<close> separated by blanks, ended by a newline.\<close>

fun kv_line :: "keyval_tab \<Rightarrow> string" where
  "kv_line [] = []"
| "kv_line [e] = kv_key e @ EQS # kv_value e"
| "kv_line (e # es) = kv_key e @ EQS # kv_value e @ SP # kv_line es"

definition print_keyvals :: "keyval_tab \<Rightarrow> string" where
  "print_keyvals es = kv_line es @ [NL]"

definition wf_keyval :: "PMIU_keyval_pairs \<Rightarrow> bool" where
  "wf_keyval e \<longleftrightarrow> kv_key e \<noteq> [] \<and> list_all (\<lambda>c. is_keychar c \<and> c \<noteq> NUL) (kv_key e)
     \<and> length (kv_key e) < MAXKEYLEN
     \<and> list_all (\<lambda>c. is_valchar c \<and> c \<noteq> NUL) (kv_value e) \<and> length (kv_value e) < MAXVALLEN"

lemma parse_loop_blank: "parse_loop (SP # s) tab = parse_loop s tab"
  by (subst parse_loop.simps, subst (2) parse_loop.simps) simp

lemma Strncpy_key: "length s < MAXKEYLEN \<Longrightarrow> MPIU_Strncpy MAXKEYLEN [] s (of_nat MAXKEYLEN) = Inr (0, s)"
  using MPIU_Strncpy_ok [of MAXKEYLEN MAXKEYLEN "[]" s] by (simp add: MAXKEYLEN_def)

lemma Strncpy_val:
  "\<exists>rc. MPIU_Strncpy MAXVALLEN [] s (of_nat MAXVALLEN) = Inr (rc, take (MAXVALLEN - 1) s)"
  using MPIU_Strncpy_ok [of MAXVALLEN MAXVALLEN "[]" s] by (auto simp: MAXVALLEN_def)

lemma takeWhile_stop: "list_all P xs \<Longrightarrow> r = [] \<or> \<not> P (hd r) \<Longrightarrow> takeWhile P (xs @ r) = xs"
  by (cases r) (auto simp: takeWhile_append list_all_iff)

lemma dropWhile_stop: "list_all P xs \<Longrightarrow> r = [] \<or> \<not> P (hd r) \<Longrightarrow> dropWhile P (xs @ r) = r"
  by (cases r) (auto simp: dropWhile_append list_all_iff)

lemma parse_loop_pair:
  assumes "wf_keyval e" "r = SP # r' \<or> r = NL # r'"
  shows "parse_loop (kv_key e @ EQS # kv_value e @ r) tab =
    (if KEYVAL_TAB_LEN \<le> length tab then Inl Out_of_bounds
     else if hd r = SP then parse_loop r (tab @ [e]) else Inr (0, tab @ [e]))"
proof -
  obtain c cs where k: "kv_key e = c # cs" using assms(1) by (cases "kv_key e") (auto simp: wf_keyval_def)
  have key: "list_all is_keychar (kv_key e)" and val: "list_all is_valchar (kv_value e)"
    and len: "length (kv_key e) < MAXKEYLEN" "length (kv_value e) < MAXVALLEN"
    using assms(1) by (auto simp: wf_keyval_def list_all_iff)
  have c: "c \<noteq> SP" "c \<noteq> EQS" "c \<noteq> NL" using key k by (auto simp: is_keychar_def)
  let ?p = "kv_key e @ EQS # kv_value e @ r"
  have p: "dropWhile (\<lambda>c. c = SP) ?p = ?p" "takeWhile is_keychar ?p = kv_key e"
    "dropWhile is_keychar ?p = EQS # kv_value e @ r" "hd ?p = c" "?p \<noteq> []"
    using c(1) takeWhile_stop [OF key, of "EQS # kv_value e @ r"] dropWhile_stop [OF key, of "EQS # kv_value e @ r"]
    by (simp_all add: k is_keychar_def)
  have r: "r = [] \<or> \<not> is_valchar (hd r)" "r \<noteq> []" using assms(2) by (auto simp: is_valchar_def)
  have v: "takeWhile is_valchar (kv_value e @ r) = kv_value e" "dropWhile is_valchar (kv_value e @ r) = r"
    using takeWhile_stop [OF val r(1)] dropWhile_stop [OF val r(1)] by simp_all
  obtain rc where s: "MPIU_Strncpy MAXVALLEN [] (kv_value e @ r) (of_nat MAXVALLEN)
      = Inr (rc, take (MAXVALLEN - 1) (kv_value e @ r))"
    using Strncpy_val by blast
  have "take (length (kv_value e)) (take (MAXVALLEN - 1) (kv_value e @ r)) = kv_value e"
    using len(2) by (simp add: min_def)
  moreover have "parse_loop r (tab @ [\<lparr>kv_key = kv_key e, kv_value = kv_value e\<rparr>]) = parse_loop r (tab @ [e])"
    by (cases e) simp
  ultimately show ?thesis
    using c len r(2) by (subst parse_loop.simps) (simp add: Let_def p v s Strncpy_key)
qed

text \<open>
  A printed list of pairs is parsed back when it has at most 64 of them; one more and the
  parser stores beyond its table.
\<close>

lemma parse_loop_print:
  assumes "list_all wf_keyval es"
  shows "parse_loop (kv_line es @ [NL]) tab =
    (if es = [] \<or> length tab + length es \<le> KEYVAL_TAB_LEN then Inr (0, tab @ es) else Inl Out_of_bounds)"
  using assms
proof (induction es arbitrary: tab rule: kv_line.induct)
  case 1
  then show ?case by (subst parse_loop.simps) simp
next
  case (2 e)
  then show ?case using parse_loop_pair [of e "[NL]" "[]" tab] by auto
next
  case (3 e e' es)
  then show ?case
    using parse_loop_pair [of e "SP # kv_line (e' # es) @ [NL]" "kv_line (e' # es) @ [NL]" tab]
    by (auto simp: parse_loop_blank)
qed

lemma cstr_id: "NUL \<notin> set s \<Longrightarrow> cstr s = s"
  unfolding cstr_def by (rule takeWhile_eq_all_conv [THEN iffD2]) blast

lemma kv_line_chars: "list_all wf_keyval es \<Longrightarrow> NUL \<notin> set (kv_line es) \<and> NL \<notin> set (kv_line es)"
proof (induction es rule: kv_line.induct)
  case (2 e)
  then show ?case by (auto simp: wf_keyval_def list_all_iff is_keychar_def is_valchar_def)
next
  case (3 e e' es)
  then have "wf_keyval e" "NUL \<notin> set (kv_line (e' # es)) \<and> NL \<notin> set (kv_line (e' # es))" by auto
  then show ?case by (simp add: wf_keyval_def list_all_iff is_keychar_def is_valchar_def) blast
qed simp

text \<open>A line of well-formed pairs is parsed back into these pairs.\<close>

lemma parse_print_ok:
  assumes "list_all wf_keyval es"
  shows "PMIU_parse_keyvals (print_keyvals es) =
           (if length es \<le> KEYVAL_TAB_LEN then Inr (0, es) else Inl Out_of_bounds)"
  using assms by (simp add: PMIU_parse_keyvals_def print_keyvals_def cstr_id kv_line_chars parse_loop_print KEYVAL_TAB_LEN_def)

end
