(* ===== verification/LC_Pmi.thy ===== *)
theory LC_Pmi
  imports LC_Pmi_Util
begin

text \<open>
  The process manager client of \<open>src/pmi/simple_pmi.c\<close>, built without \<open>USE_PMI_PORT\<close>: its
  static variables are a record, every call of the interface of \<open>pmi.h\<close> is a function on
  that record. The process manager is the parameter \<open>srv\<close> of the calls that talk to it.
\<close>

section \<open>State\<close>

datatype PMIState =
    PMI_UNINITIALIZED
  | SINGLETON_INIT_BUT_NO_PM
  | NORMAL_INIT_WITH_PM
  | SINGLETON_INIT_WITH_PM

fun state_code :: "PMIState \<Rightarrow> nat" where
  "state_code PMI_UNINITIALIZED = 0"
| "state_code SINGLETON_INIT_BUT_NO_PM = 1"
| "state_code NORMAL_INIT_WITH_PM = 2"
| "state_code SINGLETON_INIT_WITH_PM = 3"

text \<open>The code compares these states as the integers of the enumeration.\<close>

instantiation PMIState :: linorder
begin

definition less_eq_PMIState :: "PMIState \<Rightarrow> PMIState \<Rightarrow> bool" where
  "s \<le> t \<longleftrightarrow> state_code s \<le> state_code t"

definition less_PMIState :: "PMIState \<Rightarrow> PMIState \<Rightarrow> bool" where
  "s < t \<longleftrightarrow> state_code s < state_code t"

instance
proof
  fix s t :: PMIState
  show "s \<le> t \<Longrightarrow> t \<le> s \<Longrightarrow> s = t" by (cases s; cases t) (simp_all add: less_eq_PMIState_def)
qed (auto simp: less_eq_PMIState_def less_PMIState_def)

end

abbreviation PMI_SUCCESS :: int where "PMI_SUCCESS \<equiv> 0"
abbreviation PMI_FAIL :: int where "PMI_FAIL \<equiv> - 1"
abbreviation PMI_ERR_INVALID_ARG :: int where "PMI_ERR_INVALID_ARG \<equiv> 3"

definition PMI_VERSION :: int where "PMI_VERSION = 1"
definition PMI_SUBVERSION :: int where "PMI_SUBVERSION = 1"
definition MPI_MAX_PORT_NAME :: nat where "MPI_MAX_PORT_NAME = 256"
definition PMIU_IDSIZE :: nat where "PMIU_IDSIZE = 32"

record pmi_st =
  PMI_fd :: int
  PMI_size :: int
  PMI_rank :: int
  PMI_initialized :: PMIState
  PMI_kvsname_max :: int
  PMI_keylen_max :: int
  PMI_vallen_max :: int
  PMI_debug :: int
  PMI_spawned :: int
  cached_singinit_key :: string
  cached_singinit_val :: string
  PMIU_keyval_tab :: keyval_tab
  PMIU_print_id :: string
  conn :: pmi_io
  environment :: "string \<Rightarrow> string option"

section \<open>Library functions\<close>

text \<open>\<open>snprintf(buf, n, ...)\<close> into a buffer of \<open>n\<close> characters: what does not fit is cut off.\<close>

definition snprintf :: "nat \<Rightarrow> string \<Rightarrow> string" where
  "snprintf n s = take (n - 1) s"

text \<open>
  \<open>atoi\<close>, that is \<open>(int) strtol(s, NULL, 10)\<close>: blanks, a sign, then digits; a number that does
  not fit a \<open>long\<close> is replaced by the nearest one that does.
\<close>

definition is_space :: "char \<Rightarrow> bool" where
  "is_space c \<longleftrightarrow> c \<in> {SP, CHR 0x09, CHR 0x0A, CHR 0x0B, CHR 0x0C, CHR 0x0D}"

definition strtol :: "string \<Rightarrow> int" where
  "strtol s = (let t = dropWhile is_space s;
       neg = (t \<noteq> [] \<and> hd t = CHR ''-'');
       ds = takeWhile is_digit (if neg \<or> (t \<noteq> [] \<and> hd t = CHR ''+'') then tl t else t);
       z = (if neg then - int (undec ds) else int (undec ds))
     in max (- (2 ^ 63)) (min (2 ^ 63 - 1) z))"

definition atoi :: "string \<Rightarrow> int" where
  "atoi s = sint (word_of_int (strtol s) :: u32)"

section \<open>Talking to the process manager\<close>

definition PMIU_Set_rank :: "int \<Rightarrow> pmi_st \<Rightarrow> pmi_st" where
  "PMIU_Set_rank rank st = st\<lparr>PMIU_print_id := snprintf PMIU_IDSIZE (''cli_'' @ sdec rank)\<rparr>"

definition PMIU_SetServer :: "pmi_st \<Rightarrow> pmi_st res" where
  "PMIU_SetServer st = bind_res (MPIU_Strncpy PMIU_IDSIZE (PMIU_print_id st) ''server'' (of_nat PMIU_IDSIZE)) (\<lambda>(_, d).
     Inr (st\<lparr>PMIU_print_id := d\<rparr>))"

text \<open>A value of the last line parsed, into a buffer of \<open>PMIU_MAXLINE\<close> characters.\<close>

definition getval :: "string \<Rightarrow> pmi_st \<Rightarrow> (bool \<times> string) res" where
  "getval keystr st = PMIU_getval (PMIU_keyval_tab st) keystr PMIU_MAXLINE (of_nat PMIU_MAXLINE) []"

definition writeline :: "pm_server \<Rightarrow> string \<Rightarrow> pmi_st \<Rightarrow> (int \<times> pmi_st) res" where
  "writeline srv buf st = bind_res (PMIU_writeline srv (PMI_fd st) buf (conn st)) (\<lambda>(rc, io).
     Inr (rc, st\<lparr>conn := io\<rparr>))"

definition readline :: "pmi_st \<Rightarrow> (string \<times> int \<times> pmi_st) res" where
  "readline st = bind_res (PMIU_readline (PMI_fd st) [] PMIU_MAXLINE (conn st)) (\<lambda>(buf, n, io).
     Inr (buf, n, st\<lparr>conn := io\<rparr>))"

definition parse_keyvals :: "string \<Rightarrow> pmi_st \<Rightarrow> (int \<times> pmi_st) res" where
  "parse_keyvals buf st = bind_res (PMIU_parse_keyvals buf) (\<lambda>(err, tab).
     Inr (err, st\<lparr>PMIU_keyval_tab := tab\<rparr>))"

definition GetResponse :: "pm_server \<Rightarrow> string \<Rightarrow> string \<Rightarrow> bool \<Rightarrow> pmi_st \<Rightarrow> (int \<times> pmi_st) res" where
  "GetResponse srv request expectedCmd checkRc st =
     bind_res (writeline srv request st) (\<lambda>(err, st).
     if err \<noteq> 0 then Inr (err, st)
     else bind_res (readline st) (\<lambda>(recvbuf, n, st).
     if n \<le> 0 then Inr (PMI_FAIL, st)
     else bind_res (parse_keyvals recvbuf st) (\<lambda>(err, st).
     if err \<noteq> 0 then Inr (err, st)
     else bind_res (getval ''cmd'' st) (\<lambda>(p, cmdName).
     if \<not> p then Inr (PMI_FAIL, st)
     else if expectedCmd \<noteq> cmdName then Inr (PMI_FAIL, st)
     else if checkRc then bind_res (getval ''rc'' st) (\<lambda>(p, cmdName).
       if p \<and> cmdName \<noteq> ''0'' then Inr (PMI_FAIL, st) else Inr (err, st))
     else Inr (err, st)))))"

definition PMIi_InitIfSingleton :: "pmi_st \<Rightarrow> int" where
  "PMIi_InitIfSingleton st = 0"

definition PMI_Abort :: "pm_server \<Rightarrow> int \<Rightarrow> pmi_st \<Rightarrow> (int \<times> pmi_st) res" where
  "PMI_Abort srv exit_code st =
     bind_res (GetResponse srv (snprintf PMIU_MAXLINE (''cmd=abort exitcode='' @ sdec exit_code @ [NL])) [] False st)
       (\<lambda>(_, st). Inr (- 1, st))"

section \<open>Initialisation\<close>

text \<open>
  \<open>PMII_getmaxes\<close> goes on after \<open>PMI_Abort\<close>, as the code does when the process manager lets
  it return.
\<close>

definition PMII_getmaxes :: "pm_server \<Rightarrow> pmi_st \<Rightarrow> (int \<times> pmi_st) res" where
  "PMII_getmaxes srv st =
     bind_res (writeline srv (snprintf PMIU_MAXLINE
       (''cmd=init pmi_version='' @ sdec PMI_VERSION @ '' pmi_subversion='' @ sdec PMI_SUBVERSION @ [NL])) st)
       (\<lambda>(rc, st).
     if rc \<noteq> 0 then Inr (PMI_FAIL, st)
     else bind_res (readline st) (\<lambda>(buf, err, st).
     bind_res (if err < 0 then PMI_Abort srv (- 1) st else Inr (0, st)) (\<lambda>(_, st).
     bind_res (parse_keyvals buf st) (\<lambda>(_, st).
     bind_res (getval ''cmd'' st) (\<lambda>(_, cmd).
     bind_res (if cmd \<noteq> ''response_to_init'' then PMI_Abort srv (- 1) st
               else bind_res (getval ''rc'' st) (\<lambda>(_, buf).
                 if buf \<noteq> ''0'' then PMI_Abort srv (- 1) st else Inr (0, st))) (\<lambda>(_, st).
     bind_res (GetResponse srv (''cmd=get_maxes'' @ [NL]) ''maxes'' False st) (\<lambda>(err, st).
     if err = PMI_SUCCESS then
       bind_res (getval ''kvsname_max'' st) (\<lambda>(_, a).
       bind_res (getval ''keylen_max'' st) (\<lambda>(_, b).
       bind_res (getval ''vallen_max'' st) (\<lambda>(_, c).
         Inr (err, st\<lparr>PMI_kvsname_max := atoi a, PMI_keylen_max := atoi b, PMI_vallen_max := atoi c\<rparr>))))
     else Inr (err, st))))))))"

definition getPMIFD :: "pmi_st \<Rightarrow> int \<times> pmi_st" where
  "getPMIFD st = (case environment st ''PMI_FD'' of
       Some p \<Rightarrow> (0, st\<lparr>PMI_fd := atoi p\<rparr>)
     | None \<Rightarrow> (0, st\<lparr>PMI_fd := - 1\<rparr>))"

definition getenv_int :: "string \<Rightarrow> int \<Rightarrow> pmi_st \<Rightarrow> int" where
  "getenv_int name d st = (case environment st name of Some p \<Rightarrow> atoi p | None \<Rightarrow> d)"

text \<open>Size, rank and debugging level from the environment.\<close>

definition init_from_env :: "pmi_st \<Rightarrow> pmi_st" where
  "init_from_env st =
     (let st = st\<lparr>PMI_size := getenv_int ''PMI_SIZE'' 1 st\<rparr>;
          st = (case environment st ''PMI_RANK'' of
                  Some p \<Rightarrow> PMIU_Set_rank (atoi p) (st\<lparr>PMI_rank := atoi p\<rparr>)
                | None \<Rightarrow> st\<lparr>PMI_rank := 0\<rparr>)
      in st\<lparr>PMI_debug := getenv_int ''PMI_DEBUG'' 0 st\<rparr>)"

text \<open>What follows the handshake: the flag stored through \<open>spawned\<close>, and the state.\<close>

definition init_done :: "pmi_st \<Rightarrow> int \<times> pmi_st" where
  "init_done st =
     (let st = st\<lparr>PMI_spawned := getenv_int ''PMI_SPAWNED'' 0 st\<rparr>;
          st = (if PMI_initialized st = PMI_UNINITIALIZED
                then st\<lparr>PMI_initialized := NORMAL_INIT_WITH_PM\<rparr> else st)
      in (if PMI_spawned st \<noteq> 0 then 1 else 0,
          st\<lparr>environment := (environment st)(''PMI_FD'' \<mapsto> sdec (PMI_fd st))\<rparr>))"

text \<open>The result has the values stored through \<open>spawned\<close>, \<open>size\<close> and \<open>rank\<close>.\<close>

definition PMI_Init :: "pm_server \<Rightarrow> pmi_st \<Rightarrow> (int \<times> (int \<times> int \<times> int) \<times> pmi_st) res" where
  "PMI_Init srv st =
     (let st = st\<lparr>PMI_initialized := PMI_UNINITIALIZED\<rparr>;
          st = st\<lparr>PMI_debug := getenv_int ''PMI_DEBUG'' (PMI_debug st) st\<rparr>;
          (rc, st) = getPMIFD st
      in if rc \<noteq> 0 then Inr (rc, (0, 0, 0), st)
         else if PMI_fd st = - 1 then
           Inr (0, (0, 1, 0), st\<lparr>PMI_size := 1, PMI_rank := 0, PMI_initialized := SINGLETON_INIT_BUT_NO_PM,
                PMI_kvsname_max := 256, PMI_keylen_max := 256, PMI_vallen_max := 256\<rparr>)
         else
           let st = init_from_env st; rank = PMI_rank st; sz = PMI_size st
           in bind_res (PMII_getmaxes srv st) (\<lambda>(_, st).
                let (spawned, st) = init_done st in Inr (0, (spawned, sz, rank), st)))"

definition PMI_Initialized :: "pmi_st \<Rightarrow> int \<times> int" where
  "PMI_Initialized st = (PMI_SUCCESS, if PMI_initialized st \<noteq> PMI_UNINITIALIZED then 1 else 0)"

definition PMI_Get_size :: "pmi_st \<Rightarrow> int \<times> int" where
  "PMI_Get_size st = (0, if PMI_initialized st \<noteq> PMI_UNINITIALIZED then PMI_size st else 1)"

definition PMI_Get_rank :: "pmi_st \<Rightarrow> int \<times> int" where
  "PMI_Get_rank st = (0, if PMI_initialized st \<noteq> PMI_UNINITIALIZED then PMI_rank st else 0)"

section \<open>Queries, barrier and termination\<close>

text \<open>Results: the value returned, what is stored through the pointer (unless an error leaves it
  unchanged), and the state.\<close>

definition PMI_Get_universe_size :: "pm_server \<Rightarrow> int \<Rightarrow> pmi_st \<Rightarrow> (int \<times> int \<times> pmi_st) res" where
  "PMI_Get_universe_size srv sz st =
     (if PMIi_InitIfSingleton st \<noteq> 0 then Inr (- 1, sz, st)
      else if SINGLETON_INIT_BUT_NO_PM < PMI_initialized st then
        bind_res (GetResponse srv (''cmd=get_universe_size'' @ [NL]) ''universe_size'' False st) (\<lambda>(err, st).
          if err = PMI_SUCCESS then bind_res (getval ''size'' st) (\<lambda>(_, size_c). Inr (PMI_SUCCESS, atoi size_c, st))
          else Inr (err, sz, st))
      else Inr (PMI_SUCCESS, 1, st))"

definition PMI_Get_appnum :: "pm_server \<Rightarrow> int \<Rightarrow> pmi_st \<Rightarrow> (int \<times> int \<times> pmi_st) res" where
  "PMI_Get_appnum srv appnum st =
     (if SINGLETON_INIT_BUT_NO_PM < PMI_initialized st then
        bind_res (GetResponse srv (''cmd=get_appnum'' @ [NL]) ''appnum'' False st) (\<lambda>(err, st).
          if err = PMI_SUCCESS then bind_res (getval ''appnum'' st) (\<lambda>(_, appnum_c). Inr (PMI_SUCCESS, atoi appnum_c, st))
          else Inr (err, appnum, st))
      else Inr (PMI_SUCCESS, - 1, st))"

definition PMI_Barrier :: "pm_server \<Rightarrow> pmi_st \<Rightarrow> (int \<times> pmi_st) res" where
  "PMI_Barrier srv st =
     (if SINGLETON_INIT_BUT_NO_PM < PMI_initialized st
      then GetResponse srv (''cmd=barrier_in'' @ [NL]) ''barrier_out'' False st
      else Inr (PMI_SUCCESS, st))"

definition PMI_Finalize :: "pm_server \<Rightarrow> pmi_st \<Rightarrow> (int \<times> pmi_st) res" where
  "PMI_Finalize srv st =
     (if SINGLETON_INIT_BUT_NO_PM < PMI_initialized st then
        bind_res (GetResponse srv (''cmd=finalize'' @ [NL]) ''finalize_ack'' False st) (\<lambda>(err, st).
          Inr (err, st\<lparr>conn := conn st\<lparr>io_open := False\<rparr>\<rparr>))
      else Inr (PMI_SUCCESS, st))"

section \<open>The key-value space\<close>

text \<open>
  The caller's buffer has the capacity \<open>cap\<close> and holds the string given; \<open>len\<close> is the length
  it announces. \<open>pid\<close> is what \<open>getpid\<close> returns.
\<close>

definition PMI_KVS_Get_my_name ::
  "pm_server \<Rightarrow> nat \<Rightarrow> nat \<Rightarrow> string \<Rightarrow> int \<Rightarrow> pmi_st \<Rightarrow> (int \<times> string \<times> pmi_st) res" where
  "PMI_KVS_Get_my_name srv pid cap kvsname len st =
     (if PMI_initialized st = SINGLETON_INIT_BUT_NO_PM then
        let s = ''singinit_kvs_'' @ dec pid @ ''_0'';
            n = unat (of_int len :: u64)
        in if n = 0 then Inr (0, kvsname, st)
           else if min (length s) (n - 1) < cap then Inr (0, snprintf n s, st)
           else Inl Out_of_bounds
      else bind_res (GetResponse srv (''cmd=get_my_kvsname'' @ [NL]) ''my_kvsname'' False st) (\<lambda>(err, st).
        if err = PMI_SUCCESS then
          bind_res (PMIU_getval (PMIU_keyval_tab st) ''kvsname'' cap (of_int len) kvsname) (\<lambda>(_, kvsname).
            Inr (err, kvsname, st))
        else Inr (err, kvsname, st)))"

text \<open>The three length queries; \<open>None\<close> is a null pointer.\<close>

definition PMI_KVS_Get_name_length_max :: "int option \<Rightarrow> pmi_st \<Rightarrow> int \<times> int option" where
  "PMI_KVS_Get_name_length_max maxlen st =
     (if maxlen = None then (PMI_ERR_INVALID_ARG, None) else (PMI_SUCCESS, Some (PMI_kvsname_max st)))"

definition PMI_KVS_Get_key_length_max :: "int option \<Rightarrow> pmi_st \<Rightarrow> int \<times> int option" where
  "PMI_KVS_Get_key_length_max maxlen st =
     (if maxlen = None then (PMI_ERR_INVALID_ARG, None) else (PMI_SUCCESS, Some (PMI_keylen_max st)))"

definition PMI_KVS_Get_value_length_max :: "int option \<Rightarrow> pmi_st \<Rightarrow> int \<times> int option" where
  "PMI_KVS_Get_value_length_max maxlen st =
     (if maxlen = None then (PMI_ERR_INVALID_ARG, None) else (PMI_SUCCESS, Some (PMI_vallen_max st)))"

definition put_msg :: "string \<Rightarrow> string \<Rightarrow> string \<Rightarrow> string" where
  "put_msg kvsname key value = ''cmd=put kvsname='' @ kvsname @ '' key='' @ key @ '' value='' @ value @ [NL]"

definition PMI_KVS_Put :: "pm_server \<Rightarrow> string \<Rightarrow> string \<Rightarrow> string \<Rightarrow> pmi_st \<Rightarrow> (int \<times> pmi_st) res" where
  "PMI_KVS_Put srv kvsname key value st =
     (if PMI_initialized st = SINGLETON_INIT_BUT_NO_PM then
        bind_res (MPIU_Strncpy PMIU_MAXLINE (cached_singinit_key st) key (of_int (PMI_keylen_max st))) (\<lambda>(rc, k).
          let st = st\<lparr>cached_singinit_key := k\<rparr>
          in if rc \<noteq> 0 then Inr (PMI_FAIL, st)
             else bind_res (MPIU_Strncpy PMIU_MAXLINE (cached_singinit_val st) value (of_int (PMI_vallen_max st))) (\<lambda>(rc, v).
               let st = st\<lparr>cached_singinit_val := v\<rparr>
               in if rc \<noteq> 0 then Inr (PMI_FAIL, st) else Inr (0, st)))
      else GetResponse srv (snprintf PMIU_MAXLINE (put_msg kvsname key value)) ''put_result'' True st)"

definition PMI_KVS_Commit :: "string \<Rightarrow> int" where
  "PMI_KVS_Commit kvsname = 0"

definition get_msg :: "string \<Rightarrow> string \<Rightarrow> string" where
  "get_msg kvsname key = ''cmd=get kvsname='' @ kvsname @ '' key='' @ key @ [NL]"

definition PMI_KVS_Get ::
  "pm_server \<Rightarrow> nat \<Rightarrow> string \<Rightarrow> string \<Rightarrow> string \<Rightarrow> int \<Rightarrow> pmi_st \<Rightarrow> (int \<times> string \<times> pmi_st) res" where
  "PMI_KVS_Get srv cap kvsname key value len st =
     (if PMIi_InitIfSingleton st \<noteq> 0 then Inr (- 1, value, st)
      else bind_res (GetResponse srv (snprintf PMIU_MAXLINE (get_msg kvsname key)) ''get_result'' False st) (\<lambda>(err, st).
        if err = PMI_SUCCESS then
          bind_res (getval ''rc'' st) (\<lambda>(_, buf).
          if atoi buf = 0 then
            bind_res (PMIU_getval (PMIU_keyval_tab st) ''value'' cap (of_int len) value) (\<lambda>(_, value).
              Inr (0, value, st))
          else Inr (- 1, value, st))
        else Inr (err, value, st)))"

section \<open>Name publishing\<close>

definition PMI_Publish_name :: "pm_server \<Rightarrow> string \<Rightarrow> string \<Rightarrow> pmi_st \<Rightarrow> (int \<times> pmi_st) res" where
  "PMI_Publish_name srv service_name port st =
     (if SINGLETON_INIT_BUT_NO_PM < PMI_initialized st then
        bind_res (GetResponse srv (snprintf PMIU_MAXLINE
          (''cmd=publish_name service='' @ service_name @ '' port='' @ port @ [NL])) ''publish_result'' False st) (\<lambda>(err, st).
          if err = PMI_SUCCESS then
            bind_res (getval ''rc'' st) (\<lambda>(_, buf).
              if buf \<noteq> ''0'' then Inr (PMI_FAIL, st) else Inr (PMI_SUCCESS, st))
          else Inr (PMI_SUCCESS, st))
      else Inr (PMI_FAIL, st))"

definition PMI_Unpublish_name :: "pm_server \<Rightarrow> string \<Rightarrow> pmi_st \<Rightarrow> (int \<times> pmi_st) res" where
  "PMI_Unpublish_name srv service_name st =
     (if SINGLETON_INIT_BUT_NO_PM < PMI_initialized st then
        bind_res (GetResponse srv (snprintf PMIU_MAXLINE
          (''cmd=unpublish_name service='' @ service_name @ [NL])) ''unpublish_result'' False st) (\<lambda>(err, st).
          if err = PMI_SUCCESS then
            bind_res (getval ''rc'' st) (\<lambda>(_, buf).
              if buf \<noteq> ''0'' then Inr (PMI_FAIL, st) else Inr (PMI_SUCCESS, st))
          else Inr (PMI_SUCCESS, st))
      else Inr (PMI_FAIL, st))"

definition PMI_Lookup_name :: "pm_server \<Rightarrow> nat \<Rightarrow> string \<Rightarrow> string \<Rightarrow> pmi_st \<Rightarrow> (int \<times> string \<times> pmi_st) res" where
  "PMI_Lookup_name srv cap service_name port st =
     (if SINGLETON_INIT_BUT_NO_PM < PMI_initialized st then
        bind_res (GetResponse srv (snprintf PMIU_MAXLINE
          (''cmd=lookup_name service='' @ service_name @ [NL])) ''lookup_result'' False st) (\<lambda>(err, st).
          if err = PMI_SUCCESS then
            bind_res (getval ''rc'' st) (\<lambda>(_, buf).
              if buf \<noteq> ''0'' then Inr (PMI_FAIL, port, st)
              else bind_res (PMIU_getval (PMIU_keyval_tab st) ''port'' cap (of_nat MPI_MAX_PORT_NAME) port) (\<lambda>(_, port).
                Inr (PMI_SUCCESS, port, st)))
          else Inr (PMI_SUCCESS, port, st))
      else Inr (PMI_FAIL, port, st))"

section \<open>Starting processes\<close>

text \<open>
  The arguments of \<open>PMI_Spawn_multiple\<close> for one command; a null \<open>argvs\<close> or \<open>argvs[i]\<close> is the
  empty list of arguments.
\<close>

record spawn_cmd =
  sp_cmd :: string
  sp_argv :: "string list"
  sp_maxprocs :: int
  sp_info :: "(string \<times> string) list"

text \<open>
  \<open>snprintf\<close> into \<open>tempbuf\<close>, then \<open>MPIU_Strnapp(buf, tempbuf, PMIU_MAXLINE)\<close>, for each of a list of
  pieces: \<open>None\<close> when one of them does not fit.
\<close>

fun append_all :: "string \<Rightarrow> string list \<Rightarrow> string option res" where
  "append_all buf [] = Inr (Some buf)"
| "append_all buf (t # ts) =
     bind_res (MPIU_Strnapp PMIU_MAXLINE buf (snprintf PMIU_MAXLINE t) (of_nat PMIU_MAXLINE)) (\<lambda>(rc, buf).
       if rc \<noteq> 0 then Inr None else append_all buf ts)"

definition num_pair :: "string \<Rightarrow> int \<Rightarrow> string" where
  "num_pair name v = name @ EQS # sdec v @ [NL]"

text \<open>The loop over the arguments of a command: each is appended and the buffer is sent.\<close>

fun spawn_args :: "pm_server \<Rightarrow> nat \<Rightarrow> string list \<Rightarrow> string \<Rightarrow> pmi_st \<Rightarrow> (string option \<times> pmi_st) res" where
  "spawn_args srv i [] buf st = Inr (Some buf, st)"
| "spawn_args srv i (a # as) buf st =
     bind_res (append_all buf [''arg'' @ dec (Suc i) @ EQS # a @ [NL]]) (\<lambda>r.
       case r of None \<Rightarrow> Inr (None, st)
       | Some buf \<Rightarrow> bind_res (writeline srv buf st) (\<lambda>(_, st). spawn_args srv (Suc i) as [] st))"

fun keyval_pieces :: "string \<Rightarrow> nat \<Rightarrow> (string \<times> string) list \<Rightarrow> string list" where
  "keyval_pieces pre i [] = []"
| "keyval_pieces pre i ((k, v) # kvs) =
     (pre @ ''_key_'' @ dec i @ EQS # k @ [NL]) # (pre @ ''_val_'' @ dec i @ EQS # v @ [NL])
     # keyval_pieces pre (Suc i) kvs"

text \<open>One round of the outer loop; false is the return of \<open>PMI_FAIL\<close>.\<close>

definition spawn_one ::
  "pm_server \<Rightarrow> nat \<Rightarrow> (string \<times> string) list \<Rightarrow> nat \<Rightarrow> spawn_cmd \<Rightarrow> pmi_st \<Rightarrow> (bool \<times> pmi_st) res" where
  "spawn_one srv n preput spawncnt c st =
     bind_res (append_all (snprintf PMIU_MAXLINE
         (''mcmd=spawn'' @ NL # num_pair ''nprocs'' (sp_maxprocs c) @ ''execname='' @ sp_cmd c @ [NL]))
       [num_pair ''totspawns'' (int n) @ num_pair ''spawnssofar'' (int spawncnt + 1)]) (\<lambda>r.
     case r of None \<Rightarrow> Inr (False, st)
     | Some buf \<Rightarrow> bind_res (spawn_args srv 0 (sp_argv c) buf st) (\<lambda>(r, st).
     case r of None \<Rightarrow> Inr (False, st)
     | Some buf \<Rightarrow> bind_res (append_all buf
         ([num_pair ''argcnt'' (int (length (sp_argv c))), num_pair ''preput_num'' (int (length preput))]
          @ keyval_pieces ''preput'' 0 preput
          @ [num_pair ''info_num'' (int (length (sp_info c)))] @ keyval_pieces ''info'' 0 (sp_info c)
          @ [''endcmd'' @ [NL]])) (\<lambda>r.
     case r of None \<Rightarrow> Inr (False, st)
     | Some buf \<Rightarrow> bind_res (writeline srv buf st) (\<lambda>(_, st). Inr (True, st)))))"

fun spawn_loop ::
  "pm_server \<Rightarrow> nat \<Rightarrow> (string \<times> string) list \<Rightarrow> nat \<Rightarrow> spawn_cmd list \<Rightarrow> pmi_st \<Rightarrow> (bool \<times> pmi_st) res" where
  "spawn_loop srv n preput k [] st = Inr (True, st)"
| "spawn_loop srv n preput k (c # cs) st =
     bind_res (spawn_one srv n preput k c st) (\<lambda>(ok, st).
       if ok then spawn_loop srv n preput (Suc k) cs st else Inr (False, st))"

text \<open>
  The codes between the commas, stored from \<open>errors[0]\<close> on. \<open>HAVE_ASSERT_H\<close> is not defined
  by the build, so the number of codes is not checked.
\<close>

function split_commas :: "string \<Rightarrow> string list" where
  "split_commas s = (let a = takeWhile (\<lambda>c. c \<noteq> CHR '','') s; r = dropWhile (\<lambda>c. c \<noteq> CHR '','') s
     in if r = [] then [a] else a # split_commas (tl r))"
  by pat_completeness auto
termination
proof (relation "measure length", simp, goal_cases)
  case (1 s a r)
  have "length (tl (dropWhile (\<lambda>c. c \<noteq> CHR '','') s)) < length (dropWhile (\<lambda>c. c \<noteq> CHR '','') s)"
    using 1 by (cases r) auto
  also have "\<dots> \<le> length s" by (rule length_dropWhile_le)
  finally show ?case using 1 by simp
qed

declare split_commas.simps [simp del]

fun store_codes :: "int list \<Rightarrow> nat \<Rightarrow> string list \<Rightarrow> int list res" where
  "store_codes errors k [] = Inr errors"
| "store_codes errors k (c # cs) =
     (if k < length errors then store_codes (errors[k := atoi c]) (Suc k) cs else Inl Out_of_bounds)"

definition PMI_Spawn_multiple ::
  "pm_server \<Rightarrow> spawn_cmd list \<Rightarrow> (string \<times> string) list \<Rightarrow> int list \<Rightarrow> pmi_st \<Rightarrow> (int \<times> int list \<times> pmi_st) res" where
  "PMI_Spawn_multiple srv cmds preput errors st =
     (if PMIi_InitIfSingleton st \<noteq> 0 then Inr (- 1, errors, st)
      else bind_res (spawn_loop srv (length cmds) preput 0 cmds st) (\<lambda>(ok, st).
      if \<not> ok then Inr (PMI_FAIL, errors, st)
      else bind_res (readline st) (\<lambda>(buf, _, st).
      bind_res (parse_keyvals buf st) (\<lambda>(_, st).
      bind_res (getval ''cmd'' st) (\<lambda>(_, cmd).
      if cmd \<noteq> ''spawn_result'' then Inr (- 1, errors, st)
      else bind_res (getval ''rc'' st) (\<lambda>(_, buf).
      if atoi buf \<noteq> 0 then Inr (- 1, errors, st)
      else bind_res (getval ''errcodes'' st) (\<lambda>(found, tempbuf).
      if found then bind_res (store_codes errors 0 (split_commas tempbuf)) (\<lambda>errors. Inr (0, errors, st))
      else bind_res (store_codes errors 0 (replicate (nat (sum_list (map sp_maxprocs cmds))) ''0'')) (\<lambda>errors.
        Inr (0, errors, st)))))))))"

end
