(* ===== verification/LC_Pmi_Spec.thy ===== *)
theory LC_Pmi_Spec
  imports LC_Pmi
begin

text \<open>
  The frame of the process manager client: what each call may change, and that its buffers and
  its table stay within their bounds whatever the process manager sends.
\<close>

section \<open>Bounds of the static buffers\<close>

definition keyval_fits :: "PMIU_keyval_pairs \<Rightarrow> bool" where
  "keyval_fits e \<longleftrightarrow> length (kv_key e) < MAXKEYLEN \<and> length (kv_value e) < MAXVALLEN"

definition tab_fits :: "keyval_tab \<Rightarrow> bool" where
  "tab_fits tab \<longleftrightarrow> length tab \<le> KEYVAL_TAB_LEN \<and> list_all keyval_fits tab"

definition pmi_typed :: "pmi_st \<Rightarrow> bool" where
  "pmi_typed st \<longleftrightarrow> tab_fits (PMIU_keyval_tab st) \<and> length (io_buf (conn st)) < MAX_READLINE
     \<and> length (PMIU_print_id st) < PMIU_IDSIZE
     \<and> length (cached_singinit_key st) < PMIU_MAXLINE \<and> length (cached_singinit_val st) < PMIU_MAXLINE"

lemma copy_loop_bound: "copy_loop cap s i w = Inr (w', i') \<Longrightarrow> length w \<le> cap \<Longrightarrow> length w' \<le> cap"
  by (induction cap s i w rule: copy_loop.induct) (auto split: if_splits)

lemma Strncpy_bound:
  assumes "MPIU_Strncpy cap dest src n = Inr (rc, d)" "length dest < cap"
  shows "length d < cap"
  using assms copy_loop_bound [of cap src "int_of_size n" "[]"]
  by (auto simp: MPIU_Strncpy_def split: if_splits)

lemma parse_loop_fits:
  assumes "parse_loop p tab = Inr (rc, tab')" "tab_fits tab"
  shows "tab_fits tab'"
  using assms
proof (induction p tab rule: parse_loop.induct)
  case (1 st tab)
  show ?case
    using "1.prems" "1.IH"
    by (subst (asm) parse_loop.simps)
      (auto simp: Let_def tab_fits_def keyval_fits_def MAXVALLEN_def MAXKEYLEN_def
        dest: Strncpy_bound split: if_splits)
qed

lemma sys_read_bound: "sys_read es = Inr (Some d, es') \<Longrightarrow> length d < MAX_READLINE"
  by (induction es rule: sys_read.induct) (auto simp: MAX_READLINE_def split: if_splits)

lemma pm_read_bound: "pm_read fd io = Inr (Some d, es') \<Longrightarrow> length d < MAX_READLINE"
  by (auto simp: pm_read_def dest: sys_read_bound split: if_splits)

lemma readline_loop_bound:
  assumes "readline_loop room fd acc io = Inr (buf, n, io')" "length (io_buf io) < MAX_READLINE"
  shows "length (io_buf io') < MAX_READLINE"
  using assms
proof (induction room fd acc io rule: readline_loop.induct)
  case (2 room fd acc io)
  show ?case
  proof (cases "io_buf io")
    case Nil
    with "2.prems"(1) obtain r es where r: "pm_read fd io = Inr (r, es)" by auto
    consider "r = None" | "r = Some []" | c cs where "r = Some (c # cs)"
      by (cases r; cases "the r") auto
    then show ?thesis
    proof cases
      case 3
      then have "length cs < MAX_READLINE" using pm_read_bound [of fd io "c # cs" es] r by simp
      then show ?thesis using 3 Nil r "2.prems" "2.IH"(1) [OF Nil, of r "c # cs" c cs es]
        by (auto split: if_splits)
    qed (use Nil r "2.prems" in auto)
  next
    case (Cons c cs)
    then show ?thesis using "2.prems" "2.IH"(2) [OF Cons] by (auto split: if_splits)
  qed
qed simp

text \<open>
  What a request changes of the state: the connection, the table and, during initialisation, the
  limits the process manager announces.
\<close>

definition talks :: "pmi_st \<Rightarrow> pmi_st \<Rightarrow> bool" where
  "talks st st' \<longleftrightarrow> (\<exists>io tab a b c. st' = st\<lparr>conn := io, PMIU_keyval_tab := tab,
     PMI_kvsname_max := a, PMI_keylen_max := b, PMI_vallen_max := c\<rparr>)"

lemma talksI:
  "st' = st\<lparr>conn := conn st', PMIU_keyval_tab := PMIU_keyval_tab st', PMI_kvsname_max := PMI_kvsname_max st',
     PMI_keylen_max := PMI_keylen_max st', PMI_vallen_max := PMI_vallen_max st'\<rparr> \<Longrightarrow> talks st st'"
  unfolding talks_def by blast

lemma talks_refl [simp]: "talks st st"
  by (rule talksI) simp

lemma talks_trans: "talks a b \<Longrightarrow> talks b c \<Longrightarrow> talks a c"
  unfolding talks_def by fastforce

definition step_ok :: "pmi_st \<Rightarrow> pmi_st \<Rightarrow> bool" where
  "step_ok st st' \<longleftrightarrow> talks st st' \<and> (pmi_typed st \<longrightarrow> pmi_typed st')"

lemma step_ok_refl [simp]: "step_ok st st"
  by (simp add: step_ok_def)

lemma step_ok_trans [trans]: "step_ok a b \<Longrightarrow> step_ok b c \<Longrightarrow> step_ok a c"
  unfolding step_ok_def using talks_trans by blast

lemma step_ok_conn: "length (io_buf io) < MAX_READLINE \<or> length (io_buf io) \<le> length (io_buf (conn st)) \<Longrightarrow> step_ok st (st\<lparr>conn := io\<rparr>)"
  unfolding step_ok_def pmi_typed_def by (auto intro!: talksI)

lemma step_ok_tab: "tab_fits tab \<Longrightarrow> step_ok st (st\<lparr>PMIU_keyval_tab := tab\<rparr>)"
  unfolding step_ok_def pmi_typed_def by (auto intro!: talksI)

lemma step_ok_maxes:
  "step_ok st (st\<lparr>PMI_kvsname_max := a, PMI_keylen_max := b, PMI_vallen_max := c\<rparr>)"
  unfolding step_ok_def pmi_typed_def by (auto intro!: talksI)

lemma PMIU_writeline_buf: "PMIU_writeline srv fd buf io = Inr (rc, io') \<Longrightarrow> io_buf io' = io_buf io"
  by (auto simp: PMIU_writeline_def Let_def split: if_splits prod.splits option.splits)

lemma writeline_step: "writeline srv buf st = Inr (rc, st') \<Longrightarrow> step_ok st st'"
  by (auto simp: writeline_def dest: PMIU_writeline_buf intro!: step_ok_conn)

lemma readline_step:
  assumes "readline st = Inr (buf, n, st')"
  shows "step_ok st st'"
proof -
  obtain io where r: "PMIU_readline (PMI_fd st) [] PMIU_MAXLINE (conn st) = Inr (buf, n, io)" "st' = st\<lparr>conn := io\<rparr>"
    using assms by (auto simp: readline_def)
  then have "length (io_buf (conn st)) < MAX_READLINE \<longrightarrow> length (io_buf io) < MAX_READLINE"
    by (auto simp: PMIU_readline_def dest: readline_loop_bound split: if_splits)
  then show ?thesis unfolding r(2) step_ok_def pmi_typed_def by (auto intro!: talksI)
qed

lemma parse_keyvals_step: "parse_keyvals buf st = Inr (err, st') \<Longrightarrow> step_ok st st'"
  by (auto simp: parse_keyvals_def PMIU_parse_keyvals_def tab_fits_def [of "[]"]
      dest!: parse_loop_fits intro!: step_ok_tab)

subsection \<open>Rules for the sequences of calls\<close>

named_theorems keeps_rules \<open>step by step through the calls of the process manager client\<close>

text \<open>Whatever a computation started in \<open>st\<close> returns, the state \<open>sel\<close> selects from it is a step of \<open>st\<close>.\<close>

definition keeps :: "pmi_st \<Rightarrow> ('a \<Rightarrow> pmi_st) \<Rightarrow> 'a res \<Rightarrow> bool" where
  "keeps st sel m \<longleftrightarrow> (\<forall>x. m = Inr x \<longrightarrow> step_ok st (sel x))"

lemma keeps_Inr [keeps_rules]: "step_ok st (sel x) \<Longrightarrow> keeps st sel (Inr x)"
  by (simp add: keeps_def)

lemma keeps_Inl [keeps_rules]: "keeps st sel (Inl e)"
  by (simp add: keeps_def)

lemma keeps_if [keeps_rules]: "keeps st sel a \<Longrightarrow> keeps st sel b \<Longrightarrow> keeps st sel (if P then a else b)"
  by simp

lemma keeps_option [keeps_rules]:
  "keeps st sel a \<Longrightarrow> (\<And>y. keeps st sel (f y)) \<Longrightarrow> keeps st sel (case r of None \<Rightarrow> a | Some y \<Rightarrow> f y)"
  by (cases r) auto

lemma keeps_bind:
  assumes "keeps st sel' m" "\<And>x. m = Inr x \<Longrightarrow> keeps (sel' x) sel (f x)"
  shows "keeps st sel (bind_res m f)"
  using assms step_ok_trans unfolding keeps_def by fastforce

lemma keeps_bind_pair:
  assumes "keeps st snd m" "\<And>a st1. keeps st1 sel (f a st1)"
  shows "keeps st sel (bind_res m (case_prod f))"
  by (rule keeps_bind [OF assms(1)]) (use assms(2) in \<open>auto split: prod.splits\<close>)

lemma keeps_bind_triple:
  assumes "keeps st (snd \<circ> snd) m" "\<And>a b st1. keeps st1 sel (f a b st1)"
  shows "keeps st sel (bind_res m (case_prod (\<lambda>a. case_prod (f a))))"
  by (rule keeps_bind [OF assms(1)]) (use assms(2) in \<open>auto split: prod.splits\<close>)

lemma keeps_pure:
  assumes "\<And>x. keeps st sel (f x)"
  shows "keeps st sel (bind_res m f)"
  using assms by (auto simp: keeps_def)

lemma keeps_pure_pair:
  assumes "\<And>a b. keeps st sel (f a b)"
  shows "keeps st sel (bind_res m (case_prod f))"
  using assms by (intro keeps_pure) (auto split: prod.splits)

lemma keeps_writeline [keeps_rules]:
  "(\<And>rc st1. keeps st1 sel (f rc st1)) \<Longrightarrow> keeps st sel (bind_res (writeline srv b st) (case_prod f))"
  by (rule keeps_bind_pair) (auto simp: keeps_def dest: writeline_step)

lemma keeps_readline [keeps_rules]:
  "(\<And>b n st1. keeps st1 sel (f b n st1)) \<Longrightarrow> keeps st sel (bind_res (readline st) (case_prod (\<lambda>b. case_prod (f b))))"
  by (rule keeps_bind_triple) (auto simp: keeps_def dest: readline_step)

lemma keeps_parse [keeps_rules]:
  "(\<And>rc st1. keeps st1 sel (f rc st1)) \<Longrightarrow> keeps st sel (bind_res (parse_keyvals b st) (case_prod f))"
  by (rule keeps_bind_pair) (auto simp: keeps_def dest: parse_keyvals_step)

lemma keeps_getval [keeps_rules]:
  "(\<And>p v. keeps st sel (f p v)) \<Longrightarrow> keeps st sel (bind_res (getval k st') (case_prod f))"
  by (rule keeps_pure_pair)

lemma keeps_PMIU_getval [keeps_rules]:
  "(\<And>p v. keeps st sel (f p v)) \<Longrightarrow> keeps st sel (bind_res (PMIU_getval t k c l v0) (case_prod f))"
  by (rule keeps_pure_pair)

lemma GetResponse_keeps: "keeps st snd (GetResponse srv request cmd chk st)"
  unfolding GetResponse_def by (intro keeps_rules) simp_all

lemma keeps_GetResponse [keeps_rules]:
  "(\<And>rc st1. keeps st1 sel (f rc st1)) \<Longrightarrow> keeps st sel (bind_res (GetResponse srv r c k st) (case_prod f))"
  by (rule keeps_bind_pair [OF GetResponse_keeps])

lemma PMI_Abort_keeps: "keeps st snd (PMI_Abort srv e st)"
  unfolding PMI_Abort_def by (intro keeps_rules) simp

lemmas [keeps_rules] = GetResponse_keeps PMI_Abort_keeps step_ok_refl

subsection \<open>The calls of the interface\<close>

lemma PMI_Get_universe_size_keeps: "keeps st (snd \<circ> snd) (PMI_Get_universe_size srv n st)"
  unfolding PMI_Get_universe_size_def by (intro keeps_rules) simp_all

lemma PMI_Get_appnum_keeps: "keeps st (snd \<circ> snd) (PMI_Get_appnum srv n st)"
  unfolding PMI_Get_appnum_def by (intro keeps_rules) simp_all

lemma PMI_Barrier_keeps: "keeps st snd (PMI_Barrier srv st)"
  unfolding PMI_Barrier_def by (intro keeps_rules) simp_all

lemma step_ok_close [keeps_rules]: "step_ok st (st\<lparr>conn := conn st\<lparr>io_open := False\<rparr>\<rparr>)"
  by (rule step_ok_conn) simp

lemma PMI_Finalize_keeps: "keeps st snd (PMI_Finalize srv st)"
  unfolding PMI_Finalize_def by (intro keeps_rules) (simp_all add: step_ok_close)

lemma PMI_KVS_Get_my_name_keeps: "keeps st (snd \<circ> snd) (PMI_KVS_Get_my_name srv pid cap b l st)"
  unfolding PMI_KVS_Get_my_name_def Let_def by (intro keeps_rules) simp_all

lemma PMI_KVS_Get_keeps: "keeps st (snd \<circ> snd) (PMI_KVS_Get srv cap n k v l st)"
  unfolding PMI_KVS_Get_def by (intro keeps_rules) simp_all

lemma PMI_Publish_name_keeps: "keeps st snd (PMI_Publish_name srv s p st)"
  unfolding PMI_Publish_name_def by (intro keeps_rules) simp_all

lemma PMI_Unpublish_name_keeps: "keeps st snd (PMI_Unpublish_name srv s st)"
  unfolding PMI_Unpublish_name_def by (intro keeps_rules) simp_all

lemma PMI_Lookup_name_keeps: "keeps st (snd \<circ> snd) (PMI_Lookup_name srv cap s p st)"
  unfolding PMI_Lookup_name_def by (intro keeps_rules) simp_all

lemma keeps_append_all [keeps_rules]:
  "(\<And>x. keeps st sel (f x)) \<Longrightarrow> keeps st sel (bind_res (append_all b ts) f)"
  by (rule keeps_pure)

lemma spawn_args_keeps: "keeps st snd (spawn_args srv i as b st)"
proof (induction "as" arbitrary: i b st)
  case (Cons a "as")
  show ?case unfolding spawn_args.simps by (intro keeps_rules Cons) simp
qed (simp add: keeps_def)

lemma keeps_spawn_args [keeps_rules]:
  "(\<And>r st1. keeps st1 sel (f r st1)) \<Longrightarrow> keeps st sel (bind_res (spawn_args srv i as b st) (case_prod f))"
  by (rule keeps_bind_pair [OF spawn_args_keeps])

lemma spawn_one_keeps: "keeps st snd (spawn_one srv n p k c st)"
  unfolding spawn_one_def by (intro keeps_rules) simp_all

lemma keeps_spawn_one [keeps_rules]:
  "(\<And>r st1. keeps st1 sel (f r st1)) \<Longrightarrow> keeps st sel (bind_res (spawn_one srv n p k c st) (case_prod f))"
  by (rule keeps_bind_pair [OF spawn_one_keeps])

lemma spawn_loop_keeps: "keeps st snd (spawn_loop srv n p k cs st)"
proof (induction cs arbitrary: k st)
  case (Cons c cs)
  show ?case unfolding spawn_loop.simps by (intro keeps_rules Cons) simp
qed (simp add: keeps_def)

lemma PMI_Spawn_multiple_keeps: "keeps st (snd \<circ> snd) (PMI_Spawn_multiple srv cmds p errors st)"
  unfolding PMI_Spawn_multiple_def
  by (intro keeps_rules keeps_bind_pair [OF spawn_loop_keeps] keeps_pure) simp_all

lemma PMII_getmaxes_keeps: "keeps st snd (PMII_getmaxes srv st)"
  unfolding PMII_getmaxes_def
  by (intro keeps_rules keeps_bind_pair [where m = "if P then a else b" for P a b])
    (simp_all add: step_ok_maxes)

text \<open>Initialisation and the value a lone process caches change other variables as well.\<close>

lemma pmi_typed_upd [simp]:
  "pmi_typed (st\<lparr>PMI_fd := x\<rparr>) = pmi_typed st" "pmi_typed (st\<lparr>PMI_size := x\<rparr>) = pmi_typed st"
  "pmi_typed (st\<lparr>PMI_rank := x\<rparr>) = pmi_typed st" "pmi_typed (st\<lparr>PMI_initialized := i\<rparr>) = pmi_typed st"
  "pmi_typed (st\<lparr>PMI_kvsname_max := x\<rparr>) = pmi_typed st" "pmi_typed (st\<lparr>PMI_keylen_max := x\<rparr>) = pmi_typed st"
  "pmi_typed (st\<lparr>PMI_vallen_max := x\<rparr>) = pmi_typed st" "pmi_typed (st\<lparr>PMI_debug := x\<rparr>) = pmi_typed st"
  "pmi_typed (st\<lparr>PMI_spawned := x\<rparr>) = pmi_typed st" "pmi_typed (st\<lparr>environment := e\<rparr>) = pmi_typed st"
  by (simp_all add: pmi_typed_def)

lemma pmi_typed_Set_rank: "pmi_typed st \<Longrightarrow> pmi_typed (PMIU_Set_rank r st)"
  by (simp add: pmi_typed_def PMIU_Set_rank_def snprintf_def PMIU_IDSIZE_def)

lemma getPMIFD_typed: "getPMIFD st = (rc, st') \<Longrightarrow> pmi_typed st \<Longrightarrow> pmi_typed st'"
  by (auto simp: getPMIFD_def split: option.splits)

lemma getmaxes_typed: "PMII_getmaxes srv st = Inr (rc, st') \<Longrightarrow> pmi_typed st \<Longrightarrow> pmi_typed st'"
  using PMII_getmaxes_keeps [of st srv] by (auto simp: keeps_def step_ok_def)

lemma init_from_env_typed: "pmi_typed st \<Longrightarrow> pmi_typed (init_from_env st)"
  by (simp add: init_from_env_def Let_def pmi_typed_Set_rank split: option.splits)

lemma init_done_typed: "pmi_typed st \<Longrightarrow> pmi_typed (snd (init_done st))"
  by (simp add: init_done_def Let_def)

lemma PMI_Init_typed:
  assumes "PMI_Init srv st = Inr (rc, out, st')" "pmi_typed st"
  shows "pmi_typed st'"
proof -
  let ?s0 = "st\<lparr>PMI_initialized := PMI_UNINITIALIZED\<rparr>"
  obtain rc1 s1 where s1: "getPMIFD (?s0\<lparr>PMI_debug := getenv_int ''PMI_DEBUG'' (PMI_debug ?s0) ?s0\<rparr>) = (rc1, s1)"
    by (metis surj_pair)
  have "pmi_typed s1" using getPMIFD_typed [OF s1] assms(2) by simp
  then show ?thesis
    using assms(1) s1 unfolding PMI_Init_def Let_def
    by (auto simp: case_prod_beta split: if_splits dest!: getmaxes_typed intro: init_from_env_typed init_done_typed)
qed

lemma PMIU_SetServer_typed: "PMIU_SetServer st = Inr st' \<Longrightarrow> pmi_typed st \<Longrightarrow> pmi_typed st'"
  by (auto simp: PMIU_SetServer_def pmi_typed_def dest: Strncpy_bound)

text \<open>A handshake that fails goes unnoticed: whatever the process manager answers, or when it
  closes the connection, initialisation reports success.\<close>

lemma PMI_Init_reports_success: "PMI_Init srv st = Inr (rc, out, st') \<Longrightarrow> rc = PMI_SUCCESS"
  by (auto simp: PMI_Init_def getPMIFD_def Let_def case_prod_beta split: if_splits option.splits)

lemma PMI_KVS_Put_typed:
  assumes "PMI_KVS_Put srv n k v st = Inr (rc, st')" "pmi_typed st"
  shows "pmi_typed st'"
proof (cases "PMI_initialized st = SINGLETON_INIT_BUT_NO_PM")
  case True
  with assms(1) obtain rc1 k1 where k1: "MPIU_Strncpy PMIU_MAXLINE (cached_singinit_key st) k (of_int (PMI_keylen_max st)) = Inr (rc1, k1)"
    by (auto simp: PMI_KVS_Put_def)
  let ?s = "st\<lparr>cached_singinit_key := k1\<rparr>"
  have s: "pmi_typed ?s" using Strncpy_bound [OF k1] assms(2) by (simp add: pmi_typed_def)
  show ?thesis
  proof (cases "rc1 = 0")
    case False
    then show ?thesis using assms(1) True k1 s by (simp add: PMI_KVS_Put_def Let_def)
  next
    case rc: True
    then obtain rc2 v1 where v1: "MPIU_Strncpy PMIU_MAXLINE (cached_singinit_val st) v (of_int (PMI_vallen_max st)) = Inr (rc2, v1)"
      "st' = ?s\<lparr>cached_singinit_val := v1\<rparr>"
      using assms(1) True k1 by (auto simp: PMI_KVS_Put_def Let_def split: if_splits)
    then show ?thesis using Strncpy_bound [OF v1(1)] s by (simp add: pmi_typed_def)
  qed
next
  case False
  then show ?thesis using assms GetResponse_keeps by (auto simp: PMI_KVS_Put_def keeps_def step_ok_def)
qed

text \<open>The calls a client can make, on one connection with the process manager \<open>srv\<close>.\<close>

inductive pmi_step :: "pm_server \<Rightarrow> pmi_st \<Rightarrow> pmi_st \<Rightarrow> bool" for srv where
  Init: "PMI_Init srv st = Inr (rc, out, st') \<Longrightarrow> pmi_step srv st st'"
| Universe: "PMI_Get_universe_size srv n st = Inr (rc, n', st') \<Longrightarrow> pmi_step srv st st'"
| Appnum: "PMI_Get_appnum srv n st = Inr (rc, n', st') \<Longrightarrow> pmi_step srv st st'"
| Barrier: "PMI_Barrier srv st = Inr (rc, st') \<Longrightarrow> pmi_step srv st st'"
| Final: "PMI_Finalize srv st = Inr (rc, st') \<Longrightarrow> pmi_step srv st st'"
| Abort: "PMI_Abort srv e st = Inr (rc, st') \<Longrightarrow> pmi_step srv st st'"
| Name: "PMI_KVS_Get_my_name srv pid cap b l st = Inr (rc, b', st') \<Longrightarrow> pmi_step srv st st'"
| Put: "PMI_KVS_Put srv name k v st = Inr (rc, st') \<Longrightarrow> pmi_step srv st st'"
| Get: "PMI_KVS_Get srv cap name k v l st = Inr (rc, v', st') \<Longrightarrow> pmi_step srv st st'"
| Publish: "PMI_Publish_name srv s p st = Inr (rc, st') \<Longrightarrow> pmi_step srv st st'"
| Unpublish: "PMI_Unpublish_name srv s st = Inr (rc, st') \<Longrightarrow> pmi_step srv st st'"
| Lookup: "PMI_Lookup_name srv cap s p st = Inr (rc, p', st') \<Longrightarrow> pmi_step srv st st'"
| Spawn: "PMI_Spawn_multiple srv cmds pre errs st = Inr (rc, errs', st') \<Longrightarrow> pmi_step srv st st'"

lemma keeps_typed:
  "keeps st sel m \<Longrightarrow> m = Inr x \<Longrightarrow> pmi_typed st \<Longrightarrow> pmi_typed (sel x)"
  by (simp add: keeps_def step_ok_def)

lemmas calls_typed =
  PMI_Get_universe_size_keeps [THEN keeps_typed] PMI_Get_appnum_keeps [THEN keeps_typed]
  PMI_Barrier_keeps [THEN keeps_typed] PMI_Finalize_keeps [THEN keeps_typed] PMI_Abort_keeps [THEN keeps_typed]
  PMI_KVS_Get_my_name_keeps [THEN keeps_typed] PMI_KVS_Get_keeps [THEN keeps_typed]
  PMI_Publish_name_keeps [THEN keeps_typed] PMI_Unpublish_name_keeps [THEN keeps_typed]
  PMI_Lookup_name_keeps [THEN keeps_typed] PMI_Spawn_multiple_keeps [THEN keeps_typed]

lemma pmi_step_typed: "pmi_step srv st st' \<Longrightarrow> pmi_typed st \<Longrightarrow> pmi_typed st'"
  by (induction rule: pmi_step.induct)
    (fastforce dest: PMI_Init_typed PMI_KVS_Put_typed calls_typed)+

text \<open>The static variables as the program starts, with an open connection.\<close>

definition pmi_start :: "(string \<Rightarrow> string option) \<Rightarrow> rres list \<Rightarrow> wres list \<Rightarrow> string list \<Rightarrow> pmi_st" where
  "pmi_start env inp outp lg = \<lparr>PMI_fd = - 1, PMI_size = 1, PMI_rank = 0, PMI_initialized = PMI_UNINITIALIZED,
     PMI_kvsname_max = 0, PMI_keylen_max = 0, PMI_vallen_max = 0, PMI_debug = 0, PMI_spawned = 0,
     cached_singinit_key = [], cached_singinit_val = [], PMIU_keyval_tab = [], PMIU_print_id = ''unset'',
     conn = \<lparr>io_in = inp, io_wr = outp, io_log = lg, io_buf = [], io_lastfd = - 1, io_open = True\<rparr>,
     environment = env\<rparr>"

lemma pmi_start_typed: "pmi_typed (pmi_start env inp outp lg)"
  by (simp add: pmi_typed_def pmi_start_def tab_fits_def MAX_READLINE_def PMIU_IDSIZE_def PMIU_MAXLINE_def)

lemma pmi_steps_typed: "(pmi_step srv)\<^sup>*\<^sup>* st st' \<Longrightarrow> pmi_typed st \<Longrightarrow> pmi_typed st'"
  by (induction rule: rtranclp_induct) (auto intro: pmi_step_typed)



end
