(* ===== verification/LC_Pmi_Kvs.thy ===== *)
theory LC_Pmi_Kvs
  imports LC_Pmi_Spec
begin

text \<open>
  Requests and their answers: what a call returns when the process manager answers with a line
  of the protocol, and the key-value space that the processes of a job share through it.
\<close>

section \<open>A request and its answer\<close>

text \<open>A connection with nothing left over from earlier answers, on which writes succeed.\<close>

definition quiet :: "pmi_io \<Rightarrow> bool" where
  "quiet io \<longleftrightarrow> stream io = [] \<and> io_live io \<and> list_all (\<lambda>w. w = W_intr) (io_wr io)"

definition connected :: "pmi_st \<Rightarrow> bool" where
  "connected st \<longleftrightarrow> fd_ok (PMI_fd st) (conn st) \<and> quiet (conn st)"

text \<open>The process manager answers the log \<open>lg\<close> with the pairs \<open>es\<close>, in however many pieces.\<close>

definition replies :: "pm_server \<Rightarrow> string list \<Rightarrow> keyval_tab \<Rightarrow> bool" where
  "replies srv lg es \<longleftrightarrow> list_all live_ev (srv lg) \<and> in_stream (srv lg) = print_keyvals es
     \<and> list_all wf_keyval es \<and> length es \<le> KEYVAL_TAB_LEN \<and> length (print_keyvals es) < PMIU_MAXLINE"

definition tab_val :: "keyval_tab \<Rightarrow> string \<Rightarrow> string option" where
  "tab_val tab k = map_option kv_value (find (\<lambda>e. kv_key e = k) tab)"

definition is_request :: "string \<Rightarrow> bool" where
  "is_request r \<longleftrightarrow> r \<noteq> [] \<and> last r = NL \<and> length r < PMIU_MAXLINE"

lemma sys_write_all: "list_all (\<lambda>w. w = W_intr) ws \<Longrightarrow> sys_write n ws = (Some n, [])"
  by (induction n ws rule: sys_write.induct) auto

lemma writeline_ok:
  assumes "connected st" "is_request r"
  shows "writeline srv r st = Inr (0, st\<lparr>conn := conn st\<lparr>io_wr := [], io_log := io_log (conn st) @ [r],
           io_in := io_in (conn st) @ srv (io_log (conn st) @ [r])\<rparr>\<rparr>)"
  using assms
  by (simp add: writeline_def PMIU_writeline_def connected_def quiet_def is_request_def sys_write_all Let_def
      PMIU_MAXLINE_def)

lemma find_wf: "find P tab = Some e \<Longrightarrow> list_all Q tab \<Longrightarrow> Q e"
  by (induction tab) (auto split: if_splits)

lemma PMIU_getval_ok:
  assumes "tab_val tab k = Some v" "length v < m" "0 < m" "m < 2 ^ 31" "m \<le> cap"
  shows "PMIU_getval tab k cap (of_nat m) b = Inr (True, v)"
  using assms MPIU_Strncpy_ok [of m cap b v] by (auto simp: PMIU_getval_def tab_val_def)

lemma getval_ok:
  assumes "tab_val (PMIU_keyval_tab st) k = Some v" "length v < PMIU_MAXLINE"
  shows "getval k st = Inr (True, v)"
  using assms PMIU_getval_ok [of _ k v PMIU_MAXLINE] by (simp add: getval_def PMIU_MAXLINE_def)

lemma getval_missing: "tab_val (PMIU_keyval_tab st) k = None \<Longrightarrow> getval k st = Inr (False, [])"
  by (auto simp: getval_def PMIU_getval_def tab_val_def PMIU_MAXLINE_def split: option.splits)

lemma tab_val_len: "list_all wf_keyval tab \<Longrightarrow> tab_val tab k = Some v \<Longrightarrow> length v < PMIU_MAXLINE"
  by (auto simp: tab_val_def wf_keyval_def PMIU_MAXLINE_def MAXVALLEN_def dest: find_wf)

text \<open>
  Reading the answer: whatever pieces it comes in, the table holds its pairs afterwards and the
  connection is quiet again.
\<close>

lemma answer_read:
  assumes "fd_ok (PMI_fd st) (conn st)" "io_live (conn st)" "io_wr (conn st) = []" "io_buf (conn st) = []"
    and s: "stream (conn st) = print_keyvals es" and es: "list_all wf_keyval es" "length es \<le> KEYVAL_TAB_LEN"
      "length (print_keyvals es) < PMIU_MAXLINE"
  shows "\<exists>b i f. readline st = Inr (print_keyvals es, int (length (print_keyvals es)),
            st\<lparr>conn := conn st\<lparr>io_buf := b, io_in := i, io_lastfd := f\<rparr>\<rparr>)
         \<and> quiet (conn st\<lparr>io_buf := b, io_in := i, io_lastfd := f\<rparr>)"
proof -
  have l: "length (kv_line es) < PMIU_MAXLINE - 1" using es(3) by (simp add: print_keyvals_def)
  have "stream (conn st) = kv_line es @ NL # []" using s by (simp add: print_keyvals_def)
  from readline_loop_line [OF assms(1,2) this _ l, of "[]"] kv_line_chars [OF es(1)]
  obtain b i f where r: "readline_loop (PMIU_MAXLINE - 1) (PMI_fd st) [] (conn st) = Inr (print_keyvals es,
      int (length (print_keyvals es)), conn st\<lparr>io_buf := b, io_in := i, io_lastfd := f\<rparr>)"
    "b @ in_stream i = []" "list_all live_ev i"
    by (auto simp: print_keyvals_def)
  show ?thesis
    by (rule exI [of _ b], rule exI [of _ i], rule exI [of _ f])
      (use r assms(3,4) in \<open>simp add: readline_def PMIU_readline_def quiet_def stream_def io_live_def\<close>)
qed

lemma GetResponse_reply:
  assumes "connected st" "is_request r" "replies srv (io_log (conn st) @ [r]) es"
  shows "\<exists>io. connected (st\<lparr>conn := io, PMIU_keyval_tab := es\<rparr>) \<and> io_log io = io_log (conn st) @ [r]
    \<and> GetResponse srv r cmd chk st =
        Inr (if tab_val es ''cmd'' = Some cmd
               \<and> (chk \<longrightarrow> tab_val es ''rc'' = None \<or> tab_val es ''rc'' = Some ''0'')
             then 0 else PMI_FAIL, st\<lparr>conn := io, PMIU_keyval_tab := es\<rparr>)"
proof -
  let ?io = "conn st\<lparr>io_wr := [], io_log := io_log (conn st) @ [r],
    io_in := io_in (conn st) @ srv (io_log (conn st) @ [r])\<rparr>"
  let ?s = "st\<lparr>conn := ?io\<rparr>"
  have es: "list_all wf_keyval es" "length es \<le> KEYVAL_TAB_LEN" "length (print_keyvals es) < PMIU_MAXLINE"
    using assms(3) by (auto simp: replies_def)
  have pre: "fd_ok (PMI_fd ?s) (conn ?s)" "io_live (conn ?s)" "io_wr (conn ?s) = []" "io_buf (conn ?s) = []"
    "stream (conn ?s) = print_keyvals es"
    using assms(1,3) by (auto simp: connected_def quiet_def replies_def io_live_def stream_def fd_ok_def)
  obtain b i f where rd: "readline ?s = Inr (print_keyvals es, int (length (print_keyvals es)),
      ?s\<lparr>conn := conn ?s\<lparr>io_buf := b, io_in := i, io_lastfd := f\<rparr>\<rparr>)"
    and q: "quiet (conn ?s\<lparr>io_buf := b, io_in := i, io_lastfd := f\<rparr>)"
    using answer_read [OF pre es] by blast
  let ?io' = "conn ?s\<lparr>io_buf := b, io_in := i, io_lastfd := f\<rparr>"
  let ?s' = "st\<lparr>conn := ?io', PMIU_keyval_tab := es\<rparr>"
  have ps: "parse_keyvals (print_keyvals es) (?s\<lparr>conn := ?io'\<rparr>) = Inr (0, ?s')"
    using parse_print_ok [OF es(1)] es(2) by (simp add: parse_keyvals_def)
  have pos: "\<not> int (length (print_keyvals es)) \<le> 0" by (simp add: print_keyvals_def)
  have "GetResponse srv r cmd chk st =
      Inr (if tab_val es ''cmd'' = Some cmd \<and> (chk \<longrightarrow> tab_val es ''rc'' = None \<or> tab_val es ''rc'' = Some ''0'')
           then 0 else PMI_FAIL, ?s')"
    unfolding GetResponse_def
    using writeline_ok [OF assms(1,2), of srv] rd ps pos
    by (cases "tab_val es ''cmd''"; cases "tab_val es ''rc''")
      (auto simp: getval_ok getval_missing tab_val_len [OF es(1)])
  moreover have "connected ?s'" using q pre(1) by (simp add: connected_def fd_ok_def)
  ultimately show ?thesis by (intro exI [of _ ?io']) simp
qed

section \<open>The shared key-value space\<close>

text \<open>
  What a process manager has been told so far: the latest value put for each name space and key.
\<close>

definition put_of :: "string \<Rightarrow> (string \<times> string \<times> string) option" where
  "put_of m = (case PMIU_parse_keyvals m of
       Inl e \<Rightarrow> None
     | Inr (rc, tab) \<Rightarrow>
         if rc = 0 \<and> tab_val tab ''cmd'' = Some ''put'' then
           (case (tab_val tab ''kvsname'', tab_val tab ''key'', tab_val tab ''value'') of
              (Some n, Some k, Some v) \<Rightarrow> Some (n, k, v) | _ \<Rightarrow> None)
         else None)"

definition kvs_put :: "(string \<times> string \<rightharpoonup> string) \<Rightarrow> string \<Rightarrow> (string \<times> string \<rightharpoonup> string)" where
  "kvs_put M m = (case put_of m of Some (n, k, v) \<Rightarrow> M((n, k) \<mapsto> v) | None \<Rightarrow> M)"

definition kvs_of :: "string list \<Rightarrow> (string \<times> string \<rightharpoonup> string)" where
  "kvs_of lg = foldl kvs_put Map.empty lg"

text \<open>Words of the protocol, and values that fit the buffers of \<open>src/pm.c\<close>.\<close>

definition is_word :: "string \<Rightarrow> bool" where
  "is_word s \<longleftrightarrow> list_all (\<lambda>c. is_valchar c \<and> c \<noteq> NUL) s"

definition answers :: "pm_server \<Rightarrow> string list \<Rightarrow> (string \<times> string) list \<Rightarrow> bool" where
  "answers srv lg kvs \<longleftrightarrow> (\<exists>es. replies srv lg es \<and> list_all (\<lambda>(k, v). tab_val es k = Some v) kvs)"

text \<open>
  What the client relies on: a put is acknowledged, a get returns the latest value put, by
  whichever process, and a barrier is left in the end. (A process manager answers a barrier only
  after every process has entered it; the answer is what matters here.)
\<close>

definition kvs_service :: "pm_server \<Rightarrow> bool" where
  "kvs_service srv \<longleftrightarrow>
     (\<forall>lg n k v. is_word n \<and> is_word k \<and> is_word v \<and> is_request (put_msg n k v) \<longrightarrow>
        answers srv (lg @ [put_msg n k v]) [(''cmd'', ''put_result''), (''rc'', ''0'')])
   \<and> (\<forall>lg n k v. is_word n \<and> is_word k \<and> is_request (get_msg n k) \<and> kvs_of lg (n, k) = Some v
          \<and> is_word v \<and> length v < 256 \<longrightarrow>
        answers srv (lg @ [get_msg n k]) [(''cmd'', ''get_result''), (''rc'', ''0''), (''value'', v)])
   \<and> (\<forall>lg. answers srv (lg @ [''cmd=barrier_in'' @ [NL]]) [(''cmd'', ''barrier_out'')])"

lemma put_msg_print:
  "put_msg n k v = print_keyvals [\<lparr>kv_key = ''cmd'', kv_value = ''put''\<rparr>, \<lparr>kv_key = ''kvsname'', kv_value = n\<rparr>,
     \<lparr>kv_key = ''key'', kv_value = k\<rparr>, \<lparr>kv_key = ''value'', kv_value = v\<rparr>]"
  by (simp add: put_msg_def print_keyvals_def)

lemmas char_defs = is_keychar_def is_valchar_def MAXKEYLEN_def MAXVALLEN_def

lemma wf_word: "is_word v \<Longrightarrow> length v < MAXVALLEN \<Longrightarrow> list_all (\<lambda>c. is_keychar c \<and> c \<noteq> NUL) k \<Longrightarrow>
    k \<noteq> [] \<Longrightarrow> length k < MAXKEYLEN \<Longrightarrow> wf_keyval \<lparr>kv_key = k, kv_value = v\<rparr>"
  by (simp add: wf_keyval_def is_word_def)

lemma get_msg_print:
  "get_msg n k = print_keyvals [\<lparr>kv_key = ''cmd'', kv_value = ''get''\<rparr>, \<lparr>kv_key = ''kvsname'', kv_value = n\<rparr>,
     \<lparr>kv_key = ''key'', kv_value = k\<rparr>]"
  by (simp add: get_msg_def print_keyvals_def)

lemma parse_put_msg:
  assumes "is_word n" "is_word k" "is_word v" "is_request (put_msg n k v)"
  shows "PMIU_parse_keyvals (put_msg n k v) = Inr (0, [\<lparr>kv_key = ''cmd'', kv_value = ''put''\<rparr>,
      \<lparr>kv_key = ''kvsname'', kv_value = n\<rparr>, \<lparr>kv_key = ''key'', kv_value = k\<rparr>, \<lparr>kv_key = ''value'', kv_value = v\<rparr>])"
proof -
  have len: "length n < MAXVALLEN" "length k < MAXVALLEN" "length v < MAXVALLEN"
    using assms(4) by (auto simp: is_request_def put_msg_def MAXVALLEN_def PMIU_MAXLINE_def)
  have "is_word ''put''" by (simp add: is_word_def is_valchar_def)
  then show ?thesis
    unfolding put_msg_print using assms(1-3) len
    by (subst parse_print_ok) (auto simp: KEYVAL_TAB_LEN_def char_defs intro!: wf_word)
qed

lemma parse_get_msg:
  assumes "is_word n" "is_word k" "is_request (get_msg n k)"
  shows "PMIU_parse_keyvals (get_msg n k) = Inr (0, [\<lparr>kv_key = ''cmd'', kv_value = ''get''\<rparr>,
      \<lparr>kv_key = ''kvsname'', kv_value = n\<rparr>, \<lparr>kv_key = ''key'', kv_value = k\<rparr>])"
proof -
  have len: "length n < MAXVALLEN" "length k < MAXVALLEN"
    using assms(3) by (auto simp: is_request_def get_msg_def MAXVALLEN_def PMIU_MAXLINE_def)
  have "is_word ''get''" by (simp add: is_word_def is_valchar_def)
  then show ?thesis
    unfolding get_msg_print using assms(1,2) len
    by (subst parse_print_ok) (auto simp: KEYVAL_TAB_LEN_def char_defs intro!: wf_word)
qed

lemma put_of_put_msg:
  assumes "is_word n" "is_word k" "is_word v" "is_request (put_msg n k v)"
  shows "put_of (put_msg n k v) = Some (n, k, v)"
  by (simp add: put_of_def tab_val_def parse_put_msg [OF assms])

lemma kvs_of_snoc: "kvs_of (lg @ [m]) = kvs_put (kvs_of lg) m"
  by (simp add: kvs_of_def)

lemma kvs_of_keep:
  assumes "\<forall>m \<in> set later. \<forall>w. put_of m \<noteq> Some (n, k, w)"
  shows "kvs_of (lg @ later) (n, k) = kvs_of lg (n, k)"
  using assms
proof (induction later rule: rev_induct)
  case (snoc m later)
  then have "\<forall>w. put_of m \<noteq> Some (n, k, w)" by simp
  then have "kvs_put M m (n, k) = M (n, k)" for M by (auto simp: kvs_put_def split: option.splits)
  then show ?case using snoc by (simp add: kvs_of_snoc flip: append_assoc)
qed simp

lemma atoi_0: "atoi ''0'' = 0"
  by (simp add: atoi_def strtol_def is_space_def undec_def digit_val_def is_digit_def Let_def)

lemma snprintf_fits: "is_request r \<Longrightarrow> snprintf PMIU_MAXLINE r = r"
  by (simp add: snprintf_def is_request_def PMIU_MAXLINE_def)

lemma GetResponse_answer:
  assumes "connected st" "is_request r" "answers srv (io_log (conn st) @ [r]) kvs" "(''cmd'', cmd) \<in> set kvs"
    "chk \<longrightarrow> (''rc'', ''0'') \<in> set kvs"
  shows "\<exists>io es. GetResponse srv r cmd chk st = Inr (0, st\<lparr>conn := io, PMIU_keyval_tab := es\<rparr>)
    \<and> connected (st\<lparr>conn := io, PMIU_keyval_tab := es\<rparr>) \<and> io_log io = io_log (conn st) @ [r]
    \<and> list_all wf_keyval es \<and> (\<forall>(k, v) \<in> set kvs. tab_val es k = Some v)"
proof -
  obtain es where es: "replies srv (io_log (conn st) @ [r]) es" "\<forall>(k, v) \<in> set kvs. tab_val es k = Some v"
    using assms(3) by (auto simp: answers_def list_all_iff)
  then have "tab_val es ''cmd'' = Some cmd" "chk \<longrightarrow> tab_val es ''rc'' = Some ''0''" using assms(4,5) by auto
  moreover have "list_all wf_keyval es" using es(1) by (simp add: replies_def)
  ultimately show ?thesis
    using GetResponse_reply [OF assms(1,2) es(1), of cmd chk] es(2) by auto
qed

text \<open>A put reaches the process manager and is acknowledged.\<close>

lemma PMI_KVS_Put_ok:
  assumes "kvs_service srv" "connected st" "PMI_initialized st \<noteq> SINGLETON_INIT_BUT_NO_PM"
    "is_word n" "is_word k" "is_word v" "is_request (put_msg n k v)"
  shows "\<exists>io es. PMI_KVS_Put srv n k v st = Inr (0, st\<lparr>conn := io, PMIU_keyval_tab := es\<rparr>)
    \<and> connected (st\<lparr>conn := io, PMIU_keyval_tab := es\<rparr>) \<and> io_log io = io_log (conn st) @ [put_msg n k v]"
proof -
  have "answers srv (io_log (conn st) @ [put_msg n k v]) [(''cmd'', ''put_result''), (''rc'', ''0'')]"
    using assms by (simp add: kvs_service_def)
  from GetResponse_answer [OF assms(2,7) this, of "''put_result''" True] show ?thesis
    using assms(3,7) by (auto simp: PMI_KVS_Put_def snprintf_fits)
qed

text \<open>A get returns the latest value.\<close>

lemma PMI_KVS_Get_ok:
  assumes "kvs_service srv" "connected st" "is_word n" "is_word k" "is_request (get_msg n k)"
    "kvs_of (io_log (conn st)) (n, k) = Some v" "length v < m" "m \<le> cap" "m \<le> 256" "is_word v"
  shows "\<exists>io es. PMI_KVS_Get srv cap n k b (int m) st = Inr (0, v, st\<lparr>conn := io, PMIU_keyval_tab := es\<rparr>)
    \<and> connected (st\<lparr>conn := io, PMIU_keyval_tab := es\<rparr>) \<and> io_log io = io_log (conn st) @ [get_msg n k]"
proof -
  have "answers srv (io_log (conn st) @ [get_msg n k]) [(''cmd'', ''get_result''), (''rc'', ''0''), (''value'', v)]"
    using assms by (simp add: kvs_service_def)
  from GetResponse_answer [OF assms(2,5) this, of "''get_result''" False]
  obtain io es where g: "GetResponse srv (get_msg n k) ''get_result'' False st = Inr (0, st\<lparr>conn := io, PMIU_keyval_tab := es\<rparr>)"
    "connected (st\<lparr>conn := io, PMIU_keyval_tab := es\<rparr>)" "io_log io = io_log (conn st) @ [get_msg n k]"
    "list_all wf_keyval es" "tab_val es ''rc'' = Some ''0''" "tab_val es ''value'' = Some v"
    by auto
  have "getval ''rc'' (st\<lparr>conn := io, PMIU_keyval_tab := es\<rparr>) = Inr (True, ''0'')"
    using g(5) by (intro getval_ok) (simp_all add: PMIU_MAXLINE_def)
  moreover have "PMIU_getval es ''value'' cap (of_nat m) b = Inr (True, v)"
    using g(6) assms(7-9) by (intro PMIU_getval_ok) simp_all
  ultimately show ?thesis
    using g assms(5) by (auto simp: PMI_KVS_Get_def PMIi_InitIfSingleton_def snprintf_fits atoi_0)
qed

lemma PMI_Barrier_ok:
  assumes "kvs_service srv" "connected st"
  shows "\<exists>io es. PMI_Barrier srv st = Inr (0, st\<lparr>conn := io, PMIU_keyval_tab := es\<rparr>)
    \<and> connected (st\<lparr>conn := io, PMIU_keyval_tab := es\<rparr>)
    \<and> (io_log io = io_log (conn st) \<or> io_log io = io_log (conn st) @ [''cmd=barrier_in'' @ [NL]])"
proof (cases "SINGLETON_INIT_BUT_NO_PM < PMI_initialized st")
  case True
  have "is_request (''cmd=barrier_in'' @ [NL])" by (simp add: is_request_def PMIU_MAXLINE_def)
  moreover have "answers srv (io_log (conn st) @ [''cmd=barrier_in'' @ [NL]]) [(''cmd'', ''barrier_out'')]"
    using assms(1) by (simp add: kvs_service_def)
  ultimately show ?thesis
    using GetResponse_answer [OF assms(2), of "''cmd=barrier_in'' @ [NL]" srv "[(''cmd'', ''barrier_out'')]" "''barrier_out''" False]
      True by (auto simp: PMI_Barrier_def)
next
  case False
  then show ?thesis using assms(2)
    by (intro exI [of _ "conn st"] exI [of _ "PMIU_keyval_tab st"]) (simp add: PMI_Barrier_def)
qed

section \<open>Lines, pairs and errors\<close>

text \<open>
  Property C29. Reading from the process manager takes exactly the next line off the connection,
  however the bytes are cut into pieces and wherever a signal interrupts a read, and leaves the
  rest for the next call.
\<close>

theorem readline_takes_line:
  assumes "fd_ok fd io" "io_live io" "io_buf io = [] \<or> io_lastfd io = fd"
    and "stream io = l @ NL # rest" "NL \<notin> set l" "length l + 1 < maxlen"
  shows "\<exists>io'. PMIU_readline fd buf maxlen io = Inr (l @ [NL], int (length l) + 1, io')
    \<and> stream io' = rest \<and> io_live io' \<and> io_log io' = io_log io \<and> (io_buf io' = [] \<or> io_lastfd io' = fd)"
proof -
  have n: "length l < maxlen - 1" using assms(6) by simp
  obtain b es f where r: "readline_loop (maxlen - 1) fd [] io
      = Inr (l @ [NL], int (length (l @ [NL])), io\<lparr>io_buf := b, io_in := es, io_lastfd := f\<rparr>)"
    "b @ in_stream es = rest" "list_all live_ev es" "f = fd \<or> f = io_lastfd io \<and> io_buf io \<noteq> []"
    using readline_loop_line [OF assms(1,2,4,5) n, of "[]"] by auto
  have "f = fd" using r(4) assms(3) by auto
  then show ?thesis using r(1-3) assms(3)
    by (intro exI [of _ "io\<lparr>io_buf := b, io_in := es, io_lastfd := f\<rparr>"])
      (auto simp: PMIU_readline_def stream_def io_live_def)
qed

text \<open>
  Property C30. A line of at most 64 pairs is parsed back into these pairs. The table has no room
  for more and the parser does not look: from 65 pairs on it stores beyond the end of the table,
  although such a line fits the buffer it is read into.
\<close>

theorem parse_keyvals_roundtrip:
  assumes "list_all wf_keyval es"
  shows "PMIU_parse_keyvals (print_keyvals es) = (if length es \<le> 64 then Inr (0, es) else Inl Out_of_bounds)"
  using parse_print_ok [OF assms] by (simp add: KEYVAL_TAB_LEN_def)

lemma line_of_65_fits: "length (print_keyvals (replicate 65 \<lparr>kv_key = ''a'', kv_value = []\<rparr>)) < PMIU_MAXLINE"
  by (simp add: print_keyvals_def PMIU_MAXLINE_def numeral_eq_Suc)

lemma sys_read_silent: "list_all live_ev es \<Longrightarrow> in_stream es = [] \<Longrightarrow> sys_read es = Inl Blocks"
  by (induction es rule: sys_read.induct) (auto simp: live_ev_def)

lemma readline_silent:
  assumes "connected st"
  shows "readline st = Inl Blocks"
proof -
  have "io_buf (conn st) = []" "sys_read (io_in (conn st)) = Inl Blocks"
    using assms by (auto simp: connected_def quiet_def stream_def io_live_def intro: sys_read_silent)
  moreover obtain room where r: "PMIU_MAXLINE - 1 = Suc room"
    by (cases "PMIU_MAXLINE - 1") (simp_all add: PMIU_MAXLINE_def)
  ultimately show ?thesis using assms unfolding r
    by (simp add: r [simplified] readline_def PMIU_readline_def pm_read_def connected_def)
qed

lemma word_no_NL: "is_word s \<Longrightarrow> NL \<notin> set s"
  by (induction s) (auto simp: is_word_def is_valchar_def)

lemma put_msg_cut:
  assumes "is_word n" "is_word k" "is_word v" "PMIU_MAXLINE \<le> length (put_msg n k v)"
  shows "last (snprintf PMIU_MAXLINE (put_msg n k v)) \<noteq> NL" "length (snprintf PMIU_MAXLINE (put_msg n k v)) = 1023"
proof -
  have l: "1023 < length (put_msg n k v)" using assms(4) by (simp add: PMIU_MAXLINE_def)
  then have e: "last (snprintf PMIU_MAXLINE (put_msg n k v)) = put_msg n k v ! 1022"
    by (subst last_conv_nth) (auto simp: snprintf_def PMIU_MAXLINE_def)
  have "put_msg n k v ! 1022 = butlast (put_msg n k v) ! 1022" using l by (simp add: nth_butlast)
  moreover have "butlast (put_msg n k v) ! 1022 \<in> set (butlast (put_msg n k v))" using l by (intro nth_mem) simp
  moreover have b: "butlast (put_msg n k v) = ''cmd=put kvsname='' @ n @ '' key='' @ k @ '' value='' @ v"
  proof -
    have "put_msg n k v = (''cmd=put kvsname='' @ n @ '' key='' @ k @ '' value='' @ v) @ [NL]"
      by (simp add: put_msg_def)
    then show ?thesis by (simp only: butlast_snoc)
  qed
  have "NL \<notin> set (butlast (put_msg n k v))" using assms(1-3) by (simp add: b word_no_NL)
  ultimately show "last (snprintf PMIU_MAXLINE (put_msg n k v)) \<noteq> NL" using e by metis
  show "length (snprintf PMIU_MAXLINE (put_msg n k v)) = 1023" using l by (simp add: snprintf_def PMIU_MAXLINE_def)
qed

text \<open>
  A put whose message does not fit a line is not reported to the caller: the
  message is cut, the cut line has no newline and is not sent, and the client then waits for an
  answer that never comes.
\<close>

theorem put_too_long_blocks:
  assumes "connected st" "PMI_initialized st \<noteq> SINGLETON_INIT_BUT_NO_PM"
    and "is_word n" "is_word k" "is_word v" "PMIU_MAXLINE \<le> length (put_msg n k v)"
  shows "PMI_KVS_Put srv n k v st = Inl Blocks"
proof -
  let ?m = "snprintf PMIU_MAXLINE (put_msg n k v)"
  have m: "last ?m \<noteq> NL" "length ?m = 1023" using put_msg_cut [OF assms(3-6)] by auto
  then have "?m \<noteq> []" by auto
  then have "writeline srv ?m st = Inr (0, st)"
    using m by (simp add: writeline_def PMIU_writeline_def PMIU_MAXLINE_def)
  then show ?thesis using assms(1,2) by (simp add: PMI_KVS_Put_def GetResponse_def readline_silent)
qed

text \<open>
  Looking up a service reports success when the process manager answers with
  anything but the expected reply, and leaves the caller's buffer as it was.
\<close>

theorem lookup_name_false_success:
  assumes "connected st" "SINGLETON_INIT_BUT_NO_PM < PMI_initialized st"
    and "is_request (''cmd=lookup_name service='' @ service @ [NL])"
    and "replies srv (io_log (conn st) @ [''cmd=lookup_name service='' @ service @ [NL]]) es"
    and "tab_val es ''cmd'' \<noteq> Some ''lookup_result''"
  shows "\<exists>st'. PMI_Lookup_name srv cap service port st = Inr (PMI_SUCCESS, port, st')"
proof -
  obtain io where "GetResponse srv (''cmd=lookup_name service='' @ service @ [NL]) ''lookup_result'' False st
      = Inr (PMI_FAIL, st\<lparr>conn := io, PMIU_keyval_tab := es\<rparr>)"
    using GetResponse_reply [OF assms(1,3,4), of "''lookup_result''" False] assms(5) by auto
  then show ?thesis using assms(2,3) by (simp add: PMI_Lookup_name_def snprintf_fits)
qed

section \<open>Instances\<close>

definition ex_io :: pmi_io where
  "ex_io = \<lparr>io_in = [R_data ''one'', R_intr, R_data [NL, CHR ''t''], R_data ''wo''], io_wr = [], io_log = [],
     io_buf = [], io_lastfd = - 1, io_open = True\<rparr>"

theorem readline_takes_line_witness:
  "\<exists>io'. PMIU_readline 5 [] 1024 ex_io = Inr (''one'' @ [NL], 4, io') \<and> stream io' = ''two''"
proof -
  have "\<exists>io'. PMIU_readline 5 [] 1024 ex_io = Inr (''one'' @ [NL], int (length ''one'') + 1, io')
      \<and> stream io' = ''two'' \<and> io_live io' \<and> io_log io' = io_log ex_io \<and> (io_buf io' = [] \<or> io_lastfd io' = 5)"
    by (rule readline_takes_line) (simp_all add: ex_io_def fd_ok_def io_live_def live_ev_def stream_def)
  then show ?thesis by auto
qed

theorem parse_keyvals_roundtrip_witness:
  "PMIU_parse_keyvals (print_keyvals [\<lparr>kv_key = ''cmd'', kv_value = ''put_result''\<rparr>, \<lparr>kv_key = ''rc'', kv_value = ''0''\<rparr>])
     = Inr (0, [\<lparr>kv_key = ''cmd'', kv_value = ''put_result''\<rparr>, \<lparr>kv_key = ''rc'', kv_value = ''0''\<rparr>])
   \<and> PMIU_parse_keyvals (print_keyvals (replicate 65 \<lparr>kv_key = ''a'', kv_value = []\<rparr>)) = Inl Out_of_bounds"
  using parse_keyvals_roundtrip [of "[\<lparr>kv_key = ''cmd'', kv_value = ''put_result''\<rparr>, \<lparr>kv_key = ''rc'', kv_value = ''0''\<rparr>]"]
    parse_keyvals_roundtrip [of "replicate 65 \<lparr>kv_key = ''a'', kv_value = []\<rparr>"]
  by (simp add: wf_keyval_def char_defs list_all_iff)

definition ex_pmi :: pmi_st where
  "ex_pmi = (pmi_start Map.empty [] [] [])\<lparr>PMI_fd := 5, PMI_initialized := NORMAL_INIT_WITH_PM\<rparr>"

lemma ex_pmi_connected: "connected ex_pmi"
  by (simp add: ex_pmi_def pmi_start_def connected_def fd_ok_def quiet_def stream_def io_live_def)

theorem put_too_long_blocks_witness:
  "PMI_KVS_Put (\<lambda>_. []) ''kvs'' ''key'' (replicate 1000 CHR ''x'') ex_pmi = Inl Blocks"
  by (rule put_too_long_blocks [OF ex_pmi_connected])
    (simp_all add: ex_pmi_def is_word_def is_valchar_def list_all_iff put_msg_def PMIU_MAXLINE_def)

theorem lookup_name_false_success_witness:
  "\<exists>st'. PMI_Lookup_name (\<lambda>_. [R_data (print_keyvals [\<lparr>kv_key = ''cmd'', kv_value = ''error''\<rparr>])]) 256 ''srv'' ''old'' ex_pmi
     = Inr (PMI_SUCCESS, ''old'', st')"
  by (rule lookup_name_false_success [OF ex_pmi_connected, where es = "[\<lparr>kv_key = ''cmd'', kv_value = ''error''\<rparr>]"])
    (simp_all add: ex_pmi_def pmi_start_def less_PMIState_def is_request_def replies_def live_ev_def print_keyvals_def
      wf_keyval_def char_defs KEYVAL_TAB_LEN_def PMIU_MAXLINE_def tab_val_def)

end
