(* ===== verification/LC_Pm.thy ===== *)
theory LC_Pm
  imports LC_Pmi_Kvs LC_Ibv_Init
begin

text \<open>
  The process manager as the library uses it, \<open>src/pm.c\<close>: the names under which the processes
  of a job publish their endpoints and look up those of the others.
\<close>

section \<open>Operations\<close>

text \<open>Size, rank and name space; \<open>name\<close> points to a buffer of 256 characters.\<close>

definition lc_pm_master_init :: "pm_server \<Rightarrow> nat \<Rightarrow> string \<Rightarrow> pmi_st \<Rightarrow> (int \<times> int \<times> string \<times> pmi_st) res" where
  "lc_pm_master_init srv pid name st =
     bind_res (PMI_Init srv st) (\<lambda>(_, (_, sz, rank), st).
     bind_res (PMI_KVS_Get_my_name srv pid 256 name 255 st) (\<lambda>(_, name, st).
       Inr (sz, rank, name, st)))"

definition lc_pm_publish :: "pm_server \<Rightarrow> string \<Rightarrow> nat \<Rightarrow> nat \<Rightarrow> string \<Rightarrow> pmi_st \<Rightarrow> pmi_st res" where
  "lc_pm_publish srv lcg_name rank g value st =
     bind_res (PMI_KVS_Put srv lcg_name (lc_pm_key rank g) value st) (\<lambda>(_, st).
     bind_res (PMI_Barrier srv st) (\<lambda>(_, st). Inr st))"

definition lc_pm_getname :: "pm_server \<Rightarrow> nat \<Rightarrow> string \<Rightarrow> nat \<Rightarrow> nat \<Rightarrow> string \<Rightarrow> pmi_st \<Rightarrow> (string \<times> pmi_st) res" where
  "lc_pm_getname srv room lcg_name rank g value st =
     bind_res (PMI_KVS_Get srv room lcg_name (lc_pm_key rank g) value 255 st) (\<lambda>(_, value, st).
       Inr (value, st))"

definition lc_pm_getname_key :: "pm_server \<Rightarrow> nat \<Rightarrow> string \<Rightarrow> string \<Rightarrow> string \<Rightarrow> pmi_st \<Rightarrow> (string \<times> pmi_st) res" where
  "lc_pm_getname_key srv room lcg_name key value st =
     bind_res (PMI_KVS_Get srv room lcg_name key value 255 st) (\<lambda>(_, value, st). Inr (value, st))"

definition lc_pm_publish_key :: "pm_server \<Rightarrow> string \<Rightarrow> string \<Rightarrow> string \<Rightarrow> pmi_st \<Rightarrow> pmi_st res" where
  "lc_pm_publish_key srv lcg_name key value st =
     bind_res (PMI_KVS_Put srv lcg_name key value st) (\<lambda>(_, st). Inr st)"

definition lc_pm_barrier :: "pm_server \<Rightarrow> pmi_st \<Rightarrow> pmi_st res" where
  "lc_pm_barrier srv st = bind_res (PMI_Barrier srv st) (\<lambda>(_, st). Inr st)"

section \<open>Names and keys are words of the protocol\<close>

lemma digit_word: "is_digit c \<Longrightarrow> is_valchar c \<and> c \<noteq> NUL"
  by (auto simp: is_digit_def is_valchar_def)

lemma is_word_append [simp]: "is_word (a @ b) \<longleftrightarrow> is_word a \<and> is_word b"
  by (simp add: is_word_def list_all_append)

lemma is_word_Cons [simp]: "is_word (c # b) \<longleftrightarrow> is_valchar c \<and> c \<noteq> NUL \<and> is_word b"
  by (simp add: is_word_def)

lemma is_word_Nil [simp]: "is_word []"
  by (simp add: is_word_def)

lemma is_word_dec [simp]: "is_word (dec n)"
  using dec_digits [of n] digit_word by (auto simp: is_word_def list_all_iff)

lemma is_word_sdec [simp]: "is_word (sdec z)"
  by (simp add: sdec_def is_valchar_def)

lemma is_word_key [simp]: "is_word (lc_pm_key r g)"
  by (simp add: lc_pm_key_def is_valchar_def)

lemma is_word_ep_name [simp]: "is_word (ep_name c)"
  by (simp add: ep_name_def is_valchar_def)

lemma length_dec: "n < 10 ^ Suc k \<Longrightarrow> length (dec n) \<le> Suc k"
proof (induction k arbitrary: n)
  case 0
  then show ?case by (subst dec.simps) simp
next
  case (Suc k)
  have "n div 10 < 10 ^ Suc k" using Suc.prems by (simp add: div_less_iff_less_mult)
  then have "length (dec (n div 10)) \<le> Suc k" by (rule Suc.IH)
  then show ?case by (subst dec.simps) simp
qed

lemma length_sdec: "\<bar>z\<bar> < 10 ^ Suc k \<Longrightarrow> length (sdec z) \<le> Suc (Suc k)"
proof -
  assume "\<bar>z\<bar> < 10 ^ Suc k"
  then have "nat \<bar>z\<bar> < 10 ^ Suc k" by (simp add: nat_less_iff)
  then have "length (dec (nat \<bar>z\<bar>)) \<le> Suc k" by (rule length_dec)
  then show ?thesis by (auto simp: sdec_def split: if_splits)
qed

lemma length_key:
  assumes "r < 2 ^ 31" "g < 2 ^ 31"
  shows "length (lc_pm_key r g) \<le> 29"
  using length_dec [of r 9] length_dec [of g 9] assms by (simp add: lc_pm_key_def)

lemma length_ep_name: "length (ep_name c) \<le> 64"
proof -
  have "unat (cc_addr c) < 2 ^ LENGTH(64)" by (rule unsigned_less)
  then have "length (dec (unat (cc_addr c))) \<le> Suc 19" by (intro length_dec) simp
  moreover have "length (sdec (sint (cc_rkey c))) \<le> Suc (Suc 9)"
    by (rule length_sdec) (use sint_lt [of "cc_rkey c"] sint_ge [of "cc_rkey c"] in simp)
  moreover have "length (sdec (sint (cc_qp_num c))) \<le> Suc (Suc 9)"
    by (rule length_sdec) (use sint_lt [of "cc_qp_num c"] sint_ge [of "cc_qp_num c"] in simp)
  moreover have "uint (cc_lid c) < 2 ^ LENGTH(16)" by (rule unsigned_less)
  then have "length (sdec (uint (cc_lid c))) \<le> Suc (Suc 4)" by (intro length_sdec) simp
  ultimately show ?thesis by (simp add: ep_name_def)
qed

lemma lc_pm_key_inject: "lc_pm_key r g = lc_pm_key r' g' \<longleftrightarrow> r = r' \<and> g = g'"
proof
  assume "lc_pm_key r g = lc_pm_key r' g'"
  then have e: "dec r @ CHR ''_'' # dec g = dec r' @ CHR ''_'' # dec g'" by (simp add: lc_pm_key_def)
  have s: "scan_nat (dec n @ CHR ''_'' # x) = Some (n, CHR ''_'' # x)" for n x
    by (rule scan_nat_dec) (simp add: no_digit_def is_digit_def)
  have "Some (r, CHR ''_'' # dec g) = Some (r', CHR ''_'' # dec g')" using s [of r] s [of r'] e by metis
  then show "r = r' \<and> g = g'" using undec_dec by (metis list.inject option.inject prod.inject)
qed simp

section \<open>All names of a job\<close>

text \<open>
  The processes share the process manager, so each call sees what all of them have sent before.
  \<open>publish_all\<close> lets the processes publish their names one after the other in any order, each
  with its own connection.
\<close>

definition with_log :: "string list \<Rightarrow> pmi_st \<Rightarrow> pmi_st" where
  "with_log lg st = st\<lparr>conn := conn st\<lparr>io_log := lg\<rparr>\<rparr>"

fun publish_all ::
  "pm_server \<Rightarrow> string \<Rightarrow> (nat \<times> nat \<times> conn_ctx) list \<Rightarrow> (nat \<Rightarrow> pmi_st) \<Rightarrow> string list
    \<Rightarrow> ((nat \<Rightarrow> pmi_st) \<times> string list) res" where
  "publish_all srv name [] job lg = Inr (job, lg)"
| "publish_all srv name ((r, g, c) # ps) job lg =
     bind_res (lc_pm_publish srv name r g (ep_name c) (with_log lg (job r))) (\<lambda>st.
       publish_all srv name ps (job(r := st)) (io_log (conn st)))"

definition client_ok :: "pmi_st \<Rightarrow> bool" where
  "client_ok st \<longleftrightarrow> connected st \<and> PMI_initialized st \<noteq> SINGLETON_INIT_BUT_NO_PM"

lemma client_ok_with_log [simp]: "client_ok (with_log lg st) = client_ok st"
  by (simp add: client_ok_def with_log_def connected_def fd_ok_def quiet_def stream_def io_live_def)

lemma io_log_with_log [simp]: "io_log (conn (with_log lg st)) = lg"
  by (simp add: with_log_def)

lemma put_of_barrier: "put_of (''cmd=barrier_in'' @ [NL]) = None"
proof -
  have e: "''cmd=barrier_in'' @ [NL] = print_keyvals [\<lparr>kv_key = ''cmd'', kv_value = ''barrier_in''\<rparr>]"
    by (simp add: print_keyvals_def)
  have "PMIU_parse_keyvals (''cmd=barrier_in'' @ [NL]) = Inr (0, [\<lparr>kv_key = ''cmd'', kv_value = ''barrier_in''\<rparr>])"
    unfolding e by (subst parse_print_ok) (auto simp: KEYVAL_TAB_LEN_def char_defs is_word_def intro!: wf_word)
  then show ?thesis by (simp add: put_of_def tab_val_def)
qed

lemma put_request:
  assumes "length name < 256" "length k \<le> 29" "length v < 256"
  shows "is_request (put_msg name k v)" "is_request (get_msg name k)"
  using assms by (simp_all add: is_request_def put_msg_def get_msg_def PMIU_MAXLINE_def)

lemma lc_pm_publish_ok:
  assumes "kvs_service srv" "client_ok st" "is_word name" "length name < 256" "r < 2 ^ 31" "g < 2 ^ 31"
    "is_word v" "length v < 256"
  shows "\<exists>st'. lc_pm_publish srv name r g v st = Inr st' \<and> client_ok st'
    \<and> kvs_of (io_log (conn st')) = (kvs_of (io_log (conn st)))((name, lc_pm_key r g) \<mapsto> v)"
proof -
  have rq: "is_request (put_msg name (lc_pm_key r g) v)" using put_request length_key assms by blast
  obtain io es where p: "PMI_KVS_Put srv name (lc_pm_key r g) v st = Inr (0, st\<lparr>conn := io, PMIU_keyval_tab := es\<rparr>)"
    "connected (st\<lparr>conn := io, PMIU_keyval_tab := es\<rparr>)" "io_log io = io_log (conn st) @ [put_msg name (lc_pm_key r g) v]"
    using PMI_KVS_Put_ok [OF assms(1) _ _ assms(3) is_word_key assms(7) rq, of st] assms(2) by (auto simp: client_ok_def)
  let ?s = "st\<lparr>conn := io, PMIU_keyval_tab := es\<rparr>"
  obtain io' es' where b: "PMI_Barrier srv ?s = Inr (0, ?s\<lparr>conn := io', PMIU_keyval_tab := es'\<rparr>)"
    "connected (?s\<lparr>conn := io', PMIU_keyval_tab := es'\<rparr>)"
    "io_log io' = io_log io \<or> io_log io' = io_log io @ [''cmd=barrier_in'' @ [NL]]"
    using PMI_Barrier_ok [OF assms(1) p(2)] by auto
  have "kvs_of (io_log io') = kvs_of (io_log io)"
    using b(3) put_of_barrier by (auto simp: kvs_of_snoc kvs_put_def)
  also have "\<dots> = (kvs_of (io_log (conn st)))((name, lc_pm_key r g) \<mapsto> v)"
    using put_of_put_msg [OF assms(3) is_word_key assms(7) rq] by (simp add: p(3) kvs_of_snoc kvs_put_def)
  finally show ?thesis using p(1) b(1,2) assms(2) by (simp add: lc_pm_publish_def client_ok_def)
qed

lemma lc_pm_getname_ok:
  assumes "kvs_service srv" "client_ok st" "is_word name" "length name < 256" "r < 2 ^ 31" "g < 2 ^ 31"
    "kvs_of (io_log (conn st)) (name, lc_pm_key r g) = Some v" "length v < 255" "255 \<le> room" "is_word v"
  shows "\<exists>st'. lc_pm_getname srv room name r g b st = Inr (v, st') \<and> client_ok st'"
proof -
  have "is_request (get_msg name (lc_pm_key r g))" using put_request(2) [of name _ "[]"] length_key assms(4-6) by simp
  from PMI_KVS_Get_ok [OF assms(1) _ assms(3) is_word_key this assms(7), of 255 room b]
  show ?thesis using assms(2,8-10) by (auto simp: lc_pm_getname_def client_ok_def)
qed

lemma publish_all_ok:
  assumes "kvs_service srv" "is_word name" "length name < 256"
    and "\<forall>p. client_ok (job p)" "\<forall>(r, g, c) \<in> set ps. r < 2 ^ 31 \<and> g < 2 ^ 31"
  shows "\<exists>job' lg'. publish_all srv name ps job lg = Inr (job', lg') \<and> (\<forall>p. client_ok (job' p))
    \<and> kvs_of lg' = kvs_of lg ++ map_of (rev (map (\<lambda>(r, g, c). ((name, lc_pm_key r g), ep_name c)) ps))"
  using assms(4,5)
proof (induction ps arbitrary: job lg)
  case (Cons p ps)
  obtain r g c where p: "p = (r, g, c)" by (cases p)
  have c: "client_ok (with_log lg (job r))" "r < 2 ^ 31" "g < 2 ^ 31" "length (ep_name c) < 256"
    using Cons.prems length_ep_name [of c] by (auto simp: p)
  obtain st where st: "lc_pm_publish srv name r g (ep_name c) (with_log lg (job r)) = Inr st" "client_ok st"
    "kvs_of (io_log (conn st)) = (kvs_of lg)((name, lc_pm_key r g) \<mapsto> ep_name c)"
    using lc_pm_publish_ok [OF assms(1) c(1) assms(2,3) c(2,3) is_word_ep_name c(4)] by auto
  have "\<forall>p. client_ok ((job(r := st)) p)" "\<forall>(r, g, c) \<in> set ps. r < 2 ^ 31 \<and> g < 2 ^ 31"
    using Cons.prems st(2) by auto
  from Cons.IH [OF this, of "io_log (conn st)"] obtain job' lg' where
    r: "publish_all srv name ps (job(r := st)) (io_log (conn st)) = Inr (job', lg')" "\<forall>p. client_ok (job' p)"
      "kvs_of lg' = kvs_of (io_log (conn st)) ++ map_of (rev (map (\<lambda>(r, g, c). ((name, lc_pm_key r g), ep_name c)) ps))"
    by blast
  then have "kvs_of lg' = kvs_of lg ++ map_of (rev (map (\<lambda>(r, g, c). ((name, lc_pm_key r g), ep_name c)) (p # ps)))"
    by (simp add: p st(3) map_of_append map_add_assoc)
  then show ?case using r(1,2) by (simp add: p st(1))
qed simp

section \<open>A process manager\<close>

text \<open>
  A process manager that does what the clients rely on, sending its answers in pieces: it
  shows that the assumptions of the next theorem can be met.
\<close>

abbreviation kv :: "string \<Rightarrow> string \<Rightarrow> PMIU_keyval_pairs" where
  "kv k v \<equiv> \<lparr>kv_key = k, kv_value = v\<rparr>"

definition ex_pm :: pm_server where
  "ex_pm lg = (case PMIU_parse_keyvals (last lg) of
       Inl e \<Rightarrow> []
     | Inr (rc, tab) \<Rightarrow>
         if tab_val tab ''cmd'' = Some ''put'' then [R_data (print_keyvals [kv ''cmd'' ''put_result'', kv ''rc'' ''0''])]
         else if tab_val tab ''cmd'' = Some ''get'' then
           (case kvs_of (butlast lg) (the (tab_val tab ''kvsname''), the (tab_val tab ''key'')) of
              Some v \<Rightarrow> [R_data (kv_line [kv ''cmd'' ''get_result'', kv ''rc'' ''0'']), R_intr,
                         R_data (SP # print_keyvals [kv ''value'' v])]
            | None \<Rightarrow> [R_data (print_keyvals [kv ''cmd'' ''get_result'', kv ''rc'' ''-1''])])
         else [R_data (print_keyvals [kv ''cmd'' ''barrier_out''])])"

lemma ex_pm_barrier: "ex_pm (lg @ [''cmd=barrier_in'' @ [NL]]) = [R_data (print_keyvals [kv ''cmd'' ''barrier_out''])]"
proof -
  have e: "''cmd=barrier_in'' @ [NL] = print_keyvals [kv ''cmd'' ''barrier_in'']" by (simp add: print_keyvals_def)
  have "PMIU_parse_keyvals (''cmd=barrier_in'' @ [NL]) = Inr (0, [kv ''cmd'' ''barrier_in''])"
    unfolding e by (subst parse_print_ok) (auto simp: KEYVAL_TAB_LEN_def char_defs is_word_def intro!: wf_word)
  then show ?thesis by (simp add: ex_pm_def tab_val_def del: append_assoc)
qed

lemma ex_pm_service: "kvs_service ex_pm"
  unfolding kvs_service_def
proof (intro conjI allI impI)
  fix lg n k v
  assume a: "is_word n \<and> is_word k \<and> is_word v \<and> is_request (put_msg n k v)"
  then have "ex_pm (lg @ [put_msg n k v]) = [R_data (print_keyvals [kv ''cmd'' ''put_result'', kv ''rc'' ''0''])]"
    by (simp add: ex_pm_def parse_put_msg tab_val_def)
  then show "answers ex_pm (lg @ [put_msg n k v]) [(''cmd'', ''put_result''), (''rc'', ''0'')]"
    unfolding answers_def replies_def
    by (intro exI [of _ "[kv ''cmd'' ''put_result'', kv ''rc'' ''0'']"])
      (simp add: live_ev_def print_keyvals_def wf_keyval_def char_defs KEYVAL_TAB_LEN_def PMIU_MAXLINE_def tab_val_def)
next
  fix lg n k v
  assume a: "is_word n \<and> is_word k \<and> is_request (get_msg n k) \<and> kvs_of lg (n, k) = Some v \<and> is_word v \<and> length v < 256"
  then have "ex_pm (lg @ [get_msg n k]) = [R_data (kv_line [kv ''cmd'' ''get_result'', kv ''rc'' ''0'']), R_intr,
      R_data (SP # print_keyvals [kv ''value'' v])]"
    by (simp add: ex_pm_def parse_get_msg tab_val_def)
  then show "answers ex_pm (lg @ [get_msg n k]) [(''cmd'', ''get_result''), (''rc'', ''0''), (''value'', v)]"
    unfolding answers_def replies_def
    by (intro exI [of _ "[kv ''cmd'' ''get_result'', kv ''rc'' ''0'', kv ''value'' v]"])
      (use a in \<open>simp add: live_ev_def print_keyvals_def wf_keyval_def char_defs KEYVAL_TAB_LEN_def PMIU_MAXLINE_def tab_val_def is_word_def\<close>)
next
  fix lg
  show "answers ex_pm (lg @ [''cmd=barrier_in'' @ [NL]]) [(''cmd'', ''barrier_out'')]"
    unfolding answers_def replies_def ex_pm_barrier
    by (intro exI [of _ "[kv ''cmd'' ''barrier_out'']"])
      (simp add: live_ev_def print_keyvals_def wf_keyval_def char_defs KEYVAL_TAB_LEN_def PMIU_MAXLINE_def tab_val_def)
qed

section \<open>Exchange of the names\<close>

lemma published_read:
  assumes "kvs_service srv" "is_word name" "length name < 256"
    and "\<forall>p. client_ok (job p)" "\<forall>(r, g, c) \<in> set ps. r < 2 ^ 31 \<and> g < 2 ^ 31"
    and "distinct (map (\<lambda>(r, g, c). (r, g)) ps)"
  shows "\<exists>job' lg'. publish_all srv name ps job lg = Inr (job', lg')
    \<and> (\<forall>(r, g, c) \<in> set ps. \<forall>p b. \<exists>st. lc_pm_getname srv 256 name r g b (with_log lg' (job' p)) = Inr (ep_name c, st))"
proof -
  obtain job' lg' where j: "publish_all srv name ps job lg = Inr (job', lg')" "\<forall>p. client_ok (job' p)"
    "kvs_of lg' = kvs_of lg ++ map_of (rev (map (\<lambda>(r, g, c). ((name, lc_pm_key r g), ep_name c)) ps))"
    using publish_all_ok [OF assms(1-5)] by blast
  have "\<exists>st. lc_pm_getname srv 256 name r g b (with_log lg' (job' p)) = Inr (ep_name c, st)"
    if i: "(r, g, c) \<in> set ps" for r g c p b
  proof -
    have "distinct (map (\<lambda>(r, g, c). (name, lc_pm_key r g)) ps)"
    proof -
      have "map (\<lambda>(r, g, c). (name, lc_pm_key r g)) ps
          = map (\<lambda>(r, g). (name, lc_pm_key r g)) (map (\<lambda>(r, g, c). (r, g)) ps)"
        by (simp add: comp_def case_prod_beta)
      then show ?thesis using assms(6)
        by (simp only: distinct_map) (auto simp: lc_pm_key_inject intro!: inj_onI)
    qed
    then have d: "distinct (map fst (rev (map (\<lambda>(r, g, c). ((name, lc_pm_key r g), ep_name c)) ps)))"
      by (simp add: rev_map [symmetric] comp_def case_prod_unfold)
    have "((name, lc_pm_key r g), ep_name c) \<in> set (rev (map (\<lambda>(r, g, c). ((name, lc_pm_key r g), ep_name c)) ps))"
      using i by force
    then have "kvs_of lg' (name, lc_pm_key r g) = Some (ep_name c)"
      using d by (simp add: j(3) map_add_Some_iff)
    moreover have "r < 2 ^ 31" "g < 2 ^ 31" "length (ep_name c) < 255"
      using assms(5) i length_ep_name [of c] by auto
    ultimately show ?thesis
      using lc_pm_getname_ok [of srv "with_log lg' (job' p)" name r g "ep_name c" 256 b] assms(1-3) j(2)
      by auto
  qed
  then show ?thesis using j(1) by blast
qed


definition ex_client :: "nat \<Rightarrow> pmi_st" where
  "ex_client p = (pmi_start Map.empty [] [W_intr] [])\<lparr>PMI_fd := 5, PMI_rank := int p, PMI_size := 2,
     PMI_initialized := NORMAL_INIT_WITH_PM\<rparr>"

lemma ex_client_ok: "client_ok (ex_client p)"
  by (simp add: client_ok_def ex_client_def pmi_start_def connected_def fd_ok_def quiet_def stream_def io_live_def)

definition ex_ctx :: "nat \<Rightarrow> conn_ctx" where
  "ex_ctx i = \<lparr>cc_addr = 4096, cc_rkey = word_of_nat i, cc_qp_num = 7, cc_lid = 3\<rparr>"


end
