(* ===== verification/LC_Pmi_Spawn.thy ===== *)
theory LC_Pmi_Spawn
  imports LC_Pmi_Kvs
begin

text \<open>
  Starting processes: what \<open>PMI_Spawn_multiple\<close> sends for a command.
\<close>

section \<open>Building a message\<close>

text \<open>
  Appending a list of pieces, each of which fits a line, succeeds exactly when the whole fits the
  line buffer, and then nothing is lost.
\<close>

definition piece :: "string \<Rightarrow> bool" where
  "piece t \<longleftrightarrow> t \<noteq> [] \<and> length t < PMIU_MAXLINE"

lemma append_all_exact:
  assumes "length buf < PMIU_MAXLINE" "list_all piece ts"
  shows "append_all buf ts = Inr (if length (buf @ concat ts) < PMIU_MAXLINE then Some (buf @ concat ts) else None)"
  using assms
proof (induction ts arbitrary: buf)
  case (Cons t ts)
  have t: "t \<noteq> []" "snprintf PMIU_MAXLINE t = t" using Cons.prems by (auto simp: piece_def snprintf_def)
  have m: "MPIU_Strnapp PMIU_MAXLINE buf t (of_nat PMIU_MAXLINE) =
    (if length buf = PMIU_MAXLINE - 1 then Inr (1, buf)
     else if length buf + length t < PMIU_MAXLINE then Inr (0, buf @ t)
     else Inr (1, take (PMIU_MAXLINE - 2) (buf @ t)))"
    using Cons.prems(1) by (intro MPIU_Strnapp_ok) (simp_all add: PMIU_MAXLINE_def)
  show ?case
  proof (cases "length buf + length t < PMIU_MAXLINE")
    case True
    moreover have "length buf \<noteq> PMIU_MAXLINE - 1"
      using True t(1) by (auto simp: PMIU_MAXLINE_def simp flip: length_greater_0_conv)
    ultimately show ?thesis using m t(2) Cons.IH [of "buf @ t"] Cons.prems(2) by simp
  next
    case False
    then show ?thesis using m t(2) by simp
  qed
qed simp

declare append_all.simps [simp del]

section \<open>The messages of a command\<close>

text \<open>The pieces \<open>PMI_Spawn_multiple\<close> writes for a command, in order.\<close>

definition spawn_head :: "nat \<Rightarrow> nat \<Rightarrow> spawn_cmd \<Rightarrow> string" where
  "spawn_head n k c = ''mcmd=spawn'' @ NL # num_pair ''nprocs'' (sp_maxprocs c) @ ''execname='' @ sp_cmd c @ [NL]
     @ num_pair ''totspawns'' (int n) @ num_pair ''spawnssofar'' (int k + 1)"

fun arg_lines :: "nat \<Rightarrow> string list \<Rightarrow> string list" where
  "arg_lines i [] = []"
| "arg_lines i (a # as) = (''arg'' @ dec (Suc i) @ EQS # a @ [NL]) # arg_lines (Suc i) as"

definition spawn_tail :: "(string \<times> string) list \<Rightarrow> spawn_cmd \<Rightarrow> string list" where
  "spawn_tail preput c =
     [num_pair ''argcnt'' (int (length (sp_argv c))), num_pair ''preput_num'' (int (length preput))]
     @ keyval_pieces ''preput'' 0 preput
     @ [num_pair ''info_num'' (int (length (sp_info c)))] @ keyval_pieces ''info'' 0 (sp_info c)
     @ [''endcmd'' @ [NL]]"

definition writable :: "pmi_st \<Rightarrow> bool" where
  "writable st \<longleftrightarrow> fd_ok (PMI_fd st) (conn st) \<and> list_all (\<lambda>w. w = W_intr) (io_wr (conn st))"

lemma writeline_log:
  assumes "writable st" "is_request r"
  shows "\<exists>st'. writeline srv r st = Inr (0, st') \<and> writable st' \<and> io_log (conn st') = io_log (conn st) @ [r]"
  using assms
  by (simp add: writeline_def PMIU_writeline_def writable_def is_request_def sys_write_all Let_def PMIU_MAXLINE_def
      fd_ok_def)

text \<open>
  The messages: the head travels with the first argument, the other arguments one by one, and the
  rest together.
\<close>

fun with_args :: "string \<Rightarrow> string list \<Rightarrow> string list \<times> string" where
  "with_args buf [] = ([], buf)"
| "with_args buf (a # as) = (let (ms, r) = with_args [] as in ((buf @ a) # ms, r))"

lemma spawn_args_ok:
  assumes "writable st" "length buf < PMIU_MAXLINE" "list_all piece (arg_lines i as)"
    "list_all (\<lambda>m. length m < PMIU_MAXLINE) (fst (with_args buf (arg_lines i as)))"
  shows "\<exists>st'. spawn_args srv i as buf st = Inr (Some (snd (with_args buf (arg_lines i as))), st')
    \<and> writable st' \<and> io_log (conn st') = io_log (conn st) @ fst (with_args buf (arg_lines i as))"
  using assms
proof (induction "as" arbitrary: i buf st)
  case (Cons a "as")
  let ?l = "''arg'' @ dec (Suc i) @ EQS # a @ [NL]"
  have f: "length (buf @ ?l) < PMIU_MAXLINE" using Cons.prems(4) by (auto simp: case_prod_beta)
  then have "append_all buf [?l] = Inr (Some (buf @ ?l))"
    using Cons.prems(2,3) append_all_exact [of buf "[?l]"] by simp
  moreover have "is_request (buf @ ?l)" using f by (simp add: is_request_def)
  then obtain st1 where st1: "writeline srv (buf @ ?l) st = Inr (0, st1)" "writable st1"
    "io_log (conn st1) = io_log (conn st) @ [buf @ ?l]"
    using writeline_log [OF Cons.prems(1)] by blast
  moreover have "\<exists>st'. spawn_args srv (Suc i) as [] st1 = Inr (Some (snd (with_args [] (arg_lines (Suc i) as))), st')
      \<and> writable st' \<and> io_log (conn st') = io_log (conn st1) @ fst (with_args [] (arg_lines (Suc i) as))"
    using Cons.prems(3,4) st1(2) by (intro Cons.IH) (auto simp: PMIU_MAXLINE_def case_prod_beta)
  ultimately show ?case by (auto simp: case_prod_beta)
qed simp

lemma keyval_pieces_nonempty: "t \<in> set (keyval_pieces pre i kvs) \<Longrightarrow> t \<noteq> []"
  by (induction pre i kvs rule: keyval_pieces.induct) auto

lemma spawn_tail_last: "last (b @ concat (spawn_tail preput c)) = NL"
  by (simp add: spawn_tail_def)

text \<open>
  What the process manager receives for a command: the messages it is cut into, in the order
  they are sent.
\<close>

definition spawn_msgs :: "nat \<Rightarrow> nat \<Rightarrow> (string \<times> string) list \<Rightarrow> spawn_cmd \<Rightarrow> string list" where
  "spawn_msgs n k preput c = (let (ms, r) = with_args (spawn_head n k c) (arg_lines 0 (sp_argv c))
     in ms @ [r @ concat (spawn_tail preput c)])"

lemma concat_with_args: "concat (fst (with_args buf as)) @ snd (with_args buf as) = buf @ concat as"
  by (induction buf "as" rule: with_args.induct) (auto simp: case_prod_beta)

lemma spawn_msgs_text:
  "concat (spawn_msgs n k preput c) = spawn_head n k c @ concat (arg_lines 0 (sp_argv c)) @ concat (spawn_tail preput c)"
  using concat_with_args [of "spawn_head n k c" "arg_lines 0 (sp_argv c)"]
  by (simp add: spawn_msgs_def case_prod_beta flip: append_assoc)

lemma with_args_bound:
  assumes "list_all (\<lambda>m. length m < PMIU_MAXLINE) (fst (with_args buf as))" "length buf < PMIU_MAXLINE"
  shows "list_all (\<lambda>t. length t < PMIU_MAXLINE) as"
  using assms by (induction buf "as" rule: with_args.induct) (auto simp: case_prod_beta PMIU_MAXLINE_def)

lemma arg_lines_nonempty: "t \<in> set (arg_lines i as) \<Longrightarrow> t \<noteq> []"
  by (induction i "as" rule: arg_lines.induct) auto

text \<open>
  Property C32. If every message a command is cut into fits a line, starting it sends these
  messages in order, and together they are the whole text of the command; no argument, preput
  pair or info pair is lost or cut.
\<close>

theorem spawn_sends_command:
  assumes "writable st" "length (spawn_head n k c) < PMIU_MAXLINE"
    and "list_all (\<lambda>m. length m < PMIU_MAXLINE) (spawn_msgs n k preput c)"
  shows "\<exists>st'. spawn_one srv n preput k c st = Inr (True, st') \<and> writable st'
    \<and> io_log (conn st') = io_log (conn st) @ spawn_msgs n k preput c
    \<and> concat (spawn_msgs n k preput c)
        = spawn_head n k c @ concat (arg_lines 0 (sp_argv c)) @ concat (spawn_tail preput c)"
proof -
  let ?w = "with_args (spawn_head n k c) (arg_lines 0 (sp_argv c))"
  let ?h = "''mcmd=spawn'' @ NL # num_pair ''nprocs'' (sp_maxprocs c) @ ''execname='' @ sp_cmd c @ [NL]"
  let ?t = "num_pair ''totspawns'' (int n) @ num_pair ''spawnssofar'' (int k + 1)"
  have h: "spawn_head n k c = ?h @ ?t" by (simp add: spawn_head_def)
  have lens: "list_all (\<lambda>m. length m < PMIU_MAXLINE) (fst ?w)" "length (snd ?w @ concat (spawn_tail preput c)) < PMIU_MAXLINE"
    using assms(3) by (simp_all add: spawn_msgs_def case_prod_beta)
  have "snprintf PMIU_MAXLINE ?h = ?h" "length ?h < PMIU_MAXLINE" "piece ?t"
    using assms(2) unfolding h by (auto simp: snprintf_def piece_def num_pair_def)
  then have 1: "append_all (snprintf PMIU_MAXLINE ?h) [?t] = Inr (Some (spawn_head n k c))"
    using append_all_exact [of ?h "[?t]"] assms(2) unfolding h by simp
  have "list_all piece (arg_lines 0 (sp_argv c))"
    using with_args_bound [OF lens(1) assms(2)] arg_lines_nonempty by (auto simp: list_all_iff piece_def)
  from spawn_args_ok [OF assms(1,2) this lens(1), of srv]
  obtain st1 where 2: "spawn_args srv 0 (sp_argv c) (spawn_head n k c) st = Inr (Some (snd ?w), st1)"
    "writable st1" "io_log (conn st1) = io_log (conn st) @ fst ?w" by blast
  have "list_all piece (spawn_tail preput c)"
  proof -
    have "length t < PMIU_MAXLINE" if "t \<in> set (spawn_tail preput c)" for t
      using lens(2) that by (auto simp: length_concat dest!: member_le_sum_list [of "length t" "map length (spawn_tail preput c)" for t] split_list)
    moreover have "t \<noteq> []" if "t \<in> set (spawn_tail preput c)" for t
      using that by (auto simp: spawn_tail_def num_pair_def dest: keyval_pieces_nonempty)
    ultimately show ?thesis by (simp add: list_all_iff piece_def)
  qed
  then have 3: "append_all (snd ?w) (spawn_tail preput c) = Inr (Some (snd ?w @ concat (spawn_tail preput c)))"
    using append_all_exact [of "snd ?w" "spawn_tail preput c"] lens(2) by simp
  have "is_request (snd ?w @ concat (spawn_tail preput c))"
    using lens(2) spawn_tail_last by (auto simp: is_request_def spawn_tail_def)
  then obtain st2 where 4: "writeline srv (snd ?w @ concat (spawn_tail preput c)) st1 = Inr (0, st2)" "writable st2"
    "io_log (conn st2) = io_log (conn st1) @ [snd ?w @ concat (spawn_tail preput c)]"
    using writeline_log [OF 2(2)] by blast
  have "spawn_one srv n preput k c st = Inr (True, st2)"
    unfolding spawn_one_def using 1 2(1) 3 4(1) by (simp add: spawn_tail_def)
  moreover have "io_log (conn st2) = io_log (conn st) @ spawn_msgs n k preput c"
    by (simp add: 2(3) 4(3) spawn_msgs_def case_prod_beta)
  ultimately show ?thesis using 4(2) spawn_msgs_text by blast
qed

definition ex_spawn :: spawn_cmd where
  "ex_spawn = \<lparr>sp_cmd = ''a.out'', sp_argv = [''-v'', ''x''], sp_maxprocs = 4, sp_info = [(''host'', ''n1'')]\<rparr>"

theorem spawn_sends_command_witness:
  "\<exists>st'. spawn_one (\<lambda>_. []) 1 [] 0 ex_spawn ex_pmi = Inr (True, st') \<and> length (io_log (conn st')) = 3"
proof -
  have m: "spawn_msgs 1 0 [] ex_spawn = [spawn_head 1 0 ex_spawn @ ''arg1=-v'' @ [NL], ''arg2=x'' @ [NL],
      concat (spawn_tail [] ex_spawn)]"
    by (simp add: spawn_msgs_def ex_spawn_def dec.simps digit_def char_of_def bit_0 Let_def)
  have "length (spawn_head 1 0 ex_spawn) < 100" "length (concat (spawn_tail [] ex_spawn)) < 100"
    by (simp_all add: spawn_head_def spawn_tail_def num_pair_def ex_spawn_def sdec_def dec.simps)
  then have l: "length (spawn_head 1 0 ex_spawn) < PMIU_MAXLINE"
    "list_all (\<lambda>m. length m < PMIU_MAXLINE) (spawn_msgs 1 0 [] ex_spawn)"
    unfolding m by (simp_all add: PMIU_MAXLINE_def)
  have w: "writable ex_pmi" by (simp add: writable_def ex_pmi_def pmi_start_def fd_ok_def)
  show ?thesis using spawn_sends_command [OF w l, of "\<lambda>_. []"] unfolding m
    by (auto simp: ex_pmi_def pmi_start_def)
qed

end
