(* ===== verification/LC_Lcrq.thy ===== *)
theory LC_Lcrq
  imports LC_Prelude
begin

text \<open>
  The linked concurrent ring queue of \<open>src/lcrq.c\<close>: a chain of rings, each with a head and a
  tail counter that threads advance with fetch-and-add. Every load, store and atomic
  instruction on shared memory is one step of a thread; threads interleave freely.

  The size of a ring is \<open>2 ^ p\<close>, where \<open>p\<close> is the compile-time constant \<open>RING_POW\<close>. Hazard
  pointers (\<open>HAVE_HPTRS\<close>) are not compiled in, and rings are never freed.
\<close>

section \<open>Data\<close>

record RingNode =
  cval :: u64
  cidx :: u64

record RingQueue =
  rhead :: u64
  rtail :: u64
  rnext :: "nat option"
  arr :: "nat \<Rightarrow> RingNode"

text \<open>Rings are numbered in the order in which they are linked; \<open>nrings\<close> of them are.\<close>

record lcrq_t =
  rings :: "nat \<Rightarrow> RingQueue"
  nrings :: nat
  qhead :: nat
  qtail :: nat

definition RING_SIZE :: "nat \<Rightarrow> u64" where "RING_SIZE p = 2 ^ p"

definition NOVAL :: u64 where "NOVAL = - 1"

definition BIT63 :: u64 where "BIT63 = push_bit 63 1"

definition init_ring :: "nat \<Rightarrow> RingQueue" where
  "init_ring p = \<lparr>rhead = 0, rtail = 0, rnext = None,
     arr = (\<lambda>i. \<lparr>cval = NOVAL, cidx = word_of_nat i\<rparr>)\<rparr>"

definition is_empty :: "u64 \<Rightarrow> bool" where "is_empty v \<longleftrightarrow> v = NOVAL"
definition node_index :: "u64 \<Rightarrow> u64" where "node_index i = i AND NOT BIT63"
definition set_unsafe :: "u64 \<Rightarrow> u64" where "set_unsafe i = i OR BIT63"
definition node_unsafe :: "u64 \<Rightarrow> u64" where "node_unsafe i = i AND BIT63"
definition tail_index :: "u64 \<Rightarrow> u64" where "tail_index t = t AND NOT BIT63"
definition crq_is_closed :: "u64 \<Rightarrow> bool" where "crq_is_closed t \<longleftrightarrow> t AND BIT63 \<noteq> 0"

definition cell_of :: "nat \<Rightarrow> u64 \<Rightarrow> nat" where
  "cell_of p t = unat (t AND (RING_SIZE p - 1))"

definition lcrq_init :: "nat \<Rightarrow> lcrq_t" where
  "lcrq_init p = \<lparr>rings = (\<lambda>_. init_ring p), nrings = 1, qhead = 0, qtail = 0\<rparr>"

definition upd_ring :: "nat \<Rightarrow> (RingQueue \<Rightarrow> RingQueue) \<Rightarrow> lcrq_t \<Rightarrow> lcrq_t" where
  "upd_ring r f q = q\<lparr>rings := (rings q)(r := f (rings q r))\<rparr>"

definition cell :: "nat \<Rightarrow> lcrq_t \<Rightarrow> nat \<Rightarrow> u64 \<Rightarrow> RingNode" where
  "cell p q r t = arr (rings q r) (cell_of p t)"

text \<open>\<open>CAS2\<close> on a cell: value and index are compared and replaced together.\<close>

definition CAS2 :: "nat \<Rightarrow> nat \<Rightarrow> u64 \<Rightarrow> u64 \<times> u64 \<Rightarrow> u64 \<times> u64 \<Rightarrow> lcrq_t \<Rightarrow> bool \<times> lcrq_t" where
  "CAS2 p r t old new q =
     (if (cval (cell p q r t), cidx (cell p q r t)) = old
      then (True, upd_ring r (\<lambda>x. x\<lparr>arr := (arr x)(cell_of p t := \<lparr>cval = fst new, cidx = snd new\<rparr>)\<rparr>) q)
      else (False, q))"

text \<open>\<open>CAS64(&rq->tail, ...)\<close> for the first tries, then \<open>BIT_TEST_AND_SET\<close>, which succeeds when
  the bit was clear.\<close>

definition close_crq :: "nat \<Rightarrow> u64 \<Rightarrow> nat \<Rightarrow> lcrq_t \<Rightarrow> bool \<times> lcrq_t" where
  "close_crq r t tries q =
     (let x = rtail (rings q r)
      in if tries < 10 then
           if x = t + 1 then (True, upd_ring r (\<lambda>y. y\<lparr>rtail := (t + 1) OR BIT63\<rparr>) q) else (False, q)
         else (x AND BIT63 = 0, upd_ring r (\<lambda>y. y\<lparr>rtail := x OR BIT63\<rparr>) q))"

text \<open>Linking a private ring behind \<open>r\<close> makes it the next of the numbered rings.\<close>

definition link_ring :: "nat \<Rightarrow> RingQueue \<Rightarrow> lcrq_t \<Rightarrow> lcrq_t" where
  "link_ring r x q = (let q' = upd_ring r (\<lambda>y. y\<lparr>rnext := Some (nrings q)\<rparr>) q
     in q'\<lparr>rings := (rings q')(nrings q := x), nrings := Suc (nrings q)\<rparr>)"

section \<open>Where a thread is\<close>

text \<open>
  The positions between two accesses to shared memory, in the order of the code, and the local
  variables. The positions \<open>Q_\<close> are those of the quick test for an empty queue, the positions
  \<open>F_\<close> those of \<open>fixState\<close>.
\<close>

datatype enq_at = E_start | E_next | E_faa | E_alloc | E_link | E_idx | E_val | E_head | E_cas | E_full | E_close

record enq_loc =
  e_arg :: u64
  e_rq :: nat
  e_try :: nat
  e_t :: u64
  e_idx :: u64

datatype deq_at = Q_1 | Q_2 | Q_3 | Q_4 | Q_5 | Q_6
  | D_start | D_faa | D_idx | D_val | D_take | D_unsafe | D_tail | D_void | D_bts | D_post
  | F_tail | F_head | F_check | F_cas | D_next | D_post2 | D_swing

record deq_loc =
  d_rq :: nat
  d_h :: u64
  d_r :: nat
  d_tt :: u64
  d_idx :: u64
  d_val :: u64
  d_t :: u64
  d_hh :: u64
  d_next :: nat

datatype lcrq_thread = Idle | Enqueuing enq_at enq_loc | Dequeuing deq_at deq_loc

text \<open>What a step shows outside: nothing, an element put in, taken out, or the answer \<open>EMPTY\<close>.\<close>

datatype lcrq_ev = Tau | Enq u64 | Deq u64 | Empty

section \<open>The steps\<close>

text \<open>
  One step of a thread at a position, with its private ring \<open>nrq\<close> (not yet linked): the next
  position, the locals, the queue, the private ring, and the event; no position is the return.
  \<open>CAS64(&tail, ...)\<close> works on the local variable \<open>tail\<close>, so it always succeeds.
\<close>

fun enq_step :: "nat \<Rightarrow> enq_at \<Rightarrow> enq_loc \<Rightarrow> lcrq_t \<Rightarrow> RingQueue option
    \<Rightarrow> enq_at option \<times> enq_loc \<times> lcrq_t \<times> RingQueue option \<times> lcrq_ev" where
  "enq_step p E_start l q n = (Some E_next, l\<lparr>e_rq := qtail q\<rparr>, q, n, Tau)"
| "enq_step p E_next l q n = (case rnext (rings q (e_rq l)) of
       Some r \<Rightarrow> (Some E_next, l\<lparr>e_rq := r\<rparr>, q, n, Tau)
     | None \<Rightarrow> (Some E_faa, l, q, n, Tau))"
| "enq_step p E_faa l q n =
     (let t = rtail (rings q (e_rq l))
      in (Some (if crq_is_closed t then E_alloc else E_idx), l\<lparr>e_t := t\<rparr>,
          upd_ring (e_rq l) (\<lambda>x. x\<lparr>rtail := t + 1\<rparr>) q, n, Tau))"
| "enq_step p E_alloc l q n =
     (let x = (case n of Some x \<Rightarrow> x | None \<Rightarrow> init_ring p)
      in (Some E_link, l, q, Some (x\<lparr>rtail := 1, arr := (arr x)(0 := \<lparr>cval = e_arg l, cidx = 0\<rparr>)\<rparr>), Tau))"
| "enq_step p E_link l q n =
     (if rnext (rings q (e_rq l)) = None \<and> n \<noteq> None
      then (None, l, link_ring (e_rq l) (the n) q, None, Enq (e_arg l))
      else (Some E_next, l, q, n, Tau))"
| "enq_step p E_idx l q n = (Some E_val, l\<lparr>e_idx := cidx (cell p q (e_rq l) (e_t l))\<rparr>, q, n, Tau)"
| "enq_step p E_val l q n =
     (Some (if is_empty (cval (cell p q (e_rq l) (e_t l))) \<and> node_index (e_idx l) \<le> e_t l
            then if node_unsafe (e_idx l) = 0 then E_cas else E_head
            else E_full), l, q, n, Tau)"
| "enq_step p E_head l q n = (Some (if rhead (rings q (e_rq l)) < e_t l then E_cas else E_full), l, q, n, Tau)"
| "enq_step p E_cas l q n =
     (let (ok, q') = CAS2 p (e_rq l) (e_t l) (NOVAL, e_idx l) (e_arg l, e_t l) q
      in if ok then (None, l, q', n, Enq (e_arg l)) else (Some E_full, l, q', n, Tau))"
| "enq_step p E_full l q n =
     (if sint (RING_SIZE p) \<le> sint (e_t l - rhead (rings q (e_rq l)))
      then (Some E_close, l\<lparr>e_try := Suc (e_try l)\<rparr>, q, n, Tau)
      else (Some E_next, l, q, n, Tau))"
| "enq_step p E_close l q n =
     (let (ok, q') = close_crq (e_rq l) (e_t l) (e_try l) q in (Some (if ok then E_alloc else E_next), l, q', n, Tau))"

fun deq_step :: "nat \<Rightarrow> deq_at \<Rightarrow> deq_loc \<Rightarrow> lcrq_t \<Rightarrow> deq_at option \<times> deq_loc \<times> lcrq_t \<times> lcrq_ev" where
  "deq_step p Q_1 l q = (Some Q_2, l\<lparr>d_rq := qhead q\<rparr>, q, Tau)"
| "deq_step p Q_2 l q = (Some Q_3, l\<lparr>d_tt := rtail (rings q (d_rq l))\<rparr>, q, Tau)"
| "deq_step p Q_3 l q = (Some Q_4, l\<lparr>d_rq := qhead q\<rparr>, q, Tau)"
| "deq_step p Q_4 l q =
     (Some (if tail_index (d_tt l) < rhead (rings q (d_rq l)) + 1 then Q_5 else D_start), l, q, Tau)"
| "deq_step p Q_5 l q = (Some Q_6, l\<lparr>d_rq := qhead q\<rparr>, q, Tau)"
| "deq_step p Q_6 l q =
     (if rnext (rings q (d_rq l)) = None then (None, l, q, Empty) else (Some D_start, l, q, Tau))"
| "deq_step p D_start l q = (Some D_faa, l\<lparr>d_rq := qhead q\<rparr>, q, Tau)"
| "deq_step p D_faa l q =
     (let h = rhead (rings q (d_rq l))
      in (Some D_idx, l\<lparr>d_h := h, d_tt := 0, d_r := 0\<rparr>, upd_ring (d_rq l) (\<lambda>x. x\<lparr>rhead := h + 1\<rparr>) q, Tau))"
| "deq_step p D_idx l q = (Some D_val, l\<lparr>d_idx := cidx (cell p q (d_rq l) (d_h l))\<rparr>, q, Tau)"
| "deq_step p D_val l q =
     (let v = cval (cell p q (d_rq l) (d_h l)); idx = node_index (d_idx l)
      in (Some (if d_h l < idx then D_post
                else if \<not> is_empty v then if idx = d_h l then D_take else D_unsafe
                else if d_r l mod 1024 = 0 then D_tail else D_void), l\<lparr>d_val := v\<rparr>, q, Tau))"
| "deq_step p D_take l q =
     (let (ok, q') = CAS2 p (d_rq l) (d_h l) (d_val l, d_idx l)
                       (NOVAL, node_unsafe (d_idx l) OR (d_h l + RING_SIZE p)) q
      in if ok then (None, l, q', Deq (d_val l)) else (Some D_idx, l, q', Tau))"
| "deq_step p D_unsafe l q =
     (let (ok, q') = CAS2 p (d_rq l) (d_h l) (d_val l, d_idx l) (d_val l, set_unsafe (node_index (d_idx l))) q
      in (Some (if ok then D_post else D_idx), l, q', Tau))"
| "deq_step p D_tail l q = (Some D_void, l\<lparr>d_tt := rtail (rings q (d_rq l))\<rparr>, q, Tau)"
| "deq_step p D_void l q =
     (if node_unsafe (d_idx l) \<noteq> 0 then
        let (ok, q') = CAS2 p (d_rq l) (d_h l) (d_val l, d_idx l)
                         (d_val l, node_unsafe (d_idx l) OR (d_h l + RING_SIZE p)) q
        in (Some (if ok then D_post else D_idx), l, q', Tau)
      else if tail_index (d_tt l) < d_h l + 1 \<or> 200000 < d_r l \<or> crq_is_closed (d_tt l) then
        let (ok, q') = CAS2 p (d_rq l) (d_h l) (d_val l, node_index (d_idx l)) (d_val l, d_h l + RING_SIZE p) q
        in (Some (if ok then if 200000 < d_r l \<and> RING_SIZE p < d_tt l then D_bts else D_post else D_idx), l, q', Tau)
      else (Some D_idx, l\<lparr>d_r := Suc (d_r l)\<rparr>, q, Tau))"
| "deq_step p D_bts l q = (Some D_post, l, upd_ring (d_rq l) (\<lambda>x. x\<lparr>rtail := rtail x OR BIT63\<rparr>) q, Tau)"
| "deq_step p D_post l q =
     (Some (if tail_index (rtail (rings q (d_rq l))) \<le> d_h l + 1 then F_tail else D_start), l, q, Tau)"
| "deq_step p F_tail l q = (Some F_head, l\<lparr>d_t := rtail (rings q (d_rq l))\<rparr>, q, Tau)"
| "deq_step p F_head l q = (Some F_check, l\<lparr>d_hh := rhead (rings q (d_rq l))\<rparr>, q, Tau)"
| "deq_step p F_check l q =
     (Some (if rtail (rings q (d_rq l)) \<noteq> d_t l then F_tail else if d_t l < d_hh l then F_cas else D_next), l, q, Tau)"
| "deq_step p F_cas l q =
     (if rtail (rings q (d_rq l)) = d_t l
      then (Some D_next, l, upd_ring (d_rq l) (\<lambda>x. x\<lparr>rtail := d_hh l\<rparr>) q, Tau)
      else (Some F_tail, l, q, Tau))"
| "deq_step p D_next l q =
     (case rnext (rings q (d_rq l)) of
        None \<Rightarrow> (None, l, q, Empty) | Some r \<Rightarrow> (Some D_post2, l\<lparr>d_next := r\<rparr>, q, Tau))"
| "deq_step p D_post2 l q =
     (Some (if tail_index (rtail (rings q (d_rq l))) \<le> d_h l + 1 then D_swing else D_start), l, q, Tau)"
| "deq_step p D_swing l q = (Some D_start, l, if qhead q = d_rq l then q\<lparr>qhead := d_next l\<rparr> else q, Tau)"

section \<open>Threads\<close>

record lcrq_sys =
  queue :: lcrq_t
  thr :: "nat \<Rightarrow> lcrq_thread"
  nrqs :: "nat \<Rightarrow> RingQueue option"
  events :: "lcrq_ev list"

fun lcrq_step :: "nat \<Rightarrow> lcrq_thread \<Rightarrow> lcrq_t \<Rightarrow> RingQueue option
    \<Rightarrow> lcrq_thread \<times> lcrq_t \<times> RingQueue option \<times> lcrq_ev" where
  "lcrq_step p Idle q n = (Idle, q, n, Tau)"
| "lcrq_step p (Enqueuing a l) q n = (case enq_step p a l q n of (a', l', q', n', e) \<Rightarrow>
     (case a' of None \<Rightarrow> Idle | Some b \<Rightarrow> Enqueuing b l', q', n', e))"
| "lcrq_step p (Dequeuing a l) q n = (case deq_step p a l q of (a', l', q', e) \<Rightarrow>
     (case a' of None \<Rightarrow> Idle | Some b \<Rightarrow> Dequeuing b l', q', n, e))"

definition lcrq_enqueue :: "u64 \<Rightarrow> lcrq_thread" where
  "lcrq_enqueue v = Enqueuing E_start \<lparr>e_arg = v, e_rq = 0, e_try = 0, e_t = 0, e_idx = 0\<rparr>"

definition lcrq_dequeue :: lcrq_thread where
  "lcrq_dequeue = Dequeuing Q_1 \<lparr>d_rq = 0, d_h = 0, d_r = 0, d_tt = 0, d_idx = 0, d_val = 0, d_t = 0, d_hh = 0, d_next = 0\<rparr>"

text \<open>
  A thread that is idle may call either operation; the value \<open>-1\<close> stands for an empty cell and is
  not an element.
\<close>

inductive lcrq_sys_step :: "nat \<Rightarrow> lcrq_sys \<Rightarrow> lcrq_sys \<Rightarrow> bool" for p where
  call_enq: "thr s i = Idle \<Longrightarrow> v \<noteq> NOVAL \<Longrightarrow> lcrq_sys_step p s (s\<lparr>thr := (thr s)(i := lcrq_enqueue v)\<rparr>)"
| call_deq: "thr s i = Idle \<Longrightarrow> lcrq_sys_step p s (s\<lparr>thr := (thr s)(i := lcrq_dequeue)\<rparr>)"
| step: "lcrq_step p (thr s i) (queue s) (nrqs s i) = (x, q', n', e) \<Longrightarrow>
     lcrq_sys_step p s (s\<lparr>queue := q', thr := (thr s)(i := x), nrqs := (nrqs s)(i := n'), events := events s @ [e]\<rparr>)"

definition lcrq_start :: "nat \<Rightarrow> lcrq_sys" where
  "lcrq_start p = \<lparr>queue = lcrq_init p, thr = (\<lambda>_. Idle), nrqs = (\<lambda>_. None), events = []\<rparr>"

section \<open>No element is lost or invented\<close>

definition cell_mset :: "RingNode \<Rightarrow> u64 multiset" where
  "cell_mset c = (if is_empty (cval c) then {#} else {#cval c#})"

definition ring_mset :: "nat \<Rightarrow> RingQueue \<Rightarrow> u64 multiset" where
  "ring_mset p x = (\<Sum>i<2 ^ p. cell_mset (arr x i))"

definition contents :: "nat \<Rightarrow> lcrq_t \<Rightarrow> u64 multiset" where
  "contents p q = (\<Sum>r<nrings q. ring_mset p (rings q r))"

fun enq_mset :: "lcrq_ev \<Rightarrow> u64 multiset" where
  "enq_mset (Enq v) = {#v#}"
| "enq_mset _ = {#}"

fun deq_mset :: "lcrq_ev \<Rightarrow> u64 multiset" where
  "deq_mset (Deq v) = {#v#}"
| "deq_mset _ = {#}"

lemma cell_of_less: "cell_of p t < 2 ^ p"
proof -
  have "RING_SIZE p - 1 = mask p" by (simp add: RING_SIZE_def mask_eq_exp_minus_1)
  then show ?thesis by (simp add: cell_of_def unat_and_mask)
qed

lemma sum_upd:
  fixes f :: "nat \<Rightarrow> u64 multiset"
  assumes "k < n"
  shows "(\<Sum>i<n. (f(k := a)) i) + f k = (\<Sum>i<n. f i) + a"
proof -
  have k: "k \<in> {..<n}" using assms by simp
  have "(\<Sum>i<n. (f(k := a)) i) = a + (\<Sum>i \<in> {..<n} - {k}. f i)"
    using k by (simp add: sum.remove)
  moreover have "(\<Sum>i<n. f i) = f k + (\<Sum>i \<in> {..<n} - {k}. f i)" using k by (rule sum.remove [OF finite_lessThan])
  ultimately show ?thesis by (simp add: ac_simps)
qed

lemma contents_upd_ring:
  assumes "r < nrings q"
  shows "contents p (upd_ring r f q) + ring_mset p (rings q r) = contents p q + ring_mset p (f (rings q r))"
proof -
  have "(\<Sum>i<nrings q. ring_mset p (((rings q)(r := f (rings q r))) i))
      = (\<Sum>i<nrings q. ((\<lambda>i. ring_mset p (rings q i))(r := ring_mset p (f (rings q r)))) i)"
    by (rule sum.cong) auto
  then show ?thesis
    using sum_upd [OF assms, of "\<lambda>i. ring_mset p (rings q i)" "ring_mset p (f (rings q r))"]
    by (simp add: contents_def upd_ring_def)
qed

lemma ring_mset_upd:
  assumes "k < 2 ^ p"
  shows "ring_mset p (x\<lparr>arr := (arr x)(k := c)\<rparr>) + cell_mset (arr x k) = ring_mset p x + cell_mset c"
proof -
  have "(\<Sum>i<2 ^ p. cell_mset (((arr x)(k := c)) i)) = (\<Sum>i<2 ^ p. ((\<lambda>i. cell_mset (arr x i))(k := cell_mset c)) i)"
    by (rule sum.cong) auto
  then show ?thesis
    using sum_upd [OF assms, of "\<lambda>i. cell_mset (arr x i)" "cell_mset c"] by (simp add: ring_mset_def)
qed

lemma ring_mset_simps [simp]:
  "ring_mset p (x\<lparr>rhead := h\<rparr>) = ring_mset p x" "ring_mset p (x\<lparr>rtail := t\<rparr>) = ring_mset p x"
  "ring_mset p (x\<lparr>rnext := y\<rparr>) = ring_mset p x"
  by (simp_all add: ring_mset_def)

lemma contents_same:
  assumes "r < nrings q" "ring_mset p (f (rings q r)) = ring_mset p (rings q r)"
  shows "contents p (upd_ring r f q) = contents p q"
  using contents_upd_ring [OF assms(1), of p f] assms(2) by simp

lemma CAS2_contents:
  assumes "CAS2 p r t old new q = (ok, q')" "r < nrings q"
  shows "contents p q' + (if ok then cell_mset \<lparr>cval = fst old, cidx = snd old\<rparr> else {#})
       = contents p q + (if ok then cell_mset \<lparr>cval = fst new, cidx = snd new\<rparr> else {#})"
proof (cases ok)
  case True
  let ?x = "rings q r" and ?k = "cell_of p t" and ?c = "\<lparr>cval = fst new, cidx = snd new\<rparr>"
  have c: "cval (arr ?x ?k) = fst old"
    "q' = upd_ring r (\<lambda>x. x\<lparr>arr := (arr x)(?k := ?c)\<rparr>) q"
    using assms(1) True by (auto simp: CAS2_def cell_def split: if_splits)
  have "cell_mset (arr ?x ?k) = cell_mset \<lparr>cval = fst old, cidx = snd old\<rparr>" using c(1) by (simp add: cell_mset_def)
  then have "contents p q' + ring_mset p ?x + cell_mset \<lparr>cval = fst old, cidx = snd old\<rparr>
      = contents p q + ring_mset p ?x + cell_mset ?c"
    using contents_upd_ring [OF assms(2), of p "\<lambda>x. x\<lparr>arr := (arr x)(?k := ?c)\<rparr>"]
      ring_mset_upd [OF cell_of_less, of p ?x t ?c] unfolding c(2) by (simp add: ac_simps)
  then show ?thesis using True by (simp add: ac_simps)
next
  case False
  then show ?thesis using assms(1) by (auto simp: CAS2_def split: if_splits)
qed

definition queue_ok :: "lcrq_t \<Rightarrow> bool" where
  "queue_ok q \<longleftrightarrow> qhead q < nrings q \<and> qtail q < nrings q
     \<and> (\<forall>r r'. r < nrings q \<longrightarrow> rnext (rings q r) = Some r' \<longrightarrow> r' < nrings q)"

text \<open>
  Threads refer to linked rings and carry elements. The private ring of a thread is empty but for
  its first cell, which holds the element to be linked.
\<close>

fun thread_ok :: "nat \<Rightarrow> lcrq_thread \<Rightarrow> RingQueue option \<Rightarrow> bool" where
  "thread_ok N Idle n \<longleftrightarrow> True"
| "thread_ok N (Enqueuing a l) n \<longleftrightarrow> e_rq l < N \<and> e_arg l \<noteq> NOVAL
     \<and> (a = E_link \<longrightarrow> (\<exists>x. n = Some x \<and> cval (arr x 0) = e_arg l))"
| "thread_ok N (Dequeuing a l) n \<longleftrightarrow> d_rq l < N \<and> d_next l < N
     \<and> (a = D_take \<or> a = D_unsafe \<longrightarrow> d_val l \<noteq> NOVAL)"

definition priv_ok :: "RingQueue option \<Rightarrow> bool" where
  "priv_ok n \<longleftrightarrow> (\<forall>x. n = Some x \<longrightarrow> rnext x = None \<and> (\<forall>i. i \<noteq> 0 \<longrightarrow> cval (arr x i) = NOVAL))"

lemma upd_ring_simps [simp]:
  "nrings (upd_ring r f q) = nrings q" "qhead (upd_ring r f q) = qhead q" "qtail (upd_ring r f q) = qtail q"
  "rings (upd_ring r f q) r' = (if r' = r then f (rings q r) else rings q r')"
  by (simp_all add: upd_ring_def)

lemma queue_ok_upd: "queue_ok q \<Longrightarrow> rnext (f (rings q r)) = rnext (rings q r) \<Longrightarrow> queue_ok (upd_ring r f q)"
  by (auto simp: queue_ok_def)

lemma CAS2_queue [simp]:
  "nrings (snd (CAS2 p r t old new q)) = nrings q"
  "queue_ok q \<Longrightarrow> queue_ok (snd (CAS2 p r t old new q))"
  by (auto simp: CAS2_def intro!: queue_ok_upd)

lemma close_crq_queue [simp]:
  "nrings (snd (close_crq r t c q)) = nrings q"
  "queue_ok q \<Longrightarrow> queue_ok (snd (close_crq r t c q))"
  by (auto simp: close_crq_def Let_def intro!: queue_ok_upd)

lemma close_crq_contents [simp]: "r < nrings q \<Longrightarrow> contents p (snd (close_crq r t c q)) = contents p q"
  by (auto simp: close_crq_def Let_def contents_same)

lemma queue_ok_next: "queue_ok q \<Longrightarrow> r < nrings q \<Longrightarrow> rnext (rings q r) = Some r' \<Longrightarrow> r' < nrings q"
  by (simp add: queue_ok_def)

lemma queue_ok_head: "queue_ok q \<Longrightarrow> qhead q < nrings q" "queue_ok q \<Longrightarrow> qtail q < nrings q"
  by (simp_all add: queue_ok_def)

lemma queue_ok_set_head: "queue_ok q \<Longrightarrow> r < nrings q \<Longrightarrow> queue_ok (q\<lparr>qhead := r\<rparr>)"
  by (simp add: queue_ok_def)

lemma contents_set_head [simp]: "contents p (q\<lparr>qhead := r\<rparr>) = contents p q"
  by (simp add: contents_def)

text \<open>A step of a dequeuing thread keeps all this, and takes out of the cells what it returns.\<close>

definition balanced :: "nat \<Rightarrow> lcrq_t \<Rightarrow> lcrq_t \<Rightarrow> lcrq_ev \<Rightarrow> bool" where
  "balanced p q q' e \<longleftrightarrow> contents p q' + deq_mset e = contents p q + enq_mset e"

lemma balanced_Tau: "contents p q' = contents p q \<Longrightarrow> balanced p q q' Tau" "balanced p q q Empty"
  by (simp_all add: balanced_def)

lemma deq_step_ok:
  assumes "queue_ok q" "thread_ok (nrings q) (Dequeuing a l) n"
  shows "case deq_step p a l q of (a', l', q', e) \<Rightarrow> queue_ok q' \<and> nrings q' = nrings q
           \<and> d_rq l' < nrings q \<and> d_next l' < nrings q
           \<and> (a' = Some D_take \<or> a' = Some D_unsafe \<longrightarrow> d_val l' \<noteq> NOVAL)"
  using assms
  by (cases a) (simp_all add: Let_def case_prod_beta is_empty_def queue_ok_upd queue_ok_head
      queue_ok_set_head split: option.split, blast intro: queue_ok_next)

lemma CAS2_keeps:
  assumes "r < nrings q" "fst new = fst old"
  shows "contents p (snd (CAS2 p r t old new q)) = contents p q"
  using CAS2_contents [OF _ assms(1), of p t old new "fst (CAS2 p r t old new q)" "snd (CAS2 p r t old new q)"] assms(2)
  by (simp add: cell_mset_def split: if_splits)

lemma CAS2_fails: "\<not> fst (CAS2 p r t old new q) \<Longrightarrow> snd (CAS2 p r t old new q) = q"
  by (simp add: CAS2_def split: if_splits)

lemma CAS2_takes:
  assumes "r < nrings q" "fst (CAS2 p r t (v, i) (NOVAL, j) q)" "v \<noteq> NOVAL"
  shows "add_mset v (contents p (snd (CAS2 p r t (v, i) (NOVAL, j) q))) = contents p q"
  using CAS2_contents [OF _ assms(1), of p t "(v, i)" "(NOVAL, j)" True "snd (CAS2 p r t (v, i) (NOVAL, j) q)"] assms(2,3)
  by (simp add: cell_mset_def is_empty_def prod_eq_iff)

lemma CAS2_puts:
  assumes "r < nrings q" "fst (CAS2 p r t (NOVAL, i) (v, j) q)" "v \<noteq> NOVAL"
  shows "contents p (snd (CAS2 p r t (NOVAL, i) (v, j) q)) = contents p q + {#v#}"
  using CAS2_contents [OF _ assms(1), of p t "(NOVAL, i)" "(v, j)" True "snd (CAS2 p r t (NOVAL, i) (v, j) q)"] assms(2,3)
  by (simp add: cell_mset_def is_empty_def prod_eq_iff)

lemma deq_step_balanced:
  assumes "queue_ok q" "thread_ok (nrings q) (Dequeuing a l) n" "deq_step p a l q = (a', l', q', e)"
  shows "balanced p q q' e"
proof -
  have "contents p (fst (snd (snd (deq_step p a l q)))) + deq_mset (snd (snd (snd (deq_step p a l q))))
      = contents p q + enq_mset (snd (snd (snd (deq_step p a l q))))"
    using assms(1,2)
    by (cases a) (simp_all add: Let_def case_prod_beta contents_same CAS2_keeps CAS2_takes CAS2_fails split: option.split)
  then show ?thesis using assms(3) by (simp add: balanced_def)
qed

lemma link_ring_queue:
  assumes "queue_ok q" "r < nrings q" "rnext x = None"
  shows "queue_ok (link_ring r x q)" "nrings (link_ring r x q) = Suc (nrings q)"
proof -
  show "queue_ok (link_ring r x q)"
    using assms by (auto simp: link_ring_def queue_ok_def Let_def less_Suc_eq split: if_splits)
  show "nrings (link_ring r x q) = Suc (nrings q)" by (simp add: link_ring_def Let_def)
qed

lemma link_ring_contents:
  assumes "r < nrings q"
  shows "contents p (link_ring r x q) = contents p q + ring_mset p x"
proof -
  let ?q = "upd_ring r (\<lambda>y. y\<lparr>rnext := Some (nrings q)\<rparr>) q"
  have "contents p (link_ring r x q) = (\<Sum>i<nrings q. ring_mset p (rings ?q i)) + ring_mset p x"
    by (simp add: contents_def link_ring_def Let_def)
  also have "(\<Sum>i<nrings q. ring_mset p (rings ?q i)) = contents p ?q" by (simp add: contents_def)
  also have "\<dots> = contents p q" using assms by (intro contents_same) simp_all
  finally show ?thesis .
qed

lemma priv_mset:
  assumes "priv_ok (Some x)" "cval (arr x 0) = a" "a \<noteq> NOVAL"
  shows "ring_mset p x = {#a#}"
proof -
  have "ring_mset p x = cell_mset (arr x 0) + (\<Sum>i \<in> {..<2 ^ p} - {0}. cell_mset (arr x i))"
    unfolding ring_mset_def by (rule sum.remove) auto
  also have "(\<Sum>i \<in> {..<2 ^ p} - {0}. cell_mset (arr x i)) = {#}"
    using assms(1) by (intro sum.neutral) (auto simp: priv_ok_def cell_mset_def is_empty_def)
  finally show ?thesis using assms(2,3) by (simp add: cell_mset_def is_empty_def)
qed

lemma priv_ok_alloc: "priv_ok n \<Longrightarrow> priv_ok (Some ((case n of Some x \<Rightarrow> x | None \<Rightarrow> init_ring p)
    \<lparr>rtail := 1, arr := (arr (case n of Some x \<Rightarrow> x | None \<Rightarrow> init_ring p))(0 := c)\<rparr>))"
  by (auto simp: priv_ok_def init_ring_def split: option.splits)

lemma enq_step_ok:
  assumes "queue_ok q" "thread_ok (nrings q) (Enqueuing a l) n" "priv_ok n" "enq_step p a l q n = (a', l', q', n', e)"
  shows "queue_ok q' \<and> nrings q \<le> nrings q' \<and> priv_ok n' \<and> balanced p q q' e
    \<and> (\<forall>b. a' = Some b \<longrightarrow> thread_ok (nrings q') (Enqueuing b l') n')"
proof (cases "a = E_link")
  case True
  then obtain x where x: "n = Some x" "cval (arr x 0) = e_arg l" using assms(2) by auto
  then show ?thesis
    using assms True link_ring_queue [OF assms(1), of "e_rq l" x] link_ring_contents [of "e_rq l" q p x] priv_mset [of x "e_arg l" p]
    by (auto simp: priv_ok_def balanced_def split: if_splits)
next
  case False
  have "case enq_step p a l q n of (a', l', q', n', e) \<Rightarrow> queue_ok q' \<and> nrings q' = nrings q \<and> priv_ok n'
      \<and> contents p q' + deq_mset e = contents p q + enq_mset e \<and> e_rq l' < nrings q \<and> e_arg l' \<noteq> NOVAL
      \<and> (a' = Some E_link \<longrightarrow> (\<exists>x. n' = Some x \<and> cval (arr x 0) = e_arg l'))"
    using assms(1-3) False
    by (cases a) (simp_all add: Let_def case_prod_beta queue_ok_upd queue_ok_head contents_same CAS2_puts CAS2_fails
        priv_ok_alloc split: option.split, blast intro: queue_ok_next)
  then show ?thesis using assms(4) by (simp add: balanced_def)
qed

definition lcrq_inv :: "nat \<Rightarrow> lcrq_sys \<Rightarrow> bool" where
  "lcrq_inv p s \<longleftrightarrow> queue_ok (queue s)
     \<and> (\<forall>i. thread_ok (nrings (queue s)) (thr s i) (nrqs s i) \<and> priv_ok (nrqs s i))
     \<and> (\<Sum>e\<leftarrow>events s. enq_mset e) = (\<Sum>e\<leftarrow>events s. deq_mset e) + contents p (queue s)"

lemma thread_ok_mono: "thread_ok N x n \<Longrightarrow> N \<le> M \<Longrightarrow> thread_ok M x n"
  by (cases x) auto

lemma lcrq_step_ok:
  assumes "queue_ok q" "thread_ok (nrings q) x n" "priv_ok n" "lcrq_step p x q n = (x', q', n', e)"
  shows "queue_ok q' \<and> nrings q \<le> nrings q' \<and> priv_ok n' \<and> balanced p q q' e \<and> thread_ok (nrings q') x' n'"
proof (cases x)
  case Idle
  then show ?thesis using assms by (simp add: balanced_def)
next
  case (Enqueuing a l)
  obtain a' l' where s: "enq_step p a l q n = (a', l', q', n', e)" "x' = (case a' of None \<Rightarrow> Idle | Some b \<Rightarrow> Enqueuing b l')"
    using assms(4) Enqueuing by (auto split: prod.splits)
  then show ?thesis using enq_step_ok [OF assms(1) _ assms(3) s(1)] assms(2) Enqueuing by (auto split: option.splits)
next
  case (Dequeuing a l)
  obtain a' l' where s: "deq_step p a l q = (a', l', q', e)" "x' = (case a' of None \<Rightarrow> Idle | Some b \<Rightarrow> Dequeuing b l')" "n' = n"
    using assms(4) Dequeuing by (auto split: prod.splits)
  then show ?thesis
    using deq_step_ok [OF assms(1), of a l n p] deq_step_balanced [OF assms(1) _ s(1)] assms(2,3) Dequeuing
    by (auto split: option.splits)
qed

lemma lcrq_inv_step:
  assumes "lcrq_sys_step p s s'" "lcrq_inv p s"
  shows "lcrq_inv p s'"
  using assms
proof (induction rule: lcrq_sys_step.induct)
  case (call_enq s i v)
  then show ?case by (auto simp: lcrq_inv_def lcrq_enqueue_def queue_ok_def)
next
  case (call_deq s i)
  then show ?case by (auto simp: lcrq_inv_def lcrq_dequeue_def queue_ok_def)
next
  case (step s i x q' n' e)
  have k: "queue_ok q'" "nrings (queue s) \<le> nrings q'" "priv_ok n'" "balanced p (queue s) q' e" "thread_ok (nrings q') x n'"
    using lcrq_step_ok [OF _ _ _ step.hyps] step.prems by (auto simp: lcrq_inv_def)
  have "thread_ok (nrings q') (thr s j) (nrqs s j)" for j
    by (rule thread_ok_mono [OF _ k(2)]) (use step.prems in \<open>simp add: lcrq_inv_def\<close>)
  then show ?case using k step.prems by (auto simp: lcrq_inv_def balanced_def ac_simps)
qed

lemma contents_init: "contents p (lcrq_init p) = {#}"
  by (simp add: contents_def lcrq_init_def ring_mset_def init_ring_def cell_mset_def is_empty_def)

lemma lcrq_inv_start: "lcrq_inv p (lcrq_start p)"
  by (auto simp: lcrq_inv_def lcrq_start_def contents_init queue_ok_def priv_ok_def) (simp_all add: lcrq_init_def init_ring_def)

text \<open>
  Property C7. In every interleaving of enqueues and dequeues by any number of threads, the
  elements put in are, with their multiplicities, the elements taken out together with those
  still in the cells of the rings: none is lost, duplicated or made up, whichever rings are
  closed, appended or left behind in between.
\<close>

theorem lcrq_conserves:
  assumes "(lcrq_sys_step p)\<^sup>*\<^sup>* (lcrq_start p) s"
  shows "(\<Sum>e\<leftarrow>events s. enq_mset e) = (\<Sum>e\<leftarrow>events s. deq_mset e) + contents p (queue s)"
proof -
  have "lcrq_inv p s" using assms lcrq_inv_start by (induction rule: rtranclp_induct) (auto intro: lcrq_inv_step)
  then show ?thesis by (simp add: lcrq_inv_def)
qed

theorem lcrq_conserves_witness:
  "\<exists>s. (lcrq_sys_step 1)\<^sup>*\<^sup>* (lcrq_start 1) s \<and> thr s 0 = lcrq_enqueue 7 \<and> thr s 1 = lcrq_dequeue
     \<and> (\<Sum>e\<leftarrow>events s. enq_mset e) = (\<Sum>e\<leftarrow>events s. deq_mset e) + contents 1 (queue s)"
proof -
  let ?s1 = "(lcrq_start 1)\<lparr>thr := (thr (lcrq_start 1))(0 := lcrq_enqueue 7)\<rparr>"
  let ?s2 = "?s1\<lparr>thr := (thr ?s1)(1 := lcrq_dequeue)\<rparr>"
  have "lcrq_sys_step 1 (lcrq_start 1) ?s1" by (rule lcrq_sys_step.call_enq) (simp_all add: lcrq_start_def NOVAL_def)
  moreover have "lcrq_sys_step 1 ?s1 ?s2" by (rule lcrq_sys_step.call_deq) (simp add: lcrq_start_def)
  ultimately have r: "(lcrq_sys_step 1)\<^sup>*\<^sup>* (lcrq_start 1) ?s2" by (meson rtranclp.intros)
  then show ?thesis using lcrq_conserves [OF r] by (intro exI [of _ ?s2]) simp
qed

end
