(* ===== verification/LC_Lcrq_Fifo.thy ===== *)
theory LC_Lcrq_Fifo
  imports LC_Lcrq
begin

text \<open>
  The ring queue used by one thread at a time is a first-in-first-out queue, across the rings it
  closes and appends: operations that run without interference refine the operations on lists.
\<close>

section \<open>Running an operation to its end\<close>

fun solo :: "nat \<Rightarrow> nat \<Rightarrow> lcrq_thread \<Rightarrow> lcrq_t \<Rightarrow> RingQueue option \<Rightarrow> (lcrq_t \<times> RingQueue option \<times> lcrq_ev) option" where
  "solo 0 p x q n = None"
| "solo (Suc f) p x q n = (case lcrq_step p x q n of (x', q', n', e) \<Rightarrow>
     if x' = Idle then Some (q', n', e) else solo f p x' q' n')"

lemma solo_more: "solo f p x q n = Some r \<Longrightarrow> solo (f + k) p x q n = Some r"
  by (induction f arbitrary: x q n) (auto split: prod.splits if_splits)

section \<open>Counters and flags\<close>

text \<open>Counters stay below \<open>2 ^ 62\<close>, so the flag in bit 63 does not disturb them.\<close>

lemma unat_cnt: "i < 2 ^ 63 \<Longrightarrow> unat (of_nat i :: u64) = i"
  by (simp add: unsigned_of_nat take_bit_nat_eq_self_iff)

lemma bit_cnt: "i < 2 ^ 63 \<Longrightarrow> bit (of_nat i :: u64) k \<longleftrightarrow> k < 63 \<and> bit i k"
proof -
  assume i: "i < 2 ^ 63"
  then have "take_bit 63 i = i" by (simp add: take_bit_nat_eq_self_iff)
  then have "bit i k \<longleftrightarrow> k < 63 \<and> bit i k" by (metis bit_take_bit_iff)
  moreover have "bit (of_nat i :: u64) k \<longleftrightarrow> bit (unat (of_nat i :: u64)) k" by (simp only: bit_unsigned_iff possible_bit_nat simp_thms)
  ultimately show ?thesis using i by (simp add: unat_cnt)
qed

lemma bit_BIT63: "bit BIT63 k \<longleftrightarrow> k = 63"
  unfolding BIT63_def bit_push_bit_iff bit_1_iff by auto

lemma cnt_flags [simp]:
  assumes "i < 2 ^ 63"
  shows "node_index (of_nat i) = of_nat i" "tail_index (of_nat i) = of_nat i" "node_unsafe (of_nat i) = 0"
    "\<not> crq_is_closed (of_nat i)" "tail_index (of_nat i OR BIT63) = of_nat i" "crq_is_closed (of_nat i OR BIT63)"
proof -
  have [simp]: "(of_nat i :: u64) AND BIT63 = 0"
    by (rule bit_word_eqI) (auto simp: bit_and_iff bit_cnt [OF assms] bit_BIT63)
  have [simp]: "(of_nat i :: u64) AND NOT BIT63 = of_nat i"
    by (rule bit_word_eqI) (auto simp: bit_and_iff bit_not_iff bit_cnt [OF assms] bit_BIT63)
  have "((of_nat i :: u64) OR BIT63) AND NOT BIT63 = of_nat i"
    by (rule bit_word_eqI) (auto simp: bit_and_iff bit_or_iff bit_not_iff bit_cnt [OF assms] bit_BIT63)
  moreover have "bit (((of_nat i :: u64) OR BIT63) AND BIT63) 63"
    by (simp add: bit_and_iff bit_or_iff bit_BIT63)
  then have "((of_nat i :: u64) OR BIT63) AND BIT63 \<noteq> 0" by (metis bit_0_eq bot_apply bot_bool_def)
  ultimately show "node_index (of_nat i) = of_nat i" "tail_index (of_nat i) = of_nat i" "node_unsafe (of_nat i) = 0"
    "\<not> crq_is_closed (of_nat i)" "tail_index (of_nat i OR BIT63) = of_nat i" "crq_is_closed (of_nat i OR BIT63)"
    by (simp_all add: node_index_def tail_index_def node_unsafe_def crq_is_closed_def)
qed

lemma cnt_less [simp]: "i < 2 ^ 63 \<Longrightarrow> j < 2 ^ 63 \<Longrightarrow> (of_nat i :: u64) < of_nat j \<longleftrightarrow> i < j"
  by (simp add: word_less_nat_alt unat_cnt)

lemma cnt_le [simp]: "i < 2 ^ 63 \<Longrightarrow> j < 2 ^ 63 \<Longrightarrow> (of_nat i :: u64) \<le> of_nat j \<longleftrightarrow> i \<le> j"
  by (simp add: word_le_nat_alt unat_cnt)

lemma cnt_eq [simp]: "i < 2 ^ 63 \<Longrightarrow> j < 2 ^ 63 \<Longrightarrow> (of_nat i :: u64) = of_nat j \<longleftrightarrow> i = j"
  by (metis unat_cnt)

lemma cnt_Suc: "(of_nat i :: u64) + 1 = of_nat (Suc i)"
  by simp

lemma cell_of_cnt: "i < 2 ^ 63 \<Longrightarrow> cell_of p (of_nat i) = i mod 2 ^ p"
proof -
  assume i: "i < 2 ^ 63"
  have "RING_SIZE p - 1 = mask p" by (simp add: RING_SIZE_def mask_eq_exp_minus_1)
  then show ?thesis using i by (simp add: cell_of_def unat_and_mask unat_cnt)
qed

lemma sint_cnt: "i < 2 ^ 62 \<Longrightarrow> sint (of_nat i :: u64) = int i"
  by (simp add: signed_of_nat signed_take_bit_int_eq_self_iff)

section \<open>Rings that hold a list\<close>

text \<open>
  A ring with the elements \<open>vs\<close> at the positions from \<open>H\<close> on. Its tail is behind the last of
  them, or one further with the flag set when the ring was closed on a full ring. The free
  cells are empty and their indices do not exceed the position they will be used for.
\<close>

definition ring_holds :: "nat \<Rightarrow> nat \<Rightarrow> RingQueue \<Rightarrow> nat \<Rightarrow> u64 list \<Rightarrow> bool \<Rightarrow> bool" where
  "ring_holds p B x H vs closed \<longleftrightarrow>
     H + length vs \<le> B \<and> length vs \<le> 2 ^ p \<and> rhead x = of_nat H
   \<and> rtail x = (if closed then of_nat (Suc (H + length vs)) OR BIT63 else of_nat (H + length vs))
   \<and> (\<forall>k < length vs. arr x ((H + k) mod 2 ^ p) = \<lparr>cval = vs ! k, cidx = of_nat (H + k)\<rparr> \<and> vs ! k \<noteq> NOVAL)
   \<and> (\<forall>i. H + length vs \<le> i \<and> i < H + 2 ^ p \<longrightarrow>
        cval (arr x (i mod 2 ^ p)) = NOVAL \<and> (\<exists>j \<le> i. cidx (arr x (i mod 2 ^ p)) = of_nat j))"

lemma mod_differ:
  assumes "a < b" "b < a + R"
  shows "a mod R \<noteq> b mod (R :: nat)"
proof
  assume "a mod R = b mod R"
  then have "R dvd b - a" using assms(1) by (metis less_imp_le mod_eq_dvd_iff_nat)
  then show False using assms by (auto dest: dvd_imp_le)
qed

lemma ring_holds_take:
  assumes "ring_holds p B x H (v # vs) closed"
  shows "ring_holds p B (x\<lparr>rhead := of_nat (Suc H), arr := (arr x)(H mod 2 ^ p := \<lparr>cval = NOVAL, cidx = of_nat (H + 2 ^ p)\<rparr>)\<rparr>)
           (Suc H) vs closed"
proof -
  let ?R = "2 ^ p :: nat"
  have len: "Suc (length vs) \<le> ?R" using assms by (simp add: ring_holds_def)
  have "(H + Suc k) mod ?R \<noteq> H mod ?R" if "k < length vs" for k
    using mod_differ [of H "H + Suc k" ?R] that len by simp
  moreover have "arr x ((H + Suc k) mod ?R) = \<lparr>cval = vs ! k, cidx = of_nat (H + Suc k)\<rparr> \<and> vs ! k \<noteq> NOVAL"
    if "k < length vs" for k
    using assms that unfolding ring_holds_def by (metis Suc_less_eq length_Cons nth_Cons_Suc)
  moreover have "cval (((arr x)(H mod ?R := \<lparr>cval = NOVAL, cidx = of_nat (H + ?R)\<rparr>)) (i mod ?R)) = NOVAL
      \<and> (\<exists>j \<le> i. cidx (((arr x)(H mod ?R := \<lparr>cval = NOVAL, cidx = of_nat (H + ?R)\<rparr>)) (i mod ?R)) = of_nat j)"
    if i: "Suc H + length vs \<le> i" "i < Suc H + ?R" for i
  proof (cases "i = H + ?R")
    case False
    then have "i < H + ?R" "i mod ?R \<noteq> H mod ?R" using i mod_differ [of H i ?R] by auto
    then show ?thesis using assms i by (simp add: ring_holds_def)
  qed auto
  ultimately show ?thesis using assms by (auto simp: ring_holds_def)
qed

lemma ring_holds_put:
  assumes "ring_holds p B x H vs False" "length vs < 2 ^ p" "v \<noteq> NOVAL"
  shows "ring_holds p (Suc B) (x\<lparr>rtail := of_nat (Suc (H + length vs)),
           arr := (arr x)((H + length vs) mod 2 ^ p := \<lparr>cval = v, cidx = of_nat (H + length vs)\<rparr>)\<rparr>) H (vs @ [v]) False"
proof -
  let ?R = "2 ^ p :: nat" and ?T = "H + length vs"
  have "(H + k) mod ?R \<noteq> ?T mod ?R" if "k < length vs" for k
    using mod_differ [of "H + k" ?T ?R] that assms(2) by simp
  moreover have "i mod ?R \<noteq> ?T mod ?R" if "?T < i" "i < H + ?R" for i
    using mod_differ [of ?T i ?R] that by simp
  ultimately show ?thesis using assms
    by (auto simp: ring_holds_def nth_append less_Suc_eq)
qed

text \<open>The ring an enqueue links when it has closed a full one.\<close>

definition new_ring :: "nat \<Rightarrow> u64 \<Rightarrow> RingQueue" where
  "new_ring p v = (init_ring p)\<lparr>rtail := 1, arr := (arr (init_ring p))(0 := \<lparr>cval = v, cidx = 0\<rparr>)\<rparr>"

lemma new_ring_next [simp]: "rnext (new_ring p v) = None"
  by (simp add: new_ring_def init_ring_def)

lemma ring_holds_new:
  assumes "v \<noteq> NOVAL" "0 < B"
  shows "ring_holds p B (new_ring p v) 0 [v] False"
  using assms by (auto simp: ring_holds_def init_ring_def new_ring_def)

lemma ring_holds_Suc: "ring_holds p B x H vs c \<Longrightarrow> ring_holds p (Suc B) x H vs c"
  by (auto simp: ring_holds_def)

section \<open>Queues that hold a list\<close>

text \<open>
  The rings are linked in the order of their numbers; all but the last are closed. Those before
  the head have been left behind, those after it hold at least one element.
\<close>

definition lcrq_rep :: "nat \<Rightarrow> nat \<Rightarrow> lcrq_t \<Rightarrow> u64 list list \<Rightarrow> bool" where
  "lcrq_rep p B q xss \<longleftrightarrow> length xss = nrings q \<and> qhead q < nrings q \<and> qtail q = 0
     \<and> (\<forall>r < nrings q. rnext (rings q r) = (if Suc r < nrings q then Some (Suc r) else None))
     \<and> (\<forall>r. qhead q \<le> r \<and> r < nrings q \<longrightarrow> (\<exists>H. ring_holds p B (rings q r) H (xss ! r) (Suc r < nrings q)))
     \<and> (\<forall>r. qhead q < r \<and> r < nrings q \<longrightarrow> xss ! r \<noteq> [])"

definition lcrq_list :: "lcrq_t \<Rightarrow> u64 list list \<Rightarrow> u64 list" where
  "lcrq_list q xss = concat (drop (qhead q) xss)"

lemma walk:
  assumes "\<forall>r < nrings q. rnext (rings q r) = (if Suc r < nrings q then Some (Suc r) else None)" "r < nrings q"
  shows "solo (nrings q - r + f) p (Enqueuing E_next (l\<lparr>e_rq := r\<rparr>)) q n
       = solo f p (Enqueuing E_faa (l\<lparr>e_rq := nrings q - 1\<rparr>)) q n"
  using assms(2)
proof (induction "nrings q - r" arbitrary: r)
  case (Suc d)
  show ?case
  proof (cases "Suc r < nrings q")
    case True
    then have "nrings q - r + f = Suc (nrings q - Suc r + f)" by simp
    then show ?thesis using Suc.hyps(1) [of "Suc r"] Suc.hyps(2) Suc.prems assms(1) True by simp
  next
    case False
    then have "nrings q = Suc r" using Suc.prems by simp
    then show ?thesis using assms(1) by simp
  qed
qed simp

section \<open>Enqueue\<close>

lemma upd_ring_twice [simp]: "upd_ring r f (upd_ring r g q) = upd_ring r (\<lambda>x. f (g x)) q"
  by (simp add: upd_ring_def)

lemma cell_upd [simp]: "cell p (upd_ring r f q) r t = arr (f (rings q r)) (cell_of p t)"
  by (simp add: cell_def)

lemma enq_room:
  assumes h: "ring_holds p B (rings q (e_rq l)) H vs False" and "length vs < 2 ^ p" "B + 2 ^ p < 2 ^ 62"
  shows "solo (Suc (Suc (Suc (Suc f)))) p (Enqueuing E_faa l) q n =
    Some (upd_ring (e_rq l) (\<lambda>x. x\<lparr>rtail := of_nat (Suc (H + length vs)),
      arr := (arr x)((H + length vs) mod 2 ^ p := \<lparr>cval = e_arg l, cidx = of_nat (H + length vs)\<rparr>)\<rparr>) q, n, Enq (e_arg l))"
proof -
  let ?T = "H + length vs" and ?x = "rings q (e_rq l)"
  have b: "?T \<le> B" "rtail ?x = of_nat ?T" using h by (simp_all add: ring_holds_def)
  then have T: "?T < 2 ^ 63" "Suc ?T < 2 ^ 63" using assms(3) by simp_all
  have "?T < H + 2 ^ p" using assms(2) by simp
  then obtain j where j: "cval (arr ?x (?T mod 2 ^ p)) = NOVAL" "j \<le> ?T" "cidx (arr ?x (?T mod 2 ^ p)) = of_nat j"
    using h unfolding ring_holds_def by (metis le_refl)
  have J: "j < 2 ^ 63" using j(2) T(1) by linarith
  show ?thesis
    using b T J j by (simp add: Let_def cell_of_cnt is_empty_def CAS2_def cnt_Suc del: of_nat_add of_nat_Suc power_Suc)
qed

lemma size_diff:
  shows "sint (RING_SIZE p) \<le> sint (of_nat (H + 2 ^ p) - of_nat H :: u64)"
proof -
  have "of_nat (H + 2 ^ p) - of_nat H = (RING_SIZE p :: u64)" by (simp add: RING_SIZE_def)
  then show ?thesis by simp
qed

lemma enq_full:
  assumes h: "ring_holds p B (rings q (e_rq l)) H vs False" and "length vs = 2 ^ p" "B + 2 ^ p < 2 ^ 62" "p \<le> 60"
    and "e_try l = 0" "rnext (rings q (e_rq l)) = None"
  shows "solo (Suc (Suc (Suc (Suc (Suc (Suc (Suc f))))))) p (Enqueuing E_faa l) q None =
    Some (link_ring (e_rq l) (new_ring p (e_arg l))
            (upd_ring (e_rq l) (\<lambda>x. x\<lparr>rtail := of_nat (Suc (H + length vs)) OR BIT63\<rparr>) q), None, Enq (e_arg l))"
proof -
  let ?T = "H + length vs" and ?x = "rings q (e_rq l)"
  have b: "?T \<le> B" "rtail ?x = of_nat ?T" "rhead ?x = of_nat H" using h by (simp_all add: ring_holds_def)
  then have T: "?T < 2 ^ 63" "Suc ?T < 2 ^ 63" using assms(3) by simp_all
  have "0 < length vs" using assms(2) by simp
  then have "arr ?x (H mod 2 ^ p) = \<lparr>cval = vs ! 0, cidx = of_nat H\<rparr>" "vs ! 0 \<noteq> NOVAL"
    using h unfolding ring_holds_def by (metis add_0_right)+
  then have c: "cval (arr ?x (?T mod 2 ^ p)) \<noteq> NOVAL" using assms(2) by simp
  have s: "sint (RING_SIZE p) \<le> sint (of_nat ?T - of_nat H :: u64)"
    using size_diff [of p H] assms(2) by simp
  show ?thesis
    using b T c s assms(5,6)
    by (simp add: Let_def cell_of_cnt is_empty_def close_crq_def new_ring_def cnt_Suc del: of_nat_add of_nat_Suc)
qed

lemma rep_ring: "lcrq_rep p B q xss \<Longrightarrow> qhead q \<le> r \<Longrightarrow> r < nrings q \<Longrightarrow>
    \<exists>H. ring_holds p B (rings q r) H (xss ! r) (Suc r < nrings q)"
  by (simp add: lcrq_rep_def)

lemma rep_put:
  assumes rep: "lcrq_rep p B q xss" and L: "L = nrings q - 1"
    and x: "ring_holds p (Suc B) x H (xss ! L @ [v]) False" "rnext x = rnext (rings q L)"
  shows "lcrq_rep p (Suc B) (upd_ring L (\<lambda>_. x) q) (xss[L := xss ! L @ [v]])"
proof -
  have n: "0 < nrings q" "length xss = nrings q" "Suc L = nrings q" using rep L by (auto simp: lcrq_rep_def)
  have "\<exists>H. ring_holds p (Suc B) (rings (upd_ring L (\<lambda>_. x) q) r) H (xss[L := xss ! L @ [v]] ! r) (Suc r < nrings q)"
    if "qhead q \<le> r" "r < nrings q" for r
  proof (cases "r = L")
    case True
    then show ?thesis using x(1) n by auto
  next
    case False
    then show ?thesis using rep_ring [OF rep that] by (auto dest: ring_holds_Suc)
  qed
  moreover have "xss[L := xss ! L @ [v]] ! r \<noteq> []" if "qhead q < r" "r < nrings q" for r
    using rep n(2) that by (cases "r = L") (simp_all add: lcrq_rep_def)
  ultimately show ?thesis using rep x(2) n(2) by (simp add: lcrq_rep_def)
qed

lemma rep_link:
  assumes rep: "lcrq_rep p B q xss" and L: "L = nrings q - 1" and v: "v \<noteq> NOVAL"
    and x: "ring_holds p B x H (xss ! L) True" "rnext x = rnext (rings q L)"
  shows "lcrq_rep p (Suc B) (link_ring L (new_ring p v) (upd_ring L (\<lambda>_. x) q)) (xss @ [[v]])"
proof -
  let ?q = "link_ring L (new_ring p v) (upd_ring L (\<lambda>_. x) q)"
  have n: "length xss = nrings q" "Suc L = nrings q" "qhead q < nrings q" using rep L by (auto simp: lcrq_rep_def)
  have sz: "nrings ?q = Suc (nrings q)" "qhead ?q = qhead q" "qtail ?q = qtail q"
    by (simp_all add: link_ring_def Let_def)
  have rg: "rings ?q r = (if r = nrings q then new_ring p v else if r = L then x\<lparr>rnext := Some (nrings q)\<rparr> else rings q r)" for r
    using n by (simp add: link_ring_def Let_def)
  have x': "ring_holds p (Suc B) (x\<lparr>rnext := Some (nrings q)\<rparr>) H (xss ! L) True"
    using ring_holds_Suc [OF x(1)] by (simp add: ring_holds_def)
  have "\<exists>H. ring_holds p (Suc B) (rings ?q r) H ((xss @ [[v]]) ! r) (Suc r < nrings ?q)"
    if r: "qhead q \<le> r" "r < Suc (nrings q)" for r
  proof -
    consider "r = nrings q" | "r = L" | "r < L" using r n(2) by linarith
    then show ?thesis
    proof cases
      case 1
      then show ?thesis using ring_holds_new [OF v, of "Suc B" p] n(1) by (auto simp: rg sz nth_append)
    next
      case 2
      then show ?thesis using x' n by (auto simp: rg sz nth_append)
    next
      case 3
      then show ?thesis
        using rep_ring [OF rep r(1)] n by (auto simp: rg sz nth_append dest: ring_holds_Suc)
    qed
  qed
  moreover have "\<forall>r < nrings ?q. rnext (rings ?q r) = (if Suc r < nrings ?q then Some (Suc r) else None)"
    using rep n by (auto simp: rg sz lcrq_rep_def less_Suc_eq)
  ultimately show ?thesis using rep n by (auto simp: lcrq_rep_def sz nth_append less_Suc_eq)
qed

lemma upd_ring_const: "upd_ring r f q = upd_ring r (\<lambda>_. f (rings q r)) q"
  by (simp add: upd_ring_def)

lemma concat_drop_last:
  assumes "Suc L = length xss" "h \<le> L"
  shows "concat (drop h (xss[L := xss ! L @ [v]])) = concat (drop h xss) @ [v]"
proof -
  obtain ys y where "xss = ys @ [y]" using assms(1) by (cases xss rule: rev_cases) auto
  then show ?thesis using assms by simp
qed

lemma concat_drop_snoc: "h \<le> length xss \<Longrightarrow> concat (drop h (xss @ [[v]])) = concat (drop h xss) @ [v]"
  by simp

lemma enqueue_solo:
  assumes rep: "lcrq_rep p B q xss" and v: "v \<noteq> NOVAL" and "B + 2 ^ p < 2 ^ 62" "p \<le> 60"
  shows "\<exists>f q' xss'. solo f p (lcrq_enqueue v) q None = Some (q', None, Enq v) \<and> lcrq_rep p (Suc B) q' xss'
    \<and> lcrq_list q' xss' = lcrq_list q xss @ [v]"
proof -
  let ?L = "nrings q - 1"
  let ?l = "\<lparr>e_arg = v, e_rq = ?L, e_try = 0, e_t = 0, e_idx = 0\<rparr>" and ?vs = "xss ! ?L" and ?x = "rings q ?L"
  have nx: "\<forall>r < nrings q. rnext (rings q r) = (if Suc r < nrings q then Some (Suc r) else None)"
    and n: "length xss = nrings q" "qhead q < nrings q" "qtail q = 0" using rep by (auto simp: lcrq_rep_def)
  have w: "solo (Suc (nrings q - 0 + f)) p (lcrq_enqueue v) q None = solo f p (Enqueuing E_faa ?l) q None" for f
    using walk [OF nx, of 0 f p "\<lparr>e_arg = v, e_rq = 0, e_try = 0, e_t = 0, e_idx = 0\<rparr>" None] n
    by (simp add: lcrq_enqueue_def)
  have L: "\<not> Suc ?L < nrings q" "qhead q \<le> ?L" "?L < nrings q" "Suc ?L = length xss" using n by auto
  obtain H where "ring_holds p B ?x H ?vs (Suc ?L < nrings q)" using rep_ring [OF rep L(2,3)] by blast
  then have h: "ring_holds p B ?x H ?vs False" by (simp only: L(1))
  have nl: "rnext ?x = None" using nx L by simp
  show ?thesis
  proof (cases "length ?vs < 2 ^ p")
    case True
    let ?y = "?x\<lparr>rtail := of_nat (Suc (H + length ?vs)),
      arr := (arr ?x)((H + length ?vs) mod 2 ^ p := \<lparr>cval = v, cidx = of_nat (H + length ?vs)\<rparr>)\<rparr>"
    have s: "solo (Suc (nrings q - 0 + Suc (Suc (Suc (Suc 0))))) p (lcrq_enqueue v) q None
        = Some (upd_ring ?L (\<lambda>_. ?y) q, None, Enq v)"
      unfolding w using enq_room [of p B q ?l H ?vs 0 None] h True assms(3)
      by (simp only: enq_loc.simps) (simp add: upd_ring_def)
    have "lcrq_rep p (Suc B) (upd_ring ?L (\<lambda>_. ?y) q) (xss[?L := ?vs @ [v]])"
      by (rule rep_put [OF rep refl ring_holds_put [OF h True v]]) simp
    moreover have "lcrq_list (upd_ring ?L (\<lambda>_. ?y) q) (xss[?L := ?vs @ [v]]) = lcrq_list q xss @ [v]"
      using concat_drop_last [OF L(4,2)] by (simp add: lcrq_list_def)
    ultimately show ?thesis using s by blast
  next
    case False
    then have full: "length ?vs = 2 ^ p" using h by (simp add: ring_holds_def)
    let ?y = "?x\<lparr>rtail := of_nat (Suc (H + length ?vs)) OR BIT63\<rparr>"
    let ?q = "link_ring ?L (new_ring p v) (upd_ring ?L (\<lambda>_. ?y) q)"
    have s: "solo (Suc (nrings q - 0 + Suc (Suc (Suc (Suc (Suc (Suc (Suc 0)))))))) p (lcrq_enqueue v) q None
        = Some (?q, None, Enq v)"
      unfolding w using enq_full [of p B q ?l H ?vs 0] h full assms(3,4) nl
      by (simp only: enq_loc.simps) (simp add: upd_ring_def)
    have "ring_holds p B ?y H ?vs True" using h by (simp add: ring_holds_def)
    then have "lcrq_rep p (Suc B) ?q (xss @ [[v]])" by (rule rep_link [OF rep refl v]) simp
    moreover have "lcrq_list ?q (xss @ [[v]]) = lcrq_list q xss @ [v]"
      using L(2,4) by (simp add: lcrq_list_def link_ring_def Let_def)
    ultimately show ?thesis using s by blast
  qed
qed

section \<open>Dequeue\<close>

text \<open>A ring that has an element gives its first one.\<close>

lemma deq_take:
  assumes h: "ring_holds p B (rings q (qhead q)) H (v # vs) c" and "B + 2 ^ p < 2 ^ 62"
  shows "solo (Suc (Suc (Suc (Suc (Suc f))))) p (Dequeuing D_start l) q n =
    Some (upd_ring (qhead q) (\<lambda>x. x\<lparr>rhead := of_nat (Suc H),
      arr := (arr x)(H mod 2 ^ p := \<lparr>cval = NOVAL, cidx = of_nat (H + 2 ^ p)\<rparr>)\<rparr>) q, n, Deq v)"
proof -
  let ?x = "rings q (qhead q)"
  have "arr ?x ((H + 0) mod 2 ^ p) = \<lparr>cval = (v # vs) ! 0, cidx = of_nat (H + 0)\<rparr> \<and> (v # vs) ! 0 \<noteq> NOVAL"
    using h unfolding ring_holds_def by (metis length_Cons zero_less_Suc)
  then have c: "arr ?x (H mod 2 ^ p) = \<lparr>cval = v, cidx = of_nat H\<rparr>" "v \<noteq> NOVAL" by simp_all
  have b: "rhead ?x = of_nat H" "H < 2 ^ 63" using h assms(2) by (simp_all add: ring_holds_def)
  have R: "of_nat H + RING_SIZE p = of_nat (H + 2 ^ p)" by (simp add: RING_SIZE_def)
  show ?thesis
    using b c by (simp add: Let_def cell_of_cnt is_empty_def CAS2_def R cnt_Suc del: of_nat_add of_nat_Suc)
qed

lemma rep_take:
  assumes rep: "lcrq_rep p B q xss" and h: "ring_holds p B (rings q (qhead q)) H (v # vs) (Suc (qhead q) < nrings q)"
    and xs: "xss ! qhead q = v # vs"
  shows "lcrq_rep p B (upd_ring (qhead q) (\<lambda>x. x\<lparr>rhead := of_nat (Suc H),
      arr := (arr x)(H mod 2 ^ p := \<lparr>cval = NOVAL, cidx = of_nat (H + 2 ^ p)\<rparr>)\<rparr>) q) (xss[qhead q := vs])"
proof -
  have n: "length xss = nrings q" "qhead q < nrings q" using rep by (auto simp: lcrq_rep_def)
  have "\<exists>H'. ring_holds p B (rings (upd_ring (qhead q) (\<lambda>x. x\<lparr>rhead := of_nat (Suc H),
      arr := (arr x)(H mod 2 ^ p := \<lparr>cval = NOVAL, cidx = of_nat (H + 2 ^ p)\<rparr>)\<rparr>) q) r) H' (xss[qhead q := vs] ! r) (Suc r < nrings q)"
    if "qhead q \<le> r" "r < nrings q" for r
  proof (cases "r = qhead q")
    case True
    then show ?thesis using ring_holds_take [OF h] n by (intro exI [of _ "Suc H"]) simp
  next
    case False
    then show ?thesis using rep_ring [OF rep that] by simp
  qed
  then show ?thesis using rep n by (simp add: lcrq_rep_def)
qed

lemma concat_drop_take:
  "h < length xss \<Longrightarrow> xss ! h = v # vs \<Longrightarrow> concat (drop h xss) = v # concat (drop h (xss[h := vs]))"
  by (simp add: Cons_nth_drop_Suc [symmetric])

text \<open>A closed ring without elements is left behind; the loop starts over at the next ring.\<close>

lemma deq_skip:
  assumes h: "ring_holds p B (rings q (qhead q)) H [] True" and "B + 2 ^ p < 2 ^ 62"
    and "rnext (rings q (qhead q)) = Some r"
  shows "\<exists>l' f'. \<forall>f. solo (f' + f) p (Dequeuing D_start l) q n =
    solo f p (Dequeuing D_start l')
      ((upd_ring (qhead q) (\<lambda>x. x\<lparr>rhead := of_nat (Suc H),
          arr := (arr x)(H mod 2 ^ p := \<lparr>cval = NOVAL, cidx = of_nat (H + 2 ^ p)\<rparr>)\<rparr>) q)\<lparr>qhead := r\<rparr>) n"
proof -
  let ?x = "rings q (qhead q)"
  have b: "rhead ?x = of_nat H" "rtail ?x = of_nat (Suc H) OR BIT63" "H < 2 ^ 63" "Suc H < 2 ^ 63"
    using h assms(2) by (simp_all add: ring_holds_def)
  have "H < H + 2 ^ p" by simp
  then obtain j where j: "cval (arr ?x (H mod 2 ^ p)) = NOVAL" "j \<le> H" "cidx (arr ?x (H mod 2 ^ p)) = of_nat j"
    using h unfolding ring_holds_def by (metis add_0_right le_refl list.size(3))
  then have J: "j < 2 ^ 63" using b(3) by linarith
  have R: "of_nat H + RING_SIZE p = of_nat (H + 2 ^ p)" by (simp add: RING_SIZE_def)
  have big: "\<not> (of_nat (Suc H) OR BIT63 < (of_nat (Suc H) :: u64))"
    by (simp only: not_less word_le_def unsigned_or_eq or_greater_eq unsigned_greater_eq)
  show ?thesis
    apply (rule exI [of _ "l\<lparr>d_rq := qhead q, d_h := of_nat H, d_r := 0, d_idx := of_nat j, d_val := NOVAL,
        d_tt := of_nat (Suc H) OR BIT63, d_t := of_nat (Suc H) OR BIT63, d_hh := of_nat (Suc H), d_next := r\<rparr>"])
    apply (rule exI [of _ "Suc (Suc (Suc (Suc (Suc (Suc (Suc (Suc (Suc (Suc (Suc (Suc (Suc 0))))))))))))"])
    using b j J assms(3) big
    by (simp add: Let_def cell_of_cnt is_empty_def CAS2_def R cnt_Suc del: of_nat_add of_nat_Suc)
qed

text \<open>The quick test at the start of a dequeue.\<close>

lemma deq_quick:
  assumes h: "ring_holds p B (rings q (qhead q)) H vs c" and "B + 2 ^ p < 2 ^ 62"
  shows "vs \<noteq> [] \<or> c \<Longrightarrow> \<exists>l. \<forall>f. solo (Suc (Suc (Suc (Suc f)))) p lcrq_dequeue q n = solo f p (Dequeuing D_start l) q n"
    and "vs = [] \<Longrightarrow> \<not> c \<Longrightarrow> rnext (rings q (qhead q)) = None \<Longrightarrow>
         solo (Suc (Suc (Suc (Suc (Suc (Suc f)))))) p lcrq_dequeue q n = Some (q, n, Empty)"
proof -
  let ?x = "rings q (qhead q)" and ?T = "H + length vs"
  have b: "rhead ?x = of_nat H" "rtail ?x = (if c then of_nat (Suc ?T) OR BIT63 else of_nat ?T)"
    "?T < 2 ^ 63" "Suc ?T < 2 ^ 63" "Suc H < 2 ^ 63" "H < 2 ^ 63"
    using h assms(2) by (auto simp: ring_holds_def)
  have t: "tail_index (rtail ?x) = of_nat (if c then Suc ?T else ?T)" using b by (simp del: of_nat_Suc of_nat_add)
  then have q: "tail_index (rtail ?x) < rhead ?x + 1 \<longleftrightarrow> vs = [] \<and> \<not> c"
    using b unfolding t b(1) cnt_Suc by (auto simp del: of_nat_Suc of_nat_add)
  show "\<exists>l. \<forall>f. solo (Suc (Suc (Suc (Suc f)))) p lcrq_dequeue q n = solo f p (Dequeuing D_start l) q n"
    if "vs \<noteq> [] \<or> c"
    by (rule exI [of _ "\<lparr>d_rq = qhead q, d_h = 0, d_r = 0, d_tt = rtail ?x, d_idx = 0, d_val = 0, d_t = 0, d_hh = 0, d_next = 0\<rparr>"])
      (use that q in \<open>auto simp: lcrq_dequeue_def\<close>)
  show "solo (Suc (Suc (Suc (Suc (Suc (Suc f)))))) p lcrq_dequeue q n = Some (q, n, Empty)"
    if "vs = []" "\<not> c" "rnext ?x = None"
    using that q by (simp add: lcrq_dequeue_def)
qed

lemma deq_result:
  assumes "solo f p x q None = Some (q1, None, Deq v)" "lcrq_rep p B q1 xss1" "vs = v # lcrq_list q1 xss1"
  shows "\<exists>f q' xss' e. solo f p x q None = Some (q', None, e) \<and> lcrq_rep p B q' xss'
    \<and> (case vs of [] \<Rightarrow> e = Empty \<and> lcrq_list q' xss' = [] | v # vs \<Rightarrow> e = Deq v \<and> lcrq_list q' xss' = vs)"
  by (rule exI [of _ f], rule exI [of _ q1], rule exI [of _ xss1], rule exI [of _ "Deq v"]) (simp add: assms)

lemma dequeue_solo:
  assumes rep: "lcrq_rep p B q xss" and B: "B + 2 ^ p < 2 ^ 62"
  shows "\<exists>f q' xss' e. solo f p lcrq_dequeue q None = Some (q', None, e) \<and> lcrq_rep p B q' xss'
    \<and> (case lcrq_list q xss of [] \<Rightarrow> e = Empty \<and> lcrq_list q' xss' = []
       | v # vs \<Rightarrow> e = Deq v \<and> lcrq_list q' xss' = vs)"
proof -
  let ?h = "qhead q"
  have n: "length xss = nrings q" "?h < nrings q"
    and nx: "rnext (rings q ?h) = (if Suc ?h < nrings q then Some (Suc ?h) else None)"
    using rep by (auto simp: lcrq_rep_def)
  obtain H where h: "ring_holds p B (rings q ?h) H (xss ! ?h) (Suc ?h < nrings q)" using rep_ring [OF rep le_refl n(2)] by blast
  have d: "concat (drop ?h xss) = xss ! ?h @ concat (drop (Suc ?h) xss)"
    using n by (simp add: Cons_nth_drop_Suc [symmetric])
  consider v vs where "xss ! ?h = v # vs" | "xss ! ?h = []" "Suc ?h < nrings q" | "xss ! ?h = []" "\<not> Suc ?h < nrings q"
    by (cases "xss ! ?h") auto
  then show ?thesis
  proof cases
    case (1 v vs)
    let ?q = "upd_ring ?h (\<lambda>x. x\<lparr>rhead := of_nat (Suc H),
      arr := (arr x)(H mod 2 ^ p := \<lparr>cval = NOVAL, cidx = of_nat (H + 2 ^ p)\<rparr>)\<rparr>) q"
    obtain l where l: "\<forall>f. solo (Suc (Suc (Suc (Suc f)))) p lcrq_dequeue q None = solo f p (Dequeuing D_start l) q None"
      using deq_quick(1) [OF h B, of None] 1 by auto
    have "solo (Suc (Suc (Suc (Suc (Suc (Suc (Suc (Suc (Suc 0))))))))) p lcrq_dequeue q None = Some (?q, None, Deq v)"
      using deq_take [OF h [unfolded 1] B, of 0 l None] l by simp
    moreover have "lcrq_rep p B ?q (xss[?h := vs])" by (rule rep_take [OF rep h [unfolded 1] 1])
    moreover have "lcrq_list q xss = v # lcrq_list ?q (xss[?h := vs])"
      using concat_drop_take [of ?h xss v vs] 1 n by (simp add: lcrq_list_def)
    ultimately show ?thesis by (rule deq_result)
  next
    case 2
    let ?q = "(upd_ring ?h (\<lambda>x. x\<lparr>rhead := of_nat (Suc H),
      arr := (arr x)(H mod 2 ^ p := \<lparr>cval = NOVAL, cidx = of_nat (H + 2 ^ p)\<rparr>)\<rparr>) q)\<lparr>qhead := Suc ?h\<rparr>"
    have rq: "lcrq_rep p B ?q xss" using rep 2 n by (auto simp: lcrq_rep_def)
    have "xss ! Suc ?h \<noteq> []" using rep 2(2) by (simp add: lcrq_rep_def)
    then obtain v vs where v: "xss ! qhead ?q = v # vs" by (cases "xss ! Suc ?h") auto
    obtain H' where h': "ring_holds p B (rings ?q (qhead ?q)) H' (v # vs) (Suc (qhead ?q) < nrings ?q)"
      using rep_ring [OF rq, of "qhead ?q"] 2(2) v by auto
    let ?q' = "upd_ring (qhead ?q) (\<lambda>x. x\<lparr>rhead := of_nat (Suc H'),
      arr := (arr x)(H' mod 2 ^ p := \<lparr>cval = NOVAL, cidx = of_nat (H' + 2 ^ p)\<rparr>)\<rparr>) ?q"
    obtain l where l: "\<forall>f. solo (Suc (Suc (Suc (Suc f)))) p lcrq_dequeue q None = solo f p (Dequeuing D_start l) q None"
      using deq_quick(1) [OF h B, of None] 2 by auto
    have hc: "ring_holds p B (rings q ?h) H [] True" using h 2 by simp
    obtain l' f' where l': "\<forall>f. solo (f' + f) p (Dequeuing D_start l) q None = solo f p (Dequeuing D_start l') ?q None"
      using deq_skip [OF hc B, of "Suc ?h" l None] nx 2(2) by auto
    have "solo (Suc (Suc (Suc (Suc (f' + Suc (Suc (Suc (Suc (Suc 0))))))))) p lcrq_dequeue q None = Some (?q', None, Deq v)"
      using deq_take [OF h' B, of 0 l' None] l l' by (simp only:)
    moreover have "lcrq_rep p B ?q' (xss[qhead ?q := vs])" by (rule rep_take [OF rq h' v])
    moreover have "lcrq_list q xss = v # lcrq_list ?q' (xss[qhead ?q := vs])"
    proof -
      have "lcrq_list q xss = concat (drop (qhead ?q) xss)" using d 2(1) by (simp add: lcrq_list_def)
      also have "\<dots> = v # concat (drop (qhead ?q) (xss[qhead ?q := vs]))"
        by (rule concat_drop_take [OF _ v]) (use 2(2) n in simp)
      finally show ?thesis by (simp add: lcrq_list_def)
    qed
    ultimately show ?thesis by (rule deq_result)
  next
    case 3
    have "solo (Suc (Suc (Suc (Suc (Suc (Suc 0)))))) p lcrq_dequeue q None = Some (q, None, Empty)"
      using deq_quick(2) [OF h B _ _ _, of 0 None] 3 nx by simp
    moreover have "lcrq_list q xss = []" using d 3 n by (simp add: lcrq_list_def)
    ultimately show ?thesis using rep
      by (intro exI [of _ "Suc (Suc (Suc (Suc (Suc (Suc 0)))))"] exI [of _ q] exI [of _ xss] exI [of _ Empty]) (simp del: solo.simps)
  qed
qed

section \<open>Sequences of operations\<close>

datatype lcrq_op = Op_enq u64 | Op_deq

fun op_thread :: "lcrq_op \<Rightarrow> lcrq_thread" where
  "op_thread (Op_enq v) = lcrq_enqueue v"
| "op_thread Op_deq = lcrq_dequeue"

fun run_ops :: "nat \<Rightarrow> nat \<Rightarrow> lcrq_op list \<Rightarrow> lcrq_t \<Rightarrow> lcrq_ev list option" where
  "run_ops f p [] q = Some []"
| "run_ops f p (x # xs) q = (case solo f p (op_thread x) q None of
     None \<Rightarrow> None
   | Some (q', n', e) \<Rightarrow> map_option ((#) e) (run_ops f p xs q'))"

text \<open>The same on a list.\<close>

fun fifo_ops :: "lcrq_op list \<Rightarrow> u64 list \<Rightarrow> lcrq_ev list" where
  "fifo_ops [] vs = []"
| "fifo_ops (Op_enq v # xs) vs = Enq v # fifo_ops xs (vs @ [v])"
| "fifo_ops (Op_deq # xs) [] = Empty # fifo_ops xs []"
| "fifo_ops (Op_deq # xs) (v # vs) = Deq v # fifo_ops xs vs"

lemma run_ops_more: "run_ops f p xs q = Some r \<Longrightarrow> run_ops (f + k) p xs q = Some r"
proof (induction xs arbitrary: q r)
  case (Cons x xs)
  then obtain q' n' e r' where s: "solo f p (op_thread x) q None = Some (q', n', e)" "run_ops f p xs q' = Some r'" "r = e # r'"
    by (auto split: option.splits)
  then show ?case using solo_more [OF s(1), of k] Cons.IH [OF s(2)] by simp
qed simp

lemma run_ops_fifo:
  assumes "lcrq_rep p B q xss" "B + length ops + 2 ^ p < 2 ^ 62" "p \<le> 60" "\<forall>v. Op_enq v \<in> set ops \<longrightarrow> v \<noteq> NOVAL"
  shows "\<exists>f. run_ops f p ops q = Some (fifo_ops ops (lcrq_list q xss))"
  using assms
proof (induction ops arbitrary: B q xss)
  case (Cons x ops)
  have "\<exists>f q' e xss' C. solo f p (op_thread x) q None = Some (q', None, e) \<and> lcrq_rep p C q' xss' \<and> C \<le> Suc B
      \<and> fifo_ops (x # ops) (lcrq_list q xss) = e # fifo_ops ops (lcrq_list q' xss')"
  proof (cases x)
    case (Op_enq v)
    then show ?thesis using enqueue_solo [OF Cons.prems(1), of v] Cons.prems(2-4) by fastforce
  next
    case Op_deq
    obtain f q' xss' e where d: "solo f p lcrq_dequeue q None = Some (q', None, e)" "lcrq_rep p B q' xss'"
      "case lcrq_list q xss of [] \<Rightarrow> e = Empty \<and> lcrq_list q' xss' = [] | v # vs \<Rightarrow> e = Deq v \<and> lcrq_list q' xss' = vs"
      using dequeue_solo [OF Cons.prems(1)] Cons.prems(2) by auto
    then have "fifo_ops (x # ops) (lcrq_list q xss) = e # fifo_ops ops (lcrq_list q' xss')"
      using Op_deq by (cases "lcrq_list q xss") auto
    then show ?thesis using d(1,2) Op_deq by (metis le_SucI op_thread.simps(2) order_refl)
  qed
  then obtain f q' e xss' C where r: "solo f p (op_thread x) q None = Some (q', None, e)" "lcrq_rep p C q' xss'" "C \<le> Suc B"
    "fifo_ops (x # ops) (lcrq_list q xss) = e # fifo_ops ops (lcrq_list q' xss')" by blast
  have "C + length ops + 2 ^ p < 2 ^ 62" "\<forall>v. Op_enq v \<in> set ops \<longrightarrow> v \<noteq> NOVAL" using r(3) Cons.prems(2,4) by auto
  then obtain g where g: "run_ops g p ops q' = Some (fifo_ops ops (lcrq_list q' xss'))"
    using Cons.IH [OF r(2)] Cons.prems(3) by blast
  have "solo (f + g) p (op_thread x) q None = Some (q', None, e)" by (rule solo_more [OF r(1)])
  moreover have "run_ops (f + g) p ops q' = Some (fifo_ops ops (lcrq_list q' xss'))"
    using run_ops_more [OF g, of f] by (simp add: add.commute)
  ultimately have "run_ops (f + g) p (x # ops) q = Some (fifo_ops (x # ops) (lcrq_list q xss))"
    unfolding r(4) by simp
  then show ?case by blast
qed simp

lemma ring_holds_init: "ring_holds p 0 (init_ring p) 0 [] False"
  by (auto simp: ring_holds_def init_ring_def)

lemma rep_init: "lcrq_rep p 0 (lcrq_init p) [[]]"
  using ring_holds_init by (auto simp: lcrq_rep_def lcrq_init_def) (simp add: init_ring_def)

text \<open>
  Property C8. Any sequence of enqueues and dequeues, each run to its end before the next,
  returns what a list used as a queue returns: elements come out in the order in which they went
  in, however many rings they fill, and \<open>EMPTY\<close> is returned exactly when nothing is left. Every
  operation ends.
\<close>

theorem lcrq_solo_fifo:
  assumes "p \<le> 60" "length ops < 2 ^ 61" "\<forall>v. Op_enq v \<in> set ops \<longrightarrow> v \<noteq> NOVAL"
  shows "\<exists>f. run_ops f p ops (lcrq_init p) = Some (fifo_ops ops [])"
proof -
  have "(2 :: nat) ^ p \<le> 2 ^ 60" using assms(1) by (intro power_increasing) simp_all
  then have "0 + length ops + 2 ^ p < (2 :: nat) ^ 62" using assms(2) by simp
  moreover have "lcrq_list (lcrq_init p) [[]] = []" by (simp add: lcrq_list_def lcrq_init_def)
  ultimately show ?thesis using run_ops_fifo [OF rep_init _ assms(1,3)] by metis
qed

theorem lcrq_solo_fifo_witness:
  "\<exists>f. run_ops f 1 [Op_enq 7, Op_enq 8, Op_enq 9, Op_deq, Op_deq, Op_deq, Op_deq] (lcrq_init 1)
     = Some [Enq 7, Enq 8, Enq 9, Deq 7, Deq 8, Deq 9, Empty]"
  using lcrq_solo_fifo [of 1 "[Op_enq 7, Op_enq 8, Op_enq 9, Op_deq, Op_deq, Op_deq, Op_deq]"]
  by (simp add: NOVAL_def)

end
