(* ===== verification/LC_Lf_Order.thy ===== *)
theory LC_Lf_Order
  imports LC_Prelude
begin

text \<open>
  The keys of the lock-free hash table of \<open>src/include/hashtable/lf_hash.h\<close>: the reversal of the
  bits of a word with the macros \<open>REVERSE_BYTE\<close> and \<open>REVERSE\<close>, the hash function
  \<open>qt_hashword\<close>, the split-order keys of entries and of buckets, and \<open>GET_PARENT\<close>. All entries
  lie in one list sorted by these keys; the facts at the end are what lets a bucket point into
  the middle of it.
\<close>

section \<open>Reversing the bits of a word\<close>

definition MSB :: u64 where "MSB = push_bit 63 1"

definition REVERSE_BYTE :: "u64 \<Rightarrow> u64" where
  "REVERSE_BYTE x =
     (let y = ucast (ucast x :: u32)
      in drop_bit 16 (((y * 0x0802 AND 0x22110) OR (y * 0x8020 AND 0x88440)) * 0x10101) AND 0xff)"

definition REVERSE :: "u64 \<Rightarrow> u64" where
  "REVERSE x =
     push_bit 56 (REVERSE_BYTE (x AND 0xff)) OR
     push_bit 48 (REVERSE_BYTE (drop_bit 8 x AND 0xff)) OR
     push_bit 40 (REVERSE_BYTE (drop_bit 16 x AND 0xff)) OR
     push_bit 32 (REVERSE_BYTE (drop_bit 24 x AND 0xff)) OR
     push_bit 24 (REVERSE_BYTE (drop_bit 32 x AND 0xff)) OR
     push_bit 16 (REVERSE_BYTE (drop_bit 40 x AND 0xff)) OR
     push_bit 8 (REVERSE_BYTE (drop_bit 48 x AND 0xff)) OR
     push_bit 0 (REVERSE_BYTE (drop_bit 56 x AND 0xff))"

section \<open>Hashing\<close>

text \<open>
  \<open>HASH_KEY\<close> applies this function although the file sets \<open>USE_HASHWORD\<close> to 0, since the macro
  is tested with \<open>#ifdef\<close>.
\<close>

definition rot :: "u32 \<Rightarrow> nat \<Rightarrow> u32" where
  "rot x k = push_bit k x OR drop_bit (32 - k) x"

definition key_byte :: "u64 \<Rightarrow> nat \<Rightarrow> u32" where
  "key_byte key i = ucast (drop_bit (8 * i) key AND 0xff)"

definition qt_hashword :: "u64 \<Rightarrow> u64" where
  "qt_hashword key =
     (let a = 0x32533d0c + 8; b = a; c = a + 47;
          b = b + push_bit 24 (key_byte key 7) + push_bit 16 (key_byte key 6)
                + push_bit 8 (key_byte key 5) + key_byte key 4;
          a = a + push_bit 24 (key_byte key 3) + push_bit 16 (key_byte key 2)
                + push_bit 8 (key_byte key 1) + key_byte key 0;
          c = (c XOR b) - rot b 14;
          a = (a XOR c) - rot c 11;
          b = (b XOR a) - rot a 25;
          c = (c XOR b) - rot b 16;
          a = (a XOR c) - rot c 4;
          b = (b XOR a) - rot a 14;
          c = (c XOR b) - rot b 24
      in (ucast c + push_bit 32 (ucast b)) AND NOT MSB)"

section \<open>Split-order keys\<close>

text \<open>
  Both functions take a \<open>key_t\<close>, which is the \<open>int\<close> of \<open>sys/types.h\<close> and not the 64-bit
  \<open>lf_key_t\<close> of the file: the argument is cut to 32 bits and extended with its sign.
\<close>

definition key_t :: "u64 \<Rightarrow> u64" where
  "key_t x = scast (ucast x :: u32)"

definition so_regularkey :: "u64 \<Rightarrow> u64" where
  "so_regularkey key = REVERSE (key_t key OR MSB)"

definition so_dummykey :: "u64 \<Rightarrow> u64" where
  "so_dummykey key = REVERSE (key_t key)"

definition GET_PARENT :: "u64 \<Rightarrow> u64" where
  "GET_PARENT bucket =
     (let t = bucket;
          t = t OR drop_bit 1 t;
          t = t OR drop_bit 2 t;
          t = t OR drop_bit 4 t;
          t = t OR drop_bit 8 t;
          t = t OR drop_bit 16 t;
          t = t OR drop_bit 32 t
      in bucket AND drop_bit 1 t)"

section \<open>Reversal is correct\<close>

lemma REVERSE_BYTE_bits:
  "REVERSE_BYTE (horner_sum of_bool 2 [a, b, c, d, e, f, g, h]) = horner_sum of_bool 2 [h, g, f, e, d, c, b, a]"
  unfolding REVERSE_BYTE_def Let_def
  by (cases a; cases b; cases c; cases d; cases e; cases f; cases g; cases h; simp)

lemma bit_REVERSE_BYTE: "bit (REVERSE_BYTE (x AND 0xff)) i \<longleftrightarrow> i < 8 \<and> bit x (7 - i)"
proof -
  have e: "[0..<8] = [0, 1, 2, 3, 4, 5, 6, 7 :: nat]" by (simp add: upt_conv_Cons)
  have "x AND 0xff = horner_sum of_bool 2 (map (bit x) [0..<8])"
    unfolding horner_sum_bit_eq_take_bit by (simp add: take_bit_eq_mask mask_eq_exp_minus_1)
  then have "REVERSE_BYTE (x AND 0xff) = horner_sum of_bool 2 (rev (map (bit x) [0..<8]))"
    unfolding e by (simp only: list.map rev.simps append.simps REVERSE_BYTE_bits)
  then show ?thesis
    by (auto simp add: bit_horner_sum_bit_word_iff rev_nth simp del: upt_Suc)
qed

lemma bit_push_REVERSE_BYTE:
  "bit (push_bit n (REVERSE_BYTE (x AND 0xff))) i \<longleftrightarrow> n \<le> i \<and> i < 64 \<and> i < n + 8 \<and> bit x (n + 7 - i)"
proof -
  have "n \<le> i \<Longrightarrow> i < n + 8 \<Longrightarrow> 7 - (i - n) = n + 7 - i" by simp
  then show ?thesis by (auto simp: bit_push_bit_iff bit_REVERSE_BYTE)
qed

lemma bit_REVERSE: "bit (REVERSE x) i \<longleftrightarrow> i < 64 \<and> bit x (63 - i)"
proof (cases "i < 64")
  case True
  consider "i < 8" | "8 \<le> i" "i < 16" | "16 \<le> i" "i < 24" | "24 \<le> i" "i < 32"
    | "32 \<le> i" "i < 40" | "40 \<le> i" "i < 48" | "48 \<le> i" "i < 56" | "56 \<le> i"
    by atomize_elim arith
  then show ?thesis using True
    by cases (simp_all add: REVERSE_def bit_or_iff bit_push_REVERSE_BYTE bit_REVERSE_BYTE bit_drop_bit_eq)
next
  case False
  then show ?thesis by (simp add: impossible_bit)
qed

lemma REVERSE_REVERSE [simp]: "REVERSE (REVERSE x) = x"
  by (rule bit_word_eqI) (auto simp: bit_REVERSE)

lemma REVERSE_eq_iff [simp]: "REVERSE x = REVERSE y \<longleftrightarrow> x = y"
  by (metis REVERSE_REVERSE)

text \<open>If every bit of \<open>x\<close> is one of \<open>y\<close>, then \<open>x\<close> comes no later in the split order.\<close>

lemma REVERSE_mono:
  assumes "\<And>i. bit x i \<Longrightarrow> bit y i"
  shows "REVERSE x \<le> REVERSE y"
proof -
  have "REVERSE x = REVERSE x AND REVERSE y"
    using assms by (auto intro!: bit_word_eqI simp: bit_and_iff bit_REVERSE)
  then show ?thesis by (metis word_and_le1)
qed

lemma bit_MSB: "bit MSB i \<longleftrightarrow> i = 63"
  unfolding MSB_def by (auto simp only: bit_push_bit_iff bit_1_iff) auto

lemma bit_key_t: "i < 64 \<Longrightarrow> bit (key_t x) i \<longleftrightarrow> bit x (min i 31)"
  by (auto simp: key_t_def bit_signed_iff bit_unsigned_iff bit_ucast_iff min_def)

section \<open>The split order\<close>

lemma bit_so_regularkey: "bit (so_regularkey x) i \<longleftrightarrow> i < 64 \<and> (i = 0 \<or> bit x (min (63 - i) 31))"
  by (auto simp: so_regularkey_def bit_REVERSE bit_or_iff bit_MSB bit_key_t)

lemma bit_so_dummykey: "bit (so_dummykey x) i \<longleftrightarrow> i < 64 \<and> bit x (min (63 - i) 31)"
  by (auto simp: so_dummykey_def bit_REVERSE bit_key_t)

lemma bit_above:
  fixes b :: u64
  assumes "b < 2 ^ n" "bit b i"
  shows "i < n"
proof (cases "n < 64")
  case True
  then have "(2::nat) ^ n < 2 ^ 64" by (intro power_strict_increasing) simp_all
  then have "unat (word_of_nat (2 ^ n) :: u64) = 2 ^ n"
    using True by (simp only: unsigned_of_nat) (simp add: take_bit_nat_eq_self)
  then have "unat b < 2 ^ n" using assms(1) by (simp add: word_less_nat_alt)
  then have "take_bit n b = b"
    by (intro word_unat_eq_iff [THEN iffD2]) (simp add: unsigned_take_bit_eq take_bit_nat_eq_self)
  then show ?thesis using assms(2) by (metis bit_take_bit_iff)
next
  case False
  then show ?thesis using bit_imp_le_length [OF assms(2)] by simp
qed

text \<open>A regular key is odd and the key of a bucket is even, so that the two never clash.\<close>

lemma so_regularkey_odd: "bit (so_regularkey x) 0"
  by (simp add: bit_so_regularkey)

lemma so_dummykey_even: "b < 2 ^ 31 \<Longrightarrow> \<not> bit (so_dummykey b) 0"
  using bit_above [of b 31 31] by (auto simp: bit_so_dummykey)

lemma key_t_small: "b < 2 ^ 31 \<Longrightarrow> key_t b = b"
proof (rule bit_word_eqI)
  fix i assume b: "b < 2 ^ 31" and i: "i < LENGTH(64)"
  have "bit b j \<Longrightarrow> j < 31" for j using b by (rule bit_above)
  then have "\<not> bit b 31" "31 < i \<Longrightarrow> \<not> bit b i" by fastforce+
  then show "bit (key_t b) i \<longleftrightarrow> bit b i" using i by (cases "i \<le> 31") (simp_all add: bit_key_t min_def)
qed

lemma so_dummykey_inj: "b < 2 ^ 31 \<Longrightarrow> c < 2 ^ 31 \<Longrightarrow> so_dummykey b = so_dummykey c \<longleftrightarrow> b = c"
  by (simp add: so_dummykey_def key_t_small)

lemma so_dummykey_0 [simp]: "so_dummykey 0 = 0"
  by (rule bit_word_eqI) (simp add: bit_so_dummykey)

text \<open>The bucket of a key, for a table of \<open>2 ^ k\<close> buckets, comes before the key.\<close>

lemma bucket_before_key:
  assumes "k \<le> 31"
  shows "so_dummykey (x mod 2 ^ k) < so_regularkey x"
proof -
  have b: "bit (x mod 2 ^ k) i \<longleftrightarrow> i < k \<and> bit x i" for i
    by (simp flip: take_bit_eq_mod add: bit_take_bit_iff)
  have "so_dummykey (x mod 2 ^ k) \<le> so_regularkey x"
    unfolding so_dummykey_def so_regularkey_def
  proof (rule REVERSE_mono)
    fix i assume a: "bit (key_t (x mod 2 ^ k)) i"
    then have "i < 64" using impossible_bit [of i "key_t (x mod 2 ^ k)"] by auto
    then show "bit (key_t x OR MSB) i" using a assms by (auto simp: bit_or_iff bit_key_t b min_def)
  qed
  moreover have "\<not> bit (so_dummykey (x mod 2 ^ k)) 0" using assms by (simp add: bit_so_dummykey b)
  then have "so_dummykey (x mod 2 ^ k) \<noteq> so_regularkey x" using so_regularkey_odd by metis
  ultimately show ?thesis by simp
qed

section \<open>Parents\<close>

definition bits_below :: "u64 \<Rightarrow> u64 \<Rightarrow> bool" where
  "bits_below t b \<longleftrightarrow> (\<forall>i. bit t i \<longrightarrow> (\<exists>j \<ge> i. bit b j))"

lemma bits_below_shift: "bits_below t b \<Longrightarrow> bits_below (t OR drop_bit n t) b"
  unfolding bits_below_def bit_or_iff bit_drop_bit_eq comp_def by (meson le_add2 order_trans)

lemma bits_below_refl: "bits_below b b"
  by (auto simp: bits_below_def)

lemma GET_PARENT_form: "\<exists>t. bits_below t b \<and> GET_PARENT b = b AND drop_bit 1 t"
  unfolding GET_PARENT_def Let_def 
  by (rule exI, rule conjI [rotated], rule refl, intro bits_below_shift bits_below_refl)

lemma GET_PARENT_less:
  assumes "b \<noteq> 0"
  shows "GET_PARENT b < b"
proof -
  obtain t where t: "bits_below t b" "GET_PARENT b = b AND drop_bit 1 t" using GET_PARENT_form by blast
  define m where "m = Max {i. bit b i}"
  have f: "finite {i. bit b i}" by (rule finite_subset [of _ "{..<64}"]) (auto dest: bit_imp_le_length)
  have "{i. bit b i} \<noteq> {}"
  proof
    assume "{i. bit b i} = {}"
    then have "b = 0" by (intro bit_word_eqI) auto
    then show False using assms by simp
  qed
  then have m: "bit b m" "\<And>j. bit b j \<Longrightarrow> j \<le> m" using Max_in [OF f] Max_ge [OF f] by (auto simp: m_def)
  have "\<not> bit (drop_bit 1 t) m"
    using t(1) m(2) by (force simp: bits_below_def bit_drop_bit_eq)
  then have "GET_PARENT b \<noteq> b" using m(1) t(2) by (metis bit_and_iff)
  then show ?thesis using t(2) word_and_le2 [of b "drop_bit 1 t"] by simp
qed

lemma parent_before_bucket:
  assumes "b \<noteq> 0" "b < 2 ^ 31"
  shows "so_dummykey (GET_PARENT b) < so_dummykey b"
proof -
  obtain t where t: "GET_PARENT b = b AND drop_bit 1 t" using GET_PARENT_form by blast
  have l: "GET_PARENT b < 2 ^ 31" using GET_PARENT_less [OF assms(1)] assms(2) by simp
  then have "so_dummykey (GET_PARENT b) \<le> so_dummykey b"
    using assms(2) unfolding so_dummykey_def t
    by (intro REVERSE_mono) (simp add: key_t_small bit_and_iff)
  moreover have "so_dummykey (GET_PARENT b) \<noteq> so_dummykey b"
    using l assms GET_PARENT_less [OF assms(1)] by (simp add: so_dummykey_inj)
  ultimately show ?thesis by simp
qed

text \<open>The assertion in \<open>qt_hash_put\<close> always holds.\<close>

lemma qt_hashword_MSB: "qt_hashword key AND MSB = 0"
  unfolding qt_hashword_def Let_def by (rule bit_word_eqI) (simp add: bit_and_iff bit_not_iff)

end
