(* ===== verification/LC_Lf_Hash.thy ===== *)
theory LC_Lf_Hash
  imports LC_Lf_Order
begin

text \<open>
  The lock-free hash table of \<open>src/include/hashtable/lf_hash.h\<close>, used by one thread: nodes in a
  heap, the array of buckets, the sorted list with its search, insertion and deletion, and the
  operations on the table. The loops that retry after a failed compare-and-swap are written as
  they are; that a run of them returns is part of what is proved. \<open>malloc\<close> is a parameter: a
  function of the nodes allocated so far, which gives \<open>NULL\<close> when there is no memory.
\<close>

section \<open>State\<close>

record hash_entry =
  he_key :: u64
  he_value :: addr
  he_next :: u64

record qt_hash =
  he_nodes :: "addr \<rightharpoonup> hash_entry"
  hB :: "u64 list"
  hcount :: u64
  hsize :: u64
  hard_max_buckets :: u64

text \<open>Pointers whose lowest bit marks the node they are stored in as deleted.\<close>

definition MARK_OF :: "u64 \<Rightarrow> u64" where "MARK_OF x = x AND 1"

definition PTR_OF :: "u64 \<Rightarrow> addr" where "PTR_OF x = x AND NOT 1"

definition CONSTRUCT :: "u64 \<Rightarrow> u64 \<Rightarrow> u64" where "CONSTRUCT mrk p = PTR_OF p OR mrk"

abbreviation UNINITIALIZED :: u64 where "UNINITIALIZED \<equiv> 0"

definition MAX_LOAD :: u64 where "MAX_LOAD = 4"

text \<open>A \<open>marked_ptr_t*\<close> points to a bucket or to the \<open>next\<close> field of a node.\<close>

datatype marked_loc = Slot nat | Next_of addr

fun read_loc :: "marked_loc \<Rightarrow> qt_hash \<Rightarrow> u64 res" where
  "read_loc (Slot i) h = (if i < length (hB h) then Inr (hB h ! i) else Inl Out_of_bounds)"
| "read_loc (Next_of p) h = (case he_nodes h p of None \<Rightarrow> Inl Null_deref | Some n \<Rightarrow> Inr (he_next n))"

definition upd_node :: "addr \<Rightarrow> (hash_entry \<Rightarrow> hash_entry) \<Rightarrow> qt_hash \<Rightarrow> qt_hash" where
  "upd_node p f h = h\<lparr>he_nodes := (he_nodes h)(p := map_option f (he_nodes h p))\<rparr>"

fun write_loc :: "marked_loc \<Rightarrow> u64 \<Rightarrow> qt_hash \<Rightarrow> qt_hash" where
  "write_loc (Slot i) v h = h\<lparr>hB := (hB h)[i := v]\<rparr>"
| "write_loc (Next_of p) v h = upd_node p (\<lambda>n. n\<lparr>he_next := v\<rparr>) h"

definition CAS :: "marked_loc \<Rightarrow> u64 \<Rightarrow> u64 \<Rightarrow> qt_hash \<Rightarrow> (u64 \<times> qt_hash) res" where
  "CAS l old new h =
     bind_res (read_loc l h) (\<lambda>v. Inr (v, if v = old then write_loc l new h else h))"

definition lf_free :: "addr \<Rightarrow> qt_hash \<Rightarrow> qt_hash" where
  "lf_free p h = h\<lparr>he_nodes := (he_nodes h)(p := None)\<rparr>"

section \<open>Runs\<close>

text \<open>A call returns nothing when it loops for ever, and otherwise a result or an abort.\<close>

type_synonym 'a run = "'a res option"

definition bind_run :: "'a run \<Rightarrow> ('a \<Rightarrow> 'b run) \<Rightarrow> 'b run" where
  "bind_run m f = Option.bind m (\<lambda>r. case r of Inl e \<Rightarrow> Some (Inl e) | Inr x \<Rightarrow> f x)"

lemma bind_run_simps [simp]:
  "bind_run None f = None" "bind_run (Some (Inl e)) f = Some (Inl e)" "bind_run (Some (Inr x)) f = f x"
  by (simp_all add: bind_run_def)

lemma bind_run_mono [partial_function_mono]:
  assumes "mono_option B" "\<And>y. mono_option (\<lambda>f. C y f)"
  shows "mono_option (\<lambda>f. bind_run (B f) (\<lambda>y. C y f))"
proof -
  have "mono_option (\<lambda>f. case r of Inl e \<Rightarrow> Some (Inl e) | Inr y \<Rightarrow> C y f)" for r :: "'c res"
    by (cases r) (simp_all add: assms(2) option.const_mono)
  then show ?thesis unfolding bind_run_def by (rule bind_mono [OF assms(1)])
qed

section \<open>The list\<close>

text \<open>
  The inner loop of \<open>qt_lf_list_find\<close> at \<open>cur\<close>, which was read from \<open>prev\<close>. The result is the value
  found and what the call stores in \<open>*oprev\<close>, \<open>*ocur\<close> and \<open>*onext\<close>. Leaving the inner loop starts the
  outer one again.
\<close>

partial_function (option) find_loop ::
    "marked_loc \<Rightarrow> u64 \<Rightarrow> marked_loc \<Rightarrow> u64 \<Rightarrow> u64 \<Rightarrow> qt_hash
       \<Rightarrow> ((addr \<times> marked_loc \<times> u64 \<times> u64) \<times> qt_hash) run" where
  "find_loop head key prev cur nxt h =
     (if PTR_OF cur = NULL then Some (Inr ((NULL, prev, cur, nxt), h))
      else case he_nodes h (PTR_OF cur) of
        None \<Rightarrow> Some (Inl Null_deref)
      | Some n \<Rightarrow>
          bind_run (Some (read_loc prev h)) (\<lambda>pv.
            if pv \<noteq> CONSTRUCT 0 cur
            then bind_run (Some (read_loc head h)) (\<lambda>c. find_loop head key head c (he_next n) h)
            else if MARK_OF (he_next n) = 0
            then if key \<le> he_key n
                 then Some (Inr ((if he_key n = key then he_value n else NULL, prev, cur, he_next n), h))
                 else find_loop head key (Next_of (PTR_OF cur)) (he_next n) (he_next n) h
            else bind_run (Some (CAS prev (CONSTRUCT 0 cur) (CONSTRUCT 0 (he_next n)) h)) (\<lambda>(old, h).
              if old = CONSTRUCT 0 cur
              then find_loop head key prev (he_next n) (he_next n) (lf_free (PTR_OF cur) h)
              else bind_run (Some (read_loc head h)) (\<lambda>c. find_loop head key head c (he_next n) h))))"

definition qt_lf_list_find ::
    "marked_loc \<Rightarrow> u64 \<Rightarrow> qt_hash \<Rightarrow> ((addr \<times> marked_loc \<times> u64 \<times> u64) \<times> qt_hash) run" where
  "qt_lf_list_find head key h =
     bind_run (Some (read_loc head h)) (\<lambda>c. find_loop head key head c UNINITIALIZED h)"

text \<open>The loop of \<open>qt_lf_list_insert\<close>; the second component of the result is \<open>*ocur\<close>.\<close>

partial_function (option) insert_loop :: "marked_loc \<Rightarrow> addr \<Rightarrow> u64 \<Rightarrow> qt_hash \<Rightarrow> ((bool \<times> u64) \<times> qt_hash) run" where
  "insert_loop head node key h =
     bind_run (qt_lf_list_find head key h) (\<lambda>((v, prev, cur, nxt), h).
       if v \<noteq> NULL then Some (Inr ((False, cur), h))
       else let nx = CONSTRUCT 0 cur; h = write_loc (Next_of node) nx h
         in bind_run (Some (CAS prev nx (CONSTRUCT 0 node) h)) (\<lambda>(old, h).
              if old = CONSTRUCT 0 cur then Some (Inr ((True, cur), h)) else insert_loop head node key h))"

definition qt_lf_list_insert :: "marked_loc \<Rightarrow> addr \<Rightarrow> qt_hash \<Rightarrow> ((bool \<times> u64) \<times> qt_hash) run" where
  "qt_lf_list_insert head node h =
     (case he_nodes h node of None \<Rightarrow> Some (Inl Null_deref) | Some n \<Rightarrow> insert_loop head node (he_key n) h)"

partial_function (option) qt_lf_list_delete :: "marked_loc \<Rightarrow> u64 \<Rightarrow> qt_hash \<Rightarrow> (bool \<times> qt_hash) run" where
  "qt_lf_list_delete head key h =
     bind_run (qt_lf_list_find head key h) (\<lambda>((v, lprev, lcur, lnext), h).
       if v = NULL then Some (Inr (False, h))
       else bind_run (Some (CAS (Next_of (PTR_OF lcur)) (CONSTRUCT 0 lnext) (CONSTRUCT 1 lnext) h)) (\<lambda>(old, h).
         if old \<noteq> CONSTRUCT 0 lnext then qt_lf_list_delete head key h
         else bind_run (Some (CAS lprev (CONSTRUCT 0 lcur) (CONSTRUCT 0 lnext) h)) (\<lambda>(old, h).
           if old = CONSTRUCT 0 lcur then Some (Inr (True, lf_free (PTR_OF lcur) h))
           else bind_run (qt_lf_list_find head key h) (\<lambda>(_, h). Some (Inr (True, h))))))"

section \<open>Buckets\<close>

text \<open>
  \<open>initialize_bucket\<close> does not look at what \<open>malloc\<close> gives. When the node of the bucket is in the list
  already, the call waits for the bucket to be set by another thread: alone, it loops for ever.
\<close>

definition new_entry :: "u64 \<Rightarrow> addr \<Rightarrow> hash_entry" where
  "new_entry key val = \<lparr>he_key = key, he_value = val, he_next = UNINITIALIZED\<rparr>"

definition alloc_node :: "addr \<Rightarrow> hash_entry \<Rightarrow> qt_hash \<Rightarrow> qt_hash" where
  "alloc_node p n h = h\<lparr>he_nodes := (he_nodes h)(p \<mapsto> n)\<rparr>"

partial_function (option) initialize_bucket ::
    "((addr \<rightharpoonup> hash_entry) \<Rightarrow> addr) \<Rightarrow> u64 \<Rightarrow> qt_hash \<Rightarrow> (unit \<times> qt_hash) run" where
  "initialize_bucket malloc bucket h =
     (let par = GET_PARENT bucket
      in bind_run (Some (read_loc (Slot (unat par)) h)) (\<lambda>b.
        bind_run (if b = UNINITIALIZED then initialize_bucket malloc par h else Some (Inr ((), h))) (\<lambda>(_, h).
        let dummy = malloc (he_nodes h)
        in if dummy = NULL then Some (Inl Null_deref)
           else bind_run (qt_lf_list_insert (Slot (unat par)) dummy
                           (alloc_node dummy (new_entry (so_dummykey bucket) NULL) h)) (\<lambda>((ins, cur), h).
             if ins then (if unat bucket < length (hB h)
                          then Some (Inr ((), write_loc (Slot (unat bucket)) (CONSTRUCT 0 dummy) h))
                          else Some (Inl Out_of_bounds))
             else let h = lf_free dummy h
               in bind_run (Some (read_loc (Slot (unat bucket)) h)) (\<lambda>b.
                    if b = CONSTRUCT 0 (PTR_OF cur) then Some (Inr ((), h)) else None)))))"

section \<open>The table\<close>

definition ready_bucket ::
    "((addr \<rightharpoonup> hash_entry) \<Rightarrow> addr) \<Rightarrow> u64 \<Rightarrow> qt_hash \<Rightarrow> (unit \<times> qt_hash) run" where
  "ready_bucket malloc bucket h =
     bind_run (Some (read_loc (Slot (unat bucket)) h)) (\<lambda>b.
       if b = UNINITIALIZED then initialize_bucket malloc bucket h else Some (Inr ((), h)))"

definition qt_hash_put ::
    "((addr \<rightharpoonup> hash_entry) \<Rightarrow> addr) \<Rightarrow> u64 \<Rightarrow> addr \<Rightarrow> qt_hash \<Rightarrow> (addr \<times> qt_hash) run" where
  "qt_hash_put malloc key val h =
     (let node = malloc (he_nodes h); lkey = qt_hashword key; bucket = lkey mod hsize h
      in if node = NULL then Some (Inl Assert_failed)
         else if lkey AND MSB \<noteq> 0 then Some (Inl Assert_failed)
         else bind_run (ready_bucket malloc bucket (alloc_node node (new_entry (so_regularkey lkey) val) h)) (\<lambda>(_, h).
           bind_run (qt_lf_list_insert (Slot (unat bucket)) node h) (\<lambda>((ins, rs), h).
             if \<not> ins
             then let h = lf_free node h
               in (case he_nodes h (PTR_OF rs) of
                     None \<Rightarrow> Some (Inl Null_deref) | Some n \<Rightarrow> Some (Inr (he_value n, h)))
             else let csize = hsize h; old = hcount h; h = h\<lparr>hcount := old + 1\<rparr>
               in Some (Inr (val, if old div csize > MAX_LOAD \<and> 2 * csize \<le> hard_max_buckets h
                                  then h\<lparr>hsize := 2 * csize\<rparr> else h)))))"

definition qt_hash_get ::
    "((addr \<rightharpoonup> hash_entry) \<Rightarrow> addr) \<Rightarrow> u64 \<Rightarrow> qt_hash \<Rightarrow> (addr \<times> qt_hash) run" where
  "qt_hash_get malloc key h =
     (let lkey = qt_hashword key; bucket = lkey mod hsize h
      in bind_run (ready_bucket malloc bucket h) (\<lambda>(_, h).
        bind_run (qt_lf_list_find (Slot (unat bucket)) (so_regularkey lkey) h) (\<lambda>((v, _), h).
          Some (Inr (v, h)))))"

definition qt_hash_remove ::
    "((addr \<rightharpoonup> hash_entry) \<Rightarrow> addr) \<Rightarrow> u64 \<Rightarrow> qt_hash \<Rightarrow> (bool \<times> qt_hash) run" where
  "qt_hash_remove malloc key h =
     (let lkey = qt_hashword key; bucket = lkey mod hsize h
      in bind_run (ready_bucket malloc bucket h) (\<lambda>(_, h).
        bind_run (qt_lf_list_delete (Slot (unat bucket)) (so_regularkey lkey) h) (\<lambda>(ok, h).
          Some (Inr (ok, if ok then h\<lparr>hcount := hcount h - 1\<rparr> else h)))))"

text \<open>
  \<open>hard_max_buckets\<close> is set by the first call, from the size of a page. Both allocations are checked
  with assertions.
\<close>

definition qt_hash_create ::
    "((addr \<rightharpoonup> hash_entry) \<Rightarrow> addr) \<Rightarrow> u64 \<Rightarrow> u64 \<Rightarrow> qt_hash res" where
  "qt_hash_create malloc pagesize hmb =
     (let hmb = (if hmb = 0 then pagesize div 8 else hmb);
          dummy = malloc Map.empty
      in if dummy = NULL then Inl Assert_failed
         else if hmb = 0 then Inl Out_of_bounds
         else Inr \<lparr>he_nodes = [dummy \<mapsto> new_entry 0 NULL],
                   hB = (replicate (unat hmb) UNINITIALIZED)[0 := CONSTRUCT 0 dummy],
                   hcount = 0, hsize = 2, hard_max_buckets = hmb\<rparr>)"

definition qt_hash_count :: "qt_hash \<Rightarrow> u64" where
  "qt_hash_count h = hsize h"

text \<open>
  The walks over the whole list. \<open>qt_hash_callback\<close> collects the calls of \<open>f\<close>,
  \<open>qt_hash_destroy_deallocate\<close> the arguments of its deallocator: it is called after \<open>cursor\<close> has
  moved on, with the next node and at the end with \<open>NULL\<close>.
\<close>

partial_function (option) callback_loop :: "u64 \<Rightarrow> qt_hash \<Rightarrow> (u64 \<times> addr) list \<Rightarrow> (u64 \<times> addr) list run" where
  "callback_loop cursor h calls =
     (if PTR_OF cursor = NULL then Some (Inr calls)
      else case he_nodes h (PTR_OF cursor) of
        None \<Rightarrow> Some (Inl Null_deref)
      | Some n \<Rightarrow>
          if MARK_OF cursor \<noteq> 0 then Some (Inl Assert_failed)
          else callback_loop (he_next n) h
                 (if he_key n AND 1 \<noteq> 0 then calls @ [(REVERSE (he_key n XOR 1), he_value n)] else calls))"

definition qt_hash_callback :: "qt_hash \<Rightarrow> (u64 \<times> addr) list run" where
  "qt_hash_callback h = bind_run (Some (read_loc (Slot 0) h)) (\<lambda>c. callback_loop c h [])"

partial_function (option) destroy_loop :: "u64 \<Rightarrow> qt_hash \<Rightarrow> addr list \<Rightarrow> (addr list \<times> qt_hash) run" where
  "destroy_loop cursor h args =
     (if PTR_OF cursor = NULL then Some (Inr (args, h))
      else if MARK_OF cursor \<noteq> 0 then Some (Inl Assert_failed)
      else case he_nodes h (PTR_OF cursor) of
        None \<Rightarrow> Some (Inl Null_deref)
      | Some n \<Rightarrow> destroy_loop (he_next n) (lf_free (PTR_OF cursor) h) (args @ [PTR_OF (he_next n)]))"

definition qt_hash_destroy_deallocate :: "qt_hash \<Rightarrow> (addr list \<times> qt_hash) run" where
  "qt_hash_destroy_deallocate h = bind_run (Some (read_loc (Slot 0) h)) (\<lambda>c. destroy_loop c h [])"

definition qt_hash_destroy :: "qt_hash \<Rightarrow> (unit \<times> qt_hash) run" where
  "qt_hash_destroy h = bind_run (qt_hash_destroy_deallocate h) (\<lambda>(_, h). Some (Inr ((), h)))"

section \<open>The adaptor\<close>

text \<open>
  \<open>lf_hashtbl::insert\<close> of \<open>hashtbl_lf.h\<close>: an entry that finds another one under its key takes
  it out of the table. The result is the answer and the value handed back.
\<close>

definition lf_hashtbl_insert ::
    "((addr \<rightharpoonup> hash_entry) \<Rightarrow> addr) \<Rightarrow> u64 \<Rightarrow> addr \<Rightarrow> qt_hash \<Rightarrow> ((bool \<times> addr) \<times> qt_hash) run" where
  "lf_hashtbl_insert malloc key val h =
     bind_run (qt_hash_put malloc key val h) (\<lambda>(ret, h).
       if ret = val then Some (Inr ((True, val), h))
       else bind_run (qt_hash_remove malloc key h) (\<lambda>(_, h). Some (Inr ((False, ret), h))))"

end
