(* ===== verification/LC_Lf_List.thy ===== *)
theory LC_Lf_List
  imports LC_Lf_Hash
begin

text \<open>
  The sorted list of the lock-free hash table: what the search, the insertion and the deletion
  do to the nodes of a list, in terms of the list of their addresses.
\<close>

section \<open>Pointers\<close>

definition good_ptr :: "addr \<Rightarrow> bool" where
  "good_ptr p \<longleftrightarrow> p \<noteq> NULL \<and> \<not> bit p 0"

lemma PTR_OF_even: "\<not> bit p 0 \<Longrightarrow> PTR_OF p = p"
  unfolding PTR_OF_def by (rule bit_word_eqI) (auto intro!: gr0I simp: bit_and_iff bit_not_iff bit_1_iff)

lemma good_ptr_simps [simp]:
  assumes "good_ptr p"
  shows "PTR_OF p = p" "CONSTRUCT 0 p = p" "MARK_OF p = 0" "p \<noteq> NULL"
proof -
  show p: "PTR_OF p = p" "p \<noteq> NULL" using assms PTR_OF_even by (auto simp: good_ptr_def)
  then show "CONSTRUCT 0 p = p" by (simp add: CONSTRUCT_def)
  show "MARK_OF p = 0" unfolding MARK_OF_def
    using assms by (intro bit_word_eqI) (auto intro!: gr0I simp: good_ptr_def bit_and_iff bit_1_iff)
qed

lemma null_ptr_simps [simp]: "PTR_OF 0 = 0" "CONSTRUCT 0 0 = 0" "MARK_OF 0 = 0"
  by (simp_all add: PTR_OF_def CONSTRUCT_def MARK_OF_def)

lemma MARK_set: "good_ptr p \<or> p = NULL \<Longrightarrow> PTR_OF (CONSTRUCT 1 p) = p"
  by (rule bit_word_eqI) (auto intro!: gr0I simp: PTR_OF_def CONSTRUCT_def good_ptr_def bit_and_iff bit_or_iff bit_not_iff bit_1_iff)

section \<open>Segments of the list\<close>

type_synonym nodes = "addr \<rightharpoonup> hash_entry"

fun seg :: "nodes \<Rightarrow> u64 \<Rightarrow> addr list \<Rightarrow> u64 \<Rightarrow> bool" where
  "seg m p [] q \<longleftrightarrow> p = q"
| "seg m p (a # as) q \<longleftrightarrow> p = a \<and> good_ptr a \<and> (\<exists>n. m a = Some n \<and> seg m (he_next n) as q)"

abbreviation hd0 :: "addr list \<Rightarrow> u64" where
  "hd0 xs \<equiv> (case xs of [] \<Rightarrow> 0 | x # _ \<Rightarrow> x)"

abbreviation nkey :: "nodes \<Rightarrow> addr \<Rightarrow> u64" where "nkey m a \<equiv> he_key (the (m a))"

abbreviation nval :: "nodes \<Rightarrow> addr \<Rightarrow> addr" where "nval m a \<equiv> he_value (the (m a))"

lemma seg_append: "seg m p (as @ bs) q \<longleftrightarrow> (\<exists>r. seg m p as r \<and> seg m r bs q)"
  by (induction as arbitrary: p) auto

lemma seg_hd: "seg m p xs 0 \<Longrightarrow> p = hd0 xs"
  by (cases xs) auto

lemma seg_append0: "seg m p (as @ bs) 0 \<longleftrightarrow> seg m p as (hd0 bs) \<and> seg m (hd0 bs) bs 0"
  using seg_hd by (auto simp: seg_append)

lemma seg_snoc:
  "seg m p (as @ [a]) q \<longleftrightarrow> seg m p as a \<and> good_ptr a \<and> (\<exists>n. m a = Some n \<and> he_next n = q)"
  by (auto simp: seg_append)

lemma seg_cong: "(\<And>a. a \<in> set as \<Longrightarrow> m' a = m a) \<Longrightarrow> seg m' p as q = seg m p as q"
  by (induction as arbitrary: p) auto

lemma seg_good: "seg m p as q \<Longrightarrow> a \<in> set as \<Longrightarrow> good_ptr a \<and> m a \<noteq> None"
  by (induction as arbitrary: p) auto

lemma seg_hd_good: "seg m p xs 0 \<Longrightarrow> p = 0 \<or> good_ptr p"
  by (cases xs) auto

section \<open>Searching\<close>

definition before :: "nodes \<Rightarrow> u64 \<Rightarrow> addr list \<Rightarrow> addr list" where
  "before m key xs = takeWhile (\<lambda>a. nkey m a < key) xs"

definition from_key :: "nodes \<Rightarrow> u64 \<Rightarrow> addr list \<Rightarrow> addr list" where
  "from_key m key xs = dropWhile (\<lambda>a. nkey m a < key) xs"

definition found :: "nodes \<Rightarrow> u64 \<Rightarrow> addr list \<Rightarrow> addr" where
  "found m key zs = (case zs of [] \<Rightarrow> NULL | z # _ \<Rightarrow> if nkey m z = key then nval m z else NULL)"

lemma find_loop_ok:
  assumes "seg (he_nodes h) cur xs 0" "read_loc prev h = Inr cur"
  shows "\<exists>nx. find_loop head key prev cur nxt h =
      Some (Inr ((found (he_nodes h) key (from_key (he_nodes h) key xs),
        if before (he_nodes h) key xs = [] then prev else Next_of (last (before (he_nodes h) key xs)),
        hd0 (from_key (he_nodes h) key xs), nx), h))
      \<and> (from_key (he_nodes h) key xs \<noteq> [] \<longrightarrow> nx = he_next (the (he_nodes h (hd (from_key (he_nodes h) key xs)))))"
  using assms
proof (induction xs arbitrary: cur prev nxt)
  case Nil
  then show ?case by (subst find_loop.simps) (simp add: before_def from_key_def found_def)
next
  case (Cons a xs)
  then obtain n where n: "cur = a" "good_ptr a" "he_nodes h a = Some n" "seg (he_nodes h) (he_next n) xs 0"
    by auto
  have mk: "MARK_OF (he_next n) = 0" using seg_hd_good [OF n(4)] by auto
  show ?case
  proof (cases "he_key n < key")
    case True
    have "find_loop head key prev cur nxt h = find_loop head key (Next_of a) (he_next n) (he_next n) h"
      using n mk Cons.prems(2) True by (subst find_loop.simps) auto
    moreover have "read_loc (Next_of a) h = Inr (he_next n)" using n by simp
    ultimately show ?thesis using Cons.IH [OF n(4), of "Next_of a" "he_next n"] True n(3)
      by (auto simp: before_def from_key_def)
  next
    case False
    then have "key \<le> he_key n" by simp
    with False show ?thesis using n mk Cons.prems(2)
      by (subst find_loop.simps) (simp add: before_def from_key_def found_def)
  qed
qed

text \<open>
  The lists of all buckets are suffixes of one sorted list, so that a search from a bucket whose
  key is smaller than the one searched for ends where a search of the whole list ends.
\<close>

definition sorted_keys :: "nodes \<Rightarrow> addr list \<Rightarrow> bool" where
  "sorted_keys m xs \<longleftrightarrow> sorted_wrt (\<lambda>a b. nkey m a < nkey m b) xs"

lemma sorted_keys_distinct: "sorted_keys m xs \<Longrightarrow> distinct xs"
  by (induction xs) (auto simp: sorted_keys_def)

lemma sorted_keys_inj: "sorted_keys m xs \<Longrightarrow> inj_on (nkey m) (set xs)"
  by (induction xs) (auto simp: sorted_keys_def)

lemma split_suffix:
  assumes "sorted_keys m (pre @ a # rest)" "nkey m a < key"
  shows "before m key (pre @ a # rest) = pre @ before m key (a # rest)"
    and "from_key m key (pre @ a # rest) = from_key m key (a # rest)"
proof -
  have "\<forall>x \<in> set pre. nkey m x < key" using assms by (fastforce simp: sorted_keys_def sorted_wrt_append)
  then show "before m key (pre @ a # rest) = pre @ before m key (a # rest)"
    "from_key m key (pre @ a # rest) = from_key m key (a # rest)"
    by (simp_all add: before_def from_key_def takeWhile_append dropWhile_append)
qed

lemma before_from: "before m key xs @ from_key m key xs = xs"
  by (simp add: before_def from_key_def)

lemma before_less: "a \<in> set (before m key xs) \<Longrightarrow> nkey m a < key"
  by (auto simp: before_def dest: set_takeWhileD)

lemma from_key_ge:
  assumes "sorted_keys m xs" "a \<in> set (from_key m key xs)"
  shows "key \<le> nkey m a"
proof -
  have s: "sorted_keys m (from_key m key xs)"
    using assms(1) by (subst (asm) before_from [of m key xs, symmetric]) (simp add: sorted_keys_def sorted_wrt_append)
  then show ?thesis
  proof (cases "from_key m key xs")
    case (Cons z zs)
    then have "key \<le> nkey m z" by (metis from_key_def dropWhile_eq_Cons_conv not_le)
    then show ?thesis using s assms(2) Cons by (fastforce simp: sorted_keys_def)
  qed (use assms(2) in simp)
qed

lemma from_key_hit:
  assumes "sorted_keys m xs" "a \<in> set xs" "nkey m a = key"
  shows "\<exists>zs. from_key m key xs = a # zs"
proof -
  have a: "a \<in> set (from_key m key xs)"
    using assms before_less [of a m key xs] by (metis Un_iff before_from less_irrefl set_append)
  then obtain z zs where z: "from_key m key xs = z # zs" by (cases "from_key m key xs") auto
  have "sorted_keys m (before m key xs @ z # zs)" using assms(1) z before_from [of m key xs] by simp
  then have "z = a \<or> nkey m z < nkey m a" using a z by (auto simp: sorted_keys_def sorted_wrt_append)
  then show ?thesis using from_key_ge [OF assms(1), of z key] z assms(3) by auto
qed

lemma from_key_miss:
  assumes "\<And>a. a \<in> set xs \<Longrightarrow> nkey m a \<noteq> key" "from_key m key xs = z # zs"
  shows "nkey m z \<noteq> key"
  using assms before_from [of m key xs] by (metis in_set_conv_decomp)

lemma found_hit:
  assumes "sorted_keys m xs" "a \<in> set xs" "nkey m a = key"
  shows "found m key (from_key m key xs) = nval m a"
  using from_key_hit [OF assms] assms(3) by (auto simp: found_def)

lemma found_miss:
  assumes "\<And>a. a \<in> set xs \<Longrightarrow> nkey m a \<noteq> key"
  shows "found m key (from_key m key xs) = NULL"
  using assms from_key_miss [of xs m key] by (auto simp: found_def split: list.split)

section \<open>Operations on the list\<close>

definition list_ok :: "nodes \<Rightarrow> addr list \<Rightarrow> bool" where
  "list_ok m L \<longleftrightarrow> seg m (hd0 L) L 0 \<and> sorted_keys m L"

text \<open>A bucket from which a search for \<open>key\<close> can start.\<close>

definition start_ok :: "qt_hash \<Rightarrow> addr list \<Rightarrow> nat \<Rightarrow> u64 \<Rightarrow> bool" where
  "start_ok h L i key \<longleftrightarrow> list_ok (he_nodes h) L
     \<and> (\<exists>a. read_loc (Slot i) h = Inr a \<and> a \<in> set L \<and> nkey (he_nodes h) a < key)"

lemma before_nonempty: "start_ok h L i key \<Longrightarrow> before (he_nodes h) key L \<noteq> []"
proof
  assume s: "start_ok h L i key" and "before (he_nodes h) key L = []"
  then have e: "from_key (he_nodes h) key L = L" using before_from [of "he_nodes h" key L] by simp
  from s obtain a where "a \<in> set L" "nkey (he_nodes h) a < key" by (auto simp: start_ok_def)
  then show False using from_key_ge [of "he_nodes h" L a key] s e by (simp add: start_ok_def list_ok_def)
qed

lemma find_ok:
  assumes "start_ok h L i key"
  shows "\<exists>nx. qt_lf_list_find (Slot i) key h =
      Some (Inr ((found (he_nodes h) key (from_key (he_nodes h) key L),
        Next_of (last (before (he_nodes h) key L)), hd0 (from_key (he_nodes h) key L), nx), h))
      \<and> (from_key (he_nodes h) key L \<noteq> [] \<longrightarrow> nx = he_next (the (he_nodes h (hd (from_key (he_nodes h) key L)))))"
proof -
  let ?m = "he_nodes h"
  from assms obtain a where a: "read_loc (Slot i) h = Inr a" "a \<in> set L" "nkey ?m a < key"
    and L: "seg ?m (hd0 L) L 0" "sorted_keys ?m L" by (auto simp: start_ok_def list_ok_def)
  then obtain pre rest where e: "L = pre @ a # rest" by (meson split_list)
  have s: "seg ?m a (a # rest) 0" using L(1) unfolding e seg_append0 by simp
  have n: "before ?m key (a # rest) \<noteq> []" using a(3) by (simp add: before_def)
  show ?thesis
    using find_loop_ok [OF s a(1), of "Slot i" key UNINITIALIZED] n
    unfolding e split_suffix [OF L(2) [unfolded e] a(3)]
    by (simp add: qt_lf_list_find_def a(1) del: read_loc.simps)
qed

definition set_next :: "addr \<Rightarrow> u64 \<Rightarrow> nodes \<Rightarrow> nodes" where
  "set_next p v m = m(p := map_option (\<lambda>n. n\<lparr>he_next := v\<rparr>) (m p))"

lemma set_next_simps [simp]:
  "nkey (set_next p v m) a = nkey m a" "nval (set_next p v m) a = nval m a" "dom (set_next p v m) = dom m"
  "a \<noteq> p \<Longrightarrow> set_next p v m a = m a"
  "set_next p v m a = None \<longleftrightarrow> m a = None"
  by (auto simp: set_next_def map_option_case fun_eq_iff split: option.split)

lemma he_nodes_write_loc [simp]:
  "he_nodes (write_loc (Next_of p) v h) = set_next p v (he_nodes h)"
  "he_nodes (write_loc (Slot i) v h) = he_nodes h"
  "hB (write_loc (Next_of p) v h) = hB h"
  "hcount (write_loc l v h) = hcount h" "hsize (write_loc l v h) = hsize h"
  "hard_max_buckets (write_loc l v h) = hard_max_buckets h"
  by (simp_all add: upd_node_def set_next_def, (cases l; simp add: upd_node_def)+)

declare write_loc.simps(2) [simp del]

lemma before_set_next [simp]: "before (set_next p v m) = before m" "from_key (set_next p v m) = from_key m"
  by (simp_all add: before_def from_key_def fun_eq_iff)

lemma last_before:
  assumes "list_ok m L" "before m key L \<noteq> []"
  shows "last (before m key L) \<in> set L" "\<exists>n. m (last (before m key L)) = Some n \<and> he_next n = hd0 (from_key m key L)"
proof -
  let ?Y = "before m key L"
  have e: "?Y = butlast ?Y @ [last ?Y]" using assms(2) by simp
  have "seg m (hd0 L) (?Y @ from_key m key L) 0" using assms(1) by (simp add: before_from list_ok_def)
  then have "seg m (hd0 L) ?Y (hd0 (from_key m key L))" unfolding seg_append0 ..
  then show "\<exists>n. m (last ?Y) = Some n \<and> he_next n = hd0 (from_key m key L)"
    by (subst (asm) e) (auto simp: seg_snoc)
  show "last ?Y \<in> set L" using assms(2) before_from [of m key L] by (metis Un_iff last_in_set set_append)
qed

lemma hd0_from_good:
  assumes "list_ok m L"
  shows "hd0 (from_key m key L) = 0 \<or> good_ptr (hd0 (from_key m key L))"
proof -
  have "seg m (hd0 L) (before m key L @ from_key m key L) 0" using assms by (simp add: before_from list_ok_def)
  then show ?thesis unfolding seg_append0 using seg_hd_good by blast
qed

definition link_node :: "addr \<Rightarrow> u64 \<Rightarrow> addr list \<Rightarrow> qt_hash \<Rightarrow> qt_hash" where
  "link_node node key L h =
     write_loc (Next_of (last (before (he_nodes h) key L))) node
       (write_loc (Next_of node) (hd0 (from_key (he_nodes h) key L)) h)"

lemma insert_new:
  assumes "start_ok h L i key" "he_nodes h node = Some n" "he_key n = key" "node \<notin> set L" "good_ptr node"
    and "found (he_nodes h) key (from_key (he_nodes h) key L) = NULL"
  shows "qt_lf_list_insert (Slot i) node h =
    Some (Inr ((True, hd0 (from_key (he_nodes h) key L)), link_node node key L h))"
proof -
  let ?m = "he_nodes h"
  have l: "list_ok ?m L" using assms(1) by (simp add: start_ok_def)
  obtain nx where f: "qt_lf_list_find (Slot i) key h = Some (Inr ((NULL, Next_of (last (before ?m key L)),
      hd0 (from_key ?m key L), nx), h))" using find_ok [OF assms(1)] assms(6) by auto
  have c: "CONSTRUCT 0 (hd0 (from_key ?m key L)) = hd0 (from_key ?m key L)"
    using hd0_from_good [OF l, of key] by auto
  obtain n' where n': "?m (last (before ?m key L)) = Some n'" "he_next n' = hd0 (from_key ?m key L)"
    using last_before [OF l before_nonempty [OF assms(1)]] by blast
  have "last (before ?m key L) \<noteq> node" using last_before(1) [OF l before_nonempty [OF assms(1)]] assms(4) by auto
  then show ?thesis using assms(2,3,5) f c n'
    by (subst qt_lf_list_insert_def) (simp, subst insert_loop.simps, simp add: CAS_def link_node_def Let_def)
qed

lemma insert_old:
  assumes "start_ok h L i key" "he_nodes h node = Some n" "he_key n = key"
    and "found (he_nodes h) key (from_key (he_nodes h) key L) \<noteq> NULL"
  shows "qt_lf_list_insert (Slot i) node h = Some (Inr ((False, hd0 (from_key (he_nodes h) key L)), h))"
  using find_ok [OF assms(1)] assms(2,3,4)
  by (subst qt_lf_list_insert_def) (simp, subst insert_loop.simps, auto)

lemma delete_miss:
  assumes "start_ok h L i key" "found (he_nodes h) key (from_key (he_nodes h) key L) = NULL"
  shows "qt_lf_list_delete (Slot i) key h = Some (Inr (False, h))"
  using find_ok [OF assms(1)] assms(2) by (subst qt_lf_list_delete.simps) auto

definition unlink_node :: "addr \<Rightarrow> u64 \<Rightarrow> addr list \<Rightarrow> qt_hash \<Rightarrow> qt_hash" where
  "unlink_node z key L h =
     (let nx = he_next (the (he_nodes h z))
      in lf_free z (write_loc (Next_of (last (before (he_nodes h) key L))) nx
           (write_loc (Next_of z) (CONSTRUCT 1 nx) h)))"

lemma delete_hit:
  assumes "start_ok h L i key" "from_key (he_nodes h) key L = z # zs"
    and "nkey (he_nodes h) z = key" "nval (he_nodes h) z \<noteq> NULL"
  shows "qt_lf_list_delete (Slot i) key h = Some (Inr (True, unlink_node z key L h))"
proof -
  let ?m = "he_nodes h"
  have l: "list_ok ?m L" using assms(1) by (simp add: start_ok_def)
  have "seg ?m (hd0 L) (before ?m key L @ z # zs) 0"
    using l before_from [of ?m key L] assms(2) by (simp add: list_ok_def)
  then obtain nz where z: "?m z = Some nz" "good_ptr z" "seg ?m (he_next nz) zs 0"
    unfolding seg_append0 by auto
  obtain nx where "qt_lf_list_find (Slot i) key h = Some (Inr ((nval ?m z, Next_of (last (before ?m key L)), z, nx), h))"
    "nx = he_next nz"
    using find_ok [OF assms(1)] assms(2,3) z(1) by (auto simp: found_def)
  then have f: "qt_lf_list_find (Slot i) key h =
      Some (Inr ((nval ?m z, Next_of (last (before ?m key L)), z, he_next nz), h))" by simp
  have c: "CONSTRUCT 0 (he_next nz) = he_next nz" using seg_hd_good [OF z(3)] by auto
  obtain n' where n': "?m (last (before ?m key L)) = Some n'" "he_next n' = z"
    using last_before [OF l before_nonempty [OF assms(1)]] assms(2) by auto
  have "distinct (before ?m key L @ z # zs)"
    using l before_from [of ?m key L] assms(2) sorted_keys_distinct by (metis list_ok_def)
  then have "last (before ?m key L) \<noteq> z" using before_nonempty [OF assms(1)] last_in_set by fastforce
  then show ?thesis using f c n' z(1,2) assms(4)
    by (subst qt_lf_list_delete.simps) (simp add: CAS_def unlink_node_def Let_def)
qed

section \<open>The list after an operation\<close>

lemma list_ok_split:
  assumes "list_ok m L"
  shows "seg m (hd0 L) (before m key L) (hd0 (from_key m key L))" "seg m (hd0 (from_key m key L)) (from_key m key L) 0"
    "sorted_keys m (before m key L @ from_key m key L)" "distinct (before m key L @ from_key m key L)"
proof -
  have "seg m (hd0 L) (before m key L @ from_key m key L) 0" using assms by (simp add: before_from list_ok_def)
  then show "seg m (hd0 L) (before m key L) (hd0 (from_key m key L))" "seg m (hd0 (from_key m key L)) (from_key m key L) 0"
    unfolding seg_append0 by auto
  show "sorted_keys m (before m key L @ from_key m key L)" using assms by (simp add: before_from list_ok_def)
  then show "distinct (before m key L @ from_key m key L)" by (rule sorted_keys_distinct)
qed

lemma sorted_keys_cong: "(\<And>a. a \<in> set L \<Longrightarrow> nkey m' a = nkey m a) \<Longrightarrow> sorted_keys m' L = sorted_keys m L"
  by (induction L) (simp_all add: sorted_keys_def)

lemma seg_set_last:
  assumes "seg m p Y q" "Y \<noteq> []" "distinct Y" "\<And>a. a \<in> set Y \<Longrightarrow> a \<noteq> last Y \<Longrightarrow> m' a = m a"
    and "\<exists>n. m' (last Y) = Some n \<and> he_next n = q'"
  shows "seg m' p Y q'"
proof -
  have e: "Y = butlast Y @ [last Y]" using assms(2) by simp
  have "seg m p (butlast Y) (last Y)" "good_ptr (last Y)" using assms(1) by (subst (asm) e, simp add: seg_snoc)+
  moreover have "last Y \<notin> set (butlast Y)" using assms(3) by (subst (asm) e) simp
  then have "seg m' p (butlast Y) (last Y) = seg m p (butlast Y) (last Y)"
    using assms(4) by (intro seg_cong) (metis in_set_butlastD)
  ultimately show ?thesis using assms(5) by (subst e) (simp add: seg_snoc)
qed

lemma link_list_ok:
  assumes "list_ok (he_nodes h) L" "he_nodes h node = Some n" "he_key n = key" "node \<notin> set L" "good_ptr node"
    and "before (he_nodes h) key L \<noteq> []" "\<And>a. a \<in> set L \<Longrightarrow> nkey (he_nodes h) a \<noteq> key"
  shows "list_ok (he_nodes (link_node node key L h)) (before (he_nodes h) key L @ node # from_key (he_nodes h) key L)"
proof -
  let ?m = "he_nodes h" let ?Y = "before ?m key L" let ?Z = "from_key ?m key L"
  let ?m' = "he_nodes (link_node node key L h)"
  note sp = list_ok_split [OF assms(1), of key]
  have L: "set L = set ?Y \<union> set ?Z" using before_from [of ?m key L] by (metis set_append)
  then have nn: "node \<notin> set ?Y" "node \<notin> set ?Z" using assms(4) by auto
  have ln: "last ?Y \<in> set ?Y" "last ?Y \<notin> set ?Z" "last ?Y \<noteq> node"
    using last_in_set [OF assms(6)] sp(4) nn by auto
  obtain n' where n': "?m (last ?Y) = Some n'" using last_before [OF assms(1,6)] by blast
  have "seg ?m' (hd0 L) ?Y node"
    using assms(6) sp(4) n' nn ln
    by (intro seg_set_last [OF sp(1)]) (auto simp: link_node_def set_next_def)
  moreover have "seg ?m' (hd0 ?Z) ?Z 0 = seg ?m (hd0 ?Z) ?Z 0"
    using nn ln by (intro seg_cong) (auto simp: link_node_def set_next_def)
  then have "seg ?m' node (node # ?Z) 0"
    using sp(2) assms(2,5) ln by (simp add: link_node_def set_next_def)
  moreover have "hd0 (?Y @ node # ?Z) = hd0 L"
    using assms(6) before_from [of ?m key L] by (cases ?Y) (auto split: list.split)
  moreover have "sorted_keys ?m (?Y @ node # ?Z)"
  proof -
    have "\<And>a. a \<in> set ?Y \<Longrightarrow> nkey ?m a < key" by (rule before_less)
    moreover have "key < nkey ?m a" if "a \<in> set ?Z" for a
      using from_key_ge [of ?m L a key] assms(1,7) L that by (fastforce simp: list_ok_def)
    ultimately show ?thesis using sp(3) assms(2,3) by (auto simp: sorted_keys_def sorted_wrt_append)
  qed
  then have "sorted_keys ?m' (?Y @ node # ?Z)"
    by (subst sorted_keys_cong [of _ _ ?m]) (simp_all add: link_node_def)
  ultimately show ?thesis unfolding list_ok_def seg_append0 by simp
qed

lemma unlink_list_ok:
  assumes "list_ok (he_nodes h) L" "from_key (he_nodes h) key L = z # zs" "before (he_nodes h) key L \<noteq> []"
  shows "list_ok (he_nodes (unlink_node z key L h)) (before (he_nodes h) key L @ zs)"
proof -
  let ?m = "he_nodes h" let ?Y = "before ?m key L"
  let ?m' = "he_nodes (unlink_node z key L h)"
  note sp = list_ok_split [OF assms(1), of key, unfolded assms(2)]
  obtain nz where nz: "?m z = Some nz" "seg ?m (he_next nz) zs 0" using sp(2) by auto
  have ln: "last ?Y \<in> set ?Y" "last ?Y \<notin> set zs" "last ?Y \<noteq> z" "z \<notin> set ?Y" "z \<notin> set zs"
    using last_in_set [OF assms(3)] sp(4) by auto
  obtain n' where n': "?m (last ?Y) = Some n'" using last_before [OF assms(1,3)] by blast
  have m': "?m' a = (if a = z then None else if a = last ?Y then Some (n'\<lparr>he_next := he_next nz\<rparr>) else ?m a)" for a
    using nz(1) n' ln by (simp add: unlink_node_def lf_free_def set_next_def Let_def)
  have "seg ?m' (hd0 L) ?Y (hd0 zs)"
    using assms(3) sp(4) ln seg_hd [OF nz(2)] by (intro seg_set_last [OF sp(1)]) (auto simp: m')
  moreover have "seg ?m' (hd0 zs) zs 0 = seg ?m (hd0 zs) zs 0"
    using ln by (intro seg_cong) (auto simp: m')
  then have "seg ?m' (hd0 zs) zs 0" using nz(2) seg_hd [OF nz(2)] by simp
  moreover have "hd0 (?Y @ zs) = hd0 L"
    using assms(3) before_from [of ?m key L] by (cases ?Y) (auto split: list.split)
  moreover have "sorted_keys ?m (?Y @ zs)" using sp(3) by (simp add: sorted_keys_def sorted_wrt_append)
  then have "sorted_keys ?m' (?Y @ zs)"
    using ln n' by (subst sorted_keys_cong [of _ _ ?m]) (auto simp: m')
  ultimately show ?thesis unfolding list_ok_def seg_append0 by simp
qed

lemma unlink_node_simps:
  "hB (unlink_node z key L h) = hB h" "hcount (unlink_node z key L h) = hcount h"
  "hsize (unlink_node z key L h) = hsize h" "hard_max_buckets (unlink_node z key L h) = hard_max_buckets h"
  "dom (he_nodes (unlink_node z key L h)) = dom (he_nodes h) - {z}"
  "a \<noteq> z \<Longrightarrow> nkey (he_nodes (unlink_node z key L h)) a = nkey (he_nodes h) a"
  "a \<noteq> z \<Longrightarrow> nval (he_nodes (unlink_node z key L h)) a = nval (he_nodes h) a"
  by (simp_all add: unlink_node_def lf_free_def Let_def)

lemma link_node_simps:
  "hB (link_node z key L h) = hB h" "hcount (link_node z key L h) = hcount h"
  "hsize (link_node z key L h) = hsize h" "hard_max_buckets (link_node z key L h) = hard_max_buckets h"
  "dom (he_nodes (link_node z key L h)) = dom (he_nodes h)"
  "nkey (he_nodes (link_node z key L h)) a = nkey (he_nodes h) a"
  "nval (he_nodes (link_node z key L h)) a = nval (he_nodes h) a"
  by (simp_all add: link_node_def)

end
