(* ===== verification/LC_Lf_Map.thy ===== *)
theory LC_Lf_Map
  imports LC_Lf_List
begin

text \<open>
  The lock-free hash table as a map: the invariant of the table, the effect of every operation on
  it, and the refinement of a run of operations to a run on a map. A table is a map from
  split-order keys; two keys with the same low 32 bits of their hash are one key of it.
\<close>

section \<open>Stores with a bounded number of entries\<close>

text \<open>
  The contract of a table: \<open>code\<close> is what it keeps of a key, \<open>rep\<close> relates it to a map, and a call
  always returns. \<open>put\<close> keeps an entry that is there and returns it.
\<close>

datatype 'k map_op = Put 'k addr | Get 'k | Remove 'k

fun op_key :: "'k map_op \<Rightarrow> 'k" where
  "op_key (Put k v) = k" | "op_key (Get k) = k" | "op_key (Remove k) = k"

fun op_ok :: "'k map_op \<Rightarrow> bool" where
  "op_ok (Put k v) = (v \<noteq> NULL)" | "op_ok (Get k) = True" | "op_ok (Remove k) = True"

definition value_or :: "addr \<Rightarrow> addr option \<Rightarrow> addr" where
  "value_or d x = (case x of None \<Rightarrow> d | Some v \<Rightarrow> v)"

fun spec_op :: "('k \<Rightarrow> 'c) \<Rightarrow> 'k map_op \<Rightarrow> ('c \<rightharpoonup> addr) \<Rightarrow> addr \<times> ('c \<rightharpoonup> addr)" where
  "spec_op code (Put k v) M = (value_or v (M (code k)), M(code k \<mapsto> value_or v (M (code k))))"
| "spec_op code (Get k) M = (value_or NULL (M (code k)), M)"
| "spec_op code (Remove k) M = (of_bool (M (code k) \<noteq> None), M(code k := None))"

fun spec_run :: "('k \<Rightarrow> 'c) \<Rightarrow> 'k map_op list \<Rightarrow> ('c \<rightharpoonup> addr) \<Rightarrow> addr list" where
  "spec_run code [] M = []"
| "spec_run code (x # xs) M = (let (r, M) = spec_op code x M in r # spec_run code xs M)"

fun run_op ::
    "('k \<Rightarrow> addr \<Rightarrow> 't \<Rightarrow> (addr \<times> 't) run) \<Rightarrow> ('k \<Rightarrow> 't \<Rightarrow> (addr \<times> 't) run) \<Rightarrow> ('k \<Rightarrow> 't \<Rightarrow> (bool \<times> 't) run)
       \<Rightarrow> 'k map_op \<Rightarrow> 't \<Rightarrow> (addr \<times> 't) run" where
  "run_op put get del (Put k v) t = put k v t"
| "run_op put get del (Get k) t = get k t"
| "run_op put get del (Remove k) t = bind_run (del k t) (\<lambda>(b, t). Some (Inr (of_bool b, t)))"

fun run_ops ::
    "('k \<Rightarrow> addr \<Rightarrow> 't \<Rightarrow> (addr \<times> 't) run) \<Rightarrow> ('k \<Rightarrow> 't \<Rightarrow> (addr \<times> 't) run) \<Rightarrow> ('k \<Rightarrow> 't \<Rightarrow> (bool \<times> 't) run)
       \<Rightarrow> 'k map_op list \<Rightarrow> 't \<Rightarrow> (addr list \<times> 't) run" where
  "run_ops put get del [] t = Some (Inr ([], t))"
| "run_ops put get del (x # xs) t =
     bind_run (run_op put get del x t) (\<lambda>(r, t).
       bind_run (run_ops put get del xs t) (\<lambda>(rs, t). Some (Inr (r # rs, t))))"

locale bounded_map =
  fixes put :: "'k \<Rightarrow> addr \<Rightarrow> 't \<Rightarrow> (addr \<times> 't) run"
    and get :: "'k \<Rightarrow> 't \<Rightarrow> (addr \<times> 't) run"
    and del :: "'k \<Rightarrow> 't \<Rightarrow> (bool \<times> 't) run"
    and rep :: "'t \<Rightarrow> ('c \<rightharpoonup> addr) \<Rightarrow> bool"
    and code :: "'k \<Rightarrow> 'c"
    and capacity :: nat
  assumes put_ok: "rep t M \<Longrightarrow> v \<noteq> NULL \<Longrightarrow> card (dom M) < capacity \<Longrightarrow>
      \<exists>t'. put k v t = Some (Inr (value_or v (M (code k)), t')) \<and> rep t' (M(code k \<mapsto> value_or v (M (code k))))"
    and get_ok: "rep t M \<Longrightarrow> card (dom M) \<le> capacity \<Longrightarrow>
      \<exists>t'. get k t = Some (Inr (value_or NULL (M (code k)), t')) \<and> rep t' M"
    and del_ok: "rep t M \<Longrightarrow> card (dom M) \<le> capacity \<Longrightarrow>
      \<exists>t'. del k t = Some (Inr (M (code k) \<noteq> None, t')) \<and> rep t' (M(code k := None))"
    and rep_finite: "rep t M \<Longrightarrow> finite (dom M)"
begin

lemma step_ok:
  assumes "rep t M" "op_ok x" "card (dom M) < capacity"
  shows "\<exists>t'. run_op put get del x t = Some (Inr (fst (spec_op code x M), t')) \<and> rep t' (snd (spec_op code x M))"
proof (cases x)
  case (Put k v)
  then show ?thesis using put_ok [OF assms(1), of v k] assms by auto
next
  case (Get k)
  then show ?thesis using get_ok [OF assms(1), of k] assms by auto
next
  case (Remove k)
  then show ?thesis using del_ok [OF assms(1), of k] assms by fastforce
qed

lemma spec_op_card:
  assumes "finite (dom M)"
  shows "card (dom (snd (spec_op code x M))) \<le> Suc (card (dom M))"
  using assms by (cases x) (auto simp: card_insert_if card_Diff1_le intro: le_SucI)

text \<open>A run gives the answers of the run on the map.\<close>

lemma run_refines:
  "rep t M \<Longrightarrow> list_all op_ok xs \<Longrightarrow> card (dom M) + length xs \<le> capacity \<Longrightarrow>
    \<exists>t'. run_ops put get del xs t = Some (Inr (spec_run code xs M, t'))"
proof (induction xs arbitrary: t M)
  case Nil
  then show ?case by simp
next
  case (Cons x xs)
  then obtain t' where t': "run_op put get del x t = Some (Inr (fst (spec_op code x M), t'))"
    "rep t' (snd (spec_op code x M))" using step_ok [of t M x] by auto
  then obtain t'' where "run_ops put get del xs t' = Some (Inr (spec_run code xs (snd (spec_op code x M)), t''))"
    using Cons.IH [of t' "snd (spec_op code x M)"] Cons.prems spec_op_card [OF rep_finite [OF Cons.prems(1)], of x] by auto
  then show ?case using t'(1) by (simp add: case_prod_beta)
qed

end

text \<open>When \<open>code\<close> tells the keys of a run apart, its answers are those of a map from the keys.\<close>

lemma spec_run_inj:
  assumes "inj_on code K" "op_key ` set xs \<subseteq> K" "\<And>k. k \<in> K \<Longrightarrow> M' k = M (code k)"
  shows "spec_run code xs M = spec_run id xs M'"
  using assms(2,3)
proof (induction xs arbitrary: M M')
  case (Cons x xs)
  have k: "op_key x \<in> K" "\<And>k. k \<in> K \<Longrightarrow> code k = code (op_key x) \<longleftrightarrow> k = op_key x"
    using Cons.prems(1) assms(1) by (auto dest: inj_onD)
  then have "fst (spec_op code x M) = fst (spec_op id x M')"
    "\<And>k. k \<in> K \<Longrightarrow> snd (spec_op id x M') k = snd (spec_op code x M) (code k)"
    using Cons.prems(2) by (cases x; simp)+
  then show ?case using Cons.IH [of "snd (spec_op id x M')" "snd (spec_op code x M)"] Cons.prems(1)
    by (simp add: case_prod_beta id_def)
qed simp

section \<open>The invariant\<close>

text \<open>
  \<open>L\<close> is the list of all linked nodes and \<open>P\<close> the set of nodes allocated and not linked. Nodes
  with an odd key are the entries, those with an even key belong to the buckets that are in use.
\<close>

definition bucket_of :: "qt_hash \<Rightarrow> addr list \<Rightarrow> nat \<Rightarrow> bool" where
  "bucket_of h L i \<longleftrightarrow> hB h ! i \<in> set L \<and> nkey (he_nodes h) (hB h ! i) = so_dummykey (word_of_nat i)"

definition buckets_ok :: "qt_hash \<Rightarrow> addr list \<Rightarrow> bool" where
  "buckets_ok h L \<longleftrightarrow> length (hB h) = unat (hard_max_buckets h) \<and> hard_max_buckets h \<le> 2 ^ 31
     \<and> hsize h \<le> hard_max_buckets h \<and> (\<exists>k. hsize h = 2 ^ k \<and> 1 \<le> k \<and> k \<le> 31)
     \<and> hB h ! 0 \<noteq> 0 \<and> (\<forall>i < length (hB h). hB h ! i \<noteq> 0 \<longrightarrow> bucket_of h L i)"

definition nodes_ok :: "qt_hash \<Rightarrow> addr list \<Rightarrow> bool" where
  "nodes_ok h L \<longleftrightarrow> (\<forall>a \<in> set L.
     (bit (nkey (he_nodes h) a) 0 \<longrightarrow> nval (he_nodes h) a \<noteq> NULL) \<and>
     (\<not> bit (nkey (he_nodes h) a) 0 \<longrightarrow> nval (he_nodes h) a = NULL \<and> (\<exists>i < length (hB h). hB h ! i = a)))"

definition lf_inv :: "qt_hash \<Rightarrow> addr list \<Rightarrow> addr set \<Rightarrow> bool" where
  "lf_inv h L P \<longleftrightarrow> list_ok (he_nodes h) L \<and> finite P \<and> dom (he_nodes h) = set L \<union> P \<and> set L \<inter> P = {}
     \<and> buckets_ok h L \<and> nodes_ok h L"

definition is_entry :: "nodes \<Rightarrow> addr list \<Rightarrow> u64 \<Rightarrow> addr \<Rightarrow> bool" where
  "is_entry m L c v \<longleftrightarrow> (\<exists>a \<in> set L. nkey m a = c \<and> bit c 0 \<and> nval m a = v)"

definition lf_map :: "qt_hash \<Rightarrow> addr list \<Rightarrow> (u64 \<rightharpoonup> addr) \<Rightarrow> bool" where
  "lf_map h L M \<longleftrightarrow> (\<forall>c v. M c = Some v \<longleftrightarrow> is_entry (he_nodes h) L c v)"

lemma lf_invD:
  assumes "lf_inv h L P"
  shows "list_ok (he_nodes h) L" "sorted_keys (he_nodes h) L" "finite P" "dom (he_nodes h) = set L \<union> P"
    "set L \<inter> P = {}" "buckets_ok h L" "nodes_ok h L"
  using assms by (auto simp: lf_inv_def list_ok_def)

lemma index_word:
  assumes "buckets_ok h L" "i < length (hB h)"
  shows "(word_of_nat i :: u64) < 2 ^ 31" "unat (word_of_nat i :: u64) = i"
proof -
  have "i < 2 ^ 31" using assms by (auto simp: buckets_ok_def word_le_nat_alt)
  then show "unat (word_of_nat i :: u64) = i" by (simp add: unsigned_of_nat take_bit_nat_eq_self)
  then show "(word_of_nat i :: u64) < 2 ^ 31" using \<open>i < 2 ^ 31\<close> by (simp add: word_less_nat_alt)
qed

lemma bucket_bound:
  fixes b :: u64
  assumes "buckets_ok h L" "unat b < length (hB h)"
  shows "b < 2 ^ 31" "word_of_nat (unat b) = b"
proof -
  show e: "word_of_nat (unat b) = b" by simp
  show "b < 2 ^ 31" using index_word(1) [OF assms] unfolding e .
qed

lemma bucket_length: "buckets_ok h L \<Longrightarrow> unat (hsize h) \<le> length (hB h)"
  by (simp add: buckets_ok_def word_le_nat_alt)

text \<open>Searches start at a bucket whose key is smaller than the key searched for.\<close>

lemma start_bucket:
  assumes "lf_inv h L P" "unat b < length (hB h)" "hB h ! unat b \<noteq> 0" "so_dummykey b < key"
  shows "start_ok h L (unat b) key"
proof -
  have "bucket_of h L (unat b)" using lf_invD(6) [OF assms(1)] assms(2,3) by (simp add: buckets_ok_def)
  then show ?thesis using assms lf_invD(1) [OF assms(1)] bucket_bound(2) [OF lf_invD(6) [OF assms(1)] assms(2)]
    by (auto simp: start_ok_def bucket_of_def)
qed

text \<open>A bucket that is not in use has no node in the list.\<close>

lemma no_dummy:
  assumes "lf_inv h L P" "unat b < length (hB h)" "hB h ! unat b = 0" "a \<in> set L"
  shows "nkey (he_nodes h) a \<noteq> so_dummykey b"
proof
  assume k: "nkey (he_nodes h) a = so_dummykey b"
  note B = lf_invD(6) [OF assms(1)]
  have b: "b < 2 ^ 31" using bucket_bound [OF B assms(2)] by simp
  then have "\<not> bit (nkey (he_nodes h) a) 0" using so_dummykey_even k by simp
  then obtain i where i: "i < length (hB h)" "hB h ! i = a"
    using lf_invD(7) [OF assms(1)] assms(4) by (auto simp: nodes_ok_def)
  have "a \<noteq> 0" using assms(4) lf_invD(1) [OF assms(1)] seg_good [of _ _ L 0 a] by (auto simp: list_ok_def good_ptr_def)
  then have "so_dummykey (word_of_nat i) = so_dummykey b"
    using B i k by (auto simp: buckets_ok_def bucket_of_def)
  then have "word_of_nat i = b" using so_dummykey_inj index_word(1) [OF B i(1)] b by blast
  then have "i = unat b" using index_word(2) [OF B i(1)] by simp
  then show False using i assms(3) \<open>a \<noteq> 0\<close> by simp
qed

lemma entries_card:
  assumes "lf_inv h L P" "lf_map h L M"
  shows "dom M = nkey (he_nodes h) ` {a \<in> set L. bit (nkey (he_nodes h) a) 0}"
    "card (dom M) = card {a \<in> set L. bit (nkey (he_nodes h) a) 0}" "finite (dom M)"
proof -
  show d: "dom M = nkey (he_nodes h) ` {a \<in> set L. bit (nkey (he_nodes h) a) 0}"
    using assms(2) unfolding lf_map_def is_entry_def dom_def by auto
  then show "finite (dom M)" by simp
  show "card (dom M) = card {a \<in> set L. bit (nkey (he_nodes h) a) 0}"
    unfolding d using sorted_keys_inj [OF lf_invD(2) [OF assms(1)]] by (intro card_image) (auto intro: inj_on_subset)
qed

lemma nodes_card:
  assumes "lf_inv h L P" "lf_map h L M"
  shows "finite (dom (he_nodes h))"
    "card (dom (he_nodes h)) \<le> card (dom M) + card {i \<in> {..<length (hB h)}. hB h ! i \<noteq> 0} + card P"
proof -
  let ?k = "nkey (he_nodes h)"
  note D = lf_invD [OF assms(1)]
  show f: "finite (dom (he_nodes h))" using D by simp
  have e: "set L = {a \<in> set L. bit (?k a) 0} \<union> {a \<in> set L. \<not> bit (?k a) 0}" by auto
  have "{a \<in> set L. \<not> bit (?k a) 0} \<subseteq> (!) (hB h) ` {i \<in> {..<length (hB h)}. hB h ! i \<noteq> 0}"
  proof
    fix a assume a: "a \<in> {a \<in> set L. \<not> bit (?k a) 0}"
    then obtain i where "i < length (hB h)" "hB h ! i = a" using D(7) by (auto simp: nodes_ok_def)
    moreover have "a \<noteq> 0" using a D(1) seg_good [of _ _ L 0 a] by (auto simp: list_ok_def good_ptr_def)
    ultimately show "a \<in> (!) (hB h) ` {i \<in> {..<length (hB h)}. hB h ! i \<noteq> 0}" by auto
  qed
  then have "card {a \<in> set L. \<not> bit (?k a) 0} \<le> card {i \<in> {..<length (hB h)}. hB h ! i \<noteq> 0}"
    by (intro surj_card_le) simp_all
  moreover have "card (set L \<union> P) \<le> card (set L) + card P" by (rule card_Un_le)
  moreover have "card (set L) \<le> card {a \<in> set L. bit (?k a) 0} + card {a \<in> set L. \<not> bit (?k a) 0}"
    by (subst e) (rule card_Un_le)
  ultimately show "card (dom (he_nodes h)) \<le> card (dom M) + card {i \<in> {..<length (hB h)}. hB h ! i \<noteq> 0} + card P"
    using entries_card(2) [OF assms] D(4) by simp
qed

section \<open>Allocating, linking and unlinking nodes\<close>

definition malloc_ok :: "(nodes \<Rightarrow> addr) \<Rightarrow> nat \<Rightarrow> bool" where
  "malloc_ok malloc N \<longleftrightarrow>
     (\<forall>m. finite (dom m) \<and> card (dom m) < N \<longrightarrow> good_ptr (malloc m) \<and> m (malloc m) = None)"

text \<open>Whatever keeps the linked nodes and the buckets keeps the invariant.\<close>

lemma lf_inv_cong:
  assumes "lf_inv h L P" "\<And>a. a \<in> set L \<Longrightarrow> he_nodes h' a = he_nodes h a" "hB h' = hB h"
    "hsize h' = hsize h" "hard_max_buckets h' = hard_max_buckets h" "finite P'" "dom (he_nodes h') = set L \<union> P'"
    "set L \<inter> P' = {}"
  shows "lf_inv h' L P'" "lf_map h' L M = lf_map h L M"
proof -
  have s: "sorted_keys (he_nodes h') L = sorted_keys (he_nodes h) L" using assms(2) by (intro sorted_keys_cong) simp
  have "seg (he_nodes h') (hd0 L) L 0 = seg (he_nodes h) (hd0 L) L 0" using assms(2) by (rule seg_cong)
  moreover have "buckets_ok h' L = buckets_ok h L" using assms(2-5)
    by (auto simp: buckets_ok_def bucket_of_def)
  moreover have "nodes_ok h' L = nodes_ok h L" using assms(2,3) by (simp add: nodes_ok_def)
  ultimately show "lf_inv h' L P'" using assms s by (simp add: lf_inv_def list_ok_def)
  show "lf_map h' L M = lf_map h L M" using assms(2) by (simp add: lf_map_def is_entry_def)
qed

lemma alloc_inv:
  assumes "lf_inv h L P" "he_nodes h p = None"
  shows "lf_inv (alloc_node p n h) L (insert p P)" "lf_map (alloc_node p n h) L M = lf_map h L M"
    "p \<notin> set L" "p \<notin> P"
proof -
  note D = lf_invD [OF assms(1)]
  show p: "p \<notin> set L" "p \<notin> P" using D(4) assms(2) by (metis Un_iff domIff)+
  have c: "a \<in> set L \<Longrightarrow> he_nodes (alloc_node p n h) a = he_nodes h a" for a
    using p by (auto simp: alloc_node_def)
  have d: "dom (he_nodes (alloc_node p n h)) = set L \<union> insert p P" using D(4) by (simp add: alloc_node_def)
  show "lf_inv (alloc_node p n h) L (insert p P)" "lf_map (alloc_node p n h) L M = lf_map h L M"
    by (rule lf_inv_cong [OF assms(1) c _ _ _ _ d]; use D p in \<open>simp add: alloc_node_def\<close>)+
qed

lemma free_inv:
  assumes "lf_inv h L (insert p P)" "p \<notin> P"
  shows "lf_inv (lf_free p h) L P" "lf_map (lf_free p h) L M = lf_map h L M"
proof -
  note D = lf_invD [OF assms(1)]
  have c: "a \<in> set L \<Longrightarrow> he_nodes (lf_free p h) a = he_nodes h a" for a
    using D(5) by (auto simp: lf_free_def)
  have d: "dom (he_nodes (lf_free p h)) = set L \<union> P" using D(4,5) assms(2) by (auto simp: lf_free_def)
  show "lf_inv (lf_free p h) L P" "lf_map (lf_free p h) L M = lf_map h L M"
    by (rule lf_inv_cong [OF assms(1) c _ _ _ _ d]; use D in \<open>simp add: lf_free_def\<close>)+
qed

definition linked :: "addr \<Rightarrow> u64 \<Rightarrow> addr list \<Rightarrow> qt_hash \<Rightarrow> addr list" where
  "linked node key L h = before (he_nodes h) key L @ node # from_key (he_nodes h) key L"

lemma set_linked: "set (linked node key L h) = insert node (set L)"
  using before_from [of "he_nodes h" key L] unfolding linked_def by (metis list.simps(15) set_append Un_insert_right)

lemma link_regular:
  assumes "lf_inv h L (insert node P)" "node \<notin> P" "he_nodes h node = Some n" "he_key n = key" "bit key 0"
    and "he_value n \<noteq> NULL" "good_ptr node" "start_ok h L i key" "\<And>a. a \<in> set L \<Longrightarrow> nkey (he_nodes h) a \<noteq> key"
  shows "lf_inv (link_node node key L h) (linked node key L h) P"
    "lf_map h L M \<Longrightarrow> lf_map (link_node node key L h) (linked node key L h) (M(key \<mapsto> he_value n))"
proof -
  note D = lf_invD [OF assms(1)]
  have "list_ok (he_nodes (link_node node key L h)) (linked node key L h)" unfolding linked_def
    using D before_nonempty [OF assms(8)] assms(3,4,7,9) by (intro link_list_ok) auto
  then show "lf_inv (link_node node key L h) (linked node key L h) P"
    using D assms(2-6)
    by (auto simp: lf_inv_def set_linked link_node_simps buckets_ok_def bucket_of_def nodes_ok_def)
  show "lf_map (link_node node key L h) (linked node key L h) (M(key \<mapsto> he_value n))" if "lf_map h L M"
    using that assms(3,4,5,9)
    by (auto simp: lf_map_def is_entry_def set_linked link_node_simps) 
qed

lemma link_dummy:
  assumes "lf_inv h L (insert node P)" "node \<notin> P" "he_nodes h node = Some n" "he_key n = so_dummykey b"
    and "he_value n = NULL" "good_ptr node" "start_ok h L i (so_dummykey b)"
    and "unat b < length (hB h)" "hB h ! unat b = 0"
  shows "lf_inv (write_loc (Slot (unat b)) node (link_node node (so_dummykey b) L h)) (linked node (so_dummykey b) L h) P"
    "lf_map h L M \<Longrightarrow> lf_map (write_loc (Slot (unat b)) node (link_node node (so_dummykey b) L h))
       (linked node (so_dummykey b) L h) M"
proof -
  let ?k = "so_dummykey b"
  let ?h' = "write_loc (Slot (unat b)) node (link_node node ?k L h)"
  note D = lf_invD [OF assms(1)]
  note bb = bucket_bound [OF D(6) assms(8)]
  have e: "\<not> bit ?k 0" using bb(1) by (rule so_dummykey_even)
  have no: "\<And>a. a \<in> set L \<Longrightarrow> nkey (he_nodes h) a \<noteq> ?k" using no_dummy [OF assms(1,8,9)] .
  have l: "list_ok (he_nodes ?h') (linked node ?k L h)" unfolding linked_def he_nodes_write_loc
    using D before_nonempty [OF assms(7)] assms(3,4,6) no by (intro link_list_ok) auto
  have "unat b \<noteq> 0" using D(6) assms(9) unfolding buckets_ok_def by metis
  then have "buckets_ok ?h' (linked node ?k L h)"
    using D(6) assms(3,4,8) bb(2)
    by (auto simp: buckets_ok_def bucket_of_def set_linked link_node_simps nth_list_update)
  moreover have hB': "hB ?h' = (hB h)[unat b := node]" by (simp add: link_node_simps)
  have "nodes_ok ?h' (linked node ?k L h)"
    unfolding nodes_ok_def
  proof
    fix a assume a: "a \<in> set (linked node ?k L h)"
    show "(bit (nkey (he_nodes ?h') a) 0 \<longrightarrow> nval (he_nodes ?h') a \<noteq> NULL) \<and>
      (\<not> bit (nkey (he_nodes ?h') a) 0 \<longrightarrow> nval (he_nodes ?h') a = NULL \<and> (\<exists>i < length (hB ?h'). hB ?h' ! i = a))"
    proof (cases "a = node")
      case True
      then show ?thesis using assms(3,4,5,8) e by (auto simp: link_node_simps intro!: exI [of _ "unat b"])
    next
      case False
      then have "a \<in> set L" using a by (simp add: set_linked)
      moreover have "hB h ! i = a \<Longrightarrow> i \<noteq> unat b" for i
        using \<open>a \<in> set L\<close> D(1) assms(9) seg_good [of _ _ L 0 a] by (auto simp: list_ok_def good_ptr_def)
      then have "(\<exists>i < length (hB h). hB h ! i = a) \<Longrightarrow> (\<exists>i < length (hB ?h'). hB ?h' ! i = a)"
        unfolding hB' by (metis length_list_update nth_list_update_neq)
      ultimately show ?thesis using D(7) by (simp add: nodes_ok_def link_node_simps)
    qed
  qed
  ultimately show "lf_inv ?h' (linked node ?k L h) P"
    using D l assms(2,3) by (auto simp: lf_inv_def set_linked link_node_simps)
  show "lf_map ?h' (linked node ?k L h) M" if "lf_map h L M"
    using that assms(3,4) e by (auto simp: lf_map_def is_entry_def set_linked link_node_simps)
qed

lemma unlink_inv:
  assumes "lf_inv h L P" "start_ok h L i key" "from_key (he_nodes h) key L = z # zs" "nkey (he_nodes h) z = key" "bit key 0"
  shows "lf_inv (unlink_node z key L h) (before (he_nodes h) key L @ zs) P"
    "lf_map h L M \<Longrightarrow> lf_map (unlink_node z key L h) (before (he_nodes h) key L @ zs) (M(key := None))"
proof -
  let ?L = "before (he_nodes h) key L @ zs"
  note D = lf_invD [OF assms(1)]
  have L: "L = before (he_nodes h) key L @ z # zs" using before_from [of "he_nodes h" key L] assms(3) by simp
  have "distinct L" using D(2) by (rule sorted_keys_distinct)
  then have z: "z \<notin> set ?L" by (subst (asm) L) auto
  have sL: "set L = insert z (set ?L)" by (subst L) auto
  have odd: "\<not> bit (so_dummykey (word_of_nat j)) 0" if "j < length (hB h)" for j
    using so_dummykey_even index_word(1) [OF D(6) that] by blast
  then have nb: "bucket_of h L j \<Longrightarrow> j < length (hB h) \<Longrightarrow> hB h ! j \<noteq> z" for j
    using assms(4,5) by (auto simp: bucket_of_def)
  have "list_ok (he_nodes (unlink_node z key L h)) ?L"
    using D(1) assms(3) before_nonempty [OF assms(2)] by (rule unlink_list_ok)
  moreover have "buckets_ok (unlink_node z key L h) ?L"
    unfolding buckets_ok_def
  proof (intro conjI allI impI)
    fix j assume j: "j < length (hB (unlink_node z key L h))" "hB (unlink_node z key L h) ! j \<noteq> 0"
    then have "bucket_of h L j" using D(6) by (simp add: buckets_ok_def unlink_node_simps)
    then show "bucket_of (unlink_node z key L h) ?L j"
      using nb [of j] j sL by (auto simp: bucket_of_def unlink_node_simps)
  qed (use D(6) in \<open>simp_all add: buckets_ok_def unlink_node_simps\<close>)
  moreover have "nodes_ok (unlink_node z key L h) ?L"
    unfolding nodes_ok_def
  proof
    fix a assume a: "a \<in> set ?L"
    then have "a \<noteq> z" "a \<in> set L" using z sL by auto
    then show "(bit (nkey (he_nodes (unlink_node z key L h)) a) 0 \<longrightarrow> nval (he_nodes (unlink_node z key L h)) a \<noteq> NULL) \<and>
      (\<not> bit (nkey (he_nodes (unlink_node z key L h)) a) 0 \<longrightarrow> nval (he_nodes (unlink_node z key L h)) a = NULL
        \<and> (\<exists>i < length (hB (unlink_node z key L h)). hB (unlink_node z key L h) ! i = a))"
      using D(7) by (simp add: nodes_ok_def unlink_node_simps)
  qed
  ultimately show "lf_inv (unlink_node z key L h) ?L P"
    using D z sL by (auto simp: lf_inv_def unlink_node_simps)
  have u: "nkey (he_nodes h) a = key \<Longrightarrow> a \<in> set L \<Longrightarrow> a = z" for a
    using sorted_keys_inj [OF D(2)] assms(4) sL by (auto dest: inj_onD)
  have en: "is_entry (he_nodes (unlink_node z key L h)) ?L c v \<longleftrightarrow> c \<noteq> key \<and> is_entry (he_nodes h) L c v" for c v
  proof -
    have "a \<in> set ?L \<Longrightarrow> a \<noteq> z" for a using z by auto
    then have "is_entry (he_nodes (unlink_node z key L h)) ?L c v \<longleftrightarrow> is_entry (he_nodes h) ?L c v"
      unfolding is_entry_def by (intro bex_cong refl) (simp add: unlink_node_simps)
    also have "\<dots> \<longleftrightarrow> c \<noteq> key \<and> is_entry (he_nodes h) L c v"
      unfolding is_entry_def sL using z u sL assms(4) by blast
    finally show ?thesis .
  qed
  show "lf_map (unlink_node z key L h) ?L (M(key := None))" if "lf_map h L M"
    using that by (auto simp: lf_map_def en)
qed

end
