(* ===== verification/LC_Lf_Table.thy ===== *)
theory LC_Lf_Table
  imports LC_Lf_Map
begin

text \<open>
  The operations of the lock-free hash table keep its invariant and act on the map of its
  entries; creation, the walks over the list, and the adaptor on top of it.
\<close>

section \<open>Buckets are initialised on demand\<close>

definition same_shape :: "qt_hash \<Rightarrow> qt_hash \<Rightarrow> addr set \<Rightarrow> bool" where
  "same_shape h h' P \<longleftrightarrow> length (hB h') = length (hB h) \<and> hsize h' = hsize h \<and> hcount h' = hcount h
     \<and> hard_max_buckets h' = hard_max_buckets h \<and> (\<forall>p \<in> P. he_nodes h' p = he_nodes h p)"

lemma new_entry_simps [simp]: "he_key (new_entry k v) = k" "he_value (new_entry k v) = v"
  by (simp_all add: new_entry_def)

lemma malloc_gives:
  assumes "malloc_ok malloc N" "lf_inv h L P" "lf_map h L M" "i < length (hB h)" "hB h ! i = 0"
    and "card (dom M) + length (hB h) + card P \<le> N"
  shows "good_ptr (malloc (he_nodes h))" "he_nodes h (malloc (he_nodes h)) = None"
proof -
  have "{j \<in> {..<length (hB h)}. hB h ! j \<noteq> 0} \<subset> {..<length (hB h)}" using assms(4,5) by auto
  from psubset_card_mono [OF _ this] have "card {j \<in> {..<length (hB h)}. hB h ! j \<noteq> 0} < length (hB h)"
    by simp
  then have "card (dom (he_nodes h)) < N" using nodes_card(2) [OF assms(2,3)] assms(6) by simp
  then show "good_ptr (malloc (he_nodes h))" "he_nodes h (malloc (he_nodes h)) = None"
    using assms(1) nodes_card(1) [OF assms(2,3)] unfolding malloc_ok_def by blast+
qed

lemma add_bucket:
  assumes "malloc_ok malloc N" "lf_inv h L P" "lf_map h L M" "card (dom M) + length (hB h) + card P \<le> N"
    and "b \<noteq> 0" "unat b < length (hB h)" "hB h ! unat b = 0" "hB h ! unat (GET_PARENT b) \<noteq> 0"
  defines "d \<equiv> malloc (he_nodes h)"
  shows "\<exists>h1 h' L'. qt_lf_list_insert (Slot (unat (GET_PARENT b))) d (alloc_node d (new_entry (so_dummykey b) NULL) h)
      = Some (Inr ((True, h1), h')) \<and> lf_inv (write_loc (Slot (unat b)) d h') L' P
      \<and> lf_map (write_loc (Slot (unat b)) d h') L' M \<and> same_shape h h' P \<and> hB h' = hB h \<and> good_ptr d"
proof -
  let ?h = "alloc_node d (new_entry (so_dummykey b) NULL) h"
  have d: "good_ptr d" "he_nodes h d = None" using malloc_gives [OF assms(1-3,6,7,4)] by (simp_all add: d_def)
  note al = alloc_inv [OF assms(2) d(2)]
  have n: "he_nodes ?h d = Some (new_entry (so_dummykey b) NULL)" "hB ?h = hB h" by (simp_all add: alloc_node_def)
  have b: "b < 2 ^ 31" using bucket_bound [OF lf_invD(6) [OF assms(2)] assms(6)] by simp
  have p: "unat (GET_PARENT b) < length (hB h)"
    using GET_PARENT_less [OF assms(5)] assms(6) by (simp add: word_less_nat_alt)
  have st: "start_ok ?h L (unat (GET_PARENT b)) (so_dummykey b)"
    using al(1) p assms(8) parent_before_bucket [OF assms(5) b] n(2) by (intro start_bucket) simp_all
  have no: "\<And>a. a \<in> set L \<Longrightarrow> nkey (he_nodes ?h) a \<noteq> so_dummykey b"
    using no_dummy [OF al(1), of b] assms(6,7) n(2) by simp
  have "qt_lf_list_insert (Slot (unat (GET_PARENT b))) d ?h
      = Some (Inr ((True, hd0 (from_key (he_nodes ?h) (so_dummykey b) L)), link_node d (so_dummykey b) L ?h))"
    using found_miss [of L "he_nodes ?h" "so_dummykey b"] no by (intro insert_new [OF st n(1) _ al(3) d(1)]) simp_all
  moreover have "lf_inv (write_loc (Slot (unat b)) d (link_node d (so_dummykey b) L ?h)) (linked d (so_dummykey b) L ?h) P"
    "lf_map (write_loc (Slot (unat b)) d (link_node d (so_dummykey b) L ?h)) (linked d (so_dummykey b) L ?h) M"
    using link_dummy [OF al(1,4) n(1) _ _ d(1) st] al(2) assms(3,6,7) n(2) by simp_all
  moreover have "last (before (he_nodes ?h) (so_dummykey b) L) \<in> set L"
    using last_before(1) before_nonempty [OF st] lf_invD(1) [OF al(1)] by blast
  then have "same_shape h (link_node d (so_dummykey b) L ?h) P"
    using lf_invD(5) [OF assms(2)] al(4)
    by (auto simp: same_shape_def link_node_simps, auto simp: link_node_def set_next_def alloc_node_def)
  ultimately show ?thesis using d(1) n(2) by (metis link_node_simps(1))
qed

lemma initialize_bucket_ok:
  "malloc_ok malloc N \<Longrightarrow> lf_inv h L P \<Longrightarrow> lf_map h L M \<Longrightarrow> card (dom M) + length (hB h) + card P \<le> N
    \<Longrightarrow> unat b < length (hB h) \<Longrightarrow> hB h ! unat b = 0 \<Longrightarrow>
    \<exists>h' L'. initialize_bucket malloc b h = Some (Inr ((), h')) \<and> lf_inv h' L' P \<and> lf_map h' L' M
      \<and> same_shape h h' P \<and> hB h' ! unat b \<noteq> 0 \<and> (\<forall>i. unat b < i \<longrightarrow> hB h' ! i = hB h ! i)"
proof (induction "unat b" arbitrary: b h L rule: less_induct)
  case less
  let ?p = "GET_PARENT b"
  have b: "b \<noteq> 0" using lf_invD(6) [OF less.prems(2)] less.prems(6) by (auto simp: buckets_ok_def)
  have p: "unat ?p < unat b" using GET_PARENT_less [OF b] by (simp add: word_less_nat_alt)
  then have pl: "unat ?p < length (hB h)" using less.prems(5) by simp
  have "\<exists>h1 L1. (if hB h ! unat ?p = 0 then initialize_bucket malloc ?p h else Some (Inr ((), h))) = Some (Inr ((), h1))
      \<and> lf_inv h1 L1 P \<and> lf_map h1 L1 M \<and> same_shape h h1 P \<and> hB h1 ! unat ?p \<noteq> 0
      \<and> (\<forall>i. unat ?p < i \<longrightarrow> hB h1 ! i = hB h ! i)"
  proof (cases "hB h ! unat ?p = 0")
    case True
    then show ?thesis using less.hyps [OF p less.prems(1-4) pl True] by simp
  next
    case False
    then show ?thesis using less.prems(2,3) by (auto simp: same_shape_def)
  qed
  then obtain h1 L1 where h1: "(if hB h ! unat ?p = 0 then initialize_bucket malloc ?p h else Some (Inr ((), h))) = Some (Inr ((), h1))"
    and i1: "lf_inv h1 L1 P" "lf_map h1 L1 M" "same_shape h h1 P" "hB h1 ! unat ?p \<noteq> 0"
      "\<forall>i. unat ?p < i \<longrightarrow> hB h1 ! i = hB h ! i" by blast
  have l1: "length (hB h1) = length (hB h)" using i1(3) by (simp add: same_shape_def)
  have z: "hB h1 ! unat b = 0" using i1(5) p less.prems(6) by simp
  let ?d = "malloc (he_nodes h1)"
  obtain cur h2 L2 where h2: "qt_lf_list_insert (Slot (unat ?p)) ?d (alloc_node ?d (new_entry (so_dummykey b) NULL) h1)
      = Some (Inr ((True, cur), h2))" and i2: "lf_inv (write_loc (Slot (unat b)) ?d h2) L2 P"
      "lf_map (write_loc (Slot (unat b)) ?d h2) L2 M" "same_shape h1 h2 P" "hB h2 = hB h1" "good_ptr ?d"
    using add_bucket [OF less.prems(1) i1(1,2) _ b _ z i1(4)] less.prems(4,5) l1 by auto
  have "initialize_bucket malloc b h = Some (Inr ((), write_loc (Slot (unat b)) ?d h2))"
    by (subst initialize_bucket.simps)
      (use pl h1 h2 i2(4,5) l1 less.prems(5) in \<open>simp add: Let_def del: write_loc.simps(1)\<close>)
  moreover have "same_shape h (write_loc (Slot (unat b)) ?d h2) P"
    using i1(3) i2(3,4) by (auto simp: same_shape_def)
  moreover have "hB (write_loc (Slot (unat b)) ?d h2) ! unat b \<noteq> 0"
    using i2(4,5) l1 less.prems(5) by simp
  moreover have "\<forall>i. unat b < i \<longrightarrow> hB (write_loc (Slot (unat b)) ?d h2) ! i = hB h ! i"
    using i1(5) i2(4) p by simp
  ultimately show ?case using i2(1,2) by blast
qed

lemma ready_bucket_ok:
  assumes "malloc_ok malloc N" "lf_inv h L P" "lf_map h L M" "card (dom M) + length (hB h) + card P \<le> N"
    and "unat b < length (hB h)"
  shows "\<exists>h' L'. ready_bucket malloc b h = Some (Inr ((), h')) \<and> lf_inv h' L' P \<and> lf_map h' L' M
      \<and> same_shape h h' P \<and> hB h' ! unat b \<noteq> 0"
proof (cases "hB h ! unat b = 0")
  case True
  then show ?thesis using initialize_bucket_ok [OF assms True] assms(5) by (auto simp: ready_bucket_def)
next
  case False
  then show ?thesis using assms by (auto simp: ready_bucket_def same_shape_def)
qed

section \<open>The operations on the map\<close>

definition lf_code :: "u64 \<Rightarrow> u64" where
  "lf_code key = so_regularkey (qt_hashword key)"

definition lf_rep :: "nat \<Rightarrow> qt_hash \<Rightarrow> (u64 \<rightharpoonup> addr) \<Rightarrow> bool" where
  "lf_rep nb h M \<longleftrightarrow> length (hB h) = nb \<and> hcount h = word_of_nat (card (dom M))
     \<and> (\<exists>L. lf_inv h L {} \<and> lf_map h L M)"

lemma lf_code_odd: "bit (lf_code key) 0"
  by (simp add: lf_code_def so_regularkey_odd)

lemma count_update [simp]:
  "lf_inv (h\<lparr>hcount := x\<rparr>) L P = lf_inv h L P" "lf_map (h\<lparr>hcount := x\<rparr>) L M = lf_map h L M"
proof -
  have "buckets_ok (h\<lparr>hcount := x\<rparr>) L = buckets_ok h L" by (simp add: buckets_ok_def bucket_of_def)
  moreover have "nodes_ok (h\<lparr>hcount := x\<rparr>) L = nodes_ok h L" by (simp add: nodes_ok_def)
  ultimately show "lf_inv (h\<lparr>hcount := x\<rparr>) L P = lf_inv h L P" "lf_map (h\<lparr>hcount := x\<rparr>) L M = lf_map h L M"
    by (simp_all add: lf_inv_def lf_map_def)
qed

lemma size_update:
  assumes "lf_inv h L P" "2 * hsize h \<le> hard_max_buckets h"
  shows "lf_inv (h\<lparr>hsize := 2 * hsize h\<rparr>) L P" "lf_map (h\<lparr>hsize := x\<rparr>) L M = lf_map h L M"
proof -
  note B = lf_invD(6) [OF assms(1)]
  obtain k where k: "hsize h = 2 ^ k" "1 \<le> k" "k \<le> 31" using B by (auto simp: buckets_ok_def)
  have "\<not> k = 31"
  proof
    assume "k = 31"
    then have "2 * hsize h = 2 ^ 32" using k(1) by simp
    moreover have m: "hard_max_buckets h \<le> 2 ^ 31" using B unfolding buckets_ok_def by blast
    ultimately show False using order_trans [OF assms(2) m] by simp
  qed
  then have "2 * hsize h = 2 ^ Suc k" "Suc k \<le> 31" using k by simp_all
  then have "\<exists>k. 2 * hsize h = 2 ^ k \<and> 1 \<le> k \<and> k \<le> 31" by (intro exI [of _ "Suc k"]) simp
  moreover have "buckets_ok (h\<lparr>hsize := y\<rparr>) L" if "\<exists>k. y = 2 ^ k \<and> 1 \<le> k \<and> k \<le> 31" "y \<le> hard_max_buckets h" for y
    using that B by (simp add: buckets_ok_def bucket_of_def)
  ultimately have "buckets_ok (h\<lparr>hsize := 2 * hsize h\<rparr>) L" using assms(2) by blast
  moreover have "nodes_ok (h\<lparr>hsize := 2 * hsize h\<rparr>) L = nodes_ok h L" by (simp add: nodes_ok_def)
  ultimately show "lf_inv (h\<lparr>hsize := 2 * hsize h\<rparr>) L P" "lf_map (h\<lparr>hsize := x\<rparr>) L M = lf_map h L M"
    using assms(1) by (simp_all add: lf_inv_def lf_map_def)
qed

lemma found_map:
  assumes "lf_inv h L P" "lf_map h L M" "bit c 0"
  shows "found (he_nodes h) c (from_key (he_nodes h) c L) = value_or NULL (M c)"
proof (cases "M c")
  case None
  then have "\<And>a. a \<in> set L \<Longrightarrow> nkey (he_nodes h) a \<noteq> c" 
    using assms(2,3) unfolding lf_map_def is_entry_def by (metis option.distinct(1))
  then show ?thesis using None by (simp add: found_miss value_or_def)
next
  case (Some v)
  then obtain a where "a \<in> set L" "nkey (he_nodes h) a = c" "nval (he_nodes h) a = v"
    using assms(2) by (auto simp: lf_map_def is_entry_def)
  then show ?thesis using Some found_hit [OF lf_invD(2) [OF assms(1)]] by (simp add: value_or_def)
qed

lemma map_value: "lf_inv h L P \<Longrightarrow> lf_map h L M \<Longrightarrow> M c = Some v \<Longrightarrow> v \<noteq> NULL"
  by (auto simp: lf_map_def is_entry_def dest: lf_invD(7) simp: nodes_ok_def)

lemma key_bucket:
  assumes "lf_inv h L P"
  shows "unat (x mod hsize h) < length (hB h)" "so_dummykey (x mod hsize h) < so_regularkey x"
proof -
  obtain k where k: "hsize h = 2 ^ k" "k \<le> 31" using lf_invD(6) [OF assms] by (auto simp: buckets_ok_def)
  have "k < 64" using k(2) by simp
  then have "0 < hsize h" unfolding k(1) by (simp add: word_greater_zero_iff)
  then have "unat (x mod hsize h) < unat (hsize h)" by (simp add: word_less_nat_alt unat_mod)
  then show "unat (x mod hsize h) < length (hB h)" using bucket_length [OF lf_invD(6) [OF assms]] by simp
  show "so_dummykey (x mod hsize h) < so_regularkey x" unfolding k(1) using k(2) by (rule bucket_before_key)
qed

lemma qt_hash_get_ok:
  assumes "malloc_ok malloc N" "lf_rep nb h M" "card (dom M) + nb \<le> N"
  shows "\<exists>h'. qt_hash_get malloc key h = Some (Inr (value_or NULL (M (lf_code key)), h')) \<and> lf_rep nb h' M"
proof -
  let ?k = "qt_hashword key" let ?b = "?k mod hsize h"
  obtain L where L: "lf_inv h L {}" "lf_map h L M" using assms(2) by (auto simp: lf_rep_def)
  obtain h' L' where r: "ready_bucket malloc ?b h = Some (Inr ((), h'))" "lf_inv h' L' {}" "lf_map h' L' M"
    "same_shape h h' {}" "hB h' ! unat ?b \<noteq> 0"
    using ready_bucket_ok [OF assms(1) L, of ?b] key_bucket(1) [OF L(1)] assms(2,3) by (auto simp: lf_rep_def)
  have "start_ok h' L' (unat ?b) (so_regularkey ?k)"
    using r key_bucket [OF L(1), of ?k] by (intro start_bucket) (auto simp: same_shape_def)
  then have "qt_hash_get malloc key h = Some (Inr (value_or NULL (M (lf_code key)), h'))"
    using find_ok [of h' L' "unat ?b" "so_regularkey ?k"] r(1) found_map [OF r(2,3) lf_code_odd]
    by (auto simp: qt_hash_get_def Let_def lf_code_def)
  moreover have "lf_rep nb h' M" using assms(2) r by (auto simp: lf_rep_def same_shape_def)
  ultimately show ?thesis by blast
qed

lemma qt_hash_remove_ok:
  assumes "malloc_ok malloc N" "lf_rep nb h M" "card (dom M) + nb \<le> N"
  shows "\<exists>h'. qt_hash_remove malloc key h = Some (Inr (M (lf_code key) \<noteq> None, h')) \<and> lf_rep nb h' (M(lf_code key := None))"
proof -
  let ?k = "qt_hashword key" let ?b = "?k mod hsize h" let ?c = "lf_code key"
  obtain L where L: "lf_inv h L {}" "lf_map h L M" using assms(2) by (auto simp: lf_rep_def)
  obtain h' L' where r: "ready_bucket malloc ?b h = Some (Inr ((), h'))" "lf_inv h' L' {}" "lf_map h' L' M"
    "same_shape h h' {}" "hB h' ! unat ?b \<noteq> 0"
    using ready_bucket_ok [OF assms(1) L, of ?b] key_bucket(1) [OF L(1)] assms(2,3) by (auto simp: lf_rep_def)
  have st: "start_ok h' L' (unat ?b) ?c"
    using r key_bucket [OF L(1), of ?k] by (intro start_bucket) (auto simp: same_shape_def lf_code_def)
  have cnt: "hcount h' = word_of_nat (card (dom M))" "length (hB h') = nb" using assms(2) r(4) by (auto simp: lf_rep_def same_shape_def)
  show ?thesis
  proof (cases "M ?c")
    case None
    then have "found (he_nodes h') ?c (from_key (he_nodes h') ?c L') = NULL"
      using found_map [OF r(2,3) lf_code_odd] by (simp add: value_or_def)
    then have "qt_hash_remove malloc key h = Some (Inr (False, h'))"
      using delete_miss [OF st] r(1) by (simp add: qt_hash_remove_def Let_def lf_code_def)
    moreover have "M(?c := None) = M" using None by auto
    ultimately show ?thesis using None cnt r(2,3) by (auto simp: lf_rep_def)
  next
    case (Some v)
    then obtain a where a: "a \<in> set L'" "nkey (he_nodes h') a = ?c" "nval (he_nodes h') a = v"
      using r(3) by (auto simp: lf_map_def is_entry_def)
    then obtain zs where z: "from_key (he_nodes h') ?c L' = a # zs"
      using from_key_hit [OF lf_invD(2) [OF r(2)]] by blast
    have "v \<noteq> NULL" using map_value [OF r(2,3) Some] .
    then have "qt_hash_remove malloc key h = Some (Inr (True, (unlink_node a ?c L' h')\<lparr>hcount := hcount h' - 1\<rparr>))"
      using delete_hit [OF st z a(2)] a(3) r(1)
      by (simp add: qt_hash_remove_def Let_def lf_code_def unlink_node_simps)
    moreover have "lf_rep nb ((unlink_node a ?c L' h')\<lparr>hcount := hcount h' - 1\<rparr>) (M(?c := None))"
    proof -
      let ?h = "unlink_node a ?c L' h'" let ?L = "before (he_nodes h') ?c L' @ zs"
      note u = unlink_inv [OF r(2) st z a(2) lf_code_odd]
      have "lf_inv (?h\<lparr>hcount := hcount h' - 1\<rparr>) ?L {}" "lf_map (?h\<lparr>hcount := hcount h' - 1\<rparr>) ?L (M(?c := None))"
        using u(1) u(2) [OF r(3)] by simp_all
      moreover have "card (dom M) = Suc (card (dom (M(?c := None))))"
        using Some entries_card(3) [OF r(2,3)] card_Suc_Diff1 [of "dom M" ?c] by (simp add: domI)
      ultimately show ?thesis using cnt by (auto simp: lf_rep_def unlink_node_simps)
    qed
    ultimately show ?thesis using Some by auto
  qed
qed

lemma qt_hash_put_ok:
  assumes "malloc_ok malloc N" "lf_rep nb h M" "card (dom M) + nb < N" "v \<noteq> NULL"
  shows "\<exists>h'. qt_hash_put malloc key v h = Some (Inr (value_or v (M (lf_code key)), h'))
    \<and> lf_rep nb h' (M(lf_code key \<mapsto> value_or v (M (lf_code key))))"
proof -
  let ?k = "qt_hashword key" let ?b = "?k mod hsize h" let ?c = "lf_code key"
  let ?node = "malloc (he_nodes h)" let ?n = "new_entry ?c v"
  obtain L where L: "lf_inv h L {}" "lf_map h L M" and nb: "length (hB h) = nb" "hcount h = word_of_nat (card (dom M))"
    using assms(2) by (auto simp: lf_rep_def)
  have "{j \<in> {..<length (hB h)}. hB h ! j \<noteq> 0} \<subseteq> {..<length (hB h)}" by blast
  from card_mono [OF _ this] have "card {j \<in> {..<length (hB h)}. hB h ! j \<noteq> 0} \<le> length (hB h)" by simp
  then have "card (dom (he_nodes h)) < N" using assms(3) nodes_card(2) [OF L] nb(1) by simp
  then have node: "good_ptr ?node" "he_nodes h ?node = None"
    using assms(1) nodes_card(1) [OF L] unfolding malloc_ok_def by blast+
  note al = alloc_inv [OF L(1) node(2)]
  let ?h0 = "alloc_node ?node ?n h"
  have h0: "hB ?h0 = hB h" "hsize ?h0 = hsize h" "hcount ?h0 = hcount h" "he_nodes ?h0 ?node = Some ?n"
    by (simp_all add: alloc_node_def)
  obtain h' L' where r: "ready_bucket malloc ?b ?h0 = Some (Inr ((), h'))" "lf_inv h' L' {?node}" "lf_map h' L' M"
    "same_shape ?h0 h' {?node}" "hB h' ! unat ?b \<noteq> 0"
    using ready_bucket_ok [OF assms(1) al(1), of ?n M ?b] key_bucket(1) [OF L(1), of ?k] assms(3) h0(1) nb L(2) al(2) by auto
  have st: "start_ok h' L' (unat ?b) ?c"
    using r key_bucket [OF L(1), of ?k] h0 by (intro start_bucket) (auto simp: same_shape_def lf_code_def)
  have n: "he_nodes h' ?node = Some ?n" "?node \<notin> set L'" using r(4) h0(4) lf_invD(5) [OF r(2)] by (auto simp: same_shape_def)
  have cnt: "hcount h' = word_of_nat (card (dom M))" "length (hB h') = nb" using nb h0 r(4) by (auto simp: same_shape_def)
  have put: "qt_hash_put malloc key v h = bind_run (qt_lf_list_insert (Slot (unat ?b)) ?node h') (\<lambda>((ins, rs), h).
      if \<not> ins then (case he_nodes (lf_free ?node h) (PTR_OF rs) of
          None \<Rightarrow> Some (Inl Null_deref) | Some n \<Rightarrow> Some (Inr (he_value n, lf_free ?node h)))
      else Some (Inr (v, if hcount h div hsize h > MAX_LOAD \<and> 2 * hsize h \<le> hard_max_buckets h
                         then h\<lparr>hcount := hcount h + 1, hsize := 2 * hsize h\<rparr> else h\<lparr>hcount := hcount h + 1\<rparr>)))"
    using node(1) r(1) qt_hashword_MSB by (simp add: qt_hash_put_def Let_def lf_code_def cong: if_cong)
  note fm = found_map [OF r(2,3) lf_code_odd, of key]
  show ?thesis
  proof (cases "M ?c")
    case None
    then have none: "\<And>a. a \<in> set L' \<Longrightarrow> nkey (he_nodes h') a \<noteq> ?c"
      using r(3) lf_code_odd unfolding lf_map_def is_entry_def by (metis option.distinct(1))
    let ?h = "link_node ?node ?c L' h'"
    let ?h1 = "?h\<lparr>hcount := hcount h' + 1\<rparr>"
    let ?h2 = "if hcount h' div hsize h' > MAX_LOAD \<and> 2 * hsize h' \<le> hard_max_buckets h'
               then ?h1\<lparr>hsize := 2 * hsize h'\<rparr> else ?h1"
    have "qt_lf_list_insert (Slot (unat ?b)) ?node h' = Some (Inr ((True, hd0 (from_key (he_nodes h') ?c L')), ?h))"
      using fm None by (intro insert_new [OF st n(1) _ n(2) node(1)]) (simp_all add: value_or_def)
    then have res: "qt_hash_put malloc key v h = Some (Inr (v, ?h2))" unfolding put by (simp add: link_node_simps)
    have li: "lf_inv ?h (linked ?node ?c L' h') {}" "lf_map ?h (linked ?node ?c L' h') (M(?c \<mapsto> v))"
      using link_regular [OF r(2) _ n(1) _ lf_code_odd _ node(1) st none] r(3) assms(4) by simp_all
    have "card (dom (M(?c \<mapsto> v))) = Suc (card (dom M))"
      using None entries_card(3) [OF r(2,3)] by (simp add: domIff)
    moreover have "lf_inv ?h2 (linked ?node ?c L' h') {} \<and> lf_map ?h2 (linked ?node ?c L' h') (M(?c \<mapsto> v))"
      using li size_update [of ?h1 "linked ?node ?c L' h'" "{}"] by (simp add: link_node_simps)
    ultimately have "lf_rep nb ?h2 (M(?c \<mapsto> v))"
      using cnt unfolding lf_rep_def by (auto simp: link_node_simps)
    then show ?thesis using res None by (auto simp: value_or_def)
  next
    case (Some w)
    then obtain a where a: "a \<in> set L'" "nkey (he_nodes h') a = ?c" "nval (he_nodes h') a = w"
      using r(3) by (auto simp: lf_map_def is_entry_def)
    then obtain zs where z: "from_key (he_nodes h') ?c L' = a # zs"
      using from_key_hit [OF lf_invD(2) [OF r(2)]] by blast
    have "w \<noteq> NULL" using map_value [OF r(2,3) Some] .
    then have "qt_lf_list_insert (Slot (unat ?b)) ?node h' = Some (Inr ((False, a), h'))"
      using insert_old [OF st n(1)] fm Some z by (simp add: value_or_def)
    moreover have "good_ptr a" "he_nodes h' a \<noteq> None" "a \<noteq> ?node"
      using a(1) n(2) lf_invD(1) [OF r(2)] seg_good by (auto simp: list_ok_def)
    ultimately have "qt_hash_put malloc key v h = Some (Inr (w, lf_free ?node h'))"
      unfolding put using a(3) by (auto simp: lf_free_def)
    moreover have "lf_rep nb (lf_free ?node h') M"
      using free_inv [OF r(2)] r(3) cnt by (auto simp: lf_rep_def lf_free_def)
    moreover have "M(?c \<mapsto> w) = M" using Some by auto
    ultimately show ?thesis using Some by (simp add: value_or_def)
  qed
qed

section \<open>Creation\<close>

lemma qt_hash_create_ok:
  assumes "malloc_ok malloc N" "0 < N" "16 \<le> pagesize" "pagesize \<le> 2 ^ 34"
  shows "\<exists>h. qt_hash_create malloc pagesize 0 = Inr h \<and> lf_rep (unat pagesize div 8) h Map.empty"
proof -
  let ?m = "pagesize div 8" let ?d = "malloc Map.empty"
  have d: "good_ptr ?d" using assms(1,2) unfolding malloc_ok_def by (metis card.empty dom_empty finite.emptyI)
  have u: "unat ?m = unat pagesize div 8" by (simp add: unat_div)
  have m: "2 \<le> ?m" "?m \<le> 2 ^ 31"
    using assms(3,4) by (simp_all add: word_le_nat_alt u)
  define h where "h = \<lparr>he_nodes = [?d \<mapsto> new_entry 0 NULL], hB = (replicate (unat ?m) UNINITIALIZED)[0 := CONSTRUCT 0 ?d],
      hcount = 0, hsize = 2, hard_max_buckets = ?m\<rparr>"
  have l: "2 \<le> unat ?m" using m(1) by (simp add: word_le_nat_alt)
  have "?m \<noteq> 0" using l by auto
  then have "qt_hash_create malloc pagesize 0 = Inr h" using d by (simp add: qt_hash_create_def h_def Let_def)
  moreover have "lf_inv h [?d] {}"
  proof -
    have "list_ok (he_nodes h) [?d]" using d by (simp add: list_ok_def sorted_keys_def h_def new_entry_def)
    moreover have "nodes_ok h [?d]" using d l by (auto simp: nodes_ok_def h_def intro!: exI [of _ 0])
    moreover have "buckets_ok h [?d]"
    proof -
      have "\<exists>k. hsize h = 2 ^ k \<and> 1 \<le> k \<and> k \<le> 31" by (rule exI [of _ 1]) (simp add: h_def)
      moreover have "bucket_of h [?d] i" if "i < length (hB h)" "hB h ! i \<noteq> 0" for i
        using that d l by (cases "i = 0") (auto simp: h_def bucket_of_def)
      ultimately show ?thesis using m l d by (simp add: buckets_ok_def h_def)
    qed
    ultimately show ?thesis by (simp add: lf_inv_def h_def)
  qed
  moreover have "lf_map h [?d] Map.empty" by (auto simp: lf_map_def is_entry_def h_def)
  ultimately show ?thesis using u unfolding lf_rep_def by (auto simp: h_def)
qed

section \<open>The table is a bounded map\<close>

lemma lf_bounded_map:
  assumes "malloc_ok malloc (nb + cp)"
  shows "bounded_map (qt_hash_put malloc) (qt_hash_get malloc) (qt_hash_remove malloc) (lf_rep nb) lf_code cp"
proof
  show "\<exists>t'. qt_hash_put malloc k v t = Some (Inr (value_or v (M (lf_code k)), t'))
      \<and> lf_rep nb t' (M(lf_code k \<mapsto> value_or v (M (lf_code k))))"
    if "lf_rep nb t M" "v \<noteq> NULL" "card (dom M) < cp" for t M v k
    using qt_hash_put_ok [OF assms that(1)] that by simp
  show "\<exists>t'. qt_hash_get malloc k t = Some (Inr (value_or NULL (M (lf_code k)), t')) \<and> lf_rep nb t' M"
    if "lf_rep nb t M" "card (dom M) \<le> cp" for t M k
    using qt_hash_get_ok [OF assms that(1)] that by simp
  show "\<exists>t'. qt_hash_remove malloc k t = Some (Inr (M (lf_code k) \<noteq> None, t')) \<and> lf_rep nb t' (M(lf_code k := None))"
    if "lf_rep nb t M" "card (dom M) \<le> cp" for t M k
    using qt_hash_remove_ok [OF assms that(1)] that by simp
  show "finite (dom M)" if "lf_rep nb t M" for t M
    using that entries_card(3) by (auto simp: lf_rep_def)
qed

text \<open>An allocator that takes the first free block of an arena of \<open>n\<close> blocks of 32 bytes.\<close>

definition first_fit :: "nat \<Rightarrow> nodes \<Rightarrow> addr" where
  "first_fit n m =
     (case find (\<lambda>a. m a = None) (map (\<lambda>i. word_of_nat (32 * Suc i)) [0..<n]) of
        None \<Rightarrow> NULL | Some a \<Rightarrow> a)"

lemma block_ok:
  assumes "i < 2 ^ 58"
  shows "unat (word_of_nat (32 * Suc i) :: addr) = 32 * Suc i" "good_ptr (word_of_nat (32 * Suc i))"
proof -
  have "32 * Suc i < 2 ^ 64" using assms by simp
  then show u: "unat (word_of_nat (32 * Suc i) :: addr) = 32 * Suc i"
    by (simp only: unsigned_of_nat) (simp add: take_bit_nat_eq_self)
  have "(word_of_nat (32 * Suc i) :: addr) \<noteq> 0" using u by (metis nat.distinct(1) mult_eq_0_iff unat_0 zero_neq_numeral)
  moreover have "even (word_of_nat (32 * Suc i) :: addr)" by (simp only: of_nat_mult) simp
  ultimately show "good_ptr (word_of_nat (32 * Suc i))" by (simp add: good_ptr_def bit_0)
qed

lemma first_fit_ok:
  assumes "n \<le> 2 ^ 58"
  shows "malloc_ok (first_fit n) n"
  unfolding malloc_ok_def
proof (intro allI impI)
  fix m :: nodes
  assume m: "finite (dom m) \<and> card (dom m) < n"
  let ?f = "\<lambda>i. word_of_nat (32 * Suc i) :: addr"
  have "inj_on ?f {..<n}"
  proof (rule inj_onI)
    fix i j assume ij: "i \<in> {..<n}" "j \<in> {..<n}" and "?f i = ?f j"
    then have "unat (?f i) = unat (?f j)" by (rule_tac arg_cong)
    moreover have "i < 2 ^ 58" "j < 2 ^ 58" using ij assms by auto
    ultimately have "32 * Suc i = 32 * Suc j" by (simp only: block_ok(1))
    then show "i = j" by simp
  qed
  then have "card (?f ` {..<n}) = n" by (simp add: card_image)
  then have "\<not> ?f ` {..<n} \<subseteq> dom m" using m card_mono [of "dom m" "?f ` {..<n}"] by auto
  then obtain i where "i < n" "m (?f i) = None" by auto
  then have "find (\<lambda>a. m a = None) (map ?f [0..<n]) \<noteq> None" by (auto simp: find_None_iff)
  then obtain a where a: "find (\<lambda>a. m a = None) (map ?f [0..<n]) = Some a" by blast
  then have "m a = None" "a \<in> ?f ` {..<n}" by (auto simp: find_Some_iff)
  then show "good_ptr (first_fit n m) \<and> m (first_fit n m) = None"
    using a block_ok(2) assms by (auto simp: first_fit_def)
qed

text \<open>A table of 512 buckets, those of a page of 4096 bytes, with room for a million entries.\<close>

interpretation lf_million: bounded_map "qt_hash_put (first_fit (512 + 1000000))" "qt_hash_get (first_fit (512 + 1000000))"
  "qt_hash_remove (first_fit (512 + 1000000))" "lf_rep 512" lf_code 1000000
  by (rule lf_bounded_map, rule first_fit_ok) simp

section \<open>Walks over the list\<close>

lemma first_bucket:
  assumes "lf_inv h L P"
  shows "read_loc (Slot 0) h = Inr (hd0 L)"
proof -
  note D = lf_invD [OF assms]
  have "0 < length (hB h)" using key_bucket(1) [OF assms, of 0] by simp
  moreover from this have b: "hB h ! 0 \<in> set L" "nkey (he_nodes h) (hB h ! 0) = 0"
    using D(6) by (auto simp: buckets_ok_def bucket_of_def)
  moreover have "hB h ! 0 = hd0 L"
  proof (cases L)
    case (Cons x xs)
    then show ?thesis using b D(2) word_not_simps(1) by (fastforce simp: sorted_keys_def)
  qed (use b in simp)
  ultimately show ?thesis by simp
qed

definition entry_calls :: "nodes \<Rightarrow> addr list \<Rightarrow> (u64 \<times> addr) list" where
  "entry_calls m xs = map (\<lambda>a. (REVERSE (nkey m a XOR 1), nval m a)) (filter (\<lambda>a. bit (nkey m a) 0) xs)"

lemma odd_and_one: "x AND 1 \<noteq> 0 \<longleftrightarrow> bit x 0" for x :: u64
  by (simp add: and_one_eq bit_0 odd_iff_mod_2_eq_one)

lemma callback_loop_ok:
  "seg (he_nodes h) p xs 0 \<Longrightarrow> callback_loop p h acc = Some (Inr (acc @ entry_calls (he_nodes h) xs))"
proof (induction xs arbitrary: p acc)
  case Nil
  then show ?case by (subst callback_loop.simps) (simp add: entry_calls_def)
next
  case (Cons a xs)
  then obtain n where n: "p = a" "good_ptr a" "he_nodes h a = Some n" "seg (he_nodes h) (he_next n) xs 0" by auto
  then show ?case using Cons.IH [OF n(4)]
    by (subst callback_loop.simps) (simp add: entry_calls_def odd_and_one)
qed

lemma destroy_loop_ok:
  "seg (he_nodes h) p xs 0 \<Longrightarrow> distinct xs \<Longrightarrow>
    \<exists>h'. destroy_loop p h acc = Some (Inr (acc @ map PTR_OF (tl xs @ (if xs = [] then [] else [0])), h'))
      \<and> he_nodes h' = (\<lambda>a. if a \<in> set xs then None else he_nodes h a)"
proof (induction xs arbitrary: p h acc)
  case Nil
  then show ?case by (subst destroy_loop.simps) simp
next
  case (Cons a xs)
  then obtain n where n: "p = a" "good_ptr a" "he_nodes h a = Some n" "seg (he_nodes h) (he_next n) xs 0" by auto
  let ?h = "lf_free a h"
  have "seg (he_nodes ?h) (he_next n) xs 0 = seg (he_nodes h) (he_next n) xs 0"
    using Cons.prems(2) by (intro seg_cong) (auto simp: lf_free_def)
  then obtain h' where h': "destroy_loop (he_next n) ?h (acc @ [PTR_OF (he_next n)])
      = Some (Inr ((acc @ [PTR_OF (he_next n)]) @ map PTR_OF (tl xs @ (if xs = [] then [] else [0])), h'))"
      "he_nodes h' = (\<lambda>a. if a \<in> set xs then None else he_nodes ?h a)"
    using Cons.IH [of ?h "he_next n" "acc @ [PTR_OF (he_next n)]"] n(4) Cons.prems(2) by auto
  have "destroy_loop p h acc = destroy_loop (he_next n) ?h (acc @ [PTR_OF (he_next n)])"
    using n by (subst destroy_loop.simps) simp
  then show ?case using h' seg_hd [OF n(4)] by (cases xs) (auto simp: fun_eq_iff lf_free_def)
qed

end
