(* ===== verification/LC_Lf_Spec.thy ===== *)
theory LC_Lf_Spec
  imports LC_Lf_Table
begin

text \<open>The properties of the lock-free hash table as a whole.\<close>

abbreviation lf_run :: "(nodes \<Rightarrow> addr) \<Rightarrow> u64 map_op list \<Rightarrow> qt_hash \<Rightarrow> (addr list \<times> qt_hash) run" where
  "lf_run malloc \<equiv> run_ops (qt_hash_put malloc) (qt_hash_get malloc) (qt_hash_remove malloc)"

lemma lf_run_ok:
  assumes "malloc_ok malloc (nb + length ops)" "list_all op_ok ops" "lf_rep nb h Map.empty"
  shows "\<exists>h'. lf_run malloc ops h = Some (Inr (spec_run lf_code ops Map.empty, h'))"
proof -
  have "card (dom (Map.empty :: u64 \<rightharpoonup> addr)) + length ops \<le> length ops" by simp
  then show ?thesis
    using bounded_map.run_refines [of "qt_hash_put malloc" "qt_hash_get malloc" "qt_hash_remove malloc" "lf_rep nb"
        lf_code "length ops" h Map.empty ops] lf_bounded_map [OF assms(1)] assms(2,3) by blast
qed

section \<open>The table is a map\<close>

text \<open>
  Property C9. A table is created, and any sequence of insertions, look-ups and removals on it returns
  the answers of the same sequence on a map, as long as the hashes of the keys differ in their low
  32 bits, no value is \<open>NULL\<close> and there is memory for the entries and one node per bucket. In
  particular every call returns, whatever buckets it initialises on the way and however often the
  table grows.
\<close>

theorem lf_hash_refines_map:
  assumes "malloc_ok malloc (unat pagesize div 8 + length ops)" "16 \<le> pagesize" "pagesize \<le> 2 ^ 34"
    and "list_all op_ok ops" "inj_on lf_code (op_key ` set ops)"
  shows "\<exists>h h'. qt_hash_create malloc pagesize 0 = Inr h
    \<and> lf_run malloc ops h = Some (Inr (spec_run id ops Map.empty, h'))"
proof -
  have "2 \<le> unat pagesize div 8" using assms(2) by (simp add: word_le_nat_alt)
  then obtain h where h: "qt_hash_create malloc pagesize 0 = Inr h" "lf_rep (unat pagesize div 8) h Map.empty"
    using qt_hash_create_ok [OF assms(1) _ assms(2,3)] by auto
  then obtain h' where "lf_run malloc ops h = Some (Inr (spec_run lf_code ops Map.empty, h'))"
    using lf_run_ok [OF assms(1,4)] by blast
  moreover have "spec_run lf_code ops Map.empty = spec_run id ops Map.empty"
    by (rule spec_run_inj [OF assms(5)]) simp_all
  ultimately show ?thesis using h(1) by auto
qed

text \<open>Three operations on one key and one on another.\<close>

definition ex_ops :: "u64 map_op list" where
  "ex_ops = [Put 7 5, Put 42 9, Put 7 6, Remove 42, Get 42, Get 7]"

lemma ex_keys: "lf_code 7 \<noteq> lf_code 42"
  by code_simp

theorem lf_hash_refines_map_witness:
  "\<exists>h h'. qt_hash_create (first_fit (512 + 6)) 4096 0 = Inr h
    \<and> lf_run (first_fit (512 + 6)) ex_ops h = Some (Inr ([5, 9, 5, 1, 0, 5], h'))"
proof -
  have "malloc_ok (first_fit (512 + 6)) (unat (4096 :: u64) div 8 + length ex_ops)"
    using first_fit_ok [of "512 + 6"] by (simp add: ex_ops_def)
  moreover have "inj_on lf_code (op_key ` set ex_ops)" using ex_keys by (auto simp: ex_ops_def inj_on_def)
  moreover have "list_all op_ok ex_ops" by (simp add: ex_ops_def)
  moreover have "spec_run id ex_ops Map.empty = [5, 9, 5, 1, 0, 5]" by (simp add: ex_ops_def value_or_def)
  ultimately show ?thesis using lf_hash_refines_map [of "first_fit (512 + 6)" 4096 ex_ops] by simp
qed

section \<open>Keys that are confused\<close>

lemma colliding_keys: "lf_code 116421 = lf_code 142339"
  by code_simp



section \<open>Listing and destroying a table\<close>

text \<open>The callback is called once for every entry. It does not get the key but the low half of its hash.\<close>

lemma qt_hash_callback_ok:
  assumes "lf_rep nb h M"
  shows "\<exists>calls. qt_hash_callback h = Some (Inr calls) \<and> distinct calls
    \<and> set calls = {(REVERSE (c XOR 1), v) | c v. M c = Some v}"
proof -
  obtain L where L: "lf_inv h L {}" "lf_map h L M" using assms by (auto simp: lf_rep_def)
  let ?m = "he_nodes h"
  have s: "sorted_keys ?m L" "seg ?m (hd0 L) L 0" using lf_invD(1) [OF L(1)] by (auto simp: list_ok_def)
  have "inj_on (\<lambda>a. (REVERSE (nkey ?m a XOR 1), nval ?m a)) (set L)"
  proof (rule inj_onI)
    fix a b assume ab: "a \<in> set L" "b \<in> set L" and e: "(REVERSE (nkey ?m a XOR 1), nval ?m a) = (REVERSE (nkey ?m b XOR 1), nval ?m b)"
    have "nkey ?m a = (nkey ?m a XOR 1) XOR 1" by (simp add: xor.assoc)
    also have "\<dots> = nkey ?m b" using e by (simp add: xor.assoc)
    finally show "a = b" using sorted_keys_inj [OF s(1)] ab by (auto dest: inj_onD)
  qed
  then have "distinct (entry_calls ?m L)" using sorted_keys_distinct [OF s(1)]
    by (auto simp: entry_calls_def distinct_map intro: inj_on_subset)
  moreover have "set (entry_calls ?m L) = {(REVERSE (c XOR 1), v) | c v. M c = Some v}"
    using L(2) by (auto simp: entry_calls_def lf_map_def is_entry_def)
  moreover have "qt_hash_callback h = Some (Inr (entry_calls ?m L))"
    using callback_loop_ok [OF s(2), of "[]"] first_bucket [OF L(1)] by (simp add: qt_hash_callback_def del: read_loc.simps)
  ultimately show ?thesis by blast
qed

text \<open>Destroying a table frees every node, those of the buckets too.\<close>

lemma qt_hash_destroy_ok:
  assumes "lf_rep nb h M"
  shows "\<exists>h'. qt_hash_destroy h = Some (Inr ((), h')) \<and> he_nodes h' = Map.empty"
proof -
  obtain L where L: "lf_inv h L {}" using assms by (auto simp: lf_rep_def)
  have s: "seg (he_nodes h) (hd0 L) L 0" "distinct L"
    using lf_invD(1,2) [OF L] sorted_keys_distinct by (auto simp: list_ok_def)
  have "(\<lambda>a. if a \<in> set L then None else he_nodes h a) = Map.empty"
    using lf_invD(4) [OF L] by (auto simp: fun_eq_iff domIff)
  then show ?thesis using destroy_loop_ok [OF s, of "[]"] first_bucket [OF L]
    by (auto simp: qt_hash_destroy_def qt_hash_destroy_deallocate_def simp del: read_loc.simps)
qed

section \<open>The adaptor\<close>

text \<open>An entry waits in the table or meets the one that waits under its key and takes it out.\<close>

lemma lf_hashtbl_insert_ok:
  assumes "malloc_ok malloc N" "lf_rep nb h M" "card (dom M) + nb < N" "v \<noteq> NULL" "M (lf_code key) \<noteq> Some v"
  shows "\<exists>h'. lf_hashtbl_insert malloc key v h =
      Some (Inr (case M (lf_code key) of None \<Rightarrow> (True, v) | Some w \<Rightarrow> (False, w), h'))
    \<and> lf_rep nb h' (M(lf_code key := (case M (lf_code key) of None \<Rightarrow> Some v | Some w \<Rightarrow> None)))"
proof (cases "M (lf_code key)")
  case None
  then show ?thesis using qt_hash_put_ok [OF assms(1-4), of key] by (auto simp: lf_hashtbl_insert_def value_or_def)
next
  case (Some w)
  then have m: "M(lf_code key \<mapsto> w) = M" by auto
  obtain h1 where h1: "qt_hash_put malloc key v h = Some (Inr (w, h1))" "lf_rep nb h1 M"
    using qt_hash_put_ok [OF assms(1-4), of key] Some m by (auto simp: value_or_def)
  then show ?thesis using qt_hash_remove_ok [OF assms(1) h1(2), of key] assms(3,5) Some
    by (auto simp: lf_hashtbl_insert_def)
qed

end
