(* ===== verification/LC_Psm2.thy ===== *)
theory LC_Psm2
  imports LC_Ibv LC_Strings LC_Ibv_Init
begin

text \<open>
  The Omni-Path device of \<open>src/include/server/server_psm2.h\<close>: which message each operation hands to
  the matched queue of the PSM2 library and under which tag, what the progress function does with a
  completion, registration by posting a receive, and the start of the device. The library itself is
  outside: calls of it are a log, what it answers is an argument. The four functions through which a
  device calls the protocol engine, declared in \<open>src/include/server/server.h\<close>, are a record of
  functions here, since the theory of the engine is the one of the build for InfiniBand.
\<close>

section \<open>Tags and contexts\<close>

record psm_tag =
  tag0 :: u32
  tag1 :: u32
  tag2 :: u32

definition PSM_RECV_DATA :: u32 where "PSM_RECV_DATA = push_bit 28 1"
definition PSM_RECV_RDMA :: u32 where "PSM_RECV_RDMA = push_bit 28 2"
definition PSM_RECV_RDMA_SID :: u32 where "PSM_RECV_RDMA_SID = push_bit 28 3"
definition PSM_RECV_RDMA_RTP :: u32 where "PSM_RECV_RDMA_RTP = push_bit 28 4"
definition PSM_RDMA_IMM :: u32 where "PSM_RDMA_IMM = push_bit 31 1"
definition PSM_RECV :: u64 where "PSM_RECV = push_bit 62 1"
definition PSM_SEND :: u64 where "PSM_SEND = push_bit 63 1"

definition LCI_PSM2_TAGSEL :: psm_tag where
  "LCI_PSM2_TAGSEL = \<lparr>tag0 = 0, tag1 = 0, tag2 = 0x0FFFFFFF\<rparr>"

definition PSM_TAG_TRECV_DATA :: psm_tag where
  "PSM_TAG_TRECV_DATA = \<lparr>tag0 = 0, tag1 = 0, tag2 = PSM_RECV_DATA\<rparr>"

definition PSM_TAG_TSEND_DATA :: "u32 \<Rightarrow> u32 \<Rightarrow> psm_tag" where
  "PSM_TAG_TSEND_DATA proto rank = \<lparr>tag0 = proto, tag1 = rank, tag2 = PSM_RECV_DATA\<rparr>"

definition PSM_TAG_SRDMA :: "u32 \<Rightarrow> psm_tag" where
  "PSM_TAG_SRDMA offset = \<lparr>tag0 = offset, tag1 = 0, tag2 = PSM_RECV_RDMA\<rparr>"

definition PSM_TAG_SRDMA_META :: "u32 \<Rightarrow> u32 \<Rightarrow> psm_tag" where
  "PSM_TAG_SRDMA_META offset meta = \<lparr>tag0 = offset, tag1 = meta, tag2 = PSM_RECV_RDMA_SID\<rparr>"

definition PSM_TAG_SRDMA_RTS :: "u32 \<Rightarrow> u32 \<Rightarrow> psm_tag" where
  "PSM_TAG_SRDMA_RTS offset rkey = \<lparr>tag0 = offset, tag1 = rkey, tag2 = PSM_RECV_RDMA_RTP\<rparr>"

definition PSM_TAG_SRDMA_DAT :: "u32 \<Rightarrow> psm_tag" where
  "PSM_TAG_SRDMA_DAT rkey = \<lparr>tag0 = 0, tag1 = 0, tag2 = rkey\<rparr>"

definition PSM_TAG_SRDMA_DAT_META :: "u32 \<Rightarrow> u32 \<Rightarrow> psm_tag" where
  "PSM_TAG_SRDMA_DAT_META rkey meta = \<lparr>tag0 = 1, tag1 = meta, tag2 = rkey\<rparr>"

definition PSM_TAG_SRDMA_DAT_IMM :: "u32 \<Rightarrow> u32 \<Rightarrow> psm_tag" where
  "PSM_TAG_SRDMA_DAT_IMM rkey sid = \<lparr>tag0 = sid, tag1 = PSM_RDMA_IMM, tag2 = rkey\<rparr>"

definition PSM_TAG_RRDMA_DAT :: "u32 \<Rightarrow> psm_tag" where
  "PSM_TAG_RRDMA_DAT rkey = \<lparr>tag0 = 0, tag1 = 0, tag2 = rkey\<rparr>"

lemmas psm_tag_defs = PSM_TAG_TRECV_DATA_def PSM_TAG_TSEND_DATA_def PSM_TAG_SRDMA_def PSM_TAG_SRDMA_META_def
  PSM_TAG_SRDMA_RTS_def PSM_TAG_SRDMA_DAT_def PSM_TAG_SRDMA_DAT_META_def PSM_TAG_SRDMA_DAT_IMM_def
  PSM_TAG_RRDMA_DAT_def

lemmas psm_type_defs = PSM_RECV_DATA_def PSM_RECV_RDMA_def PSM_RECV_RDMA_SID_def PSM_RECV_RDMA_RTP_def
  PSM_RDMA_IMM_def

section \<open>State\<close>

text \<open>
  Calls of the library: a posted receive with its tag, mask, buffer, length and context; a send that
  completes later, with peer, tag, buffer, length and context; a send that is complete when the call
  returns, with the bytes it took.
\<close>

datatype mq_call =
    Mq_irecv psm_tag psm_tag addr u64 u64
  | Mq_isend addr psm_tag addr u64 u64
  | Mq_send addr psm_tag "u8 list"

record psm_mr =
  mr_addr :: addr
  mr_size :: u64
  mr_key :: u32

text \<open>
  The part of the process this device shares with the engine is an \<open>lc_state\<close>. The queue of free
  registrations is the list it refines when one thread uses it. \<open>recv_posted\<close> is a \<open>size_t\<close>.
\<close>

record psm_state =
  base :: lc_state
  ps_me :: u32
  ps_heap :: addr
  ps_heap_rkey :: u32
  ps_posted :: u64
  ps_next_key :: u32
  ps_free_mr :: "addr list"
  ps_mrs :: "addr \<Rightarrow> psm_mr"
  mq_log :: "mq_call list"

definition mq_emit :: "mq_call \<Rightarrow> psm_state \<Rightarrow> psm_state" where
  "mq_emit c s = s\<lparr>mq_log := mq_log s @ [c]\<rparr>"

text \<open>A completion, as \<open>psm2_mq_ipeek2\<close> and \<open>psm2_mq_test2\<close> report it.\<close>

record mq_status =
  st_context :: u64
  st_tag :: psm_tag
  st_length :: u32
  st_peer :: addr

record psm_upcalls =
  up_recv :: "addr \<Rightarrow> u32 \<Rightarrow> psm_state \<Rightarrow> psm_state res"
  up_recv_rdma :: "addr \<Rightarrow> u32 \<Rightarrow> psm_state \<Rightarrow> psm_state res"
  up_imm :: "addr \<Rightarrow> psm_state \<Rightarrow> psm_state res"
  up_send :: "addr \<Rightarrow> psm_state \<Rightarrow> psm_state res"

section \<open>Registration\<close>

definition lc_server_post_recv_rma :: "addr \<Rightarrow> u64 \<Rightarrow> u32 \<Rightarrow> u64 \<Rightarrow> psm_state \<Rightarrow> psm_state" where
  "lc_server_post_recv_rma a sz rkey ctx s =
     mq_emit (Mq_irecv (PSM_TAG_RRDMA_DAT rkey) LCI_PSM2_TAGSEL a sz (PSM_RECV OR ctx)) s"

definition lc_server_get_free_mr :: "addr \<Rightarrow> psm_state \<Rightarrow> addr \<times> psm_state" where
  "lc_server_get_free_mr new_mr s =
     (case ps_free_mr s of [] \<Rightarrow> (new_mr, s) | mr # mrs \<Rightarrow> (mr, s\<lparr>ps_free_mr := mrs\<rparr>))"

definition lc_server_get_free_key :: "psm_state \<Rightarrow> u32 \<times> psm_state" where
  "lc_server_get_free_key s = (ps_next_key s AND 0x0fffffff, s\<lparr>ps_next_key := ps_next_key s + 1\<rparr>)"

definition real_psm_reg :: "addr \<Rightarrow> addr \<Rightarrow> u64 \<Rightarrow> psm_state \<Rightarrow> addr \<times> psm_state" where
  "real_psm_reg new_mr buf sz s =
     (let (mr, s) = lc_server_get_free_mr new_mr s;
          (key, s) = lc_server_get_free_key s;
          s = s\<lparr>ps_mrs := (ps_mrs s)(mr := \<lparr>mr_addr = buf, mr_size = sz, mr_key = key\<rparr>)\<rparr>
      in (mr, lc_server_post_recv_rma buf sz key 0 s))"

definition real_psm_free :: "addr \<Rightarrow> psm_state \<Rightarrow> psm_state" where
  "real_psm_free mr s = s\<lparr>ps_free_mr := ps_free_mr s @ [mr]\<rparr>"

definition psm_rma_reg :: "addr \<Rightarrow> addr \<Rightarrow> u64 \<Rightarrow> psm_state \<Rightarrow> addr \<times> psm_state" where
  "psm_rma_reg new_mr buf sz s = real_psm_reg new_mr buf sz s"

definition psm_rma_dereg :: "addr \<Rightarrow> psm_state \<Rightarrow> psm_state" where
  "psm_rma_dereg mr s = real_psm_free mr s"

definition psm_rma_key :: "addr \<Rightarrow> psm_state \<Rightarrow> u32" where
  "psm_rma_key mr s = mr_key (ps_mrs s mr)"

definition psm_heap_ptr :: "psm_state \<Rightarrow> addr" where
  "psm_heap_ptr s = ps_heap s"

section \<open>Sending\<close>

definition psm_sendm :: "addr \<Rightarrow> u64 \<Rightarrow> addr \<Rightarrow> u32 \<Rightarrow> psm_state \<Rightarrow> psm_state" where
  "psm_sendm rep sz ctx proto s =
     mq_emit (Mq_isend rep (PSM_TAG_TSEND_DATA proto (ps_me s)) (pk_data ctx) sz (PSM_SEND OR ctx)) s"

definition psm_sends :: "addr \<Rightarrow> addr \<Rightarrow> u64 \<Rightarrow> u32 \<Rightarrow> psm_state \<Rightarrow> psm_state" where
  "psm_sends rep ubuf sz proto s =
     mq_emit (Mq_send rep (PSM_TAG_TSEND_DATA proto (ps_me s)) (read_bytes (mem (base s)) ubuf (unat sz))) s"

definition psm_puts :: "addr \<Rightarrow> addr \<Rightarrow> u32 \<Rightarrow> u64 \<Rightarrow> psm_state \<Rightarrow> psm_state" where
  "psm_puts rep buf offset sz s =
     mq_emit (Mq_send rep (PSM_TAG_SRDMA offset) (read_bytes (mem (base s)) buf (unat sz))) s"

definition psm_putss :: "addr \<Rightarrow> addr \<Rightarrow> u32 \<Rightarrow> u32 \<Rightarrow> u64 \<Rightarrow> psm_state \<Rightarrow> psm_state" where
  "psm_putss rep buf offset meta sz s =
     mq_emit (Mq_send rep (PSM_TAG_SRDMA_META offset meta) (read_bytes (mem (base s)) buf (unat sz))) s"

definition psm_putm :: "addr \<Rightarrow> u32 \<Rightarrow> u64 \<Rightarrow> addr \<Rightarrow> psm_state \<Rightarrow> psm_state" where
  "psm_putm rep offset sz ctx s =
     mq_emit (Mq_isend rep (PSM_TAG_SRDMA offset) (pk_data ctx) sz (PSM_SEND OR ctx)) s"

definition psm_putms :: "addr \<Rightarrow> u32 \<Rightarrow> u64 \<Rightarrow> u32 \<Rightarrow> addr \<Rightarrow> psm_state \<Rightarrow> psm_state" where
  "psm_putms rep offset sz meta ctx s =
     mq_emit (Mq_isend rep (PSM_TAG_SRDMA_META offset meta) (pk_data ctx) sz (PSM_SEND OR ctx)) s"

definition psm_putl :: "addr \<Rightarrow> addr \<Rightarrow> u32 \<Rightarrow> u32 \<Rightarrow> u64 \<Rightarrow> addr \<Rightarrow> psm_state \<Rightarrow> psm_state" where
  "psm_putl rep buf offset rkey sz ctx s =
     mq_emit (Mq_isend rep (PSM_TAG_SRDMA_DAT rkey) buf sz (PSM_SEND OR ctx))
       (mq_emit (Mq_send rep (PSM_TAG_SRDMA_RTS offset rkey) (to_bytes 8 sz)) s)"

definition psm_putls :: "addr \<Rightarrow> addr \<Rightarrow> u32 \<Rightarrow> u32 \<Rightarrow> u64 \<Rightarrow> u32 \<Rightarrow> addr \<Rightarrow> psm_state \<Rightarrow> psm_state" where
  "psm_putls rep buf offset rkey sz sid ctx s =
     mq_emit (Mq_isend rep (PSM_TAG_SRDMA_DAT_META rkey sid) buf sz (PSM_SEND OR ctx))
       (mq_emit (Mq_send rep (PSM_TAG_SRDMA_RTS offset rkey) (to_bytes 8 sz)) s)"

definition psm_rma_rtr :: "addr \<Rightarrow> addr \<Rightarrow> u32 \<Rightarrow> u64 \<Rightarrow> u32 \<Rightarrow> addr \<Rightarrow> psm_state \<Rightarrow> psm_state" where
  "psm_rma_rtr rep buf rkey sz sid ctx s =
     mq_emit (Mq_isend rep (PSM_TAG_SRDMA_DAT_IMM rkey sid) buf sz (PSM_SEND OR ctx)) s"

section \<open>Receiving\<close>

definition psm_post_recv :: "addr \<Rightarrow> psm_state \<Rightarrow> psm_state" where
  "psm_post_recv p s =
     (if p = NULL
      then if ps_posted s = 64 div 2 \<and> \<not> lcg_deadlock (base s)
           then s\<lparr>base := (base s)\<lparr>lcg_deadlock := True\<rparr>\<rparr> else s
      else let s = mq_emit (Mq_irecv PSM_TAG_TRECV_DATA LCI_PSM2_TAGSEL (pk_data p) POST_MSG_SIZE (PSM_RECV OR p)) s;
               s = s\<lparr>ps_posted := ps_posted s + 1\<rparr>
        in if ps_posted s = 64 \<and> lcg_deadlock (base s)
           then s\<lparr>base := (base s)\<lparr>lcg_deadlock := False\<rparr>\<rparr> else s)"

text \<open>A completed receive. \<open>own_req\<close> is the assignment \<open>p->context.req = &p->context.req_s\<close>.\<close>

definition own_req :: "addr \<Rightarrow> psm_state \<Rightarrow> psm_state" where
  "own_req p s = s\<lparr>base := upd_pk p (\<lambda>c. c\<lparr>pk_req := req_s p\<rparr>) (base s)\<rparr>"

definition copy_to_heap :: "addr \<Rightarrow> mq_status \<Rightarrow> psm_state \<Rightarrow> psm_state" where
  "copy_to_heap p st s =
     s\<lparr>base := (base s)\<lparr>mem := memcpy (mem (base s)) (ucast (tag0 (st_tag st)) + ps_heap s) (pk_data p)
                                 (ucast (st_length st))\<rparr>\<rparr>"

definition one_less :: "psm_state \<Rightarrow> psm_state" where
  "one_less s = s\<lparr>ps_posted := ps_posted s - 1\<rparr>"

definition psm_serve_recv :: "lc_env \<Rightarrow> psm_upcalls \<Rightarrow> nat \<Rightarrow> mq_status \<Rightarrow> psm_state \<Rightarrow> psm_state res" where
  "psm_serve_recv e up d st s =
     (let p = st_context st XOR PSM_RECV; t = st_tag st; pk_type = tag2 t AND 0xf0000000
      in if pk_type = PSM_RECV_DATA then
           let s = own_req p s;
               s = s\<lparr>base := upd_req (req_s p) (\<lambda>r. r\<lparr>rhandle := st_peer st, rq_rank := tag1 t,
                       rq_size := ucast (st_length st)\<rparr>) (base s)\<rparr>
           in bind_res (up_recv up p (tag0 t) s) (\<lambda>s. Inr (one_less s))
         else if pk_type = PSM_RECV_RDMA then
           Inr (psm_post_recv p (copy_to_heap p st (own_req p s)))
         else if pk_type = PSM_RECV_RDMA_SID then
           bind_res (up_recv_rdma up p (tag1 t) (copy_to_heap p st (own_req p s))) (\<lambda>s. Inr (one_less s))
         else if pk_type = PSM_RECV_RDMA_RTP then
           Inr (one_less (lc_server_post_recv_rma (ucast (tag0 t) + ps_heap s) (read64 (mem (base s)) (pk_data p))
                  (tag1 t) p s))
         else if tag1 t = PSM_RDMA_IMM then up_imm up (ps_heap s + ucast (tag0 t)) s
         else if tag0 t \<noteq> 0 then up_recv_rdma up p (tag1 t) (own_req p s)
         else bind_res (pool_put e d p (base (own_req p s))) (\<lambda>b. Inr ((own_req p s)\<lparr>base := b\<rparr>)))"

definition psm_progress ::
    "lc_env \<Rightarrow> psm_upcalls \<Rightarrow> nat \<Rightarrow> mq_status option \<Rightarrow> psm_state \<Rightarrow> (bool \<times> psm_state) res" where
  "psm_progress e up d peek s =
     bind_res
       (case peek of
          None \<Rightarrow> Inr s
        | Some st \<Rightarrow>
            if st_context st AND PSM_RECV \<noteq> 0 then psm_serve_recv e up d st s
            else if st_context st AND PSM_SEND \<noteq> 0
            then let p = st_context st XOR PSM_SEND in if p \<noteq> NULL then up_send up p s else Inr s
            else Inr s)
       (\<lambda>s. if ps_posted s < 64
            then bind_res (pool_get_nb e d (base s)) (\<lambda>(p, b). Inr (peek \<noteq> None, psm_post_recv p (s\<lparr>base := b\<rparr>)))
            else Inr (peek \<noteq> None, s))"

section \<open>Start\<close>

text \<open>The name of an endpoint, \<open>%llu-%llu-%d\<close>: endpoint id, address and key of the heap.\<close>

definition psm_ep_name :: "u64 \<Rightarrow> addr \<Rightarrow> u32 \<Rightarrow> string" where
  "psm_ep_name epid heap rkey =
     dec (unat epid) @ CHR ''-'' # dec (unat heap) @ CHR ''-'' # sdec (sint rkey)"

definition scan_psm_name :: "string \<Rightarrow> (u64 \<times> addr \<times> u32) option" where
  "scan_psm_name s =
     Option.bind (scan_nat s) (\<lambda>(i, s). Option.bind (scan_char CHR ''-'' s) (\<lambda>s.
     Option.bind (scan_nat s) (\<lambda>(a, s). Option.bind (scan_char CHR ''-'' s) (\<lambda>s.
     Option.bind (scan_int s) (\<lambda>(r, s). Some (word_of_nat i, word_of_nat a, word_of_int r))))))"

text \<open>
  What the library and the allocator answer at the start. \<open>ep_connect\<close> gives the address under which an
  endpoint id is reached. The entry of the process itself in the table of peers is not written.
\<close>

record psm_device =
  dv_epid :: u64
  dv_heap :: addr
  dv_mr :: "nat \<Rightarrow> addr"
  ep_connect :: "u64 \<Rightarrow> addr"

fun psm_connect ::
    "psm_device \<Rightarrow> nat \<Rightarrow> nat \<Rightarrow> (string \<Rightarrow> string) \<Rightarrow> nat list \<Rightarrow> (nat \<rightharpoonup> lci_rep) \<Rightarrow> (nat \<rightharpoonup> lci_rep) res" where
  "psm_connect dv sid rank kvs [] reps = Inr reps"
| "psm_connect dv sid rank kvs (i # is) reps =
     (if i = rank then psm_connect dv sid rank kvs is reps
      else case scan_psm_name (kvs (lc_pm_key i sid)) of
        None \<Rightarrow> Inl Uninitialised
      | Some (epid, heap, rkey) \<Rightarrow>
          psm_connect dv sid rank kvs is
            (reps(i \<mapsto> \<lparr>rp_handle = ep_connect dv epid, rp_rank = word_of_nat i, rp_base = heap, rp_rkey = rkey\<rparr>)))"

definition psm_init ::
    "lc_env \<Rightarrow> psm_device \<Rightarrow> nat \<Rightarrow> nat \<Rightarrow> (string \<Rightarrow> string) \<Rightarrow> u32 \<Rightarrow> lc_state
       \<Rightarrow> (psm_state \<times> (string \<times> string) \<times> (nat \<rightharpoonup> lci_rep)) res" where
  "psm_init e dv sid rank kvs key b =
     (let s = \<lparr>base = b, ps_me = word_of_nat rank, ps_heap = dv_heap dv, ps_heap_rkey = 0, ps_posted = 0,
               ps_next_key = key, ps_free_mr = map (dv_mr dv) [0..<256], ps_mrs = (\<lambda>_. \<lparr>mr_addr = 0, mr_size = 0, mr_key = 0\<rparr>),
               mq_log = []\<rparr>;
          (rkey, s) = lc_server_get_free_key s;
          s = s\<lparr>ps_heap_rkey := rkey\<rparr>;
          name = (lc_pm_key rank sid, psm_ep_name (dv_epid dv) (ps_heap s) rkey)
      in bind_res (psm_connect dv sid rank kvs [0..<lcg_size e] Map.empty) (\<lambda>reps. Inr (s, name, reps)))"

end
