(* ===== verification/LC_Psm2_Spec.thy ===== *)
theory LC_Psm2_Spec
  imports LC_Psm2 LC_Api
begin

text \<open>
  What the Omni-Path device achieves, given what the PSM2 library documents: a message completes a
  posted receive whose tag it matches under the mask, its bytes are in the buffer of the receive and
  the completion carries the context of the receive and the tag of the message.
\<close>

section \<open>What the library promises\<close>

definition mq_matches :: "psm_tag \<Rightarrow> psm_tag \<Rightarrow> psm_tag \<Rightarrow> bool" where
  "mq_matches rtag sel t \<longleftrightarrow> tag0 t AND tag0 sel = tag0 rtag AND tag0 sel
     \<and> tag1 t AND tag1 sel = tag1 rtag AND tag1 sel \<and> tag2 t AND tag2 sel = tag2 rtag AND tag2 sel"

text \<open>Posted receive, message, and the state and the completion before and after.\<close>

definition mq_completes ::
    "mq_call \<Rightarrow> psm_tag \<Rightarrow> u8 list \<Rightarrow> addr \<Rightarrow> psm_state \<Rightarrow> mq_status \<Rightarrow> psm_state \<Rightarrow> bool" where
  "mq_completes r t bytes peer s st s' \<longleftrightarrow>
     (\<exists>rtag sel buf len ctx. r = Mq_irecv rtag sel buf len ctx \<and> mq_matches rtag sel t
        \<and> length bytes \<le> unat len \<and> length bytes < 2 ^ 32
        \<and> st = \<lparr>st_context = ctx, st_tag = t, st_length = word_of_nat (length bytes), st_peer = peer\<rparr>
        \<and> s' = s\<lparr>base := (base s)\<lparr>mem := write_bytes (mem (base s)) buf bytes\<rparr>\<rparr>)"

definition data_recv :: "addr \<Rightarrow> mq_call" where
  "data_recv p = Mq_irecv PSM_TAG_TRECV_DATA LCI_PSM2_TAGSEL (pk_data p) POST_MSG_SIZE (PSM_RECV OR p)"

definition rma_recv :: "addr \<Rightarrow> u64 \<Rightarrow> u32 \<Rightarrow> u64 \<Rightarrow> mq_call" where
  "rma_recv a sz key ctx = Mq_irecv (PSM_TAG_RRDMA_DAT key) LCI_PSM2_TAGSEL a sz (PSM_RECV OR ctx)"

section \<open>Contexts and tags\<close>

lemma bit_PSM_RECV: "bit PSM_RECV i \<longleftrightarrow> i = 62" "bit PSM_SEND i \<longleftrightarrow> i = 63"
  unfolding PSM_RECV_def PSM_SEND_def by (auto simp only: bit_push_bit_iff bit_1_iff) auto

lemma recv_context:
  assumes "\<not> bit p 62"
  shows "(PSM_RECV OR p) XOR PSM_RECV = p" "(PSM_RECV OR p) AND PSM_RECV \<noteq> 0"
proof -
  show "(PSM_RECV OR p) XOR PSM_RECV = p"
    using assms by (intro bit_word_eqI) (auto simp: bit_xor_iff bit_or_iff bit_PSM_RECV)
  have "bit ((PSM_RECV OR p) AND PSM_RECV) 62" by (simp add: bit_and_iff bit_or_iff bit_PSM_RECV)
  then show "(PSM_RECV OR p) AND PSM_RECV \<noteq> 0" by (metis bit_0_eq bot_apply bot_bool_def)
qed

lemma type_tags [simp]:
  "PSM_RECV_DATA AND 0xf0000000 = PSM_RECV_DATA" "PSM_RECV_RDMA AND 0xf0000000 = PSM_RECV_RDMA"
  "PSM_RECV_RDMA_SID AND 0xf0000000 = PSM_RECV_RDMA_SID" "PSM_RECV_RDMA_RTP AND 0xf0000000 = PSM_RECV_RDMA_RTP"
  "PSM_RECV_RDMA \<noteq> PSM_RECV_DATA" "PSM_RECV_RDMA_SID \<noteq> PSM_RECV_DATA" "PSM_RECV_RDMA_RTP \<noteq> PSM_RECV_DATA"
  "PSM_RECV_RDMA_SID \<noteq> PSM_RECV_RDMA" "PSM_RECV_RDMA_RTP \<noteq> PSM_RECV_RDMA" "PSM_RECV_RDMA_RTP \<noteq> PSM_RECV_RDMA_SID"
  by (simp_all add: psm_type_defs)

lemma key_type:
  assumes "k < 2 ^ 28"
  shows "k AND 0xf0000000 = 0" "k AND 0x0fffffff = (k :: u32)"
proof -
  have "unat k < 2 ^ 28" using assms by (simp add: word_less_nat_alt)
  then have e: "take_bit 28 k = k"
    by (intro word_unat_eq_iff [THEN iffD2]) (simp add: unsigned_take_bit_eq take_bit_nat_eq_self)
  then show "k AND 0x0fffffff = k" by (simp add: take_bit_eq_mask mask_eq_exp_minus_1)
  then have "k AND 0xf0000000 = k AND (0x0fffffff AND 0xf0000000)" by (metis and.assoc)
  then show "k AND 0xf0000000 = 0" by simp
qed

lemma type_zero: "0 \<noteq> PSM_RECV_DATA" "0 \<noteq> PSM_RECV_RDMA" "0 \<noteq> PSM_RECV_RDMA_SID" "0 \<noteq> PSM_RECV_RDMA_RTP"
  "0 \<noteq> PSM_RDMA_IMM"
  by (simp_all add: psm_type_defs)

text \<open>
  A receive posted for a packet takes exactly the messages whose key is 0, a registration those with its
  key: a put with a proper key never lands in a packet and a message never in a registered buffer.
\<close>

lemma data_recv_takes: "mq_matches PSM_TAG_TRECV_DATA LCI_PSM2_TAGSEL t \<longleftrightarrow> tag2 t AND 0x0fffffff = 0"
  by (simp add: mq_matches_def LCI_PSM2_TAGSEL_def PSM_TAG_TRECV_DATA_def PSM_RECV_DATA_def)

lemma rma_recv_takes:
  assumes "k < 2 ^ 28"
  shows "mq_matches (PSM_TAG_RRDMA_DAT k) LCI_PSM2_TAGSEL t \<longleftrightarrow> tag2 t AND 0x0fffffff = k"
  using key_type(2) [OF assms] by (simp add: mq_matches_def LCI_PSM2_TAGSEL_def PSM_TAG_RRDMA_DAT_def)

lemma add_mod_cancel:
  fixes a i j n :: nat
  assumes "(a + i) mod n = (a + j) mod n" "i < n" "j < n"
  shows "i = j"
proof (rule ccontr)
  have no: False if "i' < j'" "j' < n" "(a + i') mod n = (a + j') mod n" for i' j'
    using that mod_eq_dvd_iff_nat [of "a + i'" "a + j'" n] nat_dvd_not_less [of "j' - i'" n] by simp
  assume "i \<noteq> j"
  then show False using no [of i j] no [of j i] assms by linarith
qed

text \<open>Keys of successive registrations differ until the counter has gone around.\<close>

lemma keys_differ:
  assumes "i < 2 ^ 28" "j < 2 ^ 28" "(key + word_of_nat i) AND 0x0fffffff = (key + word_of_nat j) AND (0x0fffffff :: u32)"
  shows "i = j"
proof -
  have u: "unat ((key + word_of_nat m) AND (0x0fffffff :: u32)) = (unat key + m) mod 2 ^ 28" if "m < 2 ^ 28" for m
  proof -
    have "unat (word_of_nat m :: u32) = m" using that by (simp add: unsigned_of_nat take_bit_nat_eq_self)
    moreover have "(2::nat) ^ 28 dvd 2 ^ 32" by (rule le_imp_power_dvd) simp
    ultimately show ?thesis using unat_and_mask [of "key + word_of_nat m" 28]
      by (simp add: mask_eq_exp_minus_1 unat_word_ariths mod_mod_cancel)
  qed
  have "(unat key + i) mod 2 ^ 28 = (unat key + j) mod 2 ^ 28" using u [OF assms(1)] u [OF assms(2)] assms(3) by simp
  then show ?thesis using assms(1,2) by (rule add_mod_cancel)
qed

section \<open>Messages and puts\<close>

lemma completes_dataD:
  assumes "mq_completes (data_recv p) t bytes peer s st s'"
  shows "st = \<lparr>st_context = PSM_RECV OR p, st_tag = t, st_length = word_of_nat (length bytes), st_peer = peer\<rparr>"
    "base s' = (base s)\<lparr>mem := write_bytes (mem (base s)) (pk_data p) bytes\<rparr>" "length bytes < 2 ^ 32"
    "unat (ucast (word_of_nat (length bytes) :: u32) :: u64) = length bytes"
    "ps_heap s' = ps_heap s" "mq_log s' = mq_log s" "ps_posted s' = ps_posted s"
    "read_bytes (mem (base s')) (pk_data p) (length bytes) = bytes"
proof -
  show l: "length bytes < 2 ^ 32" and "st = \<lparr>st_context = PSM_RECV OR p, st_tag = t, st_length = word_of_nat (length bytes), st_peer = peer\<rparr>"
    and b: "base s' = (base s)\<lparr>mem := write_bytes (mem (base s)) (pk_data p) bytes\<rparr>"
    and "ps_heap s' = ps_heap s" "mq_log s' = mq_log s" "ps_posted s' = ps_posted s"
    using assms by (auto simp: mq_completes_def data_recv_def)
  show "unat (ucast (word_of_nat (length bytes) :: u32) :: u64) = length bytes"
    using l by (simp only: unat_ucast_u32_u64) (simp add: unsigned_of_nat take_bit_nat_eq_self)
  show "read_bytes (mem (base s')) (pk_data p) (length bytes) = bytes" using l b by simp
qed

text \<open>A message reaches the engine with its protocol word, the rank of its sender and its size.\<close>

lemma psm_message_served:
  assumes "mq_completes (data_recv p) (PSM_TAG_TSEND_DATA proto rank) bytes peer s st s1" "\<not> bit p 62"
  shows "\<exists>s2. psm_serve_recv e up d st s1 = bind_res (up_recv up p proto s2) (\<lambda>s. Inr (one_less s))
    \<and> read_bytes (mem (base s2)) (pk_data p) (length bytes) = bytes \<and> pk_req (pks (base s2) p) = req_s p
    \<and> rq_rank (reqs (base s2) (req_s p)) = rank \<and> rhandle (reqs (base s2) (req_s p)) = peer
    \<and> unat (rq_size (reqs (base s2) (req_s p))) = length bytes"
  using completes_dataD [OF assms(1)] recv_context(1) [OF assms(2)]
  by (intro exI conjI)
    (auto simp: psm_serve_recv_def Let_def PSM_TAG_TSEND_DATA_def own_req_def upd_pk_def upd_req_def)

lemma copy_to_heap_bytes:
  assumes "mq_completes (data_recv p) t bytes peer s st s1"
  shows "read_bytes (mem (base (copy_to_heap p st s1))) (ucast (tag0 t) + ps_heap s) (length bytes) = bytes"
  using completes_dataD [OF assms] by (simp add: copy_to_heap_def memcpy_def)

text \<open>A put lands in the heap at its offset, and the packet it came in is posted again.\<close>

lemma psm_put_served:
  assumes "mq_completes (data_recv p) (PSM_TAG_SRDMA offset) bytes peer s st s1" "\<not> bit p 62" "p \<noteq> NULL"
  shows "\<exists>s2. psm_serve_recv e up d st s1 = Inr s2
    \<and> read_bytes (mem (base s2)) (ucast offset + ps_heap s) (length bytes) = bytes
    \<and> mq_log s2 = mq_log s @ [data_recv p] \<and> ps_posted s2 = ps_posted s + 1"
proof -
  note D = completes_dataD [OF assms(1)]
  let ?s = "own_req p s1"
  have c: "mem (base ?s) = mem (base s1)" "ps_heap ?s = ps_heap s1" "mq_log ?s = mq_log s1" "ps_posted ?s = ps_posted s1"
    by (simp_all add: own_req_def upd_pk_def)
  have "mem (base (copy_to_heap p st ?s)) = mem (base (copy_to_heap p st s1))" using c by (simp add: copy_to_heap_def)
  moreover have "mem (base (psm_post_recv p x)) = mem (base x)" "mq_log (psm_post_recv p x) = mq_log x @ [data_recv p]"
    "ps_posted (psm_post_recv p x) = ps_posted x + 1" for x
    using assms(3) by (simp_all add: psm_post_recv_def Let_def mq_emit_def data_recv_def)
  moreover have "psm_serve_recv e up d st s1 = Inr (psm_post_recv p (copy_to_heap p st ?s))"
    using D(1) recv_context(1) [OF assms(2)] by (simp add: psm_serve_recv_def Let_def PSM_TAG_SRDMA_def)
  ultimately show ?thesis using copy_to_heap_bytes [OF assms(1)] D(6,7) c
    by (simp add: PSM_TAG_SRDMA_def) (simp add: copy_to_heap_def)
qed

text \<open>
  Property C20. A long put sends its size and offset ahead of the data. When the first message arrives
  in a packet, the device posts a receive for the place in its heap that the offset names, under the
  key of the heap; when the data complete that receive they are at that place, and the packet goes
  back to the pool.
\<close>

theorem psm_putl_delivers:
  assumes "mq_log (psm_putl rep buf offset key sz ctx a) = mq_log a @ [Mq_send rep t1 b1, Mq_isend rep t2 buf sz c]"
    and "mq_completes (data_recv p) t1 b1 peer s st1 s1" "\<not> bit p 62" "key < 2 ^ 28"
  shows "\<exists>s2. psm_serve_recv e up d st1 s1 = Inr s2
    \<and> mq_log s2 = mq_log s @ [rma_recv (ucast offset + ps_heap s) sz key p]
    \<and> (\<forall>bytes s3 st2 s4. mq_completes (rma_recv (ucast offset + ps_heap s) sz key p) t2 bytes peer s3 st2 s4 \<longrightarrow>
        read_bytes (mem (base s4)) (ucast offset + ps_heap s) (length bytes) = bytes
        \<and> psm_serve_recv e up d st2 s4 =
            bind_res (pool_put e d p (base (own_req p s4))) (\<lambda>b. Inr ((own_req p s4)\<lparr>base := b\<rparr>)))"
proof -
  have t: "t1 = PSM_TAG_SRDMA_RTS offset key" "b1 = to_bytes 8 sz" "t2 = PSM_TAG_SRDMA_DAT key"
    using assms(1) by (simp_all add: psm_putl_def mq_emit_def)
  note D = completes_dataD [OF assms(2)]
  have "read64 (mem (base s1)) (pk_data p) = of_bytes b1" using D(8) t(2) by (simp add: read64_def)
  then have z: "read64 (mem (base s1)) (pk_data p) = sz" by (simp add: t(2))
  have "psm_serve_recv e up d st1 s1 = Inr (one_less (lc_server_post_recv_rma (ucast offset + ps_heap s) sz key p s1))"
    using D(1,5) recv_context(1) [OF assms(3)] z t(1) by (simp add: psm_serve_recv_def Let_def PSM_TAG_SRDMA_RTS_def)
  moreover have "mq_log (one_less (lc_server_post_recv_rma (ucast offset + ps_heap s) sz key p s1))
      = mq_log s @ [rma_recv (ucast offset + ps_heap s) sz key p]"
    using D(6) by (simp add: one_less_def lc_server_post_recv_rma_def mq_emit_def rma_recv_def)
  moreover have "read_bytes (mem (base s4)) (ucast offset + ps_heap s) (length bytes) = bytes
      \<and> psm_serve_recv e up d st2 s4 =
            bind_res (pool_put e d p (base (own_req p s4))) (\<lambda>b. Inr ((own_req p s4)\<lparr>base := b\<rparr>))"
    if "mq_completes (rma_recv (ucast offset + ps_heap s) sz key p) t2 bytes peer s3 st2 s4" for bytes s3 st2 s4
    using that recv_context(1) [OF assms(3)] key_type(1) [OF assms(4)] type_zero
    by (auto simp: mq_completes_def rma_recv_def t(3) psm_serve_recv_def Let_def PSM_TAG_SRDMA_DAT_def)
  ultimately show ?thesis by blast
qed

text \<open>A device with the sample process of \<open>LC_Api\<close>, whose packet 4096 waits for a message.\<close>

definition ex_psm :: psm_state where
  "ex_psm = \<lparr>base = ex_state, ps_me = 1, ps_heap = 0x100000, ps_heap_rkey = 1, ps_posted = 64, ps_next_key = 2,
     ps_free_mr = [], ps_mrs = (\<lambda>_. \<lparr>mr_addr = 0, mr_size = 0, mr_key = 0\<rparr>), mq_log = []\<rparr>"

definition ex_up :: psm_upcalls where
  "ex_up = \<lparr>up_recv = (\<lambda>p m s. Inr s), up_recv_rdma = (\<lambda>p m s. Inr s), up_imm = (\<lambda>p s. Inr s), up_send = (\<lambda>p s. Inr s)\<rparr>"

definition ex_rts_done :: mq_status where
  "ex_rts_done = \<lparr>st_context = PSM_RECV OR 4096, st_tag = PSM_TAG_SRDMA_RTS 256 1, st_length = 8, st_peer = 7\<rparr>"

definition ex_rts_state :: psm_state where
  "ex_rts_state = ex_psm\<lparr>base := ex_state\<lparr>mem := write_bytes (mem ex_state) (pk_data 4096) (to_bytes 8 20)\<rparr>\<rparr>"

theorem psm_putl_delivers_witness:
  "\<exists>s2. psm_serve_recv ex_env ex_up 0 ex_rts_done ex_rts_state = Inr s2
     \<and> mq_log s2 = [rma_recv (256 + 0x100000) 20 1 4096]"
proof -
  have a: "mq_log (psm_putl 7 0x5000 256 1 20 0x8000 ex_psm)
      = mq_log ex_psm @ [Mq_send 7 (PSM_TAG_SRDMA_RTS 256 1) (to_bytes 8 20),
          Mq_isend 7 (PSM_TAG_SRDMA_DAT 1) 0x5000 20 (PSM_SEND OR 0x8000)]"
    by (simp add: psm_putl_def mq_emit_def)
  have b: "mq_completes (data_recv 4096) (PSM_TAG_SRDMA_RTS 256 1) (to_bytes 8 20) 7 ex_psm ex_rts_done ex_rts_state"
    by (simp add: mq_completes_def data_recv_def data_recv_takes PSM_TAG_SRDMA_RTS_def PSM_RECV_RDMA_RTP_def
        ex_rts_done_def ex_rts_state_def ex_psm_def size_defs)
  have c: "\<not> bit (4096 :: addr) 62" by simp
  show ?thesis using psm_putl_delivers [OF a b c, of ex_env ex_up 0] by (auto simp: ex_psm_def)
qed

text \<open>
  The data of a long put carry neither their offset nor their sender: with two puts on the way, the data
  of one can complete the receive that was posted for the other.
\<close>

lemma psm_putl_crosses:
  assumes "length bytes \<le> unat sz" "length bytes < 2 ^ 32"
    and "mq_log (psm_putl rep buf offset key sz' ctx a) = mq_log a @ [Mq_send rep t1 b1, Mq_isend rep t2 buf sz' c]"
  shows "\<exists>st s'. mq_completes (rma_recv (ucast offset' + heap) sz key p) t2 bytes peer s st s'
    \<and> read_bytes (mem (base s')) (ucast offset' + heap) (length bytes) = bytes"
proof -
  have "t2 = PSM_TAG_SRDMA_DAT key" using assms(3) by (simp add: psm_putl_def mq_emit_def)
  then show ?thesis using assms(1,2)
    by (simp add: mq_completes_def rma_recv_def mq_matches_def PSM_TAG_SRDMA_DAT_def PSM_TAG_RRDMA_DAT_def)
qed

text \<open>
  The rendezvous: a registration posts a receive under its own key, the write of the partner carries that
  key and the offset of the packet that waits for it, and its completion is served for that packet.
\<close>

lemma psm_rendezvous_served:
  assumes "real_psm_reg new_mr buf sz s = (mr, s1)" "mq_log (psm_rma_rtr rep src (psm_rma_key mr s1) len sid ctx a) = mq_log a @ [Mq_isend rep t src len c]"
    and "mq_completes (rma_recv buf sz (psm_rma_key mr s1) 0) t bytes peer s2 st s3"
  shows "mq_log s1 = mq_log s @ [rma_recv buf sz (psm_rma_key mr s1) 0]"
    "read_bytes (mem (base s3)) buf (length bytes) = bytes"
    "psm_serve_recv e up d st s3 = up_imm up (ps_heap s2 + ucast sid) s3"
proof -
  let ?k = "psm_rma_key mr s1"
  have k: "?k = ps_next_key s AND 0x0fffffff" and l: "mq_log s1 = mq_log s @ [rma_recv buf sz ?k 0]"
    using assms(1)
    by (auto simp: real_psm_reg_def lc_server_get_free_mr_def lc_server_get_free_key_def psm_rma_key_def
        lc_server_post_recv_rma_def mq_emit_def rma_recv_def Let_def split: list.splits prod.splits)
  then show "mq_log s1 = mq_log s @ [rma_recv buf sz ?k 0]" by simp
  have "?k AND 0xf0000000 = 0" unfolding k by (simp add: and.assoc)
  moreover have "t = PSM_TAG_SRDMA_DAT_IMM ?k sid" using assms(2) by (simp add: psm_rma_rtr_def mq_emit_def)
  ultimately show "read_bytes (mem (base s3)) buf (length bytes) = bytes"
    "psm_serve_recv e up d st s3 = up_imm up (ps_heap s2 + ucast sid) s3"
    using assms(3) type_zero
    by (auto simp: mq_completes_def rma_recv_def psm_serve_recv_def Let_def PSM_TAG_SRDMA_DAT_IMM_def)
qed

section \<open>Receives that are lost\<close>

definition is_data_recv :: "mq_call \<Rightarrow> bool" where
  "is_data_recv c \<longleftrightarrow> (\<exists>p. c = data_recv p)"

definition data_posts :: "psm_state \<Rightarrow> nat" where
  "data_posts s = length (filter is_data_recv (mq_log s))"

definition put_done :: "mq_status \<Rightarrow> bool" where
  "put_done st \<longleftrightarrow> (\<exists>p offset. st_context st = PSM_RECV OR p \<and> \<not> bit p 62 \<and> p \<noteq> NULL \<and> st_tag st = PSM_TAG_SRDMA offset)"

definition message_done :: "mq_status \<Rightarrow> bool" where
  "message_done st \<longleftrightarrow> (\<exists>p proto rank. st_context st = PSM_RECV OR p \<and> \<not> bit p 62 \<and> st_tag st = PSM_TAG_TSEND_DATA proto rank)"

text \<open>Calls of the progress function, each with a completion.\<close>

fun psm_run :: "lc_env \<Rightarrow> psm_upcalls \<Rightarrow> nat \<Rightarrow> mq_status list \<Rightarrow> psm_state \<Rightarrow> psm_state res" where
  "psm_run e up d [] s = Inr s"
| "psm_run e up d (st # sts) s = bind_res (psm_progress e up d (Some st) s) (\<lambda>(_, s). psm_run e up d sts s)"

lemma put_step:
  assumes "put_done st" "64 \<le> unat (ps_posted s)" "unat (ps_posted s) < 2 ^ 63"
  shows "\<exists>s'. psm_progress e up d (Some st) s = Inr (True, s') \<and> data_posts s' = Suc (data_posts s)
    \<and> unat (ps_posted s') = Suc (unat (ps_posted s))"
proof -
  obtain p offset where p: "st_context st = PSM_RECV OR p" "\<not> bit p 62" "p \<noteq> NULL" "st_tag st = PSM_TAG_SRDMA offset"
    using assms(1) by (auto simp: put_done_def)
  let ?s = "psm_post_recv p (copy_to_heap p st (own_req p s))"
  have r: "psm_serve_recv e up d st s = Inr ?s"
    using p recv_context(1) [OF p(2)] by (simp add: psm_serve_recv_def Let_def PSM_TAG_SRDMA_def)
  have f: "ps_posted ?s = ps_posted s + 1" "mq_log ?s = mq_log s @ [data_recv p]"
    using p(3) by (simp_all add: psm_post_recv_def Let_def mq_emit_def data_recv_def copy_to_heap_def own_req_def)
  have u: "unat (ps_posted s + 1) = Suc (unat (ps_posted s))"
    using assms(3) by (simp add: unat_word_ariths)
  then have "\<not> ps_posted ?s < 64" using f(1) assms(2) by (simp add: word_less_nat_alt)
  then have "psm_progress e up d (Some st) s = Inr (True, ?s)"
    using r p(1) recv_context(2) [OF p(2)] by (simp add: psm_progress_def)
  then show ?thesis using f u by (auto simp: data_posts_def is_data_recv_def)
qed

lemma message_step:
  assumes "message_done st" "64 < unat (ps_posted s)" "\<forall>p m s. \<exists>b. up_recv up p m s = Inr (s\<lparr>base := b\<rparr>)"
  shows "\<exists>s'. psm_progress e up d (Some st) s = Inr (True, s') \<and> data_posts s' = data_posts s
    \<and> unat (ps_posted s') = unat (ps_posted s) - 1"
proof -
  obtain p proto rank where p: "st_context st = PSM_RECV OR p" "\<not> bit p 62" "st_tag st = PSM_TAG_TSEND_DATA proto rank"
    using assms(1) by (auto simp: message_done_def)
  let ?s = "(own_req p s)\<lparr>base := upd_req (req_s p) (\<lambda>r. r\<lparr>rhandle := st_peer st, rq_rank := rank,
                       rq_size := ucast (st_length st)\<rparr>) (base (own_req p s))\<rparr>"
  obtain b where b: "up_recv up p proto ?s = Inr (?s\<lparr>base := b\<rparr>)" using assms(3) by blast
  let ?t = "one_less (?s\<lparr>base := b\<rparr>)"
  have r: "psm_serve_recv e up d st s = Inr ?t"
    using p recv_context(1) [OF p(2)] b by (simp add: psm_serve_recv_def Let_def PSM_TAG_TSEND_DATA_def)
  have f: "ps_posted ?t = ps_posted s - 1" "mq_log ?t = mq_log s" by (simp_all add: one_less_def own_req_def)
  have "1 \<le> ps_posted s" using assms(2) by (simp add: word_le_nat_alt)
  then have u: "unat (ps_posted s - 1) = unat (ps_posted s) - 1" by (simp add: unat_sub)
  then have "\<not> ps_posted ?t < 64" using f(1) assms(2) by (simp add: word_less_nat_alt)
  then have "psm_progress e up d (Some st) s = Inr (True, ?t)"
    using r p(1) recv_context(2) [OF p(2)] by (simp add: psm_progress_def)
  then show ?thesis using f u by (auto simp: data_posts_def)
qed

lemma puts_run:
  assumes "list_all put_done sts" "64 \<le> unat (ps_posted s)" "unat (ps_posted s) + length sts < 2 ^ 63"
  shows "\<exists>s'. psm_run e up d sts s = Inr s' \<and> data_posts s' = data_posts s + length sts
    \<and> unat (ps_posted s') = unat (ps_posted s) + length sts"
  using assms
proof (induction sts arbitrary: s)
  case (Cons st sts)
  then obtain s' where s': "psm_progress e up d (Some st) s = Inr (True, s')" "data_posts s' = Suc (data_posts s)"
    "unat (ps_posted s') = Suc (unat (ps_posted s))" using put_step [of st s e up d] by auto
  then show ?case using Cons.IH [of s'] Cons.prems by auto
qed simp

lemma messages_run:
  assumes "list_all message_done sts" "64 + length sts \<le> unat (ps_posted s)"
    "\<forall>p m s. \<exists>b. up_recv up p m s = Inr (s\<lparr>base := b\<rparr>)"
  shows "\<exists>s'. psm_run e up d sts s = Inr s' \<and> data_posts s' = data_posts s
    \<and> unat (ps_posted s') = unat (ps_posted s) - length sts"
  using assms(1,2)
proof (induction sts arbitrary: s)
  case (Cons st sts)
  then obtain s' where s': "psm_progress e up d (Some st) s = Inr (True, s')" "data_posts s' = data_posts s"
    "unat (ps_posted s') = unat (ps_posted s) - 1" using message_step [OF _ _ assms(3), of st s e d] by auto
  then show ?case using Cons.IH [of s'] Cons.prems by auto
qed simp

lemma psm_run_append: "psm_run e up d (xs @ ys) s = bind_res (psm_run e up d xs s) (psm_run e up d ys)"
proof (induction xs arbitrary: s)
  case (Cons x xs)
  then show ?case by (cases "psm_progress e up d (Some x) s") auto
qed simp

text \<open>
  Property C38. A put that arrives in a packet is counted as a new receive but not as a used one. Starting
  with all 64 receives posted, 64 puts and 64 messages use up the 64 receives and the 64 that are
  posted again for the puts; the device still counts 64, posts nothing more, and can never receive
  again.
\<close>

theorem psm_receives_leak:
  assumes "\<forall>p m s. \<exists>b. up_recv up p m s = Inr (s\<lparr>base := b\<rparr>)" "ps_posted s = 64"
    and "list_all put_done put_sts" "length put_sts = 64" "list_all message_done msg_sts" "length msg_sts = 64"
  shows "\<exists>s'. psm_run e up d (put_sts @ msg_sts) s = Inr s'
    \<and> 64 + (data_posts s' - data_posts s) = length (put_sts @ msg_sts)
    \<and> ps_posted s' = 64 \<and> psm_progress e up d None s' = Inr (False, s')"
proof -
  obtain s1 where s1: "psm_run e up d put_sts s = Inr s1" "data_posts s1 = data_posts s + 64" "unat (ps_posted s1) = 128"
    using puts_run [OF assms(3), of s e up d] assms(2,4) by auto
  obtain s2 where s2: "psm_run e up d msg_sts s1 = Inr s2" "data_posts s2 = data_posts s1" "unat (ps_posted s2) = 64"
    using messages_run [OF assms(5) _ assms(1), of s1 e d] s1(3) assms(6) by auto
  have p: "ps_posted s2 = 64" using s2(3) by (simp add: word_unat_eq_iff)
  then have "psm_progress e up d None s2 = Inr (False, s2)" by (simp add: psm_progress_def)
  then show ?thesis using s1 s2 p assms(4,6) by (simp add: psm_run_append)
qed

definition ex_put_done :: mq_status where
  "ex_put_done = \<lparr>st_context = PSM_RECV OR 4096, st_tag = PSM_TAG_SRDMA 0, st_length = 0, st_peer = 7\<rparr>"

definition ex_message_done :: mq_status where
  "ex_message_done = \<lparr>st_context = PSM_RECV OR 4096, st_tag = PSM_TAG_TSEND_DATA 0 1, st_length = 0, st_peer = 7\<rparr>"

theorem psm_receives_leak_witness:
  "\<exists>s'. psm_run ex_env ex_up 0 (replicate 64 ex_put_done @ replicate 64 ex_message_done) ex_psm = Inr s'
    \<and> 64 + (data_posts s' - data_posts ex_psm) = (128 :: nat)
    \<and> ps_posted s' = 64 \<and> psm_progress ex_env ex_up 0 None s' = Inr (False, s')"
proof -
  have "put_done ex_put_done" unfolding put_done_def ex_put_done_def
    by (rule exI [of _ 4096], rule exI [of _ 0]) simp
  moreover have "message_done ex_message_done" unfolding message_done_def ex_message_done_def
    by (rule exI [of _ 4096], rule exI [of _ 0], rule exI [of _ 1]) simp
  moreover have "\<forall>p m s. \<exists>b. up_recv ex_up p m s = Inr (s\<lparr>base := b\<rparr>)"
    by (auto simp: ex_up_def intro!: psm_state.equality)
  moreover have "ps_posted ex_psm = 64" by (simp add: ex_psm_def)
  ultimately show ?thesis
    using psm_receives_leak [of ex_up ex_psm "replicate 64 ex_put_done" "replicate 64 ex_message_done" ex_env 0]
    by (simp only: list_all_iff set_replicate_conv_if length_replicate length_append) simp
qed

section \<open>Start\<close>

lemma psm_name_scan: "scan_psm_name (psm_ep_name i a k) = Some (i, a, k)"
  by (simp add: scan_psm_name_def psm_ep_name_def no_digit_def scan_int_sdec [where r = "[]", simplified])

lemma psm_connect_ok:
  assumes "\<And>i. i \<in> set xs \<Longrightarrow> i \<noteq> rank \<Longrightarrow> kvs (lc_pm_key i sid) = psm_ep_name (epid i) (heap i) (key i)"
  shows "\<exists>reps'. psm_connect dv sid rank kvs xs reps = Inr reps' \<and> (\<forall>i. reps' i =
    (if i \<in> set xs \<and> i \<noteq> rank then Some \<lparr>rp_handle = ep_connect dv (epid i), rp_rank = word_of_nat i, rp_base = heap i, rp_rkey = key i\<rparr>
     else reps i))"
  using assms
proof (induction xs arbitrary: reps)
  case (Cons i xs)
  show ?case
  proof (cases "i = rank")
    case True
    then show ?thesis using Cons.IH [of reps] Cons.prems by auto
  next
    case False
    then have "kvs (lc_pm_key i sid) = psm_ep_name (epid i) (heap i) (key i)" using Cons.prems by simp
    moreover let ?r = "reps(i \<mapsto> \<lparr>rp_handle = ep_connect dv (epid i), rp_rank = word_of_nat i, rp_base = heap i, rp_rkey = key i\<rparr>)"
    have "\<And>j. j \<in> set xs \<Longrightarrow> j \<noteq> rank \<Longrightarrow> kvs (lc_pm_key j sid) = psm_ep_name (epid j) (heap j) (key j)"
      using Cons.prems by simp
    from Cons.IH [OF this, of ?r] obtain reps' where r: "psm_connect dv sid rank kvs xs ?r = Inr reps'"
      "\<forall>j. reps' j = (if j \<in> set xs \<and> j \<noteq> rank then Some \<lparr>rp_handle = ep_connect dv (epid j), rp_rank = word_of_nat j, rp_base = heap j, rp_rkey = key j\<rparr>
        else ?r j)"
      by blast
    ultimately have "psm_connect dv sid rank kvs (i # xs) reps = Inr reps'"
      using False by (simp add: psm_name_scan del: fun_upd_apply)
    moreover have "reps' j = (if j \<in> set (i # xs) \<and> j \<noteq> rank then Some \<lparr>rp_handle = ep_connect dv (epid j), rp_rank = word_of_nat j, rp_base = heap j, rp_rkey = key j\<rparr>
        else reps j)" for j using r(2) [rule_format, of j] False by auto
    ultimately show ?thesis by blast
  qed
qed simp

text \<open>Every process knows the endpoint, the heap and the key its peers have published.\<close>

lemma psm_init_connects:
  assumes "\<And>i. i < lcg_size e \<Longrightarrow> i \<noteq> rank \<Longrightarrow> kvs (lc_pm_key i sid) = psm_ep_name (epid i) (heap i) (rkey i)"
  shows "\<exists>s reps. psm_init e dv sid rank kvs key b =
      Inr (s, (lc_pm_key rank sid, psm_ep_name (dv_epid dv) (dv_heap dv) (key AND 0x0fffffff)), reps)
    \<and> ps_heap s = dv_heap dv \<and> ps_heap_rkey s = key AND 0x0fffffff \<and> ps_posted s = 0 \<and> ps_me s = word_of_nat rank
    \<and> (\<forall>i < lcg_size e. i \<noteq> rank \<longrightarrow>
        reps i = Some \<lparr>rp_handle = ep_connect dv (epid i), rp_rank = word_of_nat i, rp_base = heap i, rp_rkey = rkey i\<rparr>)"
  using psm_connect_ok [of "[0..<lcg_size e]" rank kvs sid epid heap rkey dv Map.empty] assms
  by (auto simp: psm_init_def Let_def lc_server_get_free_key_def)

end
