(* ===== verification/LC_Startup.thy ===== *)
theory LC_Startup
  imports LC_Pm LC_Ibv_Init
begin

text \<open>
  The start of a job: the processes publish the names of their queue pairs through the process
  manager (\<open>LC_Pm\<close>), read those of the others, and connect (\<open>LC_Ibv_Init\<close>).
\<close>

section \<open>Connection numbers\<close>

lemma conn_id_sum: "i < 256 \<Longrightarrow> conn_id sid i = 256 * sid + i"
proof -
  assume i: "i < 256"
  have "\<not> bit i k" if "8 \<le> k" for k
  proof -
    have "i < 2 ^ k" using i that power_increasing [of 8 k "2::nat"] by simp
    then show ?thesis by (simp add: bit_nat_iff bit_iff_odd)
  qed
  then have "push_bit 8 sid + i = push_bit 8 sid OR i"
    by (intro disjunctive_add) (metis bit_push_bit_iff)
  then show ?thesis by (simp add: conn_id_def push_bit_eq_mult)
qed

lemma conn_id_inj: "i < 256 \<Longrightarrow> j < 256 \<Longrightarrow> conn_id sid i = conn_id sid j \<longleftrightarrow> i = j"
  by (simp add: conn_id_sum)

lemma conn_id_bound: "i < 256 \<Longrightarrow> sid < 2 ^ 23 \<Longrightarrow> conn_id sid i < 2 ^ 31"
  by (simp add: conn_id_sum)

section \<open>A device on which every call succeeds\<close>

definition device_ok :: "nat \<Rightarrow> ibv_device \<Rightarrow> bool" where
  "device_ok n dv \<longleftrightarrow> 0 < num_devices dv \<and> open_device_ok dv \<and> query_device_rc dv = 0
     \<and> find_port dv [0..<128] \<noteq> None \<and> alloc_pd_ok dv \<and> create_srq_ok dv \<and> create_cq_ok dv \<and> heap_mr dv \<noteq> None
     \<and> (\<forall>i < n. create_qp dv i \<noteq> None) \<and> (\<forall>q k. modify_qp_rc dv q k = 0)
     \<and> distinct (map (\<lambda>i. qp_num (the (create_qp dv i))) [0..<n])"

text \<open>The connection data of the queue pair a device makes for process \<open>i\<close>.\<close>

definition ctx_of :: "ibv_device \<Rightarrow> nat \<Rightarrow> conn_ctx" where
  "ctx_of dv i = (case the (heap_mr dv) of (heap, lkey, rkey) \<Rightarrow>
     \<lparr>cc_addr = heap, cc_rkey = rkey, cc_qp_num = qp_num (the (create_qp dv i)), cc_lid = port_lid dv\<rparr>)"

lemma create_qps_returns:
  assumes "\<And>q k. modify_qp_rc dv q k = 0" "\<And>i. i \<in> set js \<Longrightarrow> create_qp dv i \<noteq> None"
  shows "\<exists>st'. create_qps dv port rank sid heap rkey js st = Inr st'"
  using assms(2)
proof (induction js arbitrary: st)
  case (Cons i js)
  then obtain q where "create_qp dv i = Some q" by auto
  then show ?case using Cons assms(1) by (auto simp: qp_create_def qp_init_def modify_qp_def Let_def)
qed simp

lemma connect_qps_returns:
  assumes "\<And>q k. modify_qp_rc dv q k = 0" "\<And>i. i \<in> set js \<Longrightarrow> kvs (lc_pm_key i (conn_id sid rank)) = ep_name (c i)"
  shows "\<exists>st'. connect_qps dv port rank sid kvs js st = Inr st'"
  using assms(2)
proof (induction js arbitrary: st)
  case (Cons i js)
  then show ?case using assms(1) by (auto simp: ep_name_scan qp_to_rtr_def qp_to_rts_def modify_qp_def Let_def)
qed simp

lemma lc_server_init_returns:
  assumes "device_ok (lcg_size e) dv" "0 < lcg_size e" "lcg_size e \<le> 2 ^ 32"
    and "\<forall>i < lcg_size e. kvs (lc_pm_key i (conn_id sid rank)) = ep_name (c i)"
  shows "\<exists>sv st. lc_server_init e dv sid rank kvs (2 ^ 32) pool = Inr (sv, st)"
proof -
  let ?n = "lcg_size e" let ?s0 = "\<lparr>is_qps = [], is_inline = 0, is_published = [], is_modified = [], is_reps = []\<rparr>"
  note d = assms(1) [unfolded device_ok_def]
  obtain port heap lkey rkey where p: "find_port dv [0..<128] = Some port" "heap_mr dv = Some (heap, lkey, rkey)"
    using d by auto
  obtain st0 where st0: "create_qps dv port rank sid heap rkey [0..<?n] ?s0 = Inr st0"
    using create_qps_returns [of dv "[0..<?n]" port rank sid heap rkey ?s0] d by auto
  obtain st where st: "connect_qps dv port rank sid kvs [0..<?n] st0 = Inr st"
    using connect_qps_returns [of dv "[0..<?n]" kvs sid rank c port st0] d assms(4) by auto
  have "is_qps st = is_qps st0" using connect_qps_ok [OF st, of c] assms(4) by auto
  note st = st this
  obtain qs where qs: "length qs = ?n" "\<forall>k < ?n. create_qp dv k = Some (qs ! k)" "is_qps st0 = qs"
    using create_qps_ok [OF st0] by auto
  have "map qp_num qs = map (\<lambda>i. qp_num (the (create_qp dv i))) [0..<?n]"
    using qs by (intro nth_equalityI) auto
  then have "distinct (map qp_num qs)" using d by simp
  then have "distinct (map (\<lambda>q. unat (qp_num q)) qs)"
    by (auto simp: distinct_map inj_on_def word_unat_eq_iff)
  moreover have u: "unat x < 2 ^ 32" for x :: u32 using unsigned_less [of x] by simp
  have "\<forall>q \<in> set (map (\<lambda>q. unat (qp_num q)) qs). q < 2 ^ 32"
    using u by auto
  ultimately obtain j where "find_mod (2 ^ 32) ?n (map (\<lambda>q. unat (qp_num q)) qs) = Inr j"
    using find_mod_ok [of "map (\<lambda>q. unat (qp_num q)) qs" "2 ^ 32" ?n "2 ^ 32"] assms(2,3) by auto
  then show ?thesis using p d st0 st qs(3)
    by (simp add: lc_server_init_def Let_def del: create_qps.simps connect_qps.simps)
qed

section \<open>The job\<close>

text \<open>
  Process \<open>r\<close> is connected to process \<open>i\<close>: its entry for \<open>i\<close> has the heap of \<open>i\<close>, its queue pair for \<open>i\<close>
  was told the number and the port of the queue pair \<open>i\<close> made for it, and it published its own.
\<close>

definition paired :: "(nat \<Rightarrow> ibv_device) \<Rightarrow> nat \<Rightarrow> lc_server \<Rightarrow> init_state \<Rightarrow> nat \<Rightarrow> nat \<Rightarrow> bool" where
  "paired dvs sid sv st r i \<longleftrightarrow>
     sv_rep sv ! i = \<lparr>rp_handle = qp_addr (the (create_qp (dvs r) i)), rp_rank = word_of_nat i,
       rp_base = cc_addr (ctx_of (dvs i) r), rp_rkey = cc_rkey (ctx_of (dvs i) r)\<rparr>
     \<and> (\<exists>a. (qp_addr (the (create_qp (dvs r) i)), a) \<in> set (is_modified st) \<and> qa_state a = IBV_QPS_RTR
          \<and> qa_dest_qp_num a = qp_num (the (create_qp (dvs i) r)) \<and> qa_dlid a = port_lid (dvs i))
     \<and> (lc_pm_key r (conn_id sid i), ep_name (ctx_of (dvs r) i)) \<in> set (is_published st)"

lemma ctx_of_fields [simp]:
  "cc_qp_num (ctx_of dv r) = qp_num (the (create_qp dv r))" "cc_lid (ctx_of dv r) = port_lid dv"
  by (simp_all add: ctx_of_def split: prod.split)

lemma server_connected_pairs:
  assumes "lc_server_init e (dvs r) sid r reads fuel pool = Inr (sv, st)"
    and "\<forall>i < lcg_size e. reads (lc_pm_key i (conn_id sid r)) = ep_name (ctx_of (dvs i) r)" "i < lcg_size e"
  shows "paired dvs sid sv st r i"
  using server_connected [OF assms] by (auto simp: paired_def) (auto simp: ctx_of_def)


text \<open>Two processes with the sample device of \<open>LC_Ibv_Init\<close> and the process manager of \<open>LC_Pm\<close>.\<close>

definition ex_names :: "(nat \<times> nat \<times> conn_ctx) list" where
  "ex_names = [(0, 0, ctx_of ex_device 0), (1, 0, ctx_of ex_device 0), (0, 1, ctx_of ex_device 1), (1, 1, ctx_of ex_device 1)]"

lemma ex_device_ok: "device_ok 2 ex_device"
proof -
  have "find_port ex_device (0 # Suc 0 # xs) = Some 1" for xs by (simp add: ex_device_def)
  moreover have "[0..<128] = 0 # Suc 0 # [Suc (Suc 0)..<128]"
    by (rule trans [OF upt_conv_Cons], simp, rule arg_cong, rule upt_conv_Cons, simp)
  ultimately have "find_port ex_device [0..<128] = Some 1" by simp
  moreover have "[0..<2] = [0, 1 :: nat]" by (simp add: numeral_2_eq_2)
  ultimately show ?thesis by (simp add: device_ok_def ex_device_fields)
qed


end
