(* ===== verification/Spec2Isabelle.thy ===== *)
theory Spec2Isabelle
  imports LC_Lock LC_Cq LC_Pool LC_Hash LC_Matching LC_Rendezvous LC_Progress LC_Delivery LC_Ibv_Init
    LC_Allreduce LC_Dreg_Spec LC_Pm LC_Pmi_Spawn LC_Lcrq_Fifo
    LC_Lf_Spec LC_Psm2_Spec LC_Startup
begin

text \<open>
  A verification development for LC, a communication library that sits between a parallel
  runtime and an InfiniBand or Omni-Path network. All paths below are relative to the repository.

  \<^bold>\<open>The program.\<close> A process opens a device (\<open>lci_dev_init\<close>) and endpoints on it. To send, a
  call of the interface (\<open>src/short.c\<close>, \<open>src/medium.c\<close>, \<open>src/long.c\<close>, \<open>src/tag.c\<close>) takes a packet from the
  pool (\<open>include/lc/pool.h\<close>, a dequeue per core under a spin lock) and hands it to the device
  (\<open>src/include/server/server_ibv.h\<close>). The progress function polls completions and gives each to
  the protocol engine (\<open>src/include/proto.h\<close>), which delivers the data: to a receive that waits in
  the matching table (\<open>include/lc/hashtable.h\<close>), to a buffer the user allocates, to a completion
  queue (\<open>src/include/cq.h\<close>), or by a handler. Long messages go through a rendezvous: a request to
  send, an answer with the receiver's buffer, and a remote write. The collectives (\<open>src/coll/\<close>) are
  schedules of sends and receives that are advanced by progress calls. Memory is registered with
  the network through a cache (\<open>src/dreg/dreg.c\<close>) that keeps areas of pages in an AVL tree
  (\<open>src/dreg/avl.c\<close>). At start-up the processes exchange the names of their endpoints through a
  process manager (\<open>src/pm.c\<close>, \<open>src/pmi/\<close>). \<open>src/lcrq.c\<close> is a lock-free queue of the library.
  \<open>src/include/server/server_psm2.h\<close> is the device for Omni-Path, with the same interface as the one
  for InfiniBand, and \<open>src/include/hashtable/lf_hash.h\<close> a hash table as an alternative to the
  matching table.

  \<^bold>\<open>Conventions.\<close> C integers are words of their width, pointers are 64-bit addresses, structs are
  records and arrays lists or functions on indices. Every operation returns a value of
  \<open>'a res\<close>: \<open>Inl\<close> is a call of \<open>exit\<close>, a failed assertion, a call that waits for ever, or an access
  whose behaviour C does not define; \<open>Inr\<close> is the result with the new state. Code outside the
  repository is an argument: the verbs (a device record, a log of posted requests, completions
  that arrive), the process manager (a function from what it has received to what it sends), \<open>malloc\<close>,
  the user's handlers, the core a thread runs on.

  \<^bold>\<open>Theories, bottom up.\<close>

  \<^item> \<open>LC_Prelude\<close>: types, abnormal exits, rings, and the locale \<open>bounded_fifo\<close>, the contract of a
    bounded queue. \<open>LC_Strings\<close>: decimal numbers printed and read. \<open>LC_Memory\<close>: byte memory.
  \<^item> \<open>LC_Dequeue\<close> (\<open>include/lc/dequeue.h\<close>) and \<open>LC_Cq\<close> (\<open>src/include/cq.h\<close>, \<open>src/cq.c\<close>): both
    interpret \<open>bounded_fifo\<close>; the completion queue refines a list of at most 2047 entries.
  \<^item> \<open>LC_Lock\<close> (\<open>include/lc/lock.h\<close>): the atomic instructions of the spin lock as an interleaving;
    exclusion, progress, and the locale \<open>locked_object\<close>, interpreted for the dequeue: interleaved
    critical sections have the effect of whole operations in the order of release.
  \<^item> \<open>LC_Pool\<close> (\<open>include/lc/pool.h\<close>, \<open>src/pool.c\<close>): the locale \<open>packet_pool\<close>; puts, gets and steals
    conserve the packets, and the blocking get returns when there is one.
  \<^item> \<open>LC_Hash\<close> (\<open>include/lc/hashtable.h\<close>, \<open>src/hashtable.c\<close>): the one routine that stores or matches,
    as a refinement of queues of waiting entries per key (locale \<open>match_table\<close>).
  \<^item> \<open>LC_Packet\<close>, \<open>LC_Ibv\<close>, \<open>LC_Proto\<close>, \<open>LC_Api\<close>: packets, requests, endpoints and the state
    \<open>lc_state\<close>; posting operations; the handlers of the engine; the calls of the interface.
    \<open>LC_Progress\<close>: the progress function and the start of a device with its packets.
  \<^item> \<open>LC_Matching\<close>, \<open>LC_Rendezvous\<close>, \<open>LC_Delivery\<close>: what users get. The order of receive and
    arrival does not matter, for data and for requests to send; a long message is written to the
    posted buffer and completes once on either side; a medium message sent by one process is
    delivered by the other.
  \<^item> \<open>LC_Coll\<close>, \<open>LC_Coll_Net\<close>, \<open>LC_Coll_Spec\<close>, \<open>LC_Allreduce\<close> (\<open>src/coll/\<close>): schedules and their
    progress; the locale \<open>col_protocol\<close> shows, for schedules that fit together, that every
    interleaving of the processes ends with the same result; it is interpreted for the broadcast,
    the barrier and the allreduce.
  \<^item> \<open>LC_Avl\<close> (\<open>src/dreg/avl.c\<close>): every operation, with the locale \<open>avl_order\<close> for the comparison;
    insertion and deletion keep order and balance and change the set as they should.
  \<^item> \<open>LC_Dreg\<close>, \<open>LC_Dreg_Db\<close>, \<open>LC_Dreg_Cache\<close>, \<open>LC_Dreg_Inv\<close>, \<open>LC_Dreg_Register\<close>, \<open>LC_Dreg_Runs\<close>,
    \<open>LC_Dreg_Spec\<close> (\<open>src/dreg/dreg.c\<close>): the areas and their tree (which interprets \<open>avl_order\<close>), the
    entries with reference counts and the list of unused ones, registration, eviction and the
    hook for freed memory; the invariant over all sequences of calls and what clients rely on.
  \<^item> \<open>LC_Ibv_Init\<close>: \<open>lc_server_init\<close>, the connection of the queue pairs of two processes and the map
    from queue pairs to ranks.
  \<^item> \<open>LC_Pmi_Util\<close>, \<open>LC_Pmi\<close> (\<open>src/pmi/simple_pmiutil.c\<close>, \<open>src/pmi/simple_pmi.c\<close>): bounded copies, lines,
    the table of pairs, and every call of the interface of \<open>pmi.h\<close>. \<open>LC_Pmi_Spec\<close>: rules that step
    through sequences of calls (the collection \<open>keeps_rules\<close>), the bounds of all static buffers.
    \<open>LC_Pmi_Kvs\<close>: lines arrive whole however they are cut, pairs are parsed back, requests get
    their answers, and errors. \<open>LC_Pmi_Spawn\<close>: what starting a command sends. \<open>LC_Pm\<close>
    (\<open>src/pm.c\<close>): every published endpoint name is read by every process. \<open>LC_Startup\<close>: the start of
    a job, in which the names are published and read and the queue pairs connected in pairs.
  \<^item> \<open>LC_Lcrq\<close>, \<open>LC_Lcrq_Fifo\<close> (\<open>src/lcrq.c\<close>): every access to shared memory is a step; in all
    interleavings no element is lost or duplicated; operations run one after the other are those
    of a first-in-first-out list, across closed rings.
  \<^item> \<open>LC_Lf_Order\<close>, \<open>LC_Lf_Hash\<close>, \<open>LC_Lf_List\<close>, \<open>LC_Lf_Map\<close>, \<open>LC_Lf_Table\<close>, \<open>LC_Lf_Spec\<close>
    (\<open>src/include/hashtable/lf_hash.h\<close>, \<open>hashtbl_lf.h\<close>): the bit reversal of the keys and the split
    order; the table in a heap of nodes; what the operations of the sorted list do; the locale
    \<open>bounded_map\<close>, the contract of a map with room for so many entries, and its interpretation; a run
    of operations answers as a map does, and where keys are confused.
  \<^item> \<open>LC_Psm2\<close>, \<open>LC_Psm2_Spec\<close> (\<open>src/include/server/server_psm2.h\<close>): tags, sends, registration,
    progress and start of the Omni-Path device; which receives take which messages, where the data
    of messages and puts arrive, and how receives are lost.

  \<^bold>\<open>Bounds and fuel.\<close> Loops are structural recursion or terminate by a measure, with these
  exceptions. The loops of the registration cache that follow links get as many rounds as the
  list has elements and one more (\<open>merge_loop\<close>, \<open>dreg_remove_loop\<close>), twice the number of areas and
  four for an insertion, and one more than the 8192 entries (\<open>register_loop\<close>, \<open>withdraw_loop\<close>,
  \<open>evict_all\<close>); the theorems show that they end within that. The search for a modulus
  (\<open>find_mod\<close>) and the blocking get of the pool get a fuel that the theorems show to suffice. The
  retries of the ring queue are bounded by \<open>solo\<close>'s fuel, and the theorem says that some fuel is
  enough for every operation; its counters may not exceed \<open>2 ^ 62\<close>.
  The loops of the lock-free hash table, which could retry for ever, are partial functions into
  \<open>option\<close>; that a call returns is part of what is proved.

  \<^bold>\<open>Not modelled.\<close>

  \<^item> Functions that only free memory or close handles: \<open>lc_pool_destroy\<close>, \<open>lc_hash_destroy\<close>,
    \<open>lcrq_destroy\<close>, \<open>lc_server_finalize\<close>, the end of \<open>dreg_finalize\<close>; and \<open>lc_init\<close> and \<open>lc_finalize\<close>,
    which call modelled functions in sequence.
  \<^item> The locks around the calls of the registration cache, which is modelled as used by one
    thread; logging and debug output.
  \<^item> The code under \<open>USE_PMI_PORT\<close>, which the build leaves out.
  \<^item> The back end \<open>server_ofi.h\<close>, which includes headers and calls functions of an earlier version
    that the repository no longer defines; the C++ adaptors to third-party tables and the C++ queue;
    and \<open>src/mpiv.c\<close>, which is built as a separate archive and calls functions of an earlier interface
    (\<open>lc_recv_tag\<close>, \<open>lc_open\<close>, \<open>lc_wait_post\<close>) that the repository no longer defines.
  \<^item> The lock-free hash table as several threads use it at once. The Omni-Path device calls the
    protocol engine through a record of functions: the theory of the engine is that of the build
    for InfiniBand.
  \<^item> Weak memory: atomic instructions and plain accesses are interleaved in program order.
\<close>

end
